(* ===== verification/Prelude.thy ===== *)
theory Prelude
  imports Main "HOL-Library.Word" "HOL-Library.While_Combinator"
begin

text \<open>
  Shared foundations of the development.

  \<^item> the machine integer types of the C sources;
  \<^item> \<open>outcome\<close>, the possible results of running kernel code: a value, a kernel panic (which
    never returns), a processor fault, or divergence (a loop that never exits);
  \<^item> state-passing programs over outcomes, with sequencing, early exit and the C loop forms, and
    their weakest preconditions for total correctness;
  \<^item> generic facts on lists, naturals and words used by several components.
\<close>

unbundle bit_operations_syntax

section \<open>Machine integers\<close>

type_synonym u8 = "8 word"
type_synonym u16 = "16 word"
type_synonym u32 = "32 word"
type_synonym u64 = "64 word"

named_theorems wp_simps \<open>weakest preconditions of the basic commands\<close>
named_theorems wp_intros \<open>weakest precondition rules with a side condition\<close>
named_theorems frame_simps \<open>what an operation leaves unchanged\<close>

section \<open>Outcomes and programs\<close>

datatype 'a outcome = Ok 'a | Panic string | Fault string | Diverge

type_synonym ('s, 'a) prog = "'s \<Rightarrow> ('a \<times> 's) outcome"

definition return :: "'a \<Rightarrow> ('s, 'a) prog" where
  "return x = (\<lambda>s. Ok (x, s))"

definition bind :: "('s, 'a) prog \<Rightarrow> ('a \<Rightarrow> ('s, 'b) prog) \<Rightarrow> ('s, 'b) prog" where
  "bind f g = (\<lambda>s. case f s of
       Ok (x, s') \<Rightarrow> g x s'
     | Panic msg \<Rightarrow> Panic msg
     | Fault msg \<Rightarrow> Fault msg
     | Diverge \<Rightarrow> Diverge)"

definition gets :: "('s \<Rightarrow> 'a) \<Rightarrow> ('s, 'a) prog" where
  "gets f = (\<lambda>s. Ok (f s, s))"

definition modify :: "('s \<Rightarrow> 's) \<Rightarrow> ('s, unit) prog" where
  "modify f = (\<lambda>s. Ok ((), f s))"

definition fault :: "string \<Rightarrow> ('s, 'a) prog" where
  "fault msg = (\<lambda>s. Fault msg)"

definition spin_forever :: "('s, 'a) prog" where
  "spin_forever = (\<lambda>s. Diverge)"

lemma bind_return [simp]: "bind (return x) f = f x"
  by (simp add: bind_def return_def)

lemma bind_gets [simp]: "bind (gets h) g s = g (h s) s"
  by (simp add: bind_def gets_def)

lemma bind_modify [simp]: "bind (modify h) g s = g () (h s)"
  by (simp add: bind_def modify_def)

lemma run_basic:
  "return x s = Ok (x, s)" "gets h s = Ok (h s, s)" "modify f s = Ok ((), f s)"
  "fault msg s = Fault msg"
  by (simp_all add: return_def gets_def modify_def fault_def)

lemma bind_assoc: "bind (bind f g) h = bind f (\<lambda>x. bind (g x) h)"
  by (auto simp: bind_def fun_eq_iff split: outcome.splits prod.splits)

lemma bind_Ok: "f s = Ok (x, s') \<Longrightarrow> bind f g s = g x s'"
  by (simp add: bind_def)

lemma bind_Panic: "f s = Panic msg \<Longrightarrow> bind f g s = Panic msg"
  by (simp add: bind_def)

lemma bind_Fault: "f s = Fault msg \<Longrightarrow> bind f g s = Fault msg"
  by (simp add: bind_def)

lemma bind_Diverge: "f s = Diverge \<Longrightarrow> bind f g s = Diverge"
  by (simp add: bind_def)

lemma bind_eq_Ok_iff:
  "bind f g s = Ok (y, t) \<longleftrightarrow> (\<exists>x u. f s = Ok (x, u) \<and> g x u = Ok (y, t))"
  by (auto simp: bind_def split: outcome.splits prod.splits)

lemma bind_eq_OkE:
  assumes "bind f g s = Ok r"
  obtains x u where "f s = Ok (x, u)" and "g x u = Ok r"
  using assms by (cases r) (auto simp: bind_eq_Ok_iff)

section \<open>Total correctness\<close>

text \<open>\<open>wp f Q s\<close>: run from \<open>s\<close>, the program returns, and its value and final state satisfy
  \<open>Q\<close>; a panic, a fault or divergence does not satisfy any \<open>Q\<close>.\<close>

definition wp :: "('s, 'a) prog \<Rightarrow> ('a \<Rightarrow> 's \<Rightarrow> bool) \<Rightarrow> 's \<Rightarrow> bool" where
  "wp f Q s \<longleftrightarrow> (case f s of Ok (x, s') \<Rightarrow> Q x s' | _ \<Rightarrow> False)"

lemma wp_return [simp, wp_simps]: "wp (return x) Q s \<longleftrightarrow> Q x s"
  by (simp add: wp_def return_def)

lemma wp_bind [simp, wp_simps]: "wp (bind f g) Q s \<longleftrightarrow> wp f (\<lambda>x. wp (g x) Q) s"
  by (auto simp: wp_def bind_def split: outcome.splits prod.splits)

lemma wp_gets [simp, wp_simps]: "wp (gets h) Q s \<longleftrightarrow> Q (h s) s"
  by (simp add: wp_def gets_def)

lemma wp_modify [simp, wp_simps]: "wp (modify h) Q s \<longleftrightarrow> Q () (h s)"
  by (simp add: wp_def modify_def)

lemma wp_fault [simp, wp_simps]: "\<not> wp (fault msg) Q s"
  by (simp add: wp_def fault_def)

lemma wp_if [wp_simps]: "wp (if b then f else g) Q s \<longleftrightarrow> (if b then wp f Q s else wp g Q s)"
  by simp

lemma wp_OkI: "f s = Ok (x, s') \<Longrightarrow> Q x s' \<Longrightarrow> wp f Q s"
  by (simp add: wp_def)

lemma wp_OkE:
  assumes "wp f Q s"
  obtains x s' where "f s = Ok (x, s')" and "Q x s'"
  using assms by (auto simp: wp_def split: outcome.splits)

lemma wp_Ok_iff: "wp f Q s \<longleftrightarrow> (\<exists>x s'. f s = Ok (x, s') \<and> Q x s')"
  by (auto simp: wp_def split: outcome.splits)

lemma wp_mono: "wp f Q s \<Longrightarrow> (\<And>x t. Q x t \<Longrightarrow> R x t) \<Longrightarrow> wp f R s"
  by (auto simp: wp_def split: outcome.splits)

lemma wp_conj: "wp f Q s \<Longrightarrow> wp f R s \<Longrightarrow> wp f (\<lambda>x t. Q x t \<and> R x t) s"
  by (auto simp: wp_def split: outcome.splits)

section \<open>Loops\<close>

text \<open>\<open>whileM b c l\<close> is the C loop \<open>while (b) c\<close> whose locals start as \<open>l\<close>. A body
  that panics or faults ends it; a loop that never exits is \<open>Diverge\<close>.\<close>

definition loop_test :: "('l \<Rightarrow> 's \<Rightarrow> bool) \<Rightarrow> ('l \<times> 's) outcome \<Rightarrow> bool" where
  "loop_test b r = (case r of Ok (l, s) \<Rightarrow> b l s | _ \<Rightarrow> False)"

definition loop_step :: "('l \<Rightarrow> ('s, 'l) prog) \<Rightarrow> ('l \<times> 's) outcome \<Rightarrow> ('l \<times> 's) outcome" where
  "loop_step c r = (case r of Ok (l, s) \<Rightarrow> c l s | _ \<Rightarrow> r)"

definition whileM :: "('l \<Rightarrow> 's \<Rightarrow> bool) \<Rightarrow> ('l \<Rightarrow> ('s, 'l) prog) \<Rightarrow> 'l \<Rightarrow> ('s, 'l) prog" where
  "whileM b c l = (\<lambda>s. case while_option (loop_test b) (loop_step c) (Ok (l, s)) of
       None \<Rightarrow> Diverge
     | Some r \<Rightarrow> r)"

lemma while_option_not_Ok:
  "\<not> loop_test b r \<Longrightarrow> while_option (loop_test b) (loop_step c) r = Some r"
  by (subst while_option_unfold) simp

lemma whileM_unfold:
  "whileM b c l s = (if b l s then bind (c l) (whileM b c) s else Ok (l, s))"
proof (cases "b l s")
  case True
  have "whileM b c l s = (case while_option (loop_test b) (loop_step c) (c l s) of
       None \<Rightarrow> Diverge | Some r \<Rightarrow> r)"
    using True by (simp add: whileM_def while_option_unfold [of _ _ "Ok (l, s)"]
        loop_test_def loop_step_def)
  also have "\<dots> = bind (c l) (whileM b c) s"
    by (auto simp: bind_def whileM_def while_option_not_Ok loop_test_def
        split: outcome.splits prod.splits)
  finally show ?thesis using True by simp
next
  case False
  then show ?thesis by (simp add: whileM_def while_option_not_Ok loop_test_def)
qed

text \<open>The rule of total correctness: an invariant and a measure.\<close>

lemma wp_whileM:
  assumes step: "\<And>l s. I l s \<Longrightarrow> b l s \<Longrightarrow> wp (c l) (\<lambda>l' s'. I l' s' \<and> (M l' s' :: nat) < M l s) s"
    and init: "I l s"
    and post: "\<And>l s. I l s \<Longrightarrow> \<not> b l s \<Longrightarrow> Q l s"
  shows "wp (whileM b c l) Q s"
  using init
proof (induction "M l s" arbitrary: l s rule: less_induct)
  case less
  show ?case
  proof (cases "b l s")
    case True
    from step [OF less.prems True] obtain l' s' where
      c: "c l s = Ok (l', s')" and I: "I l' s'" and M: "M l' s' < M l s"
      by (rule wp_OkE) auto
    have "whileM b c l s = whileM b c l' s'"
      using True c by (subst whileM_unfold) (simp add: bind_Ok)
    moreover have "wp (whileM b c l') Q s'"
      using less.hyps [OF M I] .
    ultimately show ?thesis by (simp add: wp_def)
  next
    case False
    then have "whileM b c l s = Ok (l, s)" by (subst whileM_unfold) simp
    with post [OF less.prems False] show ?thesis by (simp add: wp_def)
  qed
qed

text \<open>What a loop that returns keeps.\<close>

lemma whileM_Ok_inv:
  assumes run: "whileM b c l s = Ok (l', t)" and init: "I l s"
    and step: "\<And>l s l' s'. I l s \<Longrightarrow> b l s \<Longrightarrow> c l s = Ok (l', s') \<Longrightarrow> I l' s'"
  shows "I l' t"
proof -
  let ?J = "\<lambda>r. \<forall>l s. r = Ok (l, s) \<longrightarrow> I l s"
  obtain r where r: "while_option (loop_test b) (loop_step c) (Ok (l, s)) = Some r" "r = Ok (l', t)"
    using run by (auto simp: whileM_def split: option.splits)
  have "?J r"
  proof (rule while_option_rule [OF _ r(1)])
    show "?J (Ok (l, s))" using init by simp
    show "?J (loop_step c q)" if "?J q" "loop_test b q" for q
      using that step by (auto simp: loop_step_def loop_test_def split: outcome.splits)
  qed
  then show ?thesis using r(2) by simp
qed

primrec foreach :: "('x \<Rightarrow> ('s, unit) prog) \<Rightarrow> 'x list \<Rightarrow> ('s, unit) prog" where
  "foreach body [] = return ()"
| "foreach body (x # xs) = bind (body x) (\<lambda>_. foreach body xs)"

lemma wp_foreach:
  assumes step: "\<And>ys x zs s. xs = ys @ x # zs \<Longrightarrow> I ys s \<Longrightarrow> wp (body x) (\<lambda>_. I (ys @ [x])) s"
    and init: "I [] s"
  shows "wp (foreach body xs) (\<lambda>_. I xs) s"
proof -
  have "xs = ys @ zs \<Longrightarrow> I ys s \<Longrightarrow> wp (foreach body zs) (\<lambda>_. I xs) s" for ys zs s
  proof (induction zs arbitrary: ys s)
    case Nil
    then show ?case by simp
  next
    case (Cons x zs)
    have "wp (body x) (\<lambda>_. I (ys @ [x])) s" using step Cons.prems by blast
    then show ?case using Cons.IH [of "ys @ [x]"] Cons.prems by (auto elim!: wp_mono)
  qed
  then show ?thesis using init by (metis append_Nil)
qed

lemma foreach_fold:
  assumes "\<And>x s. x \<in> set xs \<Longrightarrow> body x s = Ok ((), f x s)"
  shows "foreach body xs s = Ok ((), fold f xs s)"
  using assms by (induction xs arbitrary: s) (auto simp: return_def bind_def)

lemma foreach_append:
  "foreach body (xs @ ys) = bind (foreach body xs) (\<lambda>_. foreach body ys)"
  by (induction xs) (simp_all add: bind_assoc)

lemma foreach_cong:
  "(\<And>x. x \<in> set xs \<Longrightarrow> f x = g x) \<Longrightarrow> foreach f xs = foreach g xs"
  by (induction xs) auto

text \<open>A loop over a list with a local variable.\<close>

primrec foldM :: "('x \<Rightarrow> 'l \<Rightarrow> ('s, 'l) prog) \<Rightarrow> 'x list \<Rightarrow> 'l \<Rightarrow> ('s, 'l) prog" where
  "foldM body [] l = return l"
| "foldM body (x # xs) l = bind (body x l) (foldM body xs)"

lemma unat_u64_less: "unat (w :: u64) < 18446744073709551616"
  using unsigned_less [of w, where ?'a = nat] by simp

text \<open>The counting loops \<open>for (i = lo; i < hi; i++)\<close> and
  \<open>for (i = lo; i < hi; i += st)\<close> on 64-bit counters, which wrap.\<close>

definition for_step :: "u64 \<Rightarrow> u64 \<Rightarrow> u64 \<Rightarrow> (u64 \<Rightarrow> ('s, unit) prog) \<Rightarrow> ('s, unit) prog" where
  "for_step lo hi st body =
     bind (whileM (\<lambda>i s. i < hi) (\<lambda>i. bind (body i) (\<lambda>_. return (i + st))) lo) (\<lambda>_. return ())"

definition for_range :: "u64 \<Rightarrow> u64 \<Rightarrow> (u64 \<Rightarrow> ('s, unit) prog) \<Rightarrow> ('s, unit) prog" where
  "for_range lo hi body = for_step lo hi 1 body"

definition step_count :: "nat \<Rightarrow> nat \<Rightarrow> nat" where
  "step_count n st = (n + (st - 1)) div st"

lemma for_step_unfold:
  "for_step lo hi st body =
     (if lo < hi then bind (body lo) (\<lambda>_. for_step (lo + st) hi st body) else return ())"
proof
  fix s
  show "for_step lo hi st body s =
     (if lo < hi then bind (body lo) (\<lambda>_. for_step (lo + st) hi st body) else return ()) s"
    by (auto simp: for_step_def bind_def return_def whileM_unfold [of _ _ lo]
        split: outcome.splits prod.splits)
qed

lemma step_count_step:
  "0 < st \<Longrightarrow> 0 < n \<Longrightarrow> step_count n st = Suc (step_count (n - st) st)"
proof (cases "n \<le> st")
  case True
  assume "0 < st" "0 < n"
  with True show ?thesis
    by (auto simp: step_count_def div_nat_eqI)
next
  case False
  assume "0 < st" "0 < n"
  have "n + (st - 1) = (n - st + (st - 1)) + st" using False by simp
  then show ?thesis using \<open>0 < st\<close>
    unfolding step_count_def by (metis add_Suc_right add.right_neutral div_add_self2 less_not_refl One_nat_def)
qed

lemma for_step_foreach:
  assumes "0 < unat st" and "unat hi + unat st \<le> 2 ^ 64"
  shows "for_step lo hi st body =
    foreach body (map (\<lambda>k. lo + of_nat k * st) [0..<step_count (unat hi - unat lo) (unat st)])"
proof (induction "unat hi - unat lo" arbitrary: lo rule: less_induct)
  case less
  show ?case
  proof (cases "lo < hi")
    case True
    have lt: "unat lo < unat hi" using True by (simp add: word_less_nat_alt)
    have nw: "unat (lo + st) = unat lo + unat st"
      using lt assms by (intro unat_add_lem [THEN iffD1]) simp
    have IH: "for_step (lo + st) hi st body =
        foreach body (map (\<lambda>k. lo + st + of_nat k * st)
          [0..<step_count (unat hi - unat (lo + st)) (unat st)])"
      by (rule less) (use nw lt assms in simp)
    have "step_count (unat hi - unat lo) (unat st) =
        Suc (step_count (unat hi - unat (lo + st)) (unat st))"
      using lt assms nw by (simp add: step_count_step)
    then have "map (\<lambda>k. lo + of_nat k * st) [0..<step_count (unat hi - unat lo) (unat st)] =
        lo # map (\<lambda>k. lo + st + of_nat k * st)
          [0..<step_count (unat hi - unat (lo + st)) (unat st)]"
      by (simp add: upt_conv_Cons map_Suc_upt [symmetric] del: upt_Suc)
         (simp add: algebra_simps)
    then show ?thesis
      by (subst for_step_unfold) (simp add: True IH)
  next
    case False
    then have "unat hi - unat lo = 0" by (simp add: word_less_nat_alt)
    moreover have "step_count 0 (unat st) = 0" using assms by (simp add: step_count_def)
    ultimately show ?thesis using False by (subst for_step_unfold) simp
  qed
qed

lemma for_range_foreach:
  "for_range lo hi body = foreach body (map of_nat [unat lo..<unat hi])"
proof -
  have bound: "unat hi + unat (1 :: u64) \<le> 2 ^ 64"
    using unat_u64_less [of hi] by simp
  have "map (\<lambda>k. lo + of_nat k * 1) [0..<unat hi - unat lo] = map of_nat [unat lo..<unat hi]"
    by (rule nth_equalityI) simp_all
  then show ?thesis
    unfolding for_range_def
    using for_step_foreach [OF _ bound, of lo body] by (simp add: step_count_def)
qed

end
