(* ===== verification/Memory.thy ===== *)
theory Memory
  imports Prelude
begin

text \<open>
  The byte-addressed memory the kernel's pointers reach: little-endian loads and stores of the C
  integer widths, the byte loops of \<open>kernel/src/lib/std-memory.asm\<close>, and what a store leaves
  unchanged. A memory is a total function of 64-bit virtual addresses, and address arithmetic
  wraps, as pointer arithmetic on the machine does.
\<close>

type_synonym memory = "u64 \<Rightarrow> u8"

lemma unat_of_nat_u64: "n < 2 ^ 64 \<Longrightarrow> unat (of_nat n :: u64) = n"
  by (simp add: unsigned_of_nat take_bit_nat_eq_self)

section \<open>Regions\<close>

text \<open>The \<open>n\<close> bytes from \<open>base\<close>, possibly wrapping around the top of memory.\<close>

definition in_region :: "u64 \<Rightarrow> nat \<Rightarrow> u64 \<Rightarrow> bool" where
  "in_region base n x \<longleftrightarrow> unat (x - base) < n"

definition disjoint_regions :: "u64 \<Rightarrow> nat \<Rightarrow> u64 \<Rightarrow> nat \<Rightarrow> bool" where
  "disjoint_regions a n b k \<longleftrightarrow> n \<le> unat (b - a) \<and> k \<le> unat (a - b)"

lemma in_region_offset:
  assumes "i < n" and "n \<le> 2 ^ 64"
  shows "in_region base n (base + of_nat i)"
  using assms by (simp add: in_region_def unsigned_of_nat take_bit_nat_eq_self)

lemma in_region_word_offset:
  "unat k < n \<Longrightarrow> in_region base n (base + k)"
  by (simp add: in_region_def)

lemma disjoint_regions_sym: "disjoint_regions a n b k \<longleftrightarrow> disjoint_regions b k a n"
  by (auto simp: disjoint_regions_def)

lemma unat_diff_add_le:
  fixes x y z :: u64
  assumes "unat (x - y) + unat (y - z) < 2 ^ 64"
  shows "unat (x - z) = unat (x - y) + unat (y - z)"
proof -
  have "x - z = (x - y) + (y - z)" by simp
  also have "unat \<dots> = unat (x - y) + unat (y - z)"
    using assms by (intro unat_add_lem [THEN iffD1]) simp
  finally show ?thesis .
qed

lemma unat_neg_diff:
  fixes a b :: u64
  assumes "a \<noteq> b"
  shows "unat (a - b) + unat (b - a) = 2 ^ 64"
  using assms unat_u64_less [of a] unat_u64_less [of b] 
  by (auto simp: unat_sub_if' word_unat_eq_iff)

lemma disjoint_regions_excl:
  assumes "disjoint_regions a n b k" and "in_region a n x" and "in_region b k x"
  shows False
proof (cases "a = b")
  case True
  then show ?thesis using assms by (simp add: disjoint_regions_def in_region_def)
next
  case False
  let ?d = "unat (b - a)" and ?e = "unat (a - b)"
  have sum: "?e + ?d = 2 ^ 64" by (rule unat_neg_diff [OF False])
  have xa: "unat (x - a) < ?d" and xb: "unat (x - b) < ?e"
    using assms by (auto simp: disjoint_regions_def in_region_def)
  have "unat (x - b) = unat (x - a) + ?e"
    by (rule unat_diff_add_le) (use xa sum in simp)
  with xb show ?thesis by simp
qed

section \<open>Little-endian loads and stores\<close>

fun load_le :: "nat \<Rightarrow> memory \<Rightarrow> u64 \<Rightarrow> 'a::len word" where
  "load_le 0 m a = 0"
| "load_le (Suc n) m a = ucast (m a) OR push_bit 8 (load_le n m (a + 1))"

definition store_le :: "nat \<Rightarrow> memory \<Rightarrow> u64 \<Rightarrow> 'a::len word \<Rightarrow> memory" where
  "store_le n m a v =
     (\<lambda>x. if unat (x - a) < n then ucast (drop_bit (8 * unat (x - a)) v) else m x)"

abbreviation load16 :: "memory \<Rightarrow> u64 \<Rightarrow> u16" where "load16 \<equiv> load_le 2"
abbreviation load32 :: "memory \<Rightarrow> u64 \<Rightarrow> u32" where "load32 \<equiv> load_le 4"
abbreviation load64 :: "memory \<Rightarrow> u64 \<Rightarrow> u64" where "load64 \<equiv> load_le 8"
abbreviation store64 :: "memory \<Rightarrow> u64 \<Rightarrow> u64 \<Rightarrow> memory" where "store64 \<equiv> store_le 8"

lemma bit_load_le:
  "bit (load_le n m a :: 'a::len word) k \<longleftrightarrow>
     k < LENGTH('a) \<and> k < 8 * n \<and> bit (m (a + of_nat (k div 8))) (k mod 8)"
proof (induction n arbitrary: a k)
  case 0
  show ?case by (simp only: load_le.simps bit_0_eq mult_0_right not_less_zero bot_fun_def bot_bool_def simp_thms)
next
  case (Suc n)
  show ?case
  proof (cases "k < 8")
    case True
    then show ?thesis by (simp add: bit_simps)
  next
    case False
    then obtain j where k: "k = j + 8" using le_Suc_ex [of 8 k] by (metis add.commute not_less)
    have nb: "\<not> bit (ucast (m a) :: 'a word) k"
      using False bit_imp_le_length [of "m a" k] by (auto simp: bit_simps)
    have "bit (load_le (Suc n) m a :: 'a word) k \<longleftrightarrow> k < LENGTH('a) \<and> bit (load_le n m (a + 1) :: 'a word) j"
      using nb by (simp add: bit_or_iff bit_push_bit_iff k)  
    also have "\<dots> \<longleftrightarrow> k < LENGTH('a) \<and> j < 8 * n \<and> bit (m (a + 1 + of_nat (j div 8))) (j mod 8)"
      unfolding Suc.IH by (auto simp: k)
    also have "a + 1 + of_nat (j div 8) = a + of_nat (k div 8)"
      by (simp add: k div_add_self2)
    also have "j mod 8 = k mod 8" by (simp add: k)
    finally show ?thesis by (simp add: k)
  qed
qed

lemma load_le_cong:
  assumes "\<And>i. i < n \<Longrightarrow> m (a + of_nat i) = m' (a + of_nat i)"
  shows "load_le n m a = (load_le n m' a :: 'a::len word)"
proof (rule bit_word_eqI)
  fix k
  show "bit (load_le n m a :: 'a word) k = bit (load_le n m' a :: 'a word) k"
  proof (cases "k div 8 < n")
    case True
    then show ?thesis by (simp add: bit_load_le assms)
  next
    case False
    then show ?thesis by (auto simp: bit_load_le)
  qed
qed

lemma load_le_cong_region:
  assumes "\<And>x. in_region a n x \<Longrightarrow> m x = m' x" and "n \<le> 2 ^ 64"
  shows "load_le n m a = load_le n m' a"
  using assms by (intro load_le_cong) (simp add: in_region_offset)

lemma load_store_same:
  assumes "LENGTH('a) = 8 * n" and "n \<le> 2 ^ 64"
  shows "load_le n (store_le n m a (v :: 'a::len word)) a = v"
proof (rule bit_word_eqI)
  fix k assume k: "k < LENGTH('a)"
  then have kn: "k div 8 < n" using assms by simp
  then have u: "unat (of_nat (k div 8) :: u64) = k div 8"
    using assms by (simp add: unsigned_of_nat take_bit_nat_eq_self)
  show "bit (load_le n (store_le n m a v) a :: 'a word) k \<longleftrightarrow> bit v k"
    using k kn assms u by (simp add: bit_load_le store_le_def bit_simps)
qed

lemma store_le_outside:
  "\<not> in_region a n x \<Longrightarrow> store_le n m a v x = m x"
  by (simp add: store_le_def in_region_def)

lemma load_store_disjoint:
  assumes "disjoint_regions a n b k" and "k \<le> 2 ^ 64"
  shows "load_le k (store_le n m a v) b = load_le k m b"
proof (rule load_le_cong_region [OF _ assms(2)])
  fix x assume "in_region b k x"
  then have "\<not> in_region a n x" using disjoint_regions_excl [OF assms(1)] by blast
  then show "store_le n m a v x = m x" by (rule store_le_outside)
qed

lemma load64_store64_same [simp]: "load64 (store64 m a v) a = v"
  by (rule load_store_same) simp_all

text \<open>\<open>n\<close> copies of the same 64-bit word, from \<open>a\<close> upward.\<close>

definition fill64 :: "memory \<Rightarrow> u64 \<Rightarrow> nat \<Rightarrow> u64 \<Rightarrow> memory" where
  "fill64 m a n v =
     (\<lambda>x. if in_region a (8 * n) x then ucast (drop_bit (8 * (unat (x - a) mod 8)) v) else m x)"

lemma fill64_0 [simp]: "fill64 m a 0 v = m"
  by (simp add: fill64_def in_region_def)

lemma fill64_outside: "\<not> in_region a (8 * n) x \<Longrightarrow> fill64 m a n v x = m x"
  by (simp add: fill64_def)

lemma fill64_zero: "fill64 m a n 0 x = (if in_region a (8 * n) x then 0 else m x)"
  by (simp add: fill64_def)

lemma fill64_Suc:
  assumes "8 * Suc n \<le> 2 ^ 64"
  shows "store64 (fill64 m a n v) (a + of_nat (8 * n)) v = fill64 m a (Suc n) v"
proof
  fix x
  have u: "unat (of_nat (8 * n) :: u64) = 8 * n"
    by (rule unat_of_nat_u64) (use assms in simp)
  let ?d = "unat (x - a)" and ?e = "unat (x - (a + of_nat (8 * n)))"
  have sub: "x - (a + of_nat (8 * n)) = (x - a) - of_nat (8 * n)" by simp
  show "store64 (fill64 m a n v) (a + of_nat (8 * n)) v x = fill64 m a (Suc n) v x"
  proof (cases "8 * n \<le> ?d")
    case True
    then have e: "?e = ?d - 8 * n"
      unfolding sub using u by (subst unat_sub) (simp_all add: word_le_nat_alt)
    have "?d mod 8 = (?d - 8 * n) mod 8"
      using True by (metis le_add_diff_inverse mod_mult_self4)
    moreover have "?d - 8 * n < 8 \<Longrightarrow> (?d - 8 * n) mod 8 = ?d - 8 * n" by simp
    ultimately show ?thesis
      using True e by (auto simp: store_le_def fill64_def in_region_def)
  next
    case False
    then have "?e = 2 ^ 64 + ?d - 8 * n"
      unfolding sub using u by (subst unat_sub_if') simp
    then show ?thesis
      using False assms by (simp add: store_le_def fill64_def in_region_def)
  qed
qed

section \<open>Parts of regions\<close>

lemma in_region_sub:
  assumes "in_region (base + off) n x" and "unat off + n \<le> k" and "k \<le> 2 ^ 64"
  shows "in_region base k x"
proof -
  have eq: "x - base = (x - (base + off)) + off" by simp
  have "unat (x - (base + off)) + unat off < 2 ^ 64"
    using assms by (simp add: in_region_def)
  then have "unat (x - base) = unat (x - (base + off)) + unat off"
    unfolding eq by (intro unat_add_lem [THEN iffD1]) simp
  then show ?thesis using assms by (simp add: in_region_def)
qed

text \<open>Room for \<open>cap\<close> slots of \<open>ts\<close> bytes from \<open>base\<close>.\<close>

lemma slot_in_room:
  assumes "k < cap" and "cap * ts < 2 ^ 64" and "in_region (base + of_nat (k * ts)) ts x"
  shows "in_region base (cap * ts) x"
proof (rule in_region_sub [OF assms(3)])
  have "k * ts + ts \<le> cap * ts" using assms(1) by (metis Suc_leI add.commute mult_Suc mult_le_mono1)
  moreover from this have "unat (of_nat (k * ts) :: u64) = k * ts"
    using assms(2) by (intro unat_of_nat_u64) simp
  ultimately show "unat (of_nat (k * ts) :: u64) + ts \<le> cap * ts" by simp
qed (use assms(2) in simp)

lemma slots_apart:
  assumes "j < k" and "k < cap" and "cap * ts < 2 ^ 64"
    and "in_region (base + of_nat (j * ts)) ts x"
  shows "\<not> in_region (base + of_nat (k * ts)) ts x"
proof
  assume r: "in_region (base + of_nat (k * ts)) ts x"
  have le: "j * ts + ts \<le> k * ts" "k * ts + ts \<le> cap * ts"
    using assms(1,2) by (metis Suc_leI add.commute mult_Suc mult_le_mono1)+
  have u: "unat (x - base) = unat (x - (base + of_nat (i * ts))) + i * ts"
    if "i * ts + ts \<le> cap * ts" "in_region (base + of_nat (i * ts)) ts x" for i
  proof -
    have eq: "x - base = (x - (base + of_nat (i * ts))) + of_nat (i * ts)" by simp
    have "unat (of_nat (i * ts) :: u64) = i * ts" using that assms(3) by (intro unat_of_nat_u64) simp
    then show ?thesis unfolding eq using that assms(3)
      by (subst unat_add_lem [THEN iffD1]) (simp_all add: in_region_def)
  qed
  show False using u [of j] u [of k] le r assms(4) by (simp add: in_region_def)
qed

section \<open>Arrays of words\<close>

text \<open>The \<open>n\<close> 64-bit words from \<open>a\<close> upward, and the effect of a store into one of them.\<close>

definition word_array :: "memory \<Rightarrow> u64 \<Rightarrow> nat \<Rightarrow> u64 list" where
  "word_array m a n = map (\<lambda>i. load64 m (a + of_nat i * 8)) [0..<n]"

lemma length_word_array [simp]: "length (word_array m a n) = n"
  by (simp add: word_array_def)

lemma nth_word_array [simp]: "i < n \<Longrightarrow> word_array m a n ! i = load64 m (a + of_nat i * 8)"
  by (simp add: word_array_def)

lemma disjoint_words:
  assumes "i \<noteq> j" and "8 * Suc i \<le> 2 ^ 64" and "8 * Suc j \<le> 2 ^ 64"
  shows "disjoint_regions (a + of_nat i * 8) 8 (a + of_nat j * 8) 8"
proof -
  have u: "unat (of_nat (k * 8) :: u64) = k * 8" if "8 * Suc k \<le> 2 ^ 64" for k
    using that by (intro unat_of_nat_u64) simp
  have far: "8 \<le> unat (of_nat (p * 8) - of_nat (q * 8) :: u64)"
    if "p \<noteq> q" "8 * Suc p \<le> 2 ^ 64" "8 * Suc q \<le> 2 ^ 64" for p q
    using that by (simp only: unat_sub_if' u) (auto simp: nat_neq_iff)
  have "a + of_nat p * 8 - (a + of_nat q * 8) = (of_nat (p * 8) - of_nat (q * 8) :: u64)" for p q
    by simp
  then show ?thesis using far [of i j] far [of j i] assms
    by (simp add: disjoint_regions_def)
qed

lemma word_array_store:
  assumes "i < n" and "8 * n \<le> 2 ^ 64"
  shows "word_array (store64 m (a + of_nat i * 8) v) a n = (word_array m a n)[i := v]"
proof (rule nth_equalityI)
  fix j assume "j < length (word_array (store64 m (a + of_nat i * 8) v) a n)"
  then have j: "j < n" by simp
  show "word_array (store64 m (a + of_nat i * 8) v) a n ! j = (word_array m a n)[i := v] ! j"
    using assms j disjoint_words [of i j a]
    by (cases "i = j") (simp_all add: load_store_disjoint)
qed simp

lemma word_array_cong:
  assumes "\<And>x. in_region a (8 * n) x \<Longrightarrow> m x = m' x" and "8 * n \<le> 2 ^ 64"
  shows "word_array m a n = word_array m' a n"
proof (rule nth_equalityI)
  fix i assume "i < length (word_array m a n)"
  then have i: "i < n" by simp
  have "in_region a (8 * n) x" if "in_region (a + of_nat i * 8) 8 x" for x
  proof -
    have eq: "x - a = (x - (a + of_nat i * 8)) + of_nat (i * 8)" by simp
    have "unat (of_nat (i * 8) :: u64) = i * 8" using i assms(2) by (intro unat_of_nat_u64) simp
    then have "unat (x - a) = unat (x - (a + of_nat i * 8)) + i * 8"
      unfolding eq using that i assms(2)
      by (subst unat_add_lem [THEN iffD1]) (simp_all add: in_region_def)
    then show ?thesis using that i by (simp add: in_region_def)
  qed
  then show "word_array m a n ! i = word_array m' a n ! i"
    using i assms(1) by (auto intro!: load_le_cong_region)
qed simp

lemma load_le_move:
  assumes "\<And>i. i < n \<Longrightarrow> m' (a' + of_nat i) = m (a + of_nat i)"
  shows "load_le n m' a' = (load_le n m a :: 'a::len word)"
proof (rule bit_word_eqI)
  fix k
  show "bit (load_le n m' a' :: 'a word) k = bit (load_le n m a :: 'a word) k"
  proof (cases "k div 8 < n")
    case True
    show ?thesis unfolding bit_load_le assms [OF True] ..
  next
    case False
    then have "\<not> k < 8 * n" by simp
    then show ?thesis unfolding bit_load_le by blast
  qed
qed

lemma word_array_move:
  assumes "\<And>i. i < 8 * n \<Longrightarrow> m' (a' + of_nat i) = m (a + of_nat i)"
  shows "word_array m' a' n = word_array m a n"
proof (rule nth_equalityI)
  fix i assume "i < length (word_array m' a' n)"
  then have i: "i < n" by simp
  have "m' (a' + of_nat i * 8 + of_nat j) = m (a + of_nat i * 8 + of_nat j)" if "j < 8" for j
    using assms [of "i * 8 + j"] i that by (simp add: add.assoc)
  then have "load64 m' (a' + of_nat i * 8) = load64 m (a + of_nat i * 8)"
    by (rule load_le_move)
  then show "word_array m' a' n ! i = word_array m a n ! i"
    using i by simp
qed simp

lemma store64_outside_array:
  assumes "i < n" and "8 * n \<le> 2 ^ 64" and "\<not> in_region a (8 * n) x"
  shows "store64 m (a + of_nat i * 8) v x = m x"
proof (rule store_le_outside, rule notI)
  assume r: "in_region (a + of_nat i * 8) 8 x"
  have eq: "x - a = (x - (a + of_nat i * 8)) + of_nat (i * 8)" by simp
  have "unat (of_nat (i * 8) :: u64) = i * 8" using assms(1,2) by (intro unat_of_nat_u64) simp
  then have "unat (x - a) = unat (x - (a + of_nat i * 8)) + i * 8"
    unfolding eq using r assms(1,2)
    by (subst unat_add_lem [THEN iffD1]) (simp_all add: in_region_def)
  then show False using r assms(1,3) by (simp add: in_region_def)
qed

section \<open>The byte loops of std-memory.asm\<close>

text \<open>\<open>rep stosb\<close>: \<open>n\<close> copies of the low byte of \<open>c\<close> from \<open>a\<close> upward.\<close>

fun memset_bytes :: "memory \<Rightarrow> u64 \<Rightarrow> u8 \<Rightarrow> nat \<Rightarrow> memory" where
  "memset_bytes m a c 0 = m"
| "memset_bytes m a c (Suc n) = memset_bytes (m(a := c)) (a + 1) c n"

text \<open>\<open>rep movsb\<close> with the direction flag clear: \<open>n\<close> bytes, lowest address first.\<close>

fun copy_forward :: "memory \<Rightarrow> u64 \<Rightarrow> u64 \<Rightarrow> nat \<Rightarrow> memory" where
  "copy_forward m d s 0 = m"
| "copy_forward m d s (Suc n) = copy_forward (m(d := m s)) (d + 1) (s + 1) n"

text \<open>\<open>rep movsb\<close> with the direction flag set: \<open>n\<close> bytes, from the given addresses downward.\<close>

fun copy_backward :: "memory \<Rightarrow> u64 \<Rightarrow> u64 \<Rightarrow> nat \<Rightarrow> memory" where
  "copy_backward m d s 0 = m"
| "copy_backward m d s (Suc n) = copy_backward (m(d := m s)) (d - 1) (s - 1) n"

definition memcpy_mem :: "memory \<Rightarrow> u64 \<Rightarrow> u64 \<Rightarrow> u64 \<Rightarrow> memory" where
  "memcpy_mem m dest src n = copy_forward m dest src (unat n)"

definition memset_mem :: "memory \<Rightarrow> u64 \<Rightarrow> u32 \<Rightarrow> u64 \<Rightarrow> memory" where
  "memset_mem m s c n = memset_bytes m s (ucast c) (unat n)"

definition memmove_mem :: "memory \<Rightarrow> u64 \<Rightarrow> u64 \<Rightarrow> u64 \<Rightarrow> memory" where
  "memmove_mem m dest src n =
     (if src < dest then copy_backward m (dest + n - 1) (src + n - 1) (unat n)
      else copy_forward m dest src (unat n))"

lemma in_region_Suc:
  "in_region a (Suc n) x \<longleftrightarrow> x = a \<or> in_region (a + 1) n x"
proof (cases "x = a")
  case True
  then show ?thesis by (simp add: in_region_def)
next
  case False
  have "x - a = (x - (a + 1)) + 1" by simp
  moreover have "x - a \<noteq> 0" using False by simp
  ultimately have "unat (x - a) = Suc (unat (x - (a + 1)))"
    by (metis add.commute unatSuc)
  then show ?thesis using False by (simp add: in_region_def)
qed

lemma memset_bytes_eq:
  assumes "n \<le> 2 ^ 64"
  shows "memset_bytes m a c n = (\<lambda>x. if in_region a n x then c else m x)"
  using assms
proof (induction n arbitrary: m a)
  case 0
  then show ?case by (simp add: in_region_def)
next
  case (Suc n)
  show ?case using Suc by (auto simp: fun_eq_iff in_region_Suc)
qed

text \<open>An upward copy is right when no byte is overwritten before it is read.\<close>

lemma copy_forward_eq:
  assumes "d = s \<or> n \<le> unat (d - s)" and "n \<le> 2 ^ 64"
  shows "copy_forward m d s n = (\<lambda>x. if in_region d n x then m (s + (x - d)) else m x)"
  using assms
proof (induction n arbitrary: m d s)
  case 0
  then show ?case by (simp add: in_region_def)
next
  case (Suc n)
  let ?m = "m(d := m s)"
  have IH: "copy_forward ?m (d + 1) (s + 1) n =
      (\<lambda>x. if in_region (d + 1) n x then ?m (s + 1 + (x - (d + 1))) else ?m x)"
    by (rule Suc.IH) (use Suc.prems in auto)
  have "?m (s + (x - d)) = m (s + (x - d))" if "in_region d (Suc n) x" for x
  proof (cases "d = s")
    case False
    then have "Suc n \<le> unat (d - s)" using Suc.prems by simp
    then have "x - d \<noteq> d - s" using that by (auto simp: in_region_def)
    then have "s + (x - d) \<noteq> d" by (simp add: algebra_simps)
    then show ?thesis by simp
  qed auto
  then show ?case
    by (auto simp: IH fun_eq_iff in_region_Suc)
qed

text \<open>A downward copy from the last bytes is right when the regions do not overlap the other
  way round.\<close>

lemma in_region_Suc_top:
  assumes "Suc n \<le> 2 ^ 64"
  shows "in_region a (Suc n) x \<longleftrightarrow> x = a + of_nat n \<or> in_region a n x"
proof -
  have u: "unat (of_nat n :: u64) = n"
    using assms by (simp add: unsigned_of_nat take_bit_nat_eq_self)
  have "x = a + of_nat n \<longleftrightarrow> x - a = of_nat n"
    by (auto simp: diff_eq_eq add.commute)
  also have "\<dots> \<longleftrightarrow> unat (x - a) = n"
    using u by (simp add: word_unat_eq_iff)
  finally have "x = a + of_nat n \<longleftrightarrow> unat (x - a) = n" .
  then show ?thesis by (auto simp: in_region_def)
qed

lemma copy_backward_eq:
  assumes "d = s \<or> n \<le> unat (s - d)" and "n \<le> 2 ^ 64"
  shows "copy_backward m (d + of_nat n - 1) (s + of_nat n - 1) n =
    (\<lambda>x. if in_region d n x then m (s + (x - d)) else m x)"
  using assms
proof (induction n arbitrary: m)
  case 0
  then show ?case by (simp add: in_region_def)
next
  case (Suc n)
  let ?m = "m(d + of_nat n := m (s + of_nat n))"
  have IH: "copy_backward ?m (d + of_nat n - 1) (s + of_nat n - 1) n =
      (\<lambda>x. if in_region d n x then ?m (s + (x - d)) else ?m x)"
    by (rule Suc.IH) (use Suc.prems in auto)
  have u: "unat (of_nat n :: u64) = n"
    using Suc.prems by (simp add: unsigned_of_nat take_bit_nat_eq_self)
  have "?m (s + (x - d)) = m (s + (x - d))" if x: "in_region d n x" for x
  proof (cases "d = s")
    case False
    then have far: "Suc n \<le> unat (s - d)" using Suc.prems by simp
    have "s + (x - d) \<noteq> d + of_nat n"
    proof
      assume "s + (x - d) = d + of_nat n"
      then have eq: "(of_nat n :: u64) = (s - d) + (x - d)" by (simp add: algebra_simps)
      show False
      proof (cases "unat (s - d) + unat (x - d) < 2 ^ 64")
        case True
        then have "unat ((s - d) + (x - d)) = unat (s - d) + unat (x - d)"
          by (intro unat_add_lem [THEN iffD1]) simp
        with far show False using u unfolding eq by simp
      next
        case False
        have "unat ((s - d) + (x - d)) = unat (s - d) + unat (x - d) - 2 ^ 64"
          using False by (subst unat_plus_if') simp
        then show False using eq u x unat_u64_less [of "s - d"] by (simp add: in_region_def)
      qed
    qed
    then show ?thesis by simp
  qed (use x u in \<open>auto simp: in_region_def\<close>)
  moreover have "s + of_nat (Suc n) - 1 = s + of_nat n" "d + of_nat (Suc n) - 1 = d + of_nat n"
    by simp_all
  moreover have "\<not> in_region d n (d + of_nat n)" using u by (simp add: in_region_def)
  ultimately show ?case
    using Suc.prems by (auto simp: IH fun_eq_iff in_region_Suc_top algebra_simps)
qed

text \<open>The effect of \<open>memcpy\<close> on regions that do not overlap, and of \<open>memmove\<close> on any two
  regions that do not run past the top of memory.\<close>

lemma memcpy_mem_eq:
  assumes "dest = src \<or> unat n \<le> unat (dest - src)"
  shows "memcpy_mem m dest src n =
    (\<lambda>x. if in_region dest (unat n) x then m (src + (x - dest)) else m x)"
  unfolding memcpy_mem_def using assms unat_u64_less [of n]
  by (intro copy_forward_eq) auto

lemma memmove_mem_eq:
  assumes "unat dest + unat n \<le> 2 ^ 64" and "unat src + unat n \<le> 2 ^ 64"
  shows "memmove_mem m dest src n =
    (\<lambda>x. if in_region dest (unat n) x then m (src + (x - dest)) else m x)"
proof (cases "src < dest")
  case True
  then have lt: "unat src < unat dest" by (simp add: word_less_nat_alt)
  then have "unat (src - dest) = 2 ^ 64 + unat src - unat dest"
    by (simp add: unat_sub_if')
  then have "unat n \<le> unat (src - dest)" using assms lt by simp
  then have "copy_backward m (dest + of_nat (unat n) - 1) (src + of_nat (unat n) - 1) (unat n) =
      (\<lambda>x. if in_region dest (unat n) x then m (src + (x - dest)) else m x)"
    using unat_u64_less [of n] by (intro copy_backward_eq) auto
  then show ?thesis using True by (simp add: memmove_mem_def)
next
  case False
  then have "unat dest \<le> unat src" by (simp add: word_less_nat_alt)
  then have "dest = src \<or> unat n \<le> unat (dest - src)"
    using assms by (auto simp: unat_sub_if' word_unat_eq_iff)
  then show ?thesis using False unat_u64_less [of n]
    by (simp add: memmove_mem_def copy_forward_eq)
qed

lemma memset_mem_eq:
  "memset_mem m s c n = (\<lambda>x. if in_region s (unat n) x then ucast c else m x)"
  using unat_u64_less [of n] by (simp add: memset_mem_def memset_bytes_eq)

text \<open>\<open>repe cmpsb\<close>: compare bytes while they are equal. The results are the two pointers, one past
  the last byte compared, and the zero flag, which no byte compared leaves as it was.\<close>

fun repe_cmpsb :: "memory \<Rightarrow> u64 \<Rightarrow> u64 \<Rightarrow> nat \<Rightarrow> bool \<Rightarrow> u64 \<times> u64 \<times> bool" where
  "repe_cmpsb m d s 0 zf = (d, s, zf)"
| "repe_cmpsb m d s (Suc n) zf =
     (if m d = m s then repe_cmpsb m (d + 1) (s + 1) n True else (d + 1, s + 1, False))"

text \<open>\<open>memcmp\<close>, for a zero flag on entry; the value is the register \<open>rax\<close>, of which a caller
  sees the low half.\<close>

definition memcmp_mem :: "bool \<Rightarrow> memory \<Rightarrow> u64 \<Rightarrow> u64 \<Rightarrow> u64 \<Rightarrow> u64" where
  "memcmp_mem zf m s1 s2 n =
     (let (rdi, rsi, equal) = repe_cmpsb m s1 s2 (unat n) zf in
      if equal then 0 else scast (m (rdi - 1) - m (rsi - 1)))"

lemma repe_cmpsb_cases:
  "repe_cmpsb m d s n zf = (d', s', z) \<Longrightarrow>
     (z \<longleftrightarrow> (\<forall>i < n. m (d + of_nat i) = m (s + of_nat i)) \<and> (n = 0 \<longrightarrow> zf))
     \<and> (z \<or> n = 0 \<or> m (d' - 1) \<noteq> m (s' - 1))"
proof (induction n arbitrary: d s zf)
  case (Suc n)
  show ?case
  proof (cases "m d = m s")
    case True
    have shift: "(\<forall>i < Suc n. P i) \<longleftrightarrow> P 0 \<and> (\<forall>i < n. P (Suc i))" for P :: "nat \<Rightarrow> bool"
      using less_Suc_eq_0_disj by auto
    have "(\<forall>i < Suc n. m (d + of_nat i) = m (s + of_nat i)) \<longleftrightarrow>
        (\<forall>i < n. m (d + 1 + of_nat i) = m (s + 1 + of_nat i))"
      using True unfolding shift by (simp add: add.assoc)
    then show ?thesis
      using Suc.IH [of "d + 1" "s + 1" True] Suc.prems True by (cases n) auto
  next
    case False
    then show ?thesis using Suc.prems by (auto intro!: exI [of _ 0])
  qed
qed simp

lemma memcmp_mem_zero_iff:
  assumes "0 < unat n"
  shows "memcmp_mem zf m s1 s2 n = 0 \<longleftrightarrow>
    (\<forall>i < unat n. m (s1 + of_nat i) = m (s2 + of_nat i))"
proof -
  have inv: "ucast (scast w :: u64) = w" for w :: u8
    by (rule bit_word_eqI) (simp add: bit_simps)
  have "(scast w :: u64) = 0 \<Longrightarrow> w = 0" for w :: u8
    using inv [of w] by simp
  then have "(scast (a - b) :: u64) = 0 \<longleftrightarrow> a = b" for a b :: u8
    by fastforce
  then show ?thesis
    using repe_cmpsb_cases [of m s1 s2 "unat n" zf] assms
    by (auto simp: memcmp_mem_def split: prod.splits)
qed

end
