(* ===== verification/Kernel_State.thy ===== *)
theory Kernel_State
  imports Memory
begin

text \<open>
  The data of the kernel: what the bootloader hands over, the processor state the kernel touches
  directly, and the global variables of each source file, one record per file, each extending the
  one before it. The last record, \<open>kernel\<close>, is the state of the programs of this development.
  Data reached through pointers (the page bitmap, pages, page tables, slab cells, allocation
  headers, ACPI tables) lives in \<open>mem\<close>.
\<close>

section \<open>Bootloader data\<close>

text \<open>The memory map entry types of the boot protocol that the kernel names, and the rest.\<close>

datatype memmap_type =
    MEMMAP_USABLE
  | MEMMAP_RESERVED
  | MEMMAP_ACPI_RECLAIMABLE
  | MEMMAP_ACPI_NVS
  | MEMMAP_BAD_MEMORY
  | MEMMAP_BOOTLOADER_RECLAIMABLE
  | MEMMAP_EXECUTABLE_AND_MODULES
  | MEMMAP_FRAMEBUFFER
  | MEMMAP_UNKNOWN u64

record memmap_entry =
  me_base :: u64
  me_length :: u64
  me_type :: memmap_type

record exec_addr =
  physical_base :: u64
  virtual_base :: u64

text \<open>The processors the bootloader found; \<open>extra_argument\<close> is the field the kernel writes.\<close>

record mp_info =
  mp_lapic_id :: u32
  goto_address :: bool
  extra_argument :: u64

record mp_response =
  bsp_lapic_id :: u32
  mp_x2apic :: bool
  mp_cpus :: "mp_info list"

record boot_info =
  hhdm_response :: "u64 option"
  memmap_response :: "memmap_entry list option"
  exec_addr_response :: "exec_addr option"
  paging_5lvl_response :: "bool option"
  executable_file :: u64
  framebuffer_response :: "u64 list option"
  rsdp_response :: "u64 option"
  mp_boot_response :: "mp_response option"

section \<open>The processor\<close>

text \<open>What the kernel does to devices, in order: port and memory-mapped accesses (with their width in
  bytes), accesses to the local APIC's model-specific registers, and reads of the time stamp and
  random number instructions. The answer to a read is a function of the events so far.\<close>

datatype dev_event =
    PortOut nat u16 u32
  | PortIn nat u16
  | MmioWrite nat u64 u64
  | MmioRead nat u64
  | MsrWrite u32 u64
  | MsrRead u32
  | TscRead
  | RandRead
  | SeedRead

datatype print_arg = PInt u64 | PStr string

record cpu_state =
  mem :: memory
  int_flag :: bool
  cr0 :: u64
  cr2 :: u64
  cr3 :: u64
  cr4 :: u64
  xcr0 :: u64
  msr :: "u32 \<Rightarrow> u64"
  gdtr_limit :: u16
  gdtr_base :: u64
  idtr_limit :: u16
  idtr_base :: u64
  task_reg :: u16
  seg_cs :: u16
  seg_ds :: u16
  seg_es :: u16
  seg_ss :: u16
  seg_fs :: u16
  seg_gs :: u16
  dev_trace :: "dev_event list"
  device :: "dev_event list \<Rightarrow> u64"
  cpuid_leaf :: "u32 \<Rightarrow> u32 \<Rightarrow> u32 \<times> u32 \<times> u32 \<times> u32"
  klog :: "(string \<times> print_arg list) list"
  boot :: boot_info

section \<open>Globals of the kernel\<close>

text \<open>\<open>mm/generic.c\<close>\<close>

record mm_state = cpu_state +
  mm_init_done :: bool
  hhdm :: u64
  memmap :: "memmap_entry list"

text \<open>\<open>mm/pmm.c\<close>\<close>

record pmm_state = mm_state +
  pmm_lock :: bool
  pmm_bitmap :: u64
  pmm_avl_page_count :: u64
  pmm_init_done :: bool
  pmm_last_used_index :: u64

text \<open>\<open>mm/slab.c\<close>: the twelve slabs; \<open>slabs_addr\<close> is the link address of the array, from
  which the pointers stored in slab headers are formed.\<close>

record slab =
  lock :: bool
  first_free :: u64
  ent_size :: u64

record slab_state = pmm_state +
  slabs :: "slab list"
  slabs_addr :: u64

text \<open>\<open>mm/vmm.c\<close>\<close>

record vmm_pagemap =
  pm_spinlock :: bool
  top_level :: u64

record vmm_state = slab_state +
  kernel_pagemap :: vmm_pagemap
  vmm_la57 :: bool

text \<open>\<open>sys/gdt.c\<close>\<close>

record gdt_descriptor =
  g_limit :: u16
  g_base_low16 :: u16
  g_base_mid8 :: u8
  g_access :: u8
  g_granularity :: u8
  g_base_high8 :: u8

record gdt_state = vmm_state +
  gdt_lock :: bool
  gdt :: "gdt_descriptor list"
  gdt_addr :: u64

text \<open>\<open>sys/idt.c\<close>\<close>

record idt_descriptor =
  i_base_low16 :: u16
  i_selector :: u16
  i_ist :: u8
  i_flags :: u8
  i_base_mid16 :: u16
  i_base_high32 :: u32
  i_reserved :: u32

record idt_state = gdt_state +
  idt_lock :: bool
  idt :: "idt_descriptor list"
  idt_addr :: u64
  idt_free_vector :: u8

text \<open>\<open>sys/isr.c\<close> and \<open>proc/sched.c\<close>: the handlers a table slot can hold; \<open>isr_thunks\<close>
  are the addresses of the entry stubs of \<open>sys/isr.S\<close>.\<close>

datatype isr_handler =
    no_handler
  | isr_generic_exception_handler
  | isr_abort_handler
  | sched_isr

record isr_state = idt_state +
  isr_handler_table :: "isr_handler list"
  isr_thunks :: "u64 list"
  isr_abort_vector :: u8
  sched_vector :: u8

text \<open>\<open>sys/cpu.c\<close>, \<open>sys/lapic.c\<close>, \<open>sys/hpet.c\<close>, \<open>sys/mp.c\<close>: the routines that save the
  floating point state are named, not run.\<close>

datatype fpu_routine = fpu_none | xsave | xrstor | fxsave | fxrstor

record vec =
  vec_data :: u64
  vec_length :: u64
  vec_capacity :: u64

record machine_state = isr_state +
  x2apic_mode :: bool
  fpu_storage_size :: u64
  fpu_save :: fpu_routine
  fpu_restore :: fpu_routine
  cpu_locals :: vec
  lapic_base :: u64
  hpet :: u64
  hpet_frequency :: u64
  mp_init_done :: bool

text \<open>\<open>acpi/acpi.c\<close> and \<open>acpi/madt.c\<close>\<close>

record acpi_state = machine_state +
  rsdp :: u64
  rsdt :: u64
  madt_lapics :: vec
  madt_x2apics :: vec
  madt_io_apics :: vec
  madt_isos :: vec
  madt_nmis :: vec

text \<open>\<open>devices/fb/fb.c\<close>, \<open>devices/term/term.c\<close>, \<open>lib/panic.c\<close>, \<open>lib/printf.c\<close>. The registers in \<open>cpu_state\<close> are
  those of the processor that runs; \<open>processors\<close> holds the registers of the others as they last were, by their
  position in the bootloader's list. It is not a variable of the kernel.\<close>

datatype term_progress = TERM_INIT_NOT_DONE | TERM_INIT_DEBUG_DONE | TERM_INIT_NORMAL_DONE

record terminal =
  term_spinlock :: bool
  ft_ctx :: u64

record kernel = acpi_state +
  fb_init_done :: bool
  fb_count :: u64
  fbs :: "u64 list"
  term_init_done :: term_progress
  term_count :: u64
  terms :: "terminal list"
  panic_lock :: bool
  printf_lock :: bool
  processors :: "nat \<Rightarrow> cpu_state option"

type_synonym 'a kprog = "(kernel, 'a) prog"

section \<open>The loaded image\<close>

text \<open>The addresses the linker gave to objects whose address the code uses, and the globals as their
  initialisers (or the zeroed \<open>.bss\<close>) leave them, on a given processor state.\<close>

record link_info =
  slabs_link :: u64
  gdt_link :: u64
  idt_link :: u64
  thunk_links :: "u64 list"

definition zero_gdt :: gdt_descriptor where
  "zero_gdt = \<lparr>g_limit = 0, g_base_low16 = 0, g_base_mid8 = 0, g_access = 0, g_granularity = 0,
     g_base_high8 = 0\<rparr>"

definition zero_idt :: idt_descriptor where
  "zero_idt = \<lparr>i_base_low16 = 0, i_selector = 0, i_ist = 0, i_flags = 0, i_base_mid16 = 0,
     i_base_high32 = 0, i_reserved = 0\<rparr>"

definition empty_vec :: vec where
  "empty_vec = \<lparr>vec_data = 0, vec_length = 0, vec_capacity = 0\<rparr>"

definition kernel_image :: "cpu_state \<Rightarrow> link_info \<Rightarrow> kernel" where
  "kernel_image c l =
     \<lparr>mem = mem c, int_flag = int_flag c, cr0 = cr0 c, cr2 = cr2 c, cr3 = cr3 c, cr4 = cr4 c, xcr0 = xcr0 c,
      msr = msr c,
      gdtr_limit = gdtr_limit c, gdtr_base = gdtr_base c,
      idtr_limit = idtr_limit c, idtr_base = idtr_base c, task_reg = task_reg c,
      seg_cs = seg_cs c, seg_ds = seg_ds c, seg_es = seg_es c, seg_ss = seg_ss c,
      seg_fs = seg_fs c, seg_gs = seg_gs c,
      dev_trace = dev_trace c, device = device c, cpuid_leaf = cpuid_leaf c, klog = klog c, boot = boot c,
      mm_init_done = False, hhdm = 0, memmap = [],
      pmm_lock = False, pmm_bitmap = 0, pmm_avl_page_count = 0, pmm_init_done = False,
      pmm_last_used_index = 0,
      slabs = replicate 12 \<lparr>lock = False, first_free = 0, ent_size = 0\<rparr>, slabs_addr = slabs_link l,
      kernel_pagemap = \<lparr>pm_spinlock = False, top_level = 0\<rparr>, vmm_la57 = False,
      gdt_lock = False, gdt = replicate 7 zero_gdt, gdt_addr = gdt_link l,
      idt_lock = False, idt = replicate 256 zero_idt, idt_addr = idt_link l, idt_free_vector = 32,
      isr_handler_table = replicate 256 no_handler, isr_thunks = thunk_links l,
      isr_abort_vector = 0, sched_vector = 0,
      x2apic_mode = False, fpu_storage_size = 0, fpu_save = fpu_none, fpu_restore = fpu_none,
      cpu_locals = empty_vec, lapic_base = 0, hpet = 0, hpet_frequency = 0, mp_init_done = False,
      rsdp = 0, rsdt = 0, madt_lapics = empty_vec, madt_x2apics = empty_vec, madt_io_apics = empty_vec,
      madt_isos = empty_vec, madt_nmis = empty_vec,
      fb_init_done = False, fb_count = 0, fbs = replicate 16 0,
      term_init_done = TERM_INIT_NOT_DONE, term_count = 0,
      terms = replicate 16 \<lparr>term_spinlock = False, ft_ctx = 0\<rparr>,
      panic_lock = False, printf_lock = False, processors = (\<lambda>_. None)\<rparr>"

lemma kernel_image_simps [simp]:
  "mem (kernel_image c l) = mem c" "int_flag (kernel_image c l) = int_flag c"
  "boot (kernel_image c l) = boot c" "mm_init_done (kernel_image c l) = False"
  "hhdm (kernel_image c l) = 0" "pmm_lock (kernel_image c l) = False"
  "pmm_bitmap (kernel_image c l) = 0" "pmm_avl_page_count (kernel_image c l) = 0"
  "pmm_init_done (kernel_image c l) = False" "pmm_last_used_index (kernel_image c l) = 0"
  "slabs (kernel_image c l) = replicate 12 \<lparr>lock = False, first_free = 0, ent_size = 0\<rparr>"
  "slabs_addr (kernel_image c l) = slabs_link l"
  "kernel_pagemap (kernel_image c l) = \<lparr>pm_spinlock = False, top_level = 0\<rparr>"
  "vmm_la57 (kernel_image c l) = False" "gdt_lock (kernel_image c l) = False"
  "gdt (kernel_image c l) = replicate 7 zero_gdt" "gdt_addr (kernel_image c l) = gdt_link l"
  "idt_lock (kernel_image c l) = False" "idt (kernel_image c l) = replicate 256 zero_idt"
  "idt_addr (kernel_image c l) = idt_link l" "idt_free_vector (kernel_image c l) = 32"
  "isr_handler_table (kernel_image c l) = replicate 256 no_handler"
  "isr_thunks (kernel_image c l) = thunk_links l"
  "fb_init_done (kernel_image c l) = False" "fbs (kernel_image c l) = replicate 16 0"
  "dev_trace (kernel_image c l) = dev_trace c" "device (kernel_image c l) = device c"
  "msr (kernel_image c l) = msr c" "x2apic_mode (kernel_image c l) = False"
  "lapic_base (kernel_image c l) = 0" "term_init_done (kernel_image c l) = TERM_INIT_NOT_DONE"
  "term_count (kernel_image c l) = 0" "panic_lock (kernel_image c l) = False"
  "mp_init_done (kernel_image c l) = False"
  by (simp_all add: kernel_image_def)

text \<open>A machine to run concrete examples on: zeroed memory and registers, interrupts off, no boot
  protocol responses, every link address a multiple of 4096.\<close>

definition blank_cpu :: cpu_state where
  "blank_cpu =
     \<lparr>mem = (\<lambda>_. 0), int_flag = False, cr0 = 0, cr2 = 0, cr3 = 0, cr4 = 0, xcr0 = 0, msr = (\<lambda>_. 0),
      gdtr_limit = 0, gdtr_base = 0, idtr_limit = 0, idtr_base = 0, task_reg = 0,
      seg_cs = 0, seg_ds = 0, seg_es = 0, seg_ss = 0, seg_fs = 0, seg_gs = 0,
      dev_trace = [], device = (\<lambda>_. 0), cpuid_leaf = (\<lambda>_ _. (0, 0, 0, 0)), klog = [],
      boot = \<lparr>hhdm_response = None, memmap_response = None, exec_addr_response = None,
        paging_5lvl_response = None, executable_file = 0, framebuffer_response = None,
        rsdp_response = None, mp_boot_response = None\<rparr>\<rparr>"

definition blank_kernel :: kernel where
  "blank_kernel = kernel_image blank_cpu
     \<lparr>slabs_link = 0x1000, gdt_link = 0x2000, idt_link = 0x3000, thunk_links = replicate 256 0\<rparr>"

lemma blank_cpu_simps [simp]:
  "mem blank_cpu = (\<lambda>_. 0)" "int_flag blank_cpu = False"
  by (simp_all add: blank_cpu_def)

section \<open>Panics and kernel messages\<close>

text \<open>\<open>panic\<close> never returns: it is an outcome. \<open>printf\<close> is recorded, by format string
  (without its final newline) and arguments; the output itself, \<open>flush_log\<close> of \<open>Terminal\<close>, follows when the part of
  the initialisation that prints is done.\<close>

definition panic :: "string \<Rightarrow> 'a kprog" where
  "panic msg = (\<lambda>s. Panic msg)"

definition printf :: "string \<Rightarrow> print_arg list \<Rightarrow> unit kprog" where
  "printf fmt args = modify (\<lambda>s. s\<lparr>klog := klog s @ [(fmt, args)]\<rparr>)"

lemma wp_panic [simp, wp_simps]: "\<not> wp (panic msg) Q s"
  by (simp add: wp_def panic_def)

lemma wp_printf [simp, wp_simps]:
  "wp (printf fmt args) Q s \<longleftrightarrow> Q () (s\<lparr>klog := klog s @ [(fmt, args)]\<rparr>)"
  by (simp add: printf_def)

lemma bind_panic [simp]: "bind (panic msg) g s = Panic msg"
  by (simp add: bind_def panic_def)

lemma bind_printf [simp]:
  "bind (printf fmt args) g s = g () (s\<lparr>klog := klog s @ [(fmt, args)]\<rparr>)"
  by (simp add: printf_def)

section \<open>Memory access\<close>

definition read8 :: "u64 \<Rightarrow> u8 kprog" where
  "read8 a = gets (\<lambda>s. mem s a)"

definition read32 :: "u64 \<Rightarrow> u32 kprog" where
  "read32 a = gets (\<lambda>s. load32 (mem s) a)"

definition read64 :: "u64 \<Rightarrow> u64 kprog" where
  "read64 a = gets (\<lambda>s. load64 (mem s) a)"

definition write8 :: "u64 \<Rightarrow> u8 \<Rightarrow> unit kprog" where
  "write8 a v = modify (\<lambda>s. s\<lparr>mem := (mem s)(a := v)\<rparr>)"

definition write64 :: "u64 \<Rightarrow> u64 \<Rightarrow> unit kprog" where
  "write64 a v = modify (\<lambda>s. s\<lparr>mem := store64 (mem s) a v\<rparr>)"

definition memset :: "u64 \<Rightarrow> u32 \<Rightarrow> u64 \<Rightarrow> unit kprog" where
  "memset p c n = modify (\<lambda>s. s\<lparr>mem := memset_mem (mem s) p c n\<rparr>)"

definition memcpy :: "u64 \<Rightarrow> u64 \<Rightarrow> u64 \<Rightarrow> unit kprog" where
  "memcpy dest src n = modify (\<lambda>s. s\<lparr>mem := memcpy_mem (mem s) dest src n\<rparr>)"

lemmas access_defs = read8_def read32_def read64_def write8_def write64_def memset_def memcpy_def

end
