(* ===== verification/Lib_Misc.thy ===== *)
theory Lib_Misc
  imports Kernel_State
begin

text \<open>
  The macros and bitmap helpers of \<open>kernel/src/lib/misc.k.h\<close>. The arithmetic macros are the
  unsigned 64-bit instances the kernel uses and wrap; the bitmap helpers promote the byte to
  \<open>int\<close> and truncate it back, as C does.
\<close>

section \<open>Arithmetic macros\<close>

definition MIN_u64 :: "u64 \<Rightarrow> u64 \<Rightarrow> u64" where
  "MIN_u64 a b = (if a < b then a else b)"

definition MAX_u64 :: "u64 \<Rightarrow> u64 \<Rightarrow> u64" where
  "MAX_u64 a b = (if b < a then a else b)"

definition DIV_ROUNDUP :: "u64 \<Rightarrow> u64 \<Rightarrow> u64" where
  "DIV_ROUNDUP v d = (v + (d - 1)) div d"

definition ALIGN_UP :: "u64 \<Rightarrow> u64 \<Rightarrow> u64" where
  "ALIGN_UP v a = DIV_ROUNDUP v a * a"

definition ALIGN_DOWN :: "u64 \<Rightarrow> u64 \<Rightarrow> u64" where
  "ALIGN_DOWN v a = (v div a) * a"

abbreviation PAGE_SIZE :: u64 where "PAGE_SIZE \<equiv> 4096"

lemma unat_MIN_u64 [simp]: "unat (MIN_u64 a b) = min (unat a) (unat b)"
  by (auto simp: MIN_u64_def word_less_nat_alt)

lemma unat_MAX_u64 [simp]: "unat (MAX_u64 a b) = max (unat a) (unat b)"
  by (auto simp: MAX_u64_def word_less_nat_alt)

lemma unat_DIV_ROUNDUP:
  assumes "0 < unat d" and "unat v + (unat d - 1) < 2 ^ 64"
  shows "unat (DIV_ROUNDUP v d) = (unat v + (unat d - 1)) div unat d"
proof -
  have "unat (d - 1) = unat d - 1" using assms by (simp add: unat_minus_one unat_gt_0)
  then have "unat (v + (d - 1)) = unat v + (unat d - 1)"
    using assms by (subst unat_add_lem [THEN iffD1]) simp_all
  then show ?thesis by (simp add: DIV_ROUNDUP_def unat_div)
qed

lemma roundup_mult_bounds:
  fixes v d :: nat
  assumes "0 < d"
  shows "v \<le> (v + (d - 1)) div d * d" and "(v + (d - 1)) div d * d < v + d"
proof -
  have split: "v + (d - 1) = (v + (d - 1)) div d * d + (v + (d - 1)) mod d" by simp
  have "(v + (d - 1)) mod d < d" using assms by simp
  then show "v \<le> (v + (d - 1)) div d * d" and "(v + (d - 1)) div d * d < v + d"
    using split assms by linarith+
qed

lemma unat_ALIGN_UP:
  assumes "0 < unat a" and "unat v + (unat a - 1) < 2 ^ 64"
  shows "unat (ALIGN_UP v a) = (unat v + (unat a - 1)) div unat a * unat a"
proof -
  have "unat (DIV_ROUNDUP v a) * unat a < 2 ^ 64"
    unfolding unat_DIV_ROUNDUP [OF assms]
    by (rule le_less_trans [OF div_times_less_eq_dividend assms(2)])
  then show ?thesis
    unfolding ALIGN_UP_def using assms
    by (subst unat_mult_lem [THEN iffD1]) (simp_all add: unat_DIV_ROUNDUP)
qed

lemma unat_ALIGN_DOWN: "unat (ALIGN_DOWN v a) = unat v div unat a * unat a"
proof -
  have "unat (v div a) * unat a < 2 ^ 64"
    unfolding unat_div using unat_u64_less [of v]
    by (intro le_less_trans [OF div_times_less_eq_dividend]) simp
  then show ?thesis
    unfolding ALIGN_DOWN_def by (subst unat_mult_lem [THEN iffD1]) (simp_all add: unat_div)
qed

lemma unat_div_8 [simp]: "unat (b div 8 :: u64) = unat b div 8"
  by (simp add: unat_div)

lemma unat_mod_8 [simp]: "unat (b mod 8 :: u64) = unat b mod 8"
  by (simp add: unat_mod)

section \<open>Bitmaps\<close>

definition bit_test :: "u64 \<Rightarrow> u64 \<Rightarrow> bool kprog" where
  "bit_test bitmap b =
     bind (read8 (bitmap + b div 8)) (\<lambda>byte.
     return ((ucast byte :: u32) AND push_bit (unat (b mod 8)) 1 \<noteq> 0))"

definition bit_set :: "u64 \<Rightarrow> u64 \<Rightarrow> unit kprog" where
  "bit_set bitmap b =
     bind (read8 (bitmap + b div 8)) (\<lambda>byte.
     write8 (bitmap + b div 8)
       (ucast ((ucast byte :: u32) OR push_bit (unat (b mod 8)) 1)))"

definition bit_reset :: "u64 \<Rightarrow> u64 \<Rightarrow> unit kprog" where
  "bit_reset bitmap b =
     bind (read8 (bitmap + b div 8)) (\<lambda>byte.
     write8 (bitmap + b div 8)
       (ucast ((ucast byte :: u32) AND NOT (push_bit (unat (b mod 8)) 1))))"

text \<open>The abstract reading of a bitmap: bit \<open>i\<close> of the bytes from \<open>bitmap\<close>.\<close>

definition bitmap_bit :: "memory \<Rightarrow> u64 \<Rightarrow> nat \<Rightarrow> bool" where
  "bitmap_bit m bitmap i = bit (m (bitmap + of_nat (i div 8))) (i mod 8)"

text \<open>The memory after \<open>bit_set\<close> and \<open>bit_reset\<close>.\<close>

definition put_bit :: "bool \<Rightarrow> u64 \<Rightarrow> u64 \<Rightarrow> memory \<Rightarrow> memory" where
  "put_bit v bitmap b m = m(bitmap + b div 8 :=
     (if v then m (bitmap + b div 8) OR push_bit (unat b mod 8) 1
      else m (bitmap + b div 8) AND NOT (push_bit (unat b mod 8) 1)))"

lemma of_nat_unat_div_8: "of_nat (unat b div 8) = (b div 8 :: u64)"
  using word_arith_nat_div [of b 8] by simp

lemma bitmap_bit_unat: "bitmap_bit m bitmap (unat b) = bit (m (bitmap + b div 8)) (unat b mod 8)"
  by (simp add: bitmap_bit_def of_nat_unat_div_8)

lemma u8_int_mask:
  fixes x :: u8
  assumes "k < 8"
  shows "(ucast x :: u32) AND 2 ^ k = 0 \<longleftrightarrow> \<not> bit x k"
    and "ucast ((ucast x :: u32) OR 2 ^ k) = (x OR 2 ^ k :: u8)"
    and "ucast ((ucast x :: u32) AND NOT (2 ^ k)) = (x AND NOT (2 ^ k) :: u8)"
proof -
  show "(ucast x :: u32) AND 2 ^ k = 0 \<longleftrightarrow> \<not> bit x k"
    using assms by (simp add: and_exp_eq_0_iff_not_bit bit_simps)
  show "ucast ((ucast x :: u32) OR 2 ^ k) = (x OR 2 ^ k :: u8)"
    and "ucast ((ucast x :: u32) AND NOT (2 ^ k)) = (x AND NOT (2 ^ k) :: u8)"
    by (rule bit_word_eqI; auto simp: bit_simps)+
qed

lemma bit_test_eq: "bit_test bitmap b s = Ok (bitmap_bit (mem s) bitmap (unat b), s)"
  by (simp add: bit_test_def read8_def return_def u8_int_mask bitmap_bit_unat)

lemma bit_set_eq: "bit_set bitmap b s = Ok ((), s\<lparr>mem := put_bit True bitmap b (mem s)\<rparr>)"
  by (simp add: bit_set_def access_defs u8_int_mask put_bit_def modify_def)

lemma bit_reset_eq: "bit_reset bitmap b s = Ok ((), s\<lparr>mem := put_bit False bitmap b (mem s)\<rparr>)"
  by (simp add: bit_reset_def access_defs u8_int_mask put_bit_def modify_def)

lemma bind_bit_test [simp]:
  "bind (bit_test bitmap b) g s = g (bitmap_bit (mem s) bitmap (unat b)) s"
  by (simp add: bind_Ok bit_test_eq)

lemma wp_bit_ops [simp, wp_simps]:
  "wp (bit_test bitmap b) P s \<longleftrightarrow> P (bitmap_bit (mem s) bitmap (unat b)) s"
  "wp (bit_set bitmap b) Q s \<longleftrightarrow> Q () (s\<lparr>mem := put_bit True bitmap b (mem s)\<rparr>)"
  "wp (bit_reset bitmap b) Q s \<longleftrightarrow> Q () (s\<lparr>mem := put_bit False bitmap b (mem s)\<rparr>)"
  by (simp_all add: wp_def bit_test_eq bit_set_eq bit_reset_eq)

lemma of_nat_u64_inj:
  "i < 2 ^ 64 \<Longrightarrow> j < 2 ^ 64 \<Longrightarrow> (of_nat i :: u64) = of_nat j \<longleftrightarrow> i = j"
  by (simp add: word_of_nat_eq_iff take_bit_nat_eq_self)

lemma bitmap_bit_put_bit:
  assumes "i < 2 ^ 64"
  shows "bitmap_bit (put_bit v bitmap b m) bitmap i \<longleftrightarrow>
    (if i = unat b then v else bitmap_bit m bitmap i)"
proof (cases "i div 8 = unat b div 8")
  case True
  have addr: "(of_nat (i div 8) :: u64) = b div 8"
    by (simp add: True of_nat_unat_div_8)
  have "i = unat b \<longleftrightarrow> i mod 8 = unat b mod 8"
    using True by (metis div_mod_decomp)
  then show ?thesis
    by (auto simp: bitmap_bit_def put_bit_def addr bit_simps)
next
  case False
  have "(of_nat (i div 8) :: u64) \<noteq> of_nat (unat b div 8)"
    using False assms unat_u64_less [of b] by (subst of_nat_u64_inj) auto
  then have "(of_nat (i div 8) :: u64) \<noteq> b div 8" by (simp add: of_nat_unat_div_8)
  then show ?thesis using False by (auto simp: bitmap_bit_def put_bit_def)
qed

lemma bitmap_bit_put_bit_same: "bitmap_bit (put_bit v bitmap b m) bitmap (unat b) = v"
  using unat_u64_less [of b] by (subst bitmap_bit_put_bit) simp_all

text \<open>Setting or clearing the bits of a list, in order.\<close>

lemma bitmap_bit_fold_put_bit:
  assumes "i < 2 ^ 64"
  shows "bitmap_bit (fold (put_bit v bitmap) bs m) bitmap i \<longleftrightarrow>
    (if i \<in> unat ` set bs then v else bitmap_bit m bitmap i)"
  by (induction bs arbitrary: m)
    (auto simp: bitmap_bit_put_bit [OF assms] bitmap_bit_put_bit_same)

lemma put_bit_outside:
  "x \<noteq> bitmap + b div 8 \<Longrightarrow> put_bit v bitmap b m x = m x"
  by (simp add: put_bit_def)

lemma fold_put_bit_outside:
  "(\<And>b. b \<in> set bs \<Longrightarrow> x \<noteq> bitmap + b div 8) \<Longrightarrow> fold (put_bit v bitmap) bs m x = m x"
  by (induction bs arbitrary: m) (auto simp: put_bit_outside)

lemma fold_mem_update:
  "fold (\<lambda>x s. s\<lparr>mem := f x (mem s)\<rparr>) xs s = s\<lparr>mem := fold f xs (mem s)\<rparr>"
  for s :: kernel
  by (induction xs arbitrary: s) auto

lemma for_range_bit_set:
  "for_range lo hi (bit_set bitmap) s =
     Ok ((), s\<lparr>mem := fold (put_bit True bitmap) (map of_nat [unat lo..<unat hi]) (mem s)\<rparr>)"
  by (simp add: for_range_foreach foreach_fold [OF bit_set_eq] fold_mem_update)

lemma for_range_bit_reset:
  "for_range lo hi (bit_reset bitmap) s =
     Ok ((), s\<lparr>mem := fold (put_bit False bitmap) (map of_nat [unat lo..<unat hi]) (mem s)\<rparr>)"
  by (simp add: for_range_foreach foreach_fold [OF bit_reset_eq] fold_mem_update)

lemma wp_for_range_bits [simp, wp_simps]:
  "wp (for_range lo hi (bit_set bitmap)) Q s \<longleftrightarrow>
     Q () (s\<lparr>mem := fold (put_bit True bitmap) (map of_nat [unat lo..<unat hi]) (mem s)\<rparr>)"
  "wp (for_range lo hi (bit_reset bitmap)) Q s \<longleftrightarrow>
     Q () (s\<lparr>mem := fold (put_bit False bitmap) (map of_nat [unat lo..<unat hi]) (mem s)\<rparr>)"
  by (simp_all add: wp_def for_range_bit_set for_range_bit_reset)

lemma unat_image_upt:
  assumes "j \<le> 2 ^ 64"
  shows "unat ` set (map of_nat [i..<j] :: u64 list) = {i..<j}"
proof -
  have "unat (of_nat k :: u64) = k" if "k < j" for k
    using that assms by (simp add: unsigned_of_nat take_bit_nat_eq_self)
  then show ?thesis by (force simp: image_iff)
qed

section \<open>Filling memory with a word\<close>

lemma foreach_write64:
  assumes "8 * n \<le> 2 ^ 64"
  shows "foreach (\<lambda>i. write64 (p + i * 8) v) (map of_nat [0..<n]) s =
    Ok ((), s\<lparr>mem := fill64 (mem s) p n v\<rparr>)"
  using assms
proof (induction n)
  case 0
  then show ?case by (simp add: return_def)
next
  case (Suc n)
  have "foreach (\<lambda>i. write64 (p + i * 8) v) (map of_nat [0..<Suc n]) s =
      bind (foreach (\<lambda>i. write64 (p + i * 8) v) (map of_nat [0..<n]))
        (\<lambda>_. foreach (\<lambda>i. write64 (p + i * 8) v) [of_nat n]) s"
    by (simp add: foreach_append)
  also have "\<dots> = foreach (\<lambda>i. write64 (p + i * 8) v) [of_nat n] (s\<lparr>mem := fill64 (mem s) p n v\<rparr>)"
    using Suc by (intro bind_Ok) simp
  also have "\<dots> = Ok ((), s\<lparr>mem := store64 (fill64 (mem s) p n v) (p + of_nat (8 * n)) v\<rparr>)"
    by (simp add: write64_def return_def mult.commute)
  finally show ?case using Suc.prems by (simp only: fill64_Suc)
qed

lemma for_range_write64:
  assumes "8 * unat n \<le> 2 ^ 64"
  shows "for_range 0 n (\<lambda>i. write64 (p + i * 8) v) s =
    Ok ((), s\<lparr>mem := fill64 (mem s) p (unat n) v\<rparr>)"
  using foreach_write64 [OF assms] by (simp add: for_range_foreach)

end
