(* ===== verification/Spinlock.thy ===== *)
theory Spinlock
  imports Kernel_State
begin

text \<open>
  Interrupt control (\<open>kernel/src/sys/cpu.k.h\<close>) and spinlocks (\<open>kernel/src/lib/spinlock.c\<close>)
  on one processor, and the locale \<open>lock_cell\<close>: what a spinlock stored in a cell of the kernel
  state guarantees. Every spinlock of the kernel is an interpretation of it.
\<close>

section \<open>Interrupt control\<close>

definition interrupt_state :: "bool kprog" where
  "interrupt_state = gets int_flag"

definition enable_interrupts :: "unit kprog" where
  "enable_interrupts = modify (\<lambda>s. s\<lparr>int_flag := True\<rparr>)"

definition disable_interrupts :: "unit kprog" where
  "disable_interrupts = modify (\<lambda>s. s\<lparr>int_flag := False\<rparr>)"

definition interrupt_toggle :: "bool \<Rightarrow> bool kprog" where
  "interrupt_toggle state =
     bind interrupt_state (\<lambda>ret.
     bind (if state then enable_interrupts else disable_interrupts) (\<lambda>_.
     return ret))"

lemma interrupt_toggle_eq:
  "interrupt_toggle b s = Ok (int_flag s, s\<lparr>int_flag := b\<rparr>)"
  by (simp add: interrupt_toggle_def interrupt_state_def enable_interrupts_def
      disable_interrupts_def return_def)

lemma bind_interrupt_toggle [simp]:
  "bind (interrupt_toggle b) g s = g (int_flag s) (s\<lparr>int_flag := b\<rparr>)"
  by (simp add: bind_Ok interrupt_toggle_eq)

lemma wp_interrupt_toggle [simp, wp_simps]:
  "wp (interrupt_toggle b) Q s \<longleftrightarrow> Q (int_flag s) (s\<lparr>int_flag := b\<rparr>)"
  by (simp add: wp_def interrupt_toggle_eq)

section \<open>Spinlocks\<close>

text \<open>A lock is given by the accessor and the update function of its cell.\<close>

text \<open>The compiler builtin \<open>__sync_bool_compare_and_swap\<close>: whether the cell held the expected
  value, and the cell afterwards.\<close>

definition compare_and_swap :: "bool \<Rightarrow> bool \<Rightarrow> bool \<Rightarrow> bool \<times> bool" where
  "compare_and_swap cell expected new =
     (if cell = expected then (True, new) else (False, cell))"

definition spinlock_test_acq ::
  "(kernel \<Rightarrow> bool) \<Rightarrow> ((bool \<Rightarrow> bool) \<Rightarrow> kernel \<Rightarrow> kernel) \<Rightarrow> bool kprog" where
  "spinlock_test_acq get upd =
     bind interrupt_state (\<lambda>on.
     if on then panic ''Attempted to acquire spinlock with interrupts enabled''
     else bind (gets get) (\<lambda>cell.
       let (swapped, cell') = compare_and_swap cell False True in
       if swapped then bind (modify (upd (\<lambda>_. cell'))) (\<lambda>_. return True)
       else return False))"

definition spinlock_acquire ::
  "(kernel \<Rightarrow> bool) \<Rightarrow> ((bool \<Rightarrow> bool) \<Rightarrow> kernel \<Rightarrow> kernel) \<Rightarrow> unit kprog" where
  "spinlock_acquire get upd =
     bind (whileM (\<lambda>acquired s. \<not> acquired) (\<lambda>_. spinlock_test_acq get upd) False)
       (\<lambda>_. return ())"

definition spinlock_release ::
  "((bool \<Rightarrow> bool) \<Rightarrow> kernel \<Rightarrow> kernel) \<Rightarrow> unit kprog" where
  "spinlock_release upd = modify (upd (\<lambda>c. snd (compare_and_swap c True False)))"

lemma spinlock_test_acq_eq:
  "spinlock_test_acq get upd s =
     (if int_flag s then Panic ''Attempted to acquire spinlock with interrupts enabled''
      else if get s then Ok (False, s) else Ok (True, upd (\<lambda>_. True) s))"
  by (simp add: spinlock_test_acq_def interrupt_state_def panic_def return_def
      compare_and_swap_def)

lemma spinlock_acquire_panic:
  "int_flag s \<Longrightarrow>
   spinlock_acquire get upd s = Panic ''Attempted to acquire spinlock with interrupts enabled''"
  by (simp add: spinlock_acquire_def whileM_unfold spinlock_test_acq_eq bind_def)

lemma spinlock_acquire_free:
  assumes "\<not> int_flag s" and "\<not> get s"
  shows "spinlock_acquire get upd s = Ok ((), upd (\<lambda>_. True) s)"
proof -
  have "whileM (\<lambda>acquired s. \<not> acquired) (\<lambda>_. spinlock_test_acq get upd) False s =
      Ok (True, upd (\<lambda>_. True) s)"
    using assms by (subst whileM_unfold, simp add: spinlock_test_acq_eq bind_Ok)
      (subst whileM_unfold, simp)
  then show ?thesis by (simp add: spinlock_acquire_def bind_Ok return_def)
qed

text \<open>On one processor a held lock never comes free while it is waited for: the test fails again
  and again in an unchanged state.\<close>

lemma while_option_stuck:
  assumes "b x" and "c x = x"
  shows "while_option b c x = None"
proof -
  have "(c ^^ k) x = x" for k by (induction k) (simp_all add: assms)
  then show ?thesis using assms by (simp add: while_option_def)
qed

lemma whileM_stuck: "b l s \<Longrightarrow> c l s = Ok (l, s) \<Longrightarrow> whileM b c l s = Diverge"
  unfolding whileM_def by (subst while_option_stuck) (simp_all add: loop_test_def loop_step_def)

lemma spinlock_acquire_held:
  assumes "\<not> int_flag s" and "get s"
  shows "spinlock_acquire get upd s = Diverge"
proof -
  have "whileM (\<lambda>acquired s. \<not> acquired) (\<lambda>_. spinlock_test_acq get upd) False s = Diverge"
    by (rule whileM_stuck) (simp_all add: spinlock_test_acq_eq assms)
  then show ?thesis by (simp add: spinlock_acquire_def bind_Diverge)
qed

lemma wp_spinlock_acquire [simp, wp_simps]:
  "wp (spinlock_acquire get upd) Q s \<longleftrightarrow>
     \<not> int_flag s \<and> \<not> get s \<and> Q () (upd (\<lambda>_. True) s)"
  by (cases "int_flag s"; cases "get s")
    (simp_all add: wp_def spinlock_acquire_panic spinlock_acquire_free spinlock_acquire_held)

lemma spinlock_release_eq: "spinlock_release upd = modify (upd (\<lambda>_. False))"
proof -
  have "(\<lambda>c. snd (compare_and_swap c True False)) = (\<lambda>_. False)"
    by (auto simp: compare_and_swap_def)
  then show ?thesis by (simp add: spinlock_release_def)
qed

lemma wp_spinlock_release [simp, wp_simps]:
  "wp (spinlock_release upd) Q s \<longleftrightarrow> Q () (upd (\<lambda>_. False) s)"
  by (simp add: spinlock_release_eq)

lemma bind_spinlock_acquire:
  assumes "\<not> int_flag s" and "\<not> get s"
  shows "bind (spinlock_acquire get upd) g s = g () (upd (\<lambda>_. True) s)"
  by (simp add: bind_Ok spinlock_acquire_free assms)

lemma bind_spinlock_release [simp]:
  "bind (spinlock_release upd) g s = g () (upd (\<lambda>_. False) s)"
  by (simp add: spinlock_release_eq)

section \<open>The contract of a lock cell\<close>

text \<open>Laws of a lock cell: an update depends on the cell alone, updates compose, the accessor sees
  them, and the interrupt flag is no part of the cell.\<close>

locale lock_cell =
  fixes get :: "kernel \<Rightarrow> bool"
    and upd :: "(bool \<Rightarrow> bool) \<Rightarrow> kernel \<Rightarrow> kernel"
    and valid :: "kernel \<Rightarrow> bool"
  assumes get_upd: "valid s \<Longrightarrow> get (upd f s) = f (get s)"
    and upd_upd: "valid s \<Longrightarrow> upd f (upd g s) = upd (\<lambda>b. f (g b)) s"
    and upd_id: "valid s \<Longrightarrow> f (get s) = get s \<Longrightarrow> upd f s = s"
    and int_flag_upd: "int_flag (upd f s) = int_flag s"
    and valid_upd: "valid s \<Longrightarrow> valid (upd f s)"
    and valid_int_flag: "valid (s\<lparr>int_flag := b\<rparr>) = valid s"
    and get_int_flag: "get (s\<lparr>int_flag := b\<rparr>) = get s"
    and upd_int_flag: "upd f (s\<lparr>int_flag := b\<rparr>) = (upd f s)\<lparr>int_flag := b\<rparr>"
begin

lemma acquire_release:
  assumes "valid s" and "\<not> int_flag s" and "\<not> get s"
  shows "bind (spinlock_acquire get upd) (\<lambda>_. spinlock_release upd) s = Ok ((), s)"
proof -
  have "upd (\<lambda>_. False) (upd (\<lambda>_. True) s) = s"
    using assms by (simp add: upd_upd upd_id)
  then show ?thesis
    using assms by (simp add: bind_spinlock_acquire spinlock_release_eq modify_def)
qed

lemma acquire_twice_deadlocks:
  assumes "valid s" and "\<not> int_flag s" and "\<not> get s"
  shows "bind (spinlock_acquire get upd) (\<lambda>_. spinlock_acquire get upd) s = Diverge"
  using assms by (simp add: bind_spinlock_acquire spinlock_acquire_held int_flag_upd get_upd)

text \<open>The pattern the kernel uses around shared data: interrupts off, lock, work, unlock,
  interrupts back. If the work keeps the lock held, the section ends with the lock free and the
  interrupt flag as it was.\<close>

lemma wp_irq_section:
  assumes "valid s" and "\<not> get s"
    and body: "wp body (\<lambda>r t. valid t \<and> Q r ((upd (\<lambda>_. False) t)\<lparr>int_flag := int_flag s\<rparr>))
        (upd (\<lambda>_. True) (s\<lparr>int_flag := False\<rparr>))"
  shows "wp (bind (interrupt_toggle False) (\<lambda>old_int_state.
       bind (spinlock_acquire get upd) (\<lambda>_.
       bind body (\<lambda>r.
       bind (spinlock_release upd) (\<lambda>_.
       bind (interrupt_toggle old_int_state) (\<lambda>_.
       return r))))))
     (\<lambda>r t. Q r t \<and> \<not> get t \<and> int_flag t = int_flag s) s"
  using assms(1,2)
  by (auto simp: get_int_flag valid_int_flag get_upd intro!: wp_mono [OF body])

end

text \<open>The global locks are fields of the kernel state.\<close>

interpretation pmm: lock_cell pmm_lock pmm_lock_update "\<lambda>_. True"
  by unfold_locales simp_all

interpretation gdtl: lock_cell gdt_lock gdt_lock_update "\<lambda>_. True"
  by unfold_locales simp_all

interpretation idtl: lock_cell idt_lock idt_lock_update "\<lambda>_. True"
  by unfold_locales simp_all

text \<open>The lock of the kernel page map, inside \<open>kernel_pagemap\<close>.\<close>

definition pagemap_lock :: "kernel \<Rightarrow> bool" where
  "pagemap_lock s = pm_spinlock (kernel_pagemap s)"

definition pagemap_lock_update :: "(bool \<Rightarrow> bool) \<Rightarrow> kernel \<Rightarrow> kernel" where
  "pagemap_lock_update f s = kernel_pagemap_update (pm_spinlock_update f) s"

lemmas pagemap_lock_defs = pagemap_lock_def pagemap_lock_update_def

interpretation pml: lock_cell pagemap_lock pagemap_lock_update "\<lambda>_. True"
  by unfold_locales (simp_all add: pagemap_lock_defs comp_def)

text \<open>The lock of the \<open>i\<close>-th slab.\<close>

definition slab_lock :: "nat \<Rightarrow> kernel \<Rightarrow> bool" where
  "slab_lock i s = lock (slabs s ! i)"

definition slab_lock_update :: "nat \<Rightarrow> (bool \<Rightarrow> bool) \<Rightarrow> kernel \<Rightarrow> kernel" where
  "slab_lock_update i f s = s\<lparr>slabs := (slabs s)[i := lock_update f (slabs s ! i)]\<rparr>"

lemma lock_update_id: "f (lock r) = lock r \<Longrightarrow> lock_update f r = r"
  by (cases r) simp

lemmas slab_lock_defs = slab_lock_def slab_lock_update_def

interpretation sll: lock_cell "slab_lock i" "slab_lock_update i" "\<lambda>s. i < length (slabs s)" for i
  by unfold_locales (simp_all add: slab_lock_defs comp_def lock_update_id)

text \<open>A lock in memory: a byte that is 0 or 1.\<close>

definition mem_lock :: "u64 \<Rightarrow> kernel \<Rightarrow> bool" where
  "mem_lock p s \<longleftrightarrow> mem s p \<noteq> 0"

definition mem_lock_update :: "u64 \<Rightarrow> (bool \<Rightarrow> bool) \<Rightarrow> kernel \<Rightarrow> kernel" where
  "mem_lock_update p f s = s\<lparr>mem := (mem s)(p := of_bool (f (mem_lock p s)))\<rparr>"

definition mem_lock_valid :: "u64 \<Rightarrow> kernel \<Rightarrow> bool" where
  "mem_lock_valid p s \<longleftrightarrow> mem s p \<in> {0, 1}"

lemmas mem_lock_defs = mem_lock_def mem_lock_update_def mem_lock_valid_def

interpretation meml: lock_cell "mem_lock p" "mem_lock_update p" "mem_lock_valid p" for p
proof unfold_locales
  fix s :: kernel and f :: "bool \<Rightarrow> bool"
  assume v: "mem_lock_valid p s" and "f (mem_lock p s) = mem_lock p s"
  then have "(mem s)(p := of_bool (f (mem_lock p s))) = mem s" by (auto simp: mem_lock_defs fun_eq_iff)
  then show "mem_lock_update p f s = s" by (simp add: mem_lock_update_def)
qed (simp_all add: mem_lock_defs)

end
