(* ===== verification/Pmm.thy ===== *)
theory Pmm
  imports Lib_Misc Spinlock
begin

text \<open>
  The physical page allocator, \<open>kernel/src/mm/pmm.c\<close>, and \<open>mm_init\<close> of
  \<open>kernel/src/mm/generic.c\<close>. One bit per page frame, set when the frame is in use, in a bitmap
  that \<open>pmm_init\<close> places in usable memory.
\<close>

section \<open>Definitions\<close>

definition mm_init :: "unit kprog" where
  "mm_init =
     bind (gets mm_init_done) (\<lambda>done.
     if done then return ()
     else bind (gets (\<lambda>s. hhdm_response (boot s))) (\<lambda>resp.
       case resp of
         None \<Rightarrow> panic ''HHDM bootloader response missing''
       | Some offset \<Rightarrow>
           bind (modify (\<lambda>s. s\<lparr>hhdm := offset\<rparr>)) (\<lambda>_.
           bind (gets (\<lambda>s. memmap_response (boot s))) (\<lambda>mresp.
           case mresp of
             None \<Rightarrow> panic ''Memory map bootloader response missing''
           | Some entries \<Rightarrow>
               bind (modify (\<lambda>s. s\<lparr>memmap := entries\<rparr>)) (\<lambda>_.
               modify (\<lambda>s. s\<lparr>mm_init_done := True\<rparr>))))))"

fun memmap_ent_type_to_str :: "memmap_type \<Rightarrow> string" where
  "memmap_ent_type_to_str MEMMAP_USABLE = ''Usable''"
| "memmap_ent_type_to_str MEMMAP_RESERVED = ''Reserved''"
| "memmap_ent_type_to_str MEMMAP_ACPI_RECLAIMABLE = ''ACPI Reclaimable''"
| "memmap_ent_type_to_str MEMMAP_ACPI_NVS = ''ACPI NVS''"
| "memmap_ent_type_to_str MEMMAP_BAD_MEMORY = ''Bad Memory''"
| "memmap_ent_type_to_str MEMMAP_BOOTLOADER_RECLAIMABLE = ''Bootloader Reclaimable''"
| "memmap_ent_type_to_str MEMMAP_EXECUTABLE_AND_MODULES = ''Executable and Modules''"
| "memmap_ent_type_to_str MEMMAP_FRAMEBUFFER = ''Framebuffer''"
| "memmap_ent_type_to_str (MEMMAP_UNKNOWN t) = ''???''"

text \<open>The first loop of \<open>pmm_init\<close>: print an entry and raise \<open>top_address\<close>.\<close>

definition pmm_scan_entry :: "nat \<times> memmap_entry \<Rightarrow> u64 \<Rightarrow> u64 kprog" where
  "pmm_scan_entry ie top_address =
     (let (i, e) = ie; entry_top = ALIGN_UP (me_base e + me_length e) PAGE_SIZE in
      bind (printf ''pmm: %3d: %016llx -> %016llx  [%s]''
         [PInt (of_nat i), PInt (me_base e), PInt entry_top,
          PStr (memmap_ent_type_to_str (me_type e))]) (\<lambda>_.
      return
        (if me_type e \<noteq> MEMMAP_USABLE \<and> me_type e \<noteq> MEMMAP_BOOTLOADER_RECLAIMABLE
            \<and> me_type e \<noteq> MEMMAP_EXECUTABLE_AND_MODULES
         then top_address
         else if top_address < entry_top then entry_top else top_address)))"

text \<open>The second loop: the bitmap goes into the first usable entry that is longer than it.\<close>

fun pmm_place_bitmap :: "u64 \<Rightarrow> memmap_entry list \<Rightarrow> unit kprog" where
  "pmm_place_bitmap bitmap_size [] = return ()"
| "pmm_place_bitmap bitmap_size (e # es) =
     (if me_type e \<noteq> MEMMAP_USABLE then pmm_place_bitmap bitmap_size es
      else if bitmap_size < me_length e then
        bind (modify (\<lambda>s. s\<lparr>pmm_bitmap := me_base e + hhdm s\<rparr>)) (\<lambda>_.
        bind (gets pmm_bitmap) (\<lambda>bitmap.
        memset bitmap 0xff bitmap_size))
      else pmm_place_bitmap bitmap_size es)"

text \<open>The third loop: clear the bit of every usable page that holds no part of the bitmap. With no
  room for the bitmap the pointer is still null and the first write to it faults.\<close>

definition pmm_release_page :: "u64 \<Rightarrow> u64 \<Rightarrow> memmap_entry \<Rightarrow> u64 \<Rightarrow> unit kprog" where
  "pmm_release_page pmm_bitmap_phys bitmap_size e j =
     (let base = me_base e + j; top = base + PAGE_SIZE in
      if (pmm_bitmap_phys \<le> base \<and> base < pmm_bitmap_phys + bitmap_size)
         \<or> (pmm_bitmap_phys < top \<and> top \<le> pmm_bitmap_phys + bitmap_size)
      then return ()
      else bind (gets pmm_bitmap) (\<lambda>bitmap.
        if bitmap = 0 then fault ''null pointer''
        else bit_reset bitmap (base div PAGE_SIZE)))"

definition pmm_release_entry :: "u64 \<Rightarrow> u64 \<Rightarrow> memmap_entry \<Rightarrow> unit kprog" where
  "pmm_release_entry pmm_bitmap_phys bitmap_size e =
     (if me_type e \<noteq> MEMMAP_USABLE then return ()
      else for_step 0 (me_length e) PAGE_SIZE (pmm_release_page pmm_bitmap_phys bitmap_size e))"

definition pmm_init :: "unit kprog" where
  "pmm_init =
     bind (gets pmm_init_done) (\<lambda>done.
     if done then return ()
     else
       bind mm_init (\<lambda>_.
       bind (printf ''pmm: Bootloader reported memory map:'' []) (\<lambda>_.
       bind (gets memmap) (\<lambda>entries.
       bind (foldM pmm_scan_entry (enumerate 0 entries) 0) (\<lambda>top_address.
       bind (modify (\<lambda>s. s\<lparr>pmm_avl_page_count := DIV_ROUNDUP top_address PAGE_SIZE\<rparr>)) (\<lambda>_.
       bind (gets (\<lambda>s. ALIGN_UP (pmm_avl_page_count s div 8) PAGE_SIZE)) (\<lambda>bitmap_size.
       bind (printf ''pmm: Bitmap size: %llu'' [PInt bitmap_size]) (\<lambda>_.
       bind (pmm_place_bitmap bitmap_size entries) (\<lambda>_.
       bind (gets (\<lambda>s. pmm_bitmap s - hhdm s)) (\<lambda>pmm_bitmap_phys.
       bind (printf ''pmm: Bitmap at %p'' [PInt pmm_bitmap_phys]) (\<lambda>_.
       bind (foreach (pmm_release_entry pmm_bitmap_phys bitmap_size) entries) (\<lambda>_.
       modify (\<lambda>s. s\<lparr>pmm_init_done := True\<rparr>)))))))))))))"

text \<open>C's \<open>%\<close> on unsigned operands: a zero divisor is the processor's divide error.\<close>

definition u64_mod :: "u64 \<Rightarrow> u64 \<Rightarrow> u64 kprog" where
  "u64_mod a b = (if b = 0 then fault ''divide error'' else return (a mod b))"

abbreviation no_page :: u64 where "no_page \<equiv> - 1"

text \<open>One iteration of the search loop; the locals are the address to return, once found, and the
  length \<open>p\<close> of the run of free pages that ends here.\<close>

definition pmm_inner_step :: "u64 \<Rightarrow> u64 option \<times> u64 \<Rightarrow> (u64 option \<times> u64) kprog" where
  "pmm_inner_step count l =
     (let p = snd l in
      bind (modify (\<lambda>s. s\<lparr>pmm_last_used_index := pmm_last_used_index s + 1\<rparr>)) (\<lambda>_.
      bind (gets (\<lambda>s. (pmm_bitmap s, pmm_last_used_index s))) (\<lambda>(bitmap, last).
      bind (bit_test bitmap (last - 1)) (\<lambda>used.
      if \<not> used then
        bind (u64_mod ((last - 1) - p) count) (\<lambda>r.
        let p = (if r = 0 then p + 1 else 0) in
        if p = count then
          let page_index = last - count in
          bind (for_range page_index last (bit_set bitmap)) (\<lambda>_.
          return (Some (page_index * PAGE_SIZE), p))
        else return (None, p))
      else return (None, 0)))))"

definition pmm_inner_alloc :: "u64 \<Rightarrow> u64 \<Rightarrow> u64 kprog" where
  "pmm_inner_alloc count limit =
     bind (whileM (\<lambda>l s. fst l = None \<and> pmm_last_used_index s < limit)
             (pmm_inner_step count) (None, 0)) (\<lambda>l.
     return (case fst l of Some ret \<Rightarrow> ret | None \<Rightarrow> no_page))"

definition pmm_alloc_nozero :: "u64 \<Rightarrow> u64 kprog" where
  "pmm_alloc_nozero count =
     bind (interrupt_toggle False) (\<lambda>old_int_state.
     bind (spinlock_acquire pmm_lock pmm_lock_update) (\<lambda>_.
     bind (gets pmm_last_used_index) (\<lambda>last.
     bind (gets pmm_avl_page_count) (\<lambda>page_count.
     bind (pmm_inner_alloc count page_count) (\<lambda>ret.
     bind (if ret = no_page then
         bind (modify (\<lambda>s. s\<lparr>pmm_last_used_index := 0\<rparr>)) (\<lambda>_.
         bind (pmm_inner_alloc count last) (\<lambda>ret.
         if ret = no_page then panic ''Out of memory'' else return ret))
       else return ret) (\<lambda>ret.
     bind (spinlock_release pmm_lock_update) (\<lambda>_.
     bind (interrupt_toggle old_int_state) (\<lambda>_.
     return ret))))))))"

definition pmm_alloc :: "u64 \<Rightarrow> u64 kprog" where
  "pmm_alloc count =
     bind (pmm_alloc_nozero count) (\<lambda>ret.
     bind (gets (\<lambda>s. ret + hhdm s)) (\<lambda>ptr.
     bind (for_range 0 ((count * PAGE_SIZE) div 8) (\<lambda>i. write64 (ptr + i * 8) 0)) (\<lambda>_.
     return ret)))"

definition pmm_free :: "u64 \<Rightarrow> u64 \<Rightarrow> unit kprog" where
  "pmm_free page count =
     bind (gets (\<lambda>s. page + hhdm s)) (\<lambda>ptr.
     bind (for_range 0 ((count * PAGE_SIZE) div 8)
       (\<lambda>i. write64 (ptr + i * 8) 0xaaaaaaaaaaaaaaaa)) (\<lambda>_.
     let page = page div PAGE_SIZE in
     bind (interrupt_toggle False) (\<lambda>old_int_state.
     bind (spinlock_acquire pmm_lock pmm_lock_update) (\<lambda>_.
     bind (gets pmm_bitmap) (\<lambda>bitmap.
     bind (for_range page (page + count) (bit_reset bitmap)) (\<lambda>_.
     bind (spinlock_release pmm_lock_update) (\<lambda>_.
     bind (interrupt_toggle old_int_state) (\<lambda>_.
     return ()))))))))"

section \<open>The search for a run of free pages\<close>

text \<open>\<open>aligned_run free c b\<close>: \<open>b\<close> is a multiple of \<open>c\<close> and the \<open>c\<close> pages from
  \<open>b\<close> are free. \<open>run_inv free c l0 i p\<close> is the invariant of the search: from \<open>l0\<close> up to
  \<open>i\<close> there is no such run, and \<open>p\<close> is the length of the free run that ends at \<open>i\<close> and
  started at a multiple of \<open>c\<close>.\<close>

definition aligned_run :: "(nat \<Rightarrow> bool) \<Rightarrow> nat \<Rightarrow> nat \<Rightarrow> bool" where
  "aligned_run free c b \<longleftrightarrow> c dvd b \<and> (\<forall>i. b \<le> i \<and> i < b + c \<longrightarrow> free i)"

definition first_run :: "(nat \<Rightarrow> bool) \<Rightarrow> nat \<Rightarrow> nat \<Rightarrow> nat \<Rightarrow> nat \<Rightarrow> bool" where
  "first_run free c lo hi b \<longleftrightarrow>
     lo \<le> b \<and> b + c \<le> hi \<and> aligned_run free c b
     \<and> (\<forall>b'. lo \<le> b' \<and> b' < b \<longrightarrow> \<not> aligned_run free c b')"

definition no_run :: "(nat \<Rightarrow> bool) \<Rightarrow> nat \<Rightarrow> nat \<Rightarrow> nat \<Rightarrow> bool" where
  "no_run free c lo hi \<longleftrightarrow> (\<forall>b. lo \<le> b \<and> b + c \<le> hi \<longrightarrow> \<not> aligned_run free c b)"

definition run_inv :: "(nat \<Rightarrow> bool) \<Rightarrow> nat \<Rightarrow> nat \<Rightarrow> nat \<Rightarrow> nat \<Rightarrow> bool" where
  "run_inv free c l0 i p \<longleftrightarrow>
     l0 \<le> i \<and> p < c \<and> p \<le> i - l0
     \<and> (\<forall>k. i - p \<le> k \<and> k < i \<longrightarrow> free k)
     \<and> (0 < p \<longrightarrow> c dvd (i - p))
     \<and> (\<forall>b. l0 \<le> b \<and> b \<le> i \<and> i - b < c \<and> c dvd b \<and> (\<forall>k. b \<le> k \<and> k < i \<longrightarrow> free k)
          \<longrightarrow> p = i - b)
     \<and> (\<forall>b. l0 \<le> b \<and> b + c \<le> i \<longrightarrow> \<not> aligned_run free c b)"

lemma run_invI:
  assumes "l0 \<le> i" and "p < c" and "p \<le> i - l0"
    and "\<And>k. i - p \<le> k \<Longrightarrow> k < i \<Longrightarrow> free k"
    and "0 < p \<Longrightarrow> c dvd (i - p)"
    and "\<And>b. l0 \<le> b \<Longrightarrow> b \<le> i \<Longrightarrow> i - b < c \<Longrightarrow> c dvd b \<Longrightarrow>
      (\<And>k. b \<le> k \<Longrightarrow> k < i \<Longrightarrow> free k) \<Longrightarrow> p = i - b"
    and "\<And>b. l0 \<le> b \<Longrightarrow> b + c \<le> i \<Longrightarrow> \<not> aligned_run free c b"
  shows "run_inv free c l0 i p"
  unfolding run_inv_def
proof (intro conjI allI impI)
  fix b
  assume "l0 \<le> b \<and> b \<le> i \<and> i - b < c \<and> c dvd b \<and> (\<forall>k. b \<le> k \<and> k < i \<longrightarrow> free k)"
  then show "p = i - b" using assms(6) [of b] by simp
qed (use assms in auto)

lemma run_inv_bounds:
  assumes "run_inv free c l0 i p"
  shows "l0 \<le> i" and "p < c" and "p \<le> i - l0" and "0 < c"
  using assms by (auto simp: run_inv_def)

lemma run_inv_free: "run_inv free c l0 i p \<Longrightarrow> i - p \<le> k \<Longrightarrow> k < i \<Longrightarrow> free k"
  unfolding run_inv_def by blast

lemma run_inv_run:
  "run_inv free c l0 i p \<Longrightarrow> l0 \<le> b \<Longrightarrow> b \<le> i \<Longrightarrow> i - b < c \<Longrightarrow> c dvd b \<Longrightarrow>
   (\<And>k. b \<le> k \<Longrightarrow> k < i \<Longrightarrow> free k) \<Longrightarrow> p = i - b"
  unfolding run_inv_def by blast

lemma run_inv_init: "0 < c \<Longrightarrow> run_inv free c l0 l0 0"
  by (auto simp: run_inv_def)

lemma run_inv_none:
  "run_inv free c l0 i p \<Longrightarrow> l0 \<le> b \<Longrightarrow> b + c \<le> i \<Longrightarrow> \<not> aligned_run free c b"
  by (auto simp: run_inv_def)

lemma run_inv_used:
  assumes inv: "run_inv free c l0 i p" and "\<not> free i"
  shows "run_inv free c l0 (Suc i) 0"
proof (rule run_invI)
  note bounds = run_inv_bounds [OF inv]
  show "l0 \<le> Suc i" "0 < c" "0 \<le> Suc i - l0" using bounds by simp_all
  fix b assume b: "l0 \<le> b"
  show "0 = Suc i - b" if "b \<le> Suc i" "\<And>k. b \<le> k \<Longrightarrow> k < Suc i \<Longrightarrow> free k"
    using that assms(2) by (cases "b = Suc i") auto
  show "\<not> aligned_run free c b" if "b + c \<le> Suc i"
  proof (cases "b + c = Suc i")
    case True
    then have "b \<le> i \<and> i < b + c" using bounds by simp
    then show ?thesis using assms(2) by (auto simp: aligned_run_def)
  next
    case False
    then show ?thesis using run_inv_none [OF inv b] that by simp
  qed
qed simp_all

text \<open>The last clause of the invariant at the next index.\<close>

lemma run_inv_step_none:
  assumes inv: "run_inv free c l0 i p" and more: "Suc p \<noteq> c \<or> \<not> c dvd (i - p)"
    and "l0 \<le> b" and "b + c \<le> Suc i"
  shows "\<not> aligned_run free c b"
proof
  assume run: "aligned_run free c b"
  have c: "0 < c" using run_inv_bounds [OF inv] by simp
  have top: "b + c = Suc i"
    using run run_inv_none [OF inv assms(3)] assms(4) by (cases "b + c = Suc i") auto
  have "p = i - b"
    by (rule run_inv_run [OF inv assms(3)]) (use run top c in \<open>auto simp: aligned_run_def\<close>)
  then have "Suc p = c" and "i - p = b" using top c by simp_all
  then show False using more run by (simp add: aligned_run_def)
qed

lemma run_inv_restart:
  assumes inv: "run_inv free c l0 i p" and off: "\<not> c dvd (i - p)"
  shows "run_inv free c l0 (Suc i) 0"
proof (rule run_invI)
  note bounds = run_inv_bounds [OF inv]
  show "l0 \<le> Suc i" "0 < c" "0 \<le> Suc i - l0" using bounds by simp_all
  fix b assume b: "l0 \<le> b"
  show "\<not> aligned_run free c b" if "b + c \<le> Suc i"
    by (rule run_inv_step_none [OF inv disjI2 [OF off] b that])
  show "0 = Suc i - b" if r: "b \<le> Suc i" "Suc i - b < c" "c dvd b"
    "\<And>k. b \<le> k \<Longrightarrow> k < Suc i \<Longrightarrow> free k"
  proof (rule ccontr)
    assume "0 \<noteq> Suc i - b"
    then have "b \<le> i" "i - b < c" using r by simp_all
    then have "p = i - b" using run_inv_run [OF inv b] r by simp
    then show False using off r \<open>b \<le> i\<close> by simp
  qed
qed simp_all

lemma run_inv_extend:
  assumes inv: "run_inv free c l0 i p" and al: "c dvd (i - p)" and "free i" and "Suc p < c"
  shows "run_inv free c l0 (Suc i) (Suc p)"
proof (rule run_invI)
  note bounds = run_inv_bounds [OF inv]
  show "l0 \<le> Suc i" "Suc p < c" "Suc p \<le> Suc i - l0" "c dvd (Suc i - Suc p)"
    using bounds assms by simp_all
  show "free k" if "Suc i - Suc p \<le> k" "k < Suc i" for k
    using that run_inv_free [OF inv, of k] assms(3) by (cases "k = i") auto
  fix b assume b: "l0 \<le> b"
  show "\<not> aligned_run free c b" if "b + c \<le> Suc i"
    by (rule run_inv_step_none [OF inv _ b that]) (use assms(4) in simp)
  show "Suc p = Suc i - b" if r: "b \<le> Suc i" "Suc i - b < c" "c dvd b"
    "\<And>k. b \<le> k \<Longrightarrow> k < Suc i \<Longrightarrow> free k"
  proof (cases "b = Suc i")
    case True
    have "Suc i - (i - p) = Suc p" using bounds by simp
    then have "c dvd Suc p" using r(3) al True by (metis dvd_diff_nat)
    then show ?thesis using assms(4) by (auto dest: dvd_imp_le)
  next
    case False
    then have "b \<le> i" "i - b < c" using r by simp_all
    then have "p = i - b" using run_inv_run [OF inv b] r by simp
    then show ?thesis using \<open>b \<le> i\<close> by simp
  qed
qed

lemma run_inv_found:
  assumes inv: "run_inv free c l0 i p" and al: "c dvd (i - p)" and "free i" and "Suc p = c"
  shows "aligned_run free c (Suc i - c)" and "l0 \<le> Suc i - c" and "c \<le> Suc i"
    and "\<And>b. l0 \<le> b \<Longrightarrow> b < Suc i - c \<Longrightarrow> \<not> aligned_run free c b"
proof -
  note bounds = run_inv_bounds [OF inv]
  have eq: "Suc i - c = i - p" using assms(4) by simp
  show "aligned_run free c (Suc i - c)"
    unfolding eq aligned_run_def
  proof (intro conjI allI impI)
    show "c dvd (i - p)" by (rule al)
    fix k assume k: "i - p \<le> k \<and> k < i - p + c"
    show "free k"
    proof (cases "k = i")
      case False
      then have "k < i" using k bounds assms(4) by linarith
      then show ?thesis using k run_inv_free [OF inv] by blast
    qed (use assms in simp)
  qed
  show "l0 \<le> Suc i - c" "c \<le> Suc i" using bounds assms(4) by simp_all
  show "\<not> aligned_run free c b" if "l0 \<le> b" "b < Suc i - c" for b
    using run_inv_none [OF inv that(1)] that by simp
qed

text \<open>\<open>page_free s\<close>: the pages whose bit is clear.\<close>

definition page_free :: "kernel \<Rightarrow> nat \<Rightarrow> bool" where
  "page_free s i \<longleftrightarrow> \<not> bitmap_bit (mem s) (pmm_bitmap s) i"

text \<open>The state after taking the \<open>c\<close> pages from \<open>b\<close>.\<close>

definition pmm_take :: "nat \<Rightarrow> nat \<Rightarrow> kernel \<Rightarrow> kernel" where
  "pmm_take b c s = s\<lparr>pmm_last_used_index := of_nat (b + c),
     mem := fold (put_bit True (pmm_bitmap s)) (map of_nat [b..<b + c]) (mem s)\<rparr>"

text \<open>The loop invariant: before a run is found only the index moves.\<close>

definition search_inv :: "u64 \<Rightarrow> u64 \<Rightarrow> kernel \<Rightarrow> u64 option \<times> u64 \<Rightarrow> kernel \<Rightarrow> bool" where
  "search_inv count limit s0 l t \<longleftrightarrow>
     (case fst l of
        None \<Rightarrow>
          t = s0\<lparr>pmm_last_used_index := pmm_last_used_index t\<rparr>
          \<and> unat (pmm_last_used_index t) \<le> max (unat (pmm_last_used_index s0)) (unat limit)
          \<and> run_inv (page_free s0) (unat count) (unat (pmm_last_used_index s0))
               (unat (pmm_last_used_index t)) (unat (snd l))
      | Some ret \<Rightarrow>
          (\<exists>b. first_run (page_free s0) (unat count) (unat (pmm_last_used_index s0)) (unat limit) b
             \<and> ret = of_nat b * PAGE_SIZE \<and> t = pmm_take b (unat count) s0))"

lemma search_step_facts:
  assumes inv: "search_inv count limit s0 (None, p) t" and lt: "pmm_last_used_index t < limit"
  defines "i \<equiv> pmm_last_used_index t"
  shows "t\<lparr>pmm_last_used_index := x\<rparr> = s0\<lparr>pmm_last_used_index := x\<rparr>" "mem t = mem s0" "pmm_bitmap t = pmm_bitmap s0"
    and "run_inv (page_free s0) (unat count) (unat (pmm_last_used_index s0)) (unat i) (unat p)"
    and "unat (i + 1) = Suc (unat i)" "unat i < unat limit"
    and "unat (p + 1) = Suc (unat p)" "unat p < unat count" "count \<noteq> 0"
    and "(i - p) mod count = 0 \<longleftrightarrow> unat count dvd unat i - unat p"
    and "bitmap_bit (mem t) (pmm_bitmap t) (unat i) \<longleftrightarrow> \<not> page_free s0 (unat i)"
proof -
  have t: "t = s0\<lparr>pmm_last_used_index := i\<rparr>" and
    run: "run_inv (page_free s0) (unat count) (unat (pmm_last_used_index s0)) (unat i) (unat p)"
    using inv by (simp_all add: search_inv_def i_def)
  show "t\<lparr>pmm_last_used_index := x\<rparr> = s0\<lparr>pmm_last_used_index := x\<rparr>" by (subst t) simp
  show m: "mem t = mem s0" "pmm_bitmap t = pmm_bitmap s0" by (subst t, simp)+
  show "run_inv (page_free s0) (unat count) (unat (pmm_last_used_index s0)) (unat i) (unat p)" by (rule run)
  show lim: "unat i < unat limit" using lt by (simp add: word_less_nat_alt i_def)
  then show "unat (i + 1) = Suc (unat i)" using unat_u64_less [of limit] by (simp add: unat_word_ariths)
  note bounds = run_inv_bounds [OF run]
  then show "unat p < unat count" "count \<noteq> 0" by auto
  show "unat (p + 1) = Suc (unat p)" using bounds unat_u64_less [of count] by (simp add: unat_word_ariths)
  have "unat ((i - p) mod count) = (unat i - unat p) mod unat count"
    using bounds by (simp add: unat_mod unat_sub word_le_nat_alt)
  then show "(i - p) mod count = 0 \<longleftrightarrow> unat count dvd unat i - unat p"
    by (metis dvd_eq_mod_eq_0 unat_eq_zero)
  show "bitmap_bit (mem t) (pmm_bitmap t) (unat i) \<longleftrightarrow> \<not> page_free s0 (unat i)"
    unfolding m by (simp add: page_free_def)
qed

lemma pmm_inner_step_found:
  assumes inv: "search_inv count limit s0 (None, p) t" and lt: "pmm_last_used_index t < limit"
    and found: "page_free s0 (unat (pmm_last_used_index t))" "unat count dvd unat (pmm_last_used_index t) - unat p"
      "Suc (unat p) = unat count"
  shows "wp (pmm_inner_step count (None, p)) (search_inv count limit s0) t"
proof -
  let ?i = "pmm_last_used_index t"
  let ?b = "Suc (unat ?i) - unat count" and ?t = "t\<lparr>pmm_last_used_index := ?i + 1,
      mem := fold (put_bit True (pmm_bitmap t)) (map of_nat [unat (?i + 1 - count)..<unat (?i + 1)]) (mem t)\<rparr>"
  note st = search_step_facts [OF inv lt]
  note f = run_inv_found [OF st(4) found(2,1,3)]
  have pc: "p + 1 = count" using found(3) st(7) by (simp add: word_unat_eq_iff)
  have ub: "unat (?i + 1 - count) = ?b"
    using f(3) st(5) by (subst unat_sub) (simp_all add: word_le_nat_alt)
  then have b: "of_nat ?b = ?i + 1 - count" by (metis of_nat_unat ucast_id)
  have state: "?t = pmm_take ?b (unat count) s0"
    unfolding ub st(1-3,5) pmm_take_def using f(3) by (simp add: add.commute del: upt_Suc)
  have "search_inv count limit s0 (Some ((?i + 1 - count) * PAGE_SIZE), count) ?t"
    unfolding search_inv_def state using f st(6) b by (auto simp: first_run_def intro!: exI [of _ ?b])
  then show ?thesis
    using found st(9-11) pc by (simp add: pmm_inner_step_def u64_mod_def del: upt_Suc)
qed

lemma pmm_inner_step_inv:
  assumes inv: "search_inv count limit s0 (None, p) t" and lt: "pmm_last_used_index t < limit"
  shows "wp (pmm_inner_step count (None, p)) (search_inv count limit s0) t"
proof -
  let ?i = "pmm_last_used_index t"
  let ?n = "unat ?i" and ?c = "unat count" and ?fr = "page_free s0"
  note st = search_step_facts [OF inv lt]
  have idx: "unat (?i + 1) \<le> max (unat (pmm_last_used_index s0)) (unat limit)"
    using st(5,6) by simp
  consider (used) "\<not> ?fr ?n" | (off) "?fr ?n" "\<not> ?c dvd (?n - unat p)"
    | (more) "?fr ?n" "?c dvd (?n - unat p)" "Suc (unat p) < ?c"
    | (found) "?fr ?n" "?c dvd (?n - unat p)" "Suc (unat p) = ?c"
    using st(8) by linarith
  then show ?thesis
  proof cases
    case used
    then have "search_inv count limit s0 (None, 0) (t\<lparr>pmm_last_used_index := ?i + 1\<rparr>)"
      using run_inv_used [OF st(4)] idx by (simp add: search_inv_def st(1,5))
    then show ?thesis using used by (simp add: pmm_inner_step_def st(11))
  next
    case off
    then have "search_inv count limit s0 (None, 0) (t\<lparr>pmm_last_used_index := ?i + 1\<rparr>)"
      using run_inv_restart [OF st(4)] idx by (simp add: search_inv_def st(1,5))
    then show ?thesis
      using off st(9,10) by (auto simp: pmm_inner_step_def st(11) u64_mod_def)
  next
    case more
    then have "search_inv count limit s0 (None, p + 1) (t\<lparr>pmm_last_used_index := ?i + 1\<rparr>)"
      using run_inv_extend [OF st(4)] idx by (simp add: search_inv_def st(1,5,7))
    moreover have "p + 1 \<noteq> count" using more(3) st(7) by auto
    ultimately show ?thesis
      using more(1,2) st(9,10) by (simp add: pmm_inner_step_def st(11) u64_mod_def)
  next
    case found
    then show ?thesis by (rule pmm_inner_step_found [OF inv lt])
  qed
qed

lemma pmm_inner_step_index:
  "count \<noteq> 0 \<Longrightarrow>
   wp (pmm_inner_step count l) (\<lambda>_ t'. pmm_last_used_index t' = pmm_last_used_index t + 1) t"
  by (simp add: pmm_inner_step_def u64_mod_def Let_def)

text \<open>What the search returns: the first free aligned run from the current index up to the limit,
  now taken; or \<open>no_page\<close> when there is none, with only the index moved.\<close>

definition search_result :: "u64 \<Rightarrow> u64 \<Rightarrow> kernel \<Rightarrow> u64 \<Rightarrow> kernel \<Rightarrow> bool" where
  "search_result count limit s ret t \<longleftrightarrow>
     (ret = no_page \<and> no_run (page_free s) (unat count) (unat (pmm_last_used_index s)) (unat limit)
        \<and> t = s\<lparr>pmm_last_used_index := MAX_u64 (pmm_last_used_index s) limit\<rparr>)
     \<or> (\<exists>b. first_run (page_free s) (unat count) (unat (pmm_last_used_index s)) (unat limit) b
          \<and> ret = of_nat b * PAGE_SIZE \<and> t = pmm_take b (unat count) s)"

lemma pmm_inner_alloc_wp:
  assumes "0 < unat count"
  shows "wp (pmm_inner_alloc count limit) (search_result count limit s) s"
proof -
  let ?M = "\<lambda>(l :: u64 option \<times> u64) t. unat limit - unat (pmm_last_used_index t)"
  have cnz: "count \<noteq> 0" using assms by auto
  have step: "wp (pmm_inner_step count l)
      (\<lambda>l' t'. search_inv count limit s l' t' \<and> ?M l' t' < ?M l t) t"
    if inv: "search_inv count limit s l t" and b: "fst l = None \<and> pmm_last_used_index t < limit" for l t
  proof -
    obtain p where l: "l = (None, p)" using b by (cases l) auto
    have lt: "unat (pmm_last_used_index t) < unat limit" using b by (simp add: word_less_nat_alt)
    then have "unat (pmm_last_used_index t + 1) = Suc (unat (pmm_last_used_index t))"
      using unat_u64_less [of limit] by (simp add: unat_word_ariths)
    moreover have "wp (pmm_inner_step count l) (\<lambda>l' t'. search_inv count limit s l' t'
        \<and> pmm_last_used_index t' = pmm_last_used_index t + 1) t"
      using inv b unfolding l
      by (intro wp_conj pmm_inner_step_index [OF cnz] pmm_inner_step_inv) simp_all
    ultimately show ?thesis using lt by (auto elim!: wp_mono)
  qed
  have init: "search_inv count limit s (None, 0) s"
    using assms by (simp add: search_inv_def run_inv_init)
  have exit: "wp (return (case fst l of None \<Rightarrow> no_page | Some ret \<Rightarrow> ret))
      (search_result count limit s) t"
    if inv: "search_inv count limit s l t" and nb: "\<not> (fst l = None \<and> pmm_last_used_index t < limit)"
    for l t
  proof (cases "fst l")
    case None
    then have "unat limit \<le> unat (pmm_last_used_index t)"
      using nb by (simp add: word_less_nat_alt)
    moreover have "run_inv (page_free s) (unat count) (unat (pmm_last_used_index s))
        (unat (pmm_last_used_index t)) (unat (snd l))"
      and t: "t = s\<lparr>pmm_last_used_index := pmm_last_used_index t\<rparr>"
      and "unat (pmm_last_used_index t) \<le> max (unat (pmm_last_used_index s)) (unat limit)"
      using inv None by (simp_all add: search_inv_def)
    ultimately have "pmm_last_used_index t = MAX_u64 (pmm_last_used_index s) limit"
      and "no_run (page_free s) (unat count) (unat (pmm_last_used_index s)) (unat limit)"
      by (auto simp: word_unat_eq_iff no_run_def dest: run_inv_bounds run_inv_none)
    then show ?thesis using None t by (simp add: search_result_def)
  next
    case (Some ret)
    then show ?thesis using inv by (auto simp: search_inv_def search_result_def)
  qed
  show ?thesis
    unfolding pmm_inner_alloc_def wp_bind
    by (rule wp_whileM [where I = "search_inv count limit s" and M = ?M])
      (use step init exit in auto)
qed

section \<open>Allocation\<close>

lemma page_free_upd [simp]:
  "page_free (s\<lparr>pmm_last_used_index := i\<rparr>) = page_free s"
  "page_free (s\<lparr>int_flag := b\<rparr>) = page_free s"
  "page_free (s\<lparr>pmm_lock := b\<rparr>) = page_free s"
  by (simp_all add: fun_eq_iff page_free_def)

lemma multiple_not_no_page [simp]: "(w :: u64) * PAGE_SIZE \<noteq> - 1"
proof
  assume "w * PAGE_SIZE = - 1"
  then have "even (- 1 :: u64)" by (metis dvd_triv_right even_numeral dvd_trans)
  then show False by simp
qed

lemmas no_page_not_multiple [simp] = multiple_not_no_page [symmetric]

text \<open>The run that \<open>pmm_alloc_nozero\<close> picks: the first from the rotating index to the last page,
  else the first below the index.\<close>

definition pmm_pick :: "kernel \<Rightarrow> nat \<Rightarrow> nat \<Rightarrow> bool" where
  "pmm_pick s c b \<longleftrightarrow>
     (let last = unat (pmm_last_used_index s); n = unat (pmm_avl_page_count s) in
      first_run (page_free s) c last n b
      \<or> (no_run (page_free s) c last n \<and> first_run (page_free s) c 0 last b))"

definition pmm_exhausted :: "kernel \<Rightarrow> nat \<Rightarrow> bool" where
  "pmm_exhausted s c \<longleftrightarrow>
     (let last = unat (pmm_last_used_index s); n = unat (pmm_avl_page_count s) in
      no_run (page_free s) c last n \<and> no_run (page_free s) c 0 last)"

lemma unlocked_same:
  "\<not> pmm_lock s \<Longrightarrow> s\<lparr>pmm_lock := False\<rparr> = s" and int_flag_same: "s\<lparr>int_flag := int_flag s\<rparr> = s"
  for s :: kernel
  by (simp_all add: pmm.upd_id)

lemma pmm_take_section:
  assumes "\<not> pmm_lock s"
  shows "(pmm_take b c (s\<lparr>int_flag := False, pmm_lock := True, pmm_last_used_index := i\<rparr>))
      \<lparr>pmm_lock := False, int_flag := int_flag s\<rparr> = pmm_take b c s"
proof -
  have "(pmm_take b c (s\<lparr>int_flag := False, pmm_lock := True, pmm_last_used_index := i\<rparr>))
      \<lparr>pmm_lock := False, int_flag := int_flag s\<rparr> =
      pmm_take b c (s\<lparr>pmm_lock := False, int_flag := int_flag s\<rparr>)"
    by (simp add: pmm_take_def)
  then show ?thesis using assms by (simp add: unlocked_same int_flag_same)
qed

lemma pmm_alloc_nozero_cases:
  assumes "0 < unat count" and "\<not> pmm_lock s"
  shows "(\<exists>b. pmm_pick s (unat count) b
      \<and> pmm_alloc_nozero count s = Ok (of_nat b * PAGE_SIZE, pmm_take b (unat count) s))
    \<or> (pmm_exhausted s (unat count) \<and> pmm_alloc_nozero count s = Panic ''Out of memory'')"
proof -
  let ?s1 = "s\<lparr>int_flag := False, pmm_lock := True\<rparr>"
  let ?c = "unat count" and ?n = "pmm_avl_page_count s" and ?last = "pmm_last_used_index s"
  note take = pmm_take_section [OF assms(2), of _ ?c ?last, simplified]
    pmm_take_section [OF assms(2), of _ ?c 0]
  obtain r1 t1 where e1: "pmm_inner_alloc count ?n ?s1 = Ok (r1, t1)"
    and sr1: "search_result count ?n ?s1 r1 t1"
    using pmm_inner_alloc_wp [OF assms(1), of ?n ?s1] by (rule wp_OkE)
  show ?thesis
  proof (cases "r1 = no_page")
    case False
    then obtain b where "first_run (page_free s) ?c (unat ?last) (unat ?n) b"
      and r1: "r1 = of_nat b * PAGE_SIZE" and t1: "t1 = pmm_take b ?c ?s1"
      using sr1 by (auto simp: search_result_def)
    then have "pmm_pick s ?c b" by (simp add: pmm_pick_def Let_def)
    moreover have "pmm_alloc_nozero count s = Ok (of_nat b * PAGE_SIZE, pmm_take b ?c s)"
      using assms e1 False t1
      by (simp add: pmm_alloc_nozero_def bind_spinlock_acquire bind_Ok r1 take return_def)
    ultimately show ?thesis by blast
  next
    case True
    then have none: "no_run (page_free s) ?c (unat ?last) (unat ?n)"
      and t1: "t1 = ?s1\<lparr>pmm_last_used_index := MAX_u64 ?last ?n\<rparr>"
      using sr1 by (auto simp: search_result_def)
    let ?s2 = "?s1\<lparr>pmm_last_used_index := 0\<rparr>"
    obtain r2 t2 where e2: "pmm_inner_alloc count ?last ?s2 = Ok (r2, t2)"
      and sr2: "search_result count ?last ?s2 r2 t2"
      using pmm_inner_alloc_wp [OF assms(1), of ?last ?s2] by (rule wp_OkE)
    show ?thesis
    proof (cases "r2 = no_page")
      case False
      then obtain b where "first_run (page_free s) ?c 0 (unat ?last) b"
        and r2: "r2 = of_nat b * PAGE_SIZE" and t2: "t2 = pmm_take b ?c ?s2"
        using sr2 by (auto simp: search_result_def)
      then have "pmm_pick s ?c b" using none by (simp add: pmm_pick_def Let_def)
      moreover have "pmm_alloc_nozero count s = Ok (of_nat b * PAGE_SIZE, pmm_take b ?c s)"
        using assms e1 e2 False True t1 t2
        by (simp add: pmm_alloc_nozero_def bind_spinlock_acquire bind_Ok r2 take return_def)
      ultimately show ?thesis by blast
    next
      case no2: True
      then have "no_run (page_free s) ?c 0 (unat ?last)"
        using sr2 by (auto simp: search_result_def)
      then have "pmm_exhausted s ?c" using none by (simp add: pmm_exhausted_def Let_def)
      moreover have "pmm_alloc_nozero count s = Panic ''Out of memory''"
        using assms e1 e2 True no2 t1
        by (simp add: pmm_alloc_nozero_def bind_spinlock_acquire bind_Ok bind_Panic panic_def)
      ultimately show ?thesis by blast
    qed
  qed
qed

section \<open>Pages, the bitmap and the allocator's invariant\<close>

text \<open>The page frame an address of the direct map belongs to; the bytes of the bitmap that hold a
  page's bit; the free pages.\<close>

definition page_of :: "kernel \<Rightarrow> u64 \<Rightarrow> nat" where
  "page_of s x = unat (x - hhdm s) div 4096"

definition bitmap_byte :: "kernel \<Rightarrow> u64 \<Rightarrow> bool" where
  "bitmap_byte s x \<longleftrightarrow>
     (\<exists>i < unat (pmm_avl_page_count s). x = pmm_bitmap s + of_nat (i div 8))"

definition free_pages :: "kernel \<Rightarrow> nat set" where
  "free_pages s = {i. i < unat (pmm_avl_page_count s) \<and> page_free s i}"

lemma finite_free_pages: "finite (free_pages s)"
  by (rule finite_subset [of _ "{..<unat (pmm_avl_page_count s)}"]) (auto simp: free_pages_def)

text \<open>\<open>block_off_bitmap s b c\<close>: no byte of the bitmap lies in the \<open>c\<close> pages from \<open>b\<close>.\<close>

definition block_off_bitmap :: "kernel \<Rightarrow> nat \<Rightarrow> nat \<Rightarrow> bool" where
  "block_off_bitmap s b c \<longleftrightarrow> (\<forall>x. bitmap_byte s x \<longrightarrow> page_of s x \<notin> {b..<b + c})"

text \<open>The invariant: the page count fits the address space, the index is within it, and the pages
  that hold the bitmap are never free.\<close>

definition pmm_wf :: "kernel \<Rightarrow> bool" where
  "pmm_wf s \<longleftrightarrow>
     unat (pmm_avl_page_count s) < 2 ^ 52
     \<and> unat (pmm_last_used_index s) \<le> unat (pmm_avl_page_count s)
     \<and> (\<forall>x. bitmap_byte s x \<longrightarrow> page_of s x \<notin> free_pages s)"

lemma pmm_wf_bound: "pmm_wf s \<Longrightarrow> unat (pmm_avl_page_count s) < 4503599627370496"
  by (simp add: pmm_wf_def)

lemma free_block_off_bitmap:
  "pmm_wf s \<Longrightarrow> {b..<b + c} \<subseteq> free_pages s \<Longrightarrow> block_off_bitmap s b c"
  by (auto simp: pmm_wf_def block_off_bitmap_def)

lemma region_page_of:
  assumes "(b + c) * 4096 \<le> 2 ^ 64"
  shows "in_region (of_nat b * PAGE_SIZE + hhdm s) (c * 4096) x \<longleftrightarrow> page_of s x \<in> {b..<b + c}"
proof (cases "c = 0")
  case True
  then show ?thesis by (simp add: in_region_def)
next
  case False
  let ?d = "x - hhdm s"
  have ub: "unat (of_nat (b * 4096) :: u64) = b * 4096"
    by (rule unat_of_nat_u64) (use assms False in simp)
  have sub: "x - (of_nat b * PAGE_SIZE + hhdm s) = ?d - of_nat (b * 4096)" by simp
  show ?thesis
  proof (cases "b * 4096 \<le> unat ?d")
    case True
    then have "unat (?d - of_nat (b * 4096)) = unat ?d - b * 4096"
      using ub by (subst unat_sub) (simp_all add: word_le_nat_alt)
    then show ?thesis
      unfolding in_region_def sub page_of_def using True
      by (auto simp: less_eq_div_iff_mult_less_eq div_less_iff_less_mult)
  next
    case lt: False
    then have "unat (?d - of_nat (b * 4096)) = 2 ^ 64 + unat ?d - b * 4096"
      using ub by (subst unat_sub_if') simp
    then show ?thesis
      unfolding in_region_def sub page_of_def using lt assms
      by (auto simp: less_eq_div_iff_mult_less_eq div_less_iff_less_mult)
  qed
qed

subsection \<open>Taking a block\<close>

lemma fold_put_bit_private:
  assumes "\<not> bitmap_byte s x" and "j \<le> unat (pmm_avl_page_count s)"
  shows "fold (put_bit v (pmm_bitmap s)) (map of_nat [i..<j]) m x = m x"
proof (rule fold_put_bit_outside)
  fix w :: u64 assume "w \<in> set (map of_nat [i..<j])"
  then obtain k where k: "k < j" "w = of_nat k" by auto
  then have "unat w = k" using assms(2) unat_u64_less [of "pmm_avl_page_count s"]
    by (simp add: unat_of_nat_u64)
  then have "w div 8 = of_nat (k div 8)" using of_nat_unat_div_8 [of w] by simp
  then show "x \<noteq> pmm_bitmap s + w div 8"
    using assms k(1) by (auto simp: bitmap_byte_def dest: spec [of _ k])
qed

lemma mem_pmm_take:
  "\<not> bitmap_byte s x \<Longrightarrow> b + c \<le> unat (pmm_avl_page_count s) \<Longrightarrow> mem (pmm_take b c s) x = mem s x"
  by (simp add: pmm_take_def fold_put_bit_private)

lemma pmm_take_simps [simp]:
  "pmm_bitmap (pmm_take b c s) = pmm_bitmap s" "pmm_avl_page_count (pmm_take b c s) = pmm_avl_page_count s"
  "hhdm (pmm_take b c s) = hhdm s" "page_of (pmm_take b c s) = page_of s"
  "bitmap_byte (pmm_take b c s) = bitmap_byte s" "pmm_lock (pmm_take b c s) = pmm_lock s"
  "int_flag (pmm_take b c s) = int_flag s" "pmm_last_used_index (pmm_take b c s) = of_nat (b + c)"
  by (simp_all add: pmm_take_def page_of_def bitmap_byte_def fun_eq_iff)

lemma page_free_pmm_take:
  assumes "i < 2 ^ 64" and "b + c \<le> 2 ^ 64"
  shows "page_free (pmm_take b c s) i \<longleftrightarrow> page_free s i \<and> i \<notin> {b..<b + c}"
proof -
  have "bitmap_bit (mem (pmm_take b c s)) (pmm_bitmap s) i \<longleftrightarrow>
      (if i \<in> {b..<b + c} then True else bitmap_bit (mem s) (pmm_bitmap s) i)"
    using bitmap_bit_fold_put_bit [OF assms(1), of True "pmm_bitmap s" "map of_nat [b..<b + c]" "mem s"]
    unfolding unat_image_upt [OF assms(2)] by (simp add: pmm_take_def)
  then show ?thesis by (auto simp: page_free_def)
qed

lemma free_pages_pmm_take:
  assumes "b + c \<le> unat (pmm_avl_page_count s)"
  shows "free_pages (pmm_take b c s) = free_pages s - {b..<b + c}"
proof -
  have "page_free (pmm_take b c s) i \<longleftrightarrow> page_free s i \<and> i \<notin> {b..<b + c}"
    if "i < unat (pmm_avl_page_count s)" for i
    using that assms unat_u64_less [of "pmm_avl_page_count s"]
    by (intro page_free_pmm_take) simp_all
  then show ?thesis by (auto simp: free_pages_def)
qed

lemma pmm_wf_pmm_take:
  assumes "pmm_wf s" and "b + c \<le> unat (pmm_avl_page_count s)"
  shows "pmm_wf (pmm_take b c s)"
proof -
  have "unat (of_nat (b + c) :: u64) = b + c"
    using assms(2) unat_u64_less [of "pmm_avl_page_count s"] by (intro unat_of_nat_u64) simp
  then show ?thesis
    using assms free_pages_pmm_take [OF assms(2)] by (auto simp: pmm_wf_def)
qed

lemma pmm_pick_block:
  assumes "pmm_wf s" and "pmm_pick s c b"
  shows "b + c \<le> unat (pmm_avl_page_count s)" and "c dvd b" and "{b..<b + c} \<subseteq> free_pages s"
proof -
  show le: "b + c \<le> unat (pmm_avl_page_count s)"
    using assms by (auto simp: pmm_pick_def pmm_wf_def first_run_def Let_def)
  have "aligned_run (page_free s) c b"
    using assms by (auto simp: pmm_pick_def first_run_def Let_def)
  then show "c dvd b" and "{b..<b + c} \<subseteq> free_pages s"
    using le by (auto simp: aligned_run_def free_pages_def)
qed

subsection \<open>Filling a block\<close>

definition fill_block :: "u64 \<Rightarrow> nat \<Rightarrow> nat \<Rightarrow> kernel \<Rightarrow> kernel" where
  "fill_block v b c s = s\<lparr>mem := fill64 (mem s) (of_nat b * PAGE_SIZE + hhdm s) (c * 512) v\<rparr>"

lemma fill_block_simps [simp]:
  "pmm_bitmap (fill_block v b c s) = pmm_bitmap s"
  "pmm_avl_page_count (fill_block v b c s) = pmm_avl_page_count s"
  "hhdm (fill_block v b c s) = hhdm s" "page_of (fill_block v b c s) = page_of s"
  "bitmap_byte (fill_block v b c s) = bitmap_byte s" "pmm_lock (fill_block v b c s) = pmm_lock s"
  "int_flag (fill_block v b c s) = int_flag s"
  "pmm_last_used_index (fill_block v b c s) = pmm_last_used_index s"
  by (simp_all add: fill_block_def page_of_def bitmap_byte_def fun_eq_iff)

lemma mem_fill_block_outside:
  assumes "(b + c) * 4096 \<le> 2 ^ 64" and "page_of s x \<notin> {b..<b + c}"
  shows "mem (fill_block v b c s) x = mem s x"
  using region_page_of [OF assms(1), of s x] assms(2)
  by (simp add: fill_block_def fill64_outside mult.commute)

lemma mem_fill_block_zero:
  assumes "(b + c) * 4096 \<le> 2 ^ 64"
  shows "mem (fill_block 0 b c s) x = (if page_of s x \<in> {b..<b + c} then 0 else mem s x)"
  using region_page_of [OF assms, of s x]
  by (simp add: fill_block_def fill64_zero mult.commute)

lemma page_free_fill_block:
  assumes "block_off_bitmap s b c" and "(b + c) * 4096 \<le> 2 ^ 64"
    and "i < unat (pmm_avl_page_count s)"
  shows "page_free (fill_block v b c s) i = page_free s i"
proof -
  have "bitmap_byte s (pmm_bitmap s + of_nat (i div 8))"
    using assms(3) by (auto simp: bitmap_byte_def)
  then have "page_of s (pmm_bitmap s + of_nat (i div 8)) \<notin> {b..<b + c}"
    using assms(1) by (simp add: block_off_bitmap_def)
  then show ?thesis
    using mem_fill_block_outside [OF assms(2)] by (simp add: page_free_def bitmap_bit_def)
qed

lemma free_pages_fill_block:
  assumes "block_off_bitmap s b c" and "(b + c) * 4096 \<le> 2 ^ 64"
  shows "free_pages (fill_block v b c s) = free_pages s"
  using page_free_fill_block [OF assms] by (auto simp: free_pages_def)

lemma pmm_wf_fill_block:
  assumes "block_off_bitmap s b c" and "(b + c) * 4096 \<le> 2 ^ 64" and "pmm_wf s"
  shows "pmm_wf (fill_block v b c s)"
  using free_pages_fill_block [OF assms(1,2)] assms(3) by (simp add: pmm_wf_def)

lemma words_of_block:
  assumes "unat count < 2 ^ 52"
  shows "unat ((count * PAGE_SIZE) div 8) = unat count * 512"
proof -
  have "unat (count * PAGE_SIZE) = unat count * 4096"
    using assms by (subst unat_mult_lem [THEN iffD1]) simp_all
  then show ?thesis by simp
qed

lemma write_block:
  assumes "unat count < 2 ^ 52"
  shows "for_range 0 ((count * PAGE_SIZE) div 8)
      (\<lambda>i. write64 (of_nat b * PAGE_SIZE + hhdm s + i * 8) v) s = Ok ((), fill_block v b (unat count) s)"
  using assms
  by (subst for_range_write64) (simp_all only: words_of_block [OF assms] fill_block_def, simp)

lemma pmm_alloc_cases:
  assumes "pmm_wf s" and "0 < unat count" and "\<not> pmm_lock s"
  shows "(\<exists>b. pmm_pick s (unat count) b \<and> pmm_alloc count s =
        Ok (of_nat b * PAGE_SIZE, fill_block 0 b (unat count) (pmm_take b (unat count) s)))
    \<or> (pmm_exhausted s (unat count) \<and> pmm_alloc count s = Panic ''Out of memory'')"
  using pmm_alloc_nozero_cases [OF assms(2,3)]
proof (elim disjE exE conjE)
  fix b
  assume pick: "pmm_pick s (unat count) b"
    and ok: "pmm_alloc_nozero count s = Ok (of_nat b * PAGE_SIZE, pmm_take b (unat count) s)"
  have "unat count < 2 ^ 52"
    using pmm_pick_block(1) [OF assms(1) pick] pmm_wf_bound [OF assms(1)] by simp
  from write_block [OF this, of b "pmm_take b (unat count) s" 0]
  have "pmm_alloc count s =
      Ok (of_nat b * PAGE_SIZE, fill_block 0 b (unat count) (pmm_take b (unat count) s))"
    by (simp add: pmm_alloc_def bind_Ok ok return_def)
  with pick show ?thesis by blast
next
  assume "pmm_exhausted s (unat count)" and "pmm_alloc_nozero count s = Panic ''Out of memory''"
  then show ?thesis by (simp add: pmm_alloc_def bind_Panic)
qed

section \<open>Freeing\<close>

definition pmm_give :: "nat \<Rightarrow> nat \<Rightarrow> kernel \<Rightarrow> kernel" where
  "pmm_give b c s =
     s\<lparr>mem := fold (put_bit False (pmm_bitmap s)) (map of_nat [b..<b + c]) (mem s)\<rparr>"

lemma pmm_give_simps [simp]:
  "pmm_bitmap (pmm_give b c s) = pmm_bitmap s" "pmm_avl_page_count (pmm_give b c s) = pmm_avl_page_count s"
  "hhdm (pmm_give b c s) = hhdm s" "page_of (pmm_give b c s) = page_of s"
  "bitmap_byte (pmm_give b c s) = bitmap_byte s" "pmm_lock (pmm_give b c s) = pmm_lock s"
  "int_flag (pmm_give b c s) = int_flag s"
  "pmm_last_used_index (pmm_give b c s) = pmm_last_used_index s"
  by (simp_all add: pmm_give_def page_of_def bitmap_byte_def fun_eq_iff)

lemma mem_pmm_give:
  "\<not> bitmap_byte s x \<Longrightarrow> b + c \<le> unat (pmm_avl_page_count s) \<Longrightarrow> mem (pmm_give b c s) x = mem s x"
  by (simp add: pmm_give_def fold_put_bit_private)

lemma free_pages_pmm_give:
  assumes "b + c \<le> unat (pmm_avl_page_count s)"
  shows "free_pages (pmm_give b c s) = free_pages s \<union> {b..<b + c}"
proof -
  have le: "b + c \<le> 2 ^ 64" using assms unat_u64_less [of "pmm_avl_page_count s"] by simp
  have "bitmap_bit (mem (pmm_give b c s)) (pmm_bitmap s) i \<longleftrightarrow>
      (if i \<in> {b..<b + c} then False else bitmap_bit (mem s) (pmm_bitmap s) i)"
    if "i < unat (pmm_avl_page_count s)" for i
  proof -
    have "i < 2 ^ 64" using that unat_u64_less [of "pmm_avl_page_count s"] by simp
    from bitmap_bit_fold_put_bit [OF this, of False "pmm_bitmap s" "map of_nat [b..<b + c]" "mem s"]
    show ?thesis unfolding unat_image_upt [OF le] by (simp add: pmm_give_def)
  qed
  then show ?thesis using assms by (auto simp: free_pages_def page_free_def split: if_splits)
qed

lemma pmm_wf_pmm_give:
  assumes "pmm_wf s" and "b + c \<le> unat (pmm_avl_page_count s)" and "block_off_bitmap s b c"
  shows "pmm_wf (pmm_give b c s)"
  using assms free_pages_pmm_give [OF assms(2)] by (auto simp: pmm_wf_def block_off_bitmap_def)

lemma pmm_give_section:
  assumes "\<not> pmm_lock s"
  shows "(pmm_give b c (s\<lparr>int_flag := False, pmm_lock := True\<rparr>))
      \<lparr>pmm_lock := False, int_flag := int_flag s\<rparr> = pmm_give b c s"
proof -
  have "(pmm_give b c (s\<lparr>int_flag := False, pmm_lock := True\<rparr>))
      \<lparr>pmm_lock := False, int_flag := int_flag s\<rparr> =
      pmm_give b c (s\<lparr>pmm_lock := False, int_flag := int_flag s\<rparr>)"
    by (simp add: pmm_give_def)
  then show ?thesis using assms by (simp add: unlocked_same int_flag_same)
qed

lemma pmm_free_eq:
  assumes "pmm_wf s" and "\<not> pmm_lock s" and "b + unat count \<le> unat (pmm_avl_page_count s)"
  shows "pmm_free (of_nat b * PAGE_SIZE) count s =
    Ok ((), pmm_give b (unat count) (fill_block 0xaaaaaaaaaaaaaaaa b (unat count) s))"
proof -
  let ?s1 = "fill_block 0xaaaaaaaaaaaaaaaa b (unat count) s"
  have c: "unat count < 2 ^ 52" and b: "b < 2 ^ 52"
    using assms pmm_wf_bound [OF assms(1)] by simp_all
  have ub: "unat (of_nat b :: u64) = b" by (rule unat_of_nat_u64) (use b in simp)
  have "unat (of_nat b * PAGE_SIZE :: u64) = b * 4096"
    using b ub by (subst unat_mult_lem [THEN iffD1]) simp_all
  then have page: "(of_nat b * PAGE_SIZE :: u64) div PAGE_SIZE = of_nat b"
    using ub by (simp add: word_unat_eq_iff unat_div)
  have top: "unat (of_nat b + count) = b + unat count"
    using ub assms(3) unat_u64_less [of "pmm_avl_page_count s"]
    by (subst unat_add_lem [THEN iffD1]) simp_all
  note fill = write_block [OF c, of b s "0xaaaaaaaaaaaaaaaa"]
  have "bind (for_range (of_nat b) (of_nat b + count) (bit_reset (pmm_bitmap s))) g t =
      g () (pmm_give b (unat count) t)" if "pmm_bitmap t = pmm_bitmap s" for g :: "unit \<Rightarrow> unit kprog" and t
    using that by (simp add: bind_Ok for_range_bit_reset ub top pmm_give_def)
  then show ?thesis
    using assms(2)
    using pmm_give_section [of ?s1 b "unat count"]
    by (simp add: pmm_free_def Let_def bind_Ok fill page bind_spinlock_acquire return_def)
qed

end
