(* ===== verification/Page_Source.thy ===== *)
theory Page_Source
  imports Pmm
begin

text \<open>
  The interface of the physical page allocator: what its clients (\<open>lib/alloc.c\<close>,
  \<open>mm/slab.c\<close>, \<open>mm/vmm.c\<close>) rely on, as locales, with what follows for every client, and their
  interpretation on \<open>pmm_alloc_nozero\<close>, \<open>pmm_alloc\<close> and \<open>pmm_free\<close>.
\<close>

section \<open>The contract\<close>

text \<open>\<open>avail\<close> are the pages that can be handed out and \<open>own_bytes\<close> the bytes the allocator keeps
  for itself. A request that returns hands out an aligned block of available pages, and changes no
  memory but its own_bytes bytes and the block.\<close>

definition block_of :: "u64 \<Rightarrow> u64 \<Rightarrow> nat set" where
  "block_of p c = {unat p div 4096 ..< unat p div 4096 + unat c}"

definition alloc_frame :: "kernel \<Rightarrow> kernel \<Rightarrow> bool" where
  "alloc_frame s t \<longleftrightarrow> (\<exists>i m. t = s\<lparr>pmm_last_used_index := i, mem := m\<rparr>)"

locale page_source =
  fixes palloc :: "u64 \<Rightarrow> u64 kprog"
    and inv :: "kernel \<Rightarrow> bool"
    and avail :: "kernel \<Rightarrow> nat set"
    and own_bytes :: "kernel \<Rightarrow> u64 \<Rightarrow> bool"
  assumes palloc_inv: "inv s \<Longrightarrow> 0 < unat c \<Longrightarrow> palloc c s = Ok (p, t) \<Longrightarrow> inv t"
    and palloc_frame: "inv s \<Longrightarrow> 0 < unat c \<Longrightarrow> palloc c s = Ok (p, t) \<Longrightarrow> alloc_frame s t"
    and palloc_addr: "inv s \<Longrightarrow> 0 < unat c \<Longrightarrow> palloc c s = Ok (p, t) \<Longrightarrow>
      unat p mod (4096 * unat c) = 0 \<and> unat p + 4096 * unat c < 2 ^ 64"
    and palloc_avail: "inv s \<Longrightarrow> 0 < unat c \<Longrightarrow> palloc c s = Ok (p, t) \<Longrightarrow>
      block_of p c \<subseteq> avail s \<and> avail t = avail s - block_of p c"
    and palloc_mem: "inv s \<Longrightarrow> 0 < unat c \<Longrightarrow> palloc c s = Ok (p, t) \<Longrightarrow>
      \<not> own_bytes s x \<Longrightarrow> page_of s x \<notin> block_of p c \<Longrightarrow> mem t x = mem s x"
    and own_avail: "inv s \<Longrightarrow> own_bytes s x \<Longrightarrow> page_of s x \<notin> avail s"
    and own_frame: "alloc_frame s t \<Longrightarrow> own_bytes t = own_bytes s"

text \<open>A run of requests, in order.\<close>

fun alloc_all :: "(u64 \<Rightarrow> u64 kprog) \<Rightarrow> u64 list \<Rightarrow> u64 list kprog" where
  "alloc_all palloc [] = return []"
| "alloc_all palloc (c # cs) =
     bind (palloc c) (\<lambda>p. bind (alloc_all palloc cs) (\<lambda>ps. return (p # ps)))"

lemma alloc_frame_fields:
  assumes "alloc_frame s t"
  shows "page_of t = page_of s" and "hhdm t = hhdm s" and "pmm_lock t = pmm_lock s"
    and "int_flag t = int_flag s" and "bitmap_byte t = bitmap_byte s"
  using assms by (auto simp: alloc_frame_def page_of_def bitmap_byte_def fun_eq_iff)

lemma alloc_frame_refl: "alloc_frame s s"
  unfolding alloc_frame_def by (rule exI [of _ "pmm_last_used_index s"], rule exI [of _ "mem s"]) simp

lemma alloc_frame_trans: "alloc_frame s t \<Longrightarrow> alloc_frame t u \<Longrightarrow> alloc_frame s u"
  by (clarsimp simp: alloc_frame_def) blast

context page_source
begin

text \<open>Every block a run of requests returns was available at the start, the blocks are pairwise
  disjoint, and memory outside them and the allocator's own bytes is unchanged.\<close>

lemma alloc_all_disjoint:
  assumes "inv s" and "\<forall>c \<in> set cs. 0 < unat c" and "alloc_all palloc cs s = Ok (ps, t)"
  shows "length ps = length cs \<and> inv t \<and> alloc_frame s t
    \<and> avail t = avail s - \<Union> (set (map2 block_of ps cs))
    \<and> (\<forall>B \<in> set (map2 block_of ps cs). B \<subseteq> avail s)
    \<and> sorted_wrt (\<lambda>A B. A \<inter> B = {}) (map2 block_of ps cs)"
  using assms
proof (induction cs arbitrary: s ps)
  case Nil
  then show ?case by (simp add: return_def alloc_frame_refl)
next
  case (Cons c cs)
  from Cons.prems(3) obtain p u qs where p: "palloc c s = Ok (p, u)"
    and qs: "alloc_all palloc cs u = Ok (qs, t)" and ps: "ps = p # qs"
    by (auto simp: bind_eq_Ok_iff return_def)
  have c: "0 < unat c" using Cons.prems(2) by simp
  note first = palloc_inv [OF Cons.prems(1) c p] palloc_frame [OF Cons.prems(1) c p]
    palloc_avail [OF Cons.prems(1) c p]
  note IH = Cons.IH [OF first(1) _ qs]
  have "B \<subseteq> avail s - block_of p c" if "B \<in> set (map2 block_of qs cs)" for B
    using that IH Cons.prems(2) first(3) by auto
  then show ?case
    using IH Cons.prems(2) first unfolding ps by (auto intro: alloc_frame_trans)
qed

end

text \<open>An allocator whose blocks come zeroed, and one that takes blocks back.\<close>

locale zeroing_page_source = page_source +
  assumes palloc_zero: "inv s \<Longrightarrow> 0 < unat c \<Longrightarrow> palloc c s = Ok (p, t) \<Longrightarrow>
      page_of s x \<in> block_of p c \<Longrightarrow> mem t x = 0"

text \<open>An allocator that takes blocks back: a block it handed out, or any other block off its own
  bytes, becomes available again, and only that block's memory and its own bytes change.\<close>

locale page_heap = page_source +
  fixes pfree :: "u64 \<Rightarrow> u64 \<Rightarrow> unit kprog"
  assumes pfree_Ok: "inv s \<Longrightarrow> unat p mod 4096 = 0 \<Longrightarrow>
      unat p div 4096 + unat c \<le> unat (pmm_avl_page_count s) \<Longrightarrow>
      (\<And>x. own_bytes s x \<Longrightarrow> page_of s x \<notin> block_of p c) \<Longrightarrow>
      \<exists>t. pfree p c s = Ok ((), t) \<and> inv t \<and> alloc_frame s t
        \<and> avail t = avail s \<union> block_of p c
        \<and> (\<forall>x. \<not> own_bytes s x \<and> page_of s x \<notin> block_of p c \<longrightarrow> mem t x = mem s x)"
    and avail_bound: "inv s \<Longrightarrow> i \<in> avail s \<Longrightarrow> i < unat (pmm_avl_page_count s)"
begin

text \<open>Allocating a block and giving it back: the same pages are available as before.\<close>

lemma alloc_free_avail:
  assumes "inv s" and "0 < unat c" and "palloc c s = Ok (p, t)"
  shows "\<exists>u. pfree p c t = Ok ((), u) \<and> inv u \<and> avail u = avail s
    \<and> (\<forall>x. \<not> own_bytes s x \<and> page_of s x \<notin> block_of p c \<longrightarrow> mem u x = mem s x)"
proof -
  note alloc = palloc_inv [OF assms] palloc_frame [OF assms] palloc_avail [OF assms]
  note same = alloc_frame_fields(1) [OF alloc(2)] own_frame [OF alloc(2)]
  have count: "pmm_avl_page_count t = pmm_avl_page_count s"
    using alloc(2) by (auto simp: alloc_frame_def)
  have "unat p mod (4096 * unat c) = 0" using palloc_addr [OF assms] by simp
  then have "unat p mod 4096 = 0" by (metis dvd_triv_left dvd_trans mod_0_imp_dvd dvd_imp_mod_0)
  note aligned = this
  have "unat p div 4096 + unat c - 1 \<in> block_of p c"
    using assms(2) by (auto simp: block_of_def)
  then have "unat p div 4096 + unat c - 1 < unat (pmm_avl_page_count s)"
    using alloc(3) avail_bound [OF assms(1)] by blast
  then have fits: "unat p div 4096 + unat c \<le> unat (pmm_avl_page_count t)" using count by simp
  have off: "page_of t x \<notin> block_of p c" if "own_bytes t x" for x
    using that alloc(3) own_avail [OF assms(1), of x] same by auto
  obtain u where "pfree p c t = Ok ((), u)" "inv u" "avail u = avail t \<union> block_of p c"
    and mem: "\<forall>x. \<not> own_bytes t x \<and> page_of t x \<notin> block_of p c \<longrightarrow> mem u x = mem t x"
    using pfree_Ok [OF alloc(1) aligned fits off] by blast
  moreover have "avail u = avail s" using calculation alloc(3) by auto
  moreover have "mem u x = mem s x" if "\<not> own_bytes s x" "page_of s x \<notin> block_of p c" for x
    using that mem same palloc_mem [OF assms that] by simp
  ultimately show ?thesis by blast
qed

end

section \<open>The physical page allocator keeps the contract\<close>

definition pmm_ready :: "kernel \<Rightarrow> bool" where
  "pmm_ready s \<longleftrightarrow> pmm_wf s \<and> \<not> pmm_lock s"

lemma unat_page_addr:
  assumes "b < 2 ^ 52"
  shows "unat (of_nat b * PAGE_SIZE :: u64) = b * 4096"
proof -
  have "unat (of_nat b :: u64) = b" by (rule unat_of_nat_u64) (use assms in simp)
  then show ?thesis using assms by (subst unat_mult_lem [THEN iffD1]) simp_all
qed

text \<open>What a returned request amounts to, for both entry points.\<close>

lemma picked_block:
  assumes "pmm_ready s" and "pmm_pick s (unat c) b" and "p = of_nat b * PAGE_SIZE"
  shows "block_of p c = {b..<b + unat c}" and "unat p mod (4096 * unat c) = 0"
    and "unat p + 4096 * unat c < 2 ^ 64" and "(b + unat c) * 4096 \<le> 2 ^ 64"
    and "block_of p c \<subseteq> free_pages s" and "b + unat c \<le> unat (pmm_avl_page_count s)"
proof -
  have wf: "pmm_wf s" using assms(1) by (simp add: pmm_ready_def)
  note pick = pmm_pick_block [OF wf assms(2)]
  have bound: "b + unat c < 4503599627370496" using pick(1) pmm_wf_bound [OF wf] by simp
  then have p: "unat p = b * 4096" unfolding assms(3) by (intro unat_page_addr) simp
  then show "block_of p c = {b..<b + unat c}" by (simp add: block_of_def)
  then show "block_of p c \<subseteq> free_pages s" using pick(3) by simp
  show "unat p mod (4096 * unat c) = 0" using pick(2) p by (auto simp: mult.commute)
  show "unat p + 4096 * unat c < 2 ^ 64" "(b + unat c) * 4096 \<le> 2 ^ 64"
    using bound p by simp_all
  show "b + unat c \<le> unat (pmm_avl_page_count s)" by (rule pick(1))
qed

lemma pmm_alloc_nozero_OkD:
  assumes "pmm_ready s" and "0 < unat c" and "pmm_alloc_nozero c s = Ok (p, t)"
  obtains b where "pmm_pick s (unat c) b" "p = of_nat b * PAGE_SIZE" "t = pmm_take b (unat c) s"
  using pmm_alloc_nozero_cases [OF assms(2), of s] assms(1,3) by (auto simp: pmm_ready_def)

lemma pmm_alloc_OkD:
  assumes "pmm_ready s" and "0 < unat c" and "pmm_alloc c s = Ok (p, t)"
  obtains b where "pmm_pick s (unat c) b" "p = of_nat b * PAGE_SIZE"
    "t = fill_block 0 b (unat c) (pmm_take b (unat c) s)"
  using pmm_alloc_cases [of s c] assms by (auto simp: pmm_ready_def)

lemma alloc_frame_take: "alloc_frame s (pmm_take b c s)"
  by (auto simp: alloc_frame_def pmm_take_def)

lemma alloc_frame_fill: "alloc_frame s t \<Longrightarrow> alloc_frame s (fill_block v b c t)"
  unfolding alloc_frame_def fill_block_def by clarsimp blast

lemma block_off_bitmap_same:
  "block_off_bitmap (pmm_take b c s) = block_off_bitmap s"
  "block_off_bitmap (fill_block v b c s) = block_off_bitmap s"
  by (simp_all add: block_off_bitmap_def fun_eq_iff)

lemma pmm_ready_take:
  assumes "pmm_ready s" and "pmm_pick s (unat c) b"
  shows "pmm_ready (pmm_take b (unat c) s)"
  using assms pmm_pick_block(1) [of s "unat c" b] pmm_wf_pmm_take
  by (simp add: pmm_ready_def)

interpretation raw_pages: page_source pmm_alloc_nozero pmm_ready free_pages bitmap_byte
proof
  fix s t and c p x :: u64
  assume s: "pmm_ready s" and c: "0 < unat c"
  assume r: "pmm_alloc_nozero c s = Ok (p, t)"
  obtain b where b: "pmm_pick s (unat c) b" "p = of_nat b * PAGE_SIZE" "t = pmm_take b (unat c) s"
    using pmm_alloc_nozero_OkD [OF s c r] .
  note blk = picked_block [OF s b(1,2)]
  show "pmm_ready t" using pmm_ready_take [OF s b(1)] b(3) by simp
  show "alloc_frame s t" using b(3) by (simp add: alloc_frame_take)
  show "unat p mod (4096 * unat c) = 0 \<and> unat p + 4096 * unat c < 2 ^ 64" using blk by blast
  show "block_of p c \<subseteq> free_pages s \<and> free_pages t = free_pages s - block_of p c"
    using blk b(3) by (simp add: free_pages_pmm_take)
  show "mem t x = mem s x" if "\<not> bitmap_byte s x"
    using that blk(6) b(3) by (simp add: mem_pmm_take)
next
  fix s x
  assume "pmm_ready s" and "bitmap_byte s x"
  then show "page_of s x \<notin> free_pages s" by (simp add: pmm_ready_def pmm_wf_def)
next
  fix s t
  assume "alloc_frame s t"
  then show "bitmap_byte t = bitmap_byte s" by (rule alloc_frame_fields)
qed

interpretation pages: zeroing_page_source pmm_alloc pmm_ready free_pages bitmap_byte
proof
  fix s t and c p x :: u64
  assume s: "pmm_ready s" and c: "0 < unat c" and r: "pmm_alloc c s = Ok (p, t)"
  obtain b where b: "pmm_pick s (unat c) b" "p = of_nat b * PAGE_SIZE"
    "t = fill_block 0 b (unat c) (pmm_take b (unat c) s)"
    using pmm_alloc_OkD [OF s c r] .
  note blk = picked_block [OF s b(1,2)]
  have off: "block_off_bitmap s b (unat c)"
    using s blk by (intro free_block_off_bitmap) (simp_all add: pmm_ready_def)
  note fill = off [folded block_off_bitmap_same(1) [of b "unat c" s]] blk(4)
  have take: "pmm_ready (pmm_take b (unat c) s)" by (rule pmm_ready_take [OF s b(1)])
  then show "pmm_ready t"
    using pmm_wf_fill_block [OF fill] b(3) by (simp add: pmm_ready_def)
  show "alloc_frame s t" using b(3) by (simp add: alloc_frame_take alloc_frame_fill)
  show "unat p mod (4096 * unat c) = 0 \<and> unat p + 4096 * unat c < 2 ^ 64" using blk by blast
  show "block_of p c \<subseteq> free_pages s \<and> free_pages t = free_pages s - block_of p c"
    using blk b(3) free_pages_fill_block [OF fill] by (simp add: free_pages_pmm_take)
  show "mem t x = mem s x" if "\<not> bitmap_byte s x" "page_of s x \<notin> block_of p c"
    using that blk b(3) by (simp add: mem_pmm_take mem_fill_block_outside)
  show "mem t x = 0" if "page_of s x \<in> block_of p c"
    using that blk b(3) by (simp add: mem_fill_block_zero)
next
  fix s x
  assume "pmm_ready s" and "bitmap_byte s x"
  then show "page_of s x \<notin> free_pages s" by (rule raw_pages.own_avail)
next
  fix s t
  assume "alloc_frame s t"
  then show "bitmap_byte t = bitmap_byte s" by (rule raw_pages.own_frame)
qed

lemma pmm_free_Ok:
  assumes s: "pmm_ready s" and al: "unat p mod 4096 = 0"
    and fits: "unat p div 4096 + unat c \<le> unat (pmm_avl_page_count s)"
    and off: "\<And>x. bitmap_byte s x \<Longrightarrow> page_of s x \<notin> block_of p c"
  shows "\<exists>t. pmm_free p c s = Ok ((), t) \<and> pmm_ready t \<and> alloc_frame s t
    \<and> free_pages t = free_pages s \<union> block_of p c
    \<and> (\<forall>x. \<not> bitmap_byte s x \<and> page_of s x \<notin> block_of p c \<longrightarrow> mem t x = mem s x)"
proof -
  define b where "b = unat p div 4096"
  let ?c = "unat c"
  let ?f = "fill_block 0xaaaaaaaaaaaaaaaa b ?c s"
  have wf: "pmm_wf s" and lock: "\<not> pmm_lock s" using s by (simp_all add: pmm_ready_def)
  have bound: "b + ?c < 4503599627370496" using fits pmm_wf_bound [OF wf] by (simp add: b_def)
  have le: "b + ?c \<le> unat (pmm_avl_page_count s)" using fits by (simp add: b_def)
  have "unat p = b * 4096" using al by (auto simp: b_def)
  moreover have "unat (of_nat b * PAGE_SIZE :: u64) = b * 4096" using bound by (intro unat_page_addr) simp
  ultimately have p: "p = of_nat b * PAGE_SIZE" by (simp add: word_unat_eq_iff)
  have blk: "block_of p c = {b..<b + ?c}" by (simp add: block_of_def b_def)
  have offb: "block_off_bitmap s b ?c" using off blk by (simp add: block_off_bitmap_def)
  have small: "(b + ?c) * 4096 \<le> 2 ^ 64" using bound by simp
  have "pmm_wf (pmm_give b ?c ?f)"
    using pmm_wf_pmm_give pmm_wf_fill_block [OF offb small wf] offb le
    by (simp add: block_off_bitmap_same)
  moreover have "alloc_frame s (pmm_give b ?c ?f)"
    using alloc_frame_fill [OF alloc_frame_refl, of s "0xaaaaaaaaaaaaaaaa" b ?c]
    unfolding alloc_frame_def pmm_give_def by clarsimp blast
  moreover have "free_pages (pmm_give b ?c ?f) = free_pages s \<union> block_of p c"
    using free_pages_pmm_give [of b ?c ?f] le free_pages_fill_block [OF offb small] blk by simp
  moreover have "mem (pmm_give b ?c ?f) x = mem s x"
    if "\<not> bitmap_byte s x" "page_of s x \<notin> block_of p c" for x
    using that le small blk by (simp add: mem_pmm_give mem_fill_block_outside)
  ultimately show ?thesis
    unfolding p using pmm_free_eq [OF wf lock le] lock by (auto simp: pmm_ready_def)
qed

interpretation page_store: page_heap pmm_alloc pmm_ready free_pages bitmap_byte pmm_free
proof
  fix s p c
  assume "pmm_ready s" and "unat p mod 4096 = 0"
    and "unat p div 4096 + unat c \<le> unat (pmm_avl_page_count s)"
    and "\<And>x. bitmap_byte s x \<Longrightarrow> page_of s x \<notin> block_of p c"
  then show "\<exists>t. pmm_free p c s = Ok ((), t) \<and> pmm_ready t \<and> alloc_frame s t
        \<and> free_pages t = free_pages s \<union> block_of p c
        \<and> (\<forall>x. \<not> bitmap_byte s x \<and> page_of s x \<notin> block_of p c \<longrightarrow> mem t x = mem s x)"
    by (rule pmm_free_Ok)
next
  fix s i
  assume "i \<in> free_pages s"
  then show "i < unat (pmm_avl_page_count s)" by (simp add: free_pages_def)
qed

section \<open>Clients writing memory\<close>

text \<open>A write that misses the bitmap does not concern the allocator.\<close>

lemma page_free_mem_update:
  assumes "\<And>x. bitmap_byte s x \<Longrightarrow> m x = mem s x" and "i < unat (pmm_avl_page_count s)"
  shows "page_free (s\<lparr>mem := m\<rparr>) i = page_free s i"
proof -
  have "bitmap_byte s (pmm_bitmap s + of_nat (i div 8))"
    using assms(2) by (auto simp: bitmap_byte_def)
  from assms(1) [OF this] show ?thesis by (simp add: page_free_def bitmap_bit_def)
qed

lemma page_of_mem_update [simp]: "page_of (s\<lparr>mem := m\<rparr>) = page_of s"
  by (simp add: page_of_def fun_eq_iff)

lemma bitmap_byte_mem_update [simp]: "bitmap_byte (s\<lparr>mem := m\<rparr>) = bitmap_byte s"
  by (simp add: bitmap_byte_def fun_eq_iff)

lemma pmm_mem_update:
  assumes "\<And>x. bitmap_byte s x \<Longrightarrow> m x = mem s x"
  shows "free_pages (s\<lparr>mem := m\<rparr>) = free_pages s" and "pmm_ready (s\<lparr>mem := m\<rparr>) = pmm_ready s"
proof -
  show *: "free_pages (s\<lparr>mem := m\<rparr>) = free_pages s"
    using page_free_mem_update [OF assms] by (auto simp: free_pages_def)
  show "pmm_ready (s\<lparr>mem := m\<rparr>) = pmm_ready s"
    by (simp add: pmm_ready_def pmm_wf_def *)
qed

lemma alloc_frame_mem_update: "alloc_frame s t \<Longrightarrow> alloc_frame s (t\<lparr>mem := m\<rparr>)"
  unfolding alloc_frame_def by clarsimp blast

text \<open>The direct-map addresses of a block.\<close>

lemma region_block_of:
  assumes "4096 dvd unat p" and "unat p + 4096 * unat c \<le> 2 ^ 64"
  shows "in_region (p + hhdm s) (4096 * unat c) x \<longleftrightarrow> page_of s x \<in> block_of p c"
proof -
  let ?b = "unat p div 4096"
  have b: "?b * 4096 = unat p" using assms(1) by simp
  then have "of_nat (?b * 4096) = p" by simp
  then have "of_nat ?b * PAGE_SIZE = p" by (simp only: of_nat_mult of_nat_numeral)
  moreover have "(?b + unat c) * 4096 \<le> 2 ^ 64" using assms b by simp
  ultimately show ?thesis
    using region_page_of [of ?b "unat c" s x] by (simp add: block_of_def mult.commute)
qed

section \<open>Single pages\<close>

lemma exhausted_one:
  assumes "pmm_ready s"
  shows "pmm_exhausted s 1 \<longleftrightarrow> free_pages s = {}"
proof -
  have one: "no_run f 1 lo hi \<longleftrightarrow> (\<forall>b. lo \<le> b \<and> b < hi \<longrightarrow> \<not> f b)" for f lo hi
    by (auto simp: no_run_def aligned_run_def less_Suc_eq)
  have "pmm_exhausted s 1 \<longleftrightarrow> (\<forall>b. b < unat (pmm_avl_page_count s) \<longrightarrow> \<not> page_free s b)"
    using assms unfolding pmm_exhausted_def one Let_def
    by (auto simp: pmm_ready_def pmm_wf_def) (metis not_le)
  then show ?thesis by (auto simp: free_pages_def)
qed

lemma pmm_alloc_one:
  assumes s: "pmm_ready s" and "free_pages s \<noteq> {}"
  shows "\<exists>q t. pmm_alloc 1 s = Ok (of_nat q * PAGE_SIZE, t) \<and> q \<in> free_pages s
    \<and> free_pages t = free_pages s - {q} \<and> pmm_ready t \<and> alloc_frame s t
    \<and> (\<forall>x. page_of s x = q \<longrightarrow> mem t x = 0)
    \<and> (\<forall>x. page_of s x \<noteq> q \<and> \<not> bitmap_byte s x \<longrightarrow> mem t x = mem s x)"
proof -
  have wf: "pmm_wf s" "\<not> pmm_lock s" using s by (simp_all add: pmm_ready_def)
  have one: "0 < unat (1 :: u64)" by simp
  obtain q t where r: "pmm_alloc 1 s = Ok (of_nat q * PAGE_SIZE, t)" and q: "pmm_pick s (unat (1 :: u64)) q"
    using pmm_alloc_cases [OF wf(1) one wf(2)] exhausted_one [OF s] assms(2) by auto
  have b: "block_of (of_nat q * PAGE_SIZE) 1 = {q}" using picked_block(1) [OF s q refl] by auto
  show ?thesis
    using r pages.palloc_inv [OF s one r] pages.palloc_avail [OF s one r, unfolded b]
      pages.palloc_frame [OF s one r] pages.palloc_zero [OF s one r, unfolded b]
      pages.palloc_mem [OF s one r, unfolded b] by blast
qed

section \<open>A concrete allocator\<close>

text \<open>Eight free pages, the bitmap in the ninth: the state the examples of the development run on.\<close>

definition eight_pages :: kernel where
  "eight_pages = blank_kernel\<lparr>pmm_bitmap := 0x8000, pmm_avl_page_count := 8\<rparr>"

lemma eight_pages_ready: "pmm_ready eight_pages"
  by (auto simp: pmm_ready_def pmm_wf_def eight_pages_def blank_kernel_def bitmap_byte_def
      free_pages_def page_of_def)

lemma eight_pages_free: "page_free eight_pages i"
  by (simp add: eight_pages_def blank_kernel_def page_free_def bitmap_bit_def)

lemma eight_pages_count:
  "pmm_avl_page_count eight_pages = 8" "pmm_last_used_index eight_pages = 0"
  by (simp_all add: eight_pages_def blank_kernel_def)

lemma eight_pages_run:
  assumes "c dvd 8" and "c \<le> 8" and "0 < c"
  shows "first_run (page_free eight_pages) c 0 8 0"
  using assms by (simp add: first_run_def aligned_run_def eight_pages_free)

lemma eight_pages_exhausted: "pmm_exhausted eight_pages c \<longleftrightarrow> 8 < c"
  by (auto simp: pmm_exhausted_def Let_def eight_pages_count no_run_def aligned_run_def
      eight_pages_free dest: spec [of _ 0])

lemma eight_pages_alloc_Ok:
  "0 < unat c \<Longrightarrow> unat c \<le> 8 \<Longrightarrow> \<exists>p t. pmm_alloc_nozero c eight_pages = Ok (p, t)"
  using pmm_alloc_nozero_cases [of c eight_pages] eight_pages_ready eight_pages_exhausted
  by (auto simp: pmm_ready_def)

lemma eight_pages_zalloc_Ok:
  "0 < unat c \<Longrightarrow> unat c \<le> 8 \<Longrightarrow> \<exists>p t. pmm_alloc c eight_pages = Ok (p, t)"
  using pmm_alloc_cases [of eight_pages c] eight_pages_ready eight_pages_exhausted
  by (auto simp: pmm_ready_def)

end
