(* ===== verification/Pmm_Init.thy ===== *)
theory Pmm_Init
  imports Page_Source
begin

text \<open>
  What \<open>pmm_init\<close> establishes: on a memory map that keeps the boot protocol's promises, exactly
  the usable pages outside the bitmap are free afterwards and the allocator's invariant holds.
\<close>

section \<open>The memory map\<close>

definition is_ram :: "memmap_entry \<Rightarrow> bool" where
  "is_ram e \<longleftrightarrow> me_type e = MEMMAP_USABLE \<or> me_type e = MEMMAP_BOOTLOADER_RECLAIMABLE
     \<or> me_type e = MEMMAP_EXECUTABLE_AND_MODULES"

text \<open>The promises of the boot protocol used here: no entry reaches into the last page of the
  address space, and usable entries start and end on page boundaries.\<close>

definition memmap_ok :: "memmap_entry list \<Rightarrow> bool" where
  "memmap_ok es \<longleftrightarrow> (\<forall>e \<in> set es. unat (me_base e) + unat (me_length e) \<le> 2 ^ 64 - 4096
     \<and> (me_type e = MEMMAP_USABLE \<longrightarrow> 4096 dvd unat (me_base e) \<and> 4096 dvd unat (me_length e)))"

text \<open>\<open>usable_page es i\<close>: page \<open>i\<close> lies in a usable entry.\<close>

definition usable_page :: "memmap_entry list \<Rightarrow> nat \<Rightarrow> bool" where
  "usable_page es i \<longleftrightarrow> (\<exists>e \<in> set es. me_type e = MEMMAP_USABLE
     \<and> unat (me_base e) div 4096 \<le> i \<and> i < (unat (me_base e) + unat (me_length e)) div 4096)"

text \<open>One past the last page of RAM, and the bytes \<open>pmm_init\<close> gives the bitmap.\<close>

fun ram_pages :: "memmap_entry list \<Rightarrow> nat" where
  "ram_pages [] = 0"
| "ram_pages (e # es) =
     (if is_ram e then max ((unat (me_base e) + unat (me_length e) + 4095) div 4096) (ram_pages es)
      else ram_pages es)"

definition bitmap_bytes :: "nat \<Rightarrow> nat" where
  "bitmap_bytes n = (n div 8 + 4095) div 4096 * 4096"

definition bitmap_entry :: "memmap_entry list \<Rightarrow> memmap_entry option" where
  "bitmap_entry es = find (\<lambda>e. me_type e = MEMMAP_USABLE
     \<and> bitmap_bytes (ram_pages es) < unat (me_length e)) es"

section \<open>The three loops\<close>

fun scan_top :: "memmap_entry list \<Rightarrow> u64 \<Rightarrow> u64" where
  "scan_top [] hi = hi"
| "scan_top (e # es) hi = scan_top es
     (if is_ram e \<and> hi < ALIGN_UP (me_base e + me_length e) PAGE_SIZE
      then ALIGN_UP (me_base e + me_length e) PAGE_SIZE else hi)"

lemma scan_entry:
  "\<exists>l. pmm_scan_entry (n, e) hi s =
     Ok (if is_ram e \<and> hi < ALIGN_UP (me_base e + me_length e) PAGE_SIZE
       then ALIGN_UP (me_base e + me_length e) PAGE_SIZE else hi, s\<lparr>klog := l\<rparr>)"
  by (rule exI [of _ "klog s @ [(''pmm: %3d: %016llx -> %016llx  [%s]'',
        [PInt (of_nat n), PInt (me_base e), PInt (ALIGN_UP (me_base e + me_length e) PAGE_SIZE),
         PStr (memmap_ent_type_to_str (me_type e))])]"])
    (simp add: pmm_scan_entry_def is_ram_def Let_def run_basic)

lemma foldM_scan:
  "\<exists>l. foldM pmm_scan_entry (enumerate n es) hi s = Ok (scan_top es hi, s\<lparr>klog := l\<rparr>)"
proof (induction es arbitrary: n hi s)
  case Nil
  show ?case by (rule exI [of _ "klog s"]) (simp add: run_basic)
next
  case (Cons e es)
  from scan_entry [of n e hi s] obtain l where "pmm_scan_entry (n, e) hi s =
      Ok (if is_ram e \<and> hi < ALIGN_UP (me_base e + me_length e) PAGE_SIZE
        then ALIGN_UP (me_base e + me_length e) PAGE_SIZE else hi, s\<lparr>klog := l\<rparr>)" ..
  then show ?case
    using Cons.IH [of "Suc n" _ "s\<lparr>klog := l\<rparr>"] by (simp add: bind_Ok)
qed

lemma unat_scan_top:
  assumes "\<forall>e \<in> set es. unat (me_base e) + unat (me_length e) \<le> 2 ^ 64 - 4096"
    and "4096 dvd unat hi"
  shows "unat (scan_top es hi) = max (unat hi) (ram_pages es * 4096)"
  using assms
proof (induction es arbitrary: hi)
  case Nil
  then show ?case by simp
next
  case (Cons e es)
  let ?a = "ALIGN_UP (me_base e + me_length e) PAGE_SIZE"
  have sum: "unat (me_base e + me_length e) = unat (me_base e) + unat (me_length e)"
    using Cons.prems by (subst unat_add_lem [THEN iffD1]) simp_all
  have a: "unat ?a = (unat (me_base e) + unat (me_length e) + 4095) div 4096 * 4096"
    using Cons.prems sum by (subst unat_ALIGN_UP) simp_all
  show ?case
    using Cons a by (auto simp: word_less_nat_alt max_def)
qed

lemma place_bitmap:
  "pmm_place_bitmap sz es s = (case find (\<lambda>e. me_type e = MEMMAP_USABLE \<and> sz < me_length e) es of
     None \<Rightarrow> Ok ((), s)
   | Some e \<Rightarrow> Ok ((), s\<lparr>pmm_bitmap := me_base e + hhdm s,
       mem := memset_mem (mem s) (me_base e + hhdm s) 0xff sz\<rparr>))"
  by (induction es) (simp_all add: run_basic memset_def)

definition overlaps_bitmap :: "u64 \<Rightarrow> u64 \<Rightarrow> u64 \<Rightarrow> bool" where
  "overlaps_bitmap phys sz base \<longleftrightarrow>
     (phys \<le> base \<and> base < phys + sz)
     \<or> (phys < base + PAGE_SIZE \<and> base + PAGE_SIZE \<le> phys + sz)"

definition released :: "u64 \<Rightarrow> u64 \<Rightarrow> memmap_entry \<Rightarrow> u64 list" where
  "released phys sz e =
     (if me_type e \<noteq> MEMMAP_USABLE then []
      else map (\<lambda>j. (me_base e + j) div PAGE_SIZE)
        (filter (\<lambda>j. \<not> overlaps_bitmap phys sz (me_base e + j))
          (map (\<lambda>k. of_nat k * PAGE_SIZE) [0..<unat (me_length e) div 4096])))"

lemma foreach_release_page:
  assumes "pmm_bitmap s \<noteq> 0"
  shows "foreach (pmm_release_page phys sz e) js s =
    Ok ((), s\<lparr>mem := fold (put_bit False (pmm_bitmap s))
      (map (\<lambda>j. (me_base e + j) div PAGE_SIZE)
        (filter (\<lambda>j. \<not> overlaps_bitmap phys sz (me_base e + j)) js)) (mem s)\<rparr>)"
  using assms
  by (induction js arbitrary: s)
    (auto simp: return_def pmm_release_page_def overlaps_bitmap_def Let_def bind_Ok bit_reset_eq)

lemma release_entry:
  assumes "pmm_bitmap s \<noteq> 0" and "4096 dvd unat (me_length e) \<or> me_type e \<noteq> MEMMAP_USABLE"
    and "unat (me_length e) \<le> 2 ^ 64 - 4096"
  shows "pmm_release_entry phys sz e s =
    Ok ((), s\<lparr>mem := fold (put_bit False (pmm_bitmap s)) (released phys sz e) (mem s)\<rparr>)"
proof (cases "me_type e = MEMMAP_USABLE")
  case True
  have "step_count (unat (me_length e)) 4096 = unat (me_length e) div 4096"
    using assms(2) True by (auto simp: step_count_def)
  then show ?thesis
    using True assms(1,3) foreach_release_page [OF assms(1)]
    by (simp add: pmm_release_entry_def released_def for_step_foreach)
next
  case False
  then show ?thesis by (simp add: pmm_release_entry_def released_def return_def)
qed

lemma release_entries:
  assumes "pmm_bitmap s \<noteq> 0" and "memmap_ok es"
  shows "foreach (pmm_release_entry phys sz) es s =
    Ok ((), s\<lparr>mem := fold (put_bit False (pmm_bitmap s)) (concat (map (released phys sz) es)) (mem s)\<rparr>)"
  using assms
proof (induction es arbitrary: s)
  case Nil
  then show ?case by (simp add: return_def)
next
  case (Cons e es)
  have "pmm_release_entry phys sz e s =
      Ok ((), s\<lparr>mem := fold (put_bit False (pmm_bitmap s)) (released phys sz e) (mem s)\<rparr>)"
    using Cons.prems by (intro release_entry) (auto simp: memmap_ok_def)
  then show ?case
    using Cons by (simp add: bind_Ok memmap_ok_def)
qed

section \<open>The pages released\<close>

text \<open>\<open>bitmap_page es i\<close>: page \<open>i\<close> holds part of the bitmap.\<close>

definition bitmap_page :: "memmap_entry list \<Rightarrow> nat \<Rightarrow> bool" where
  "bitmap_page es i \<longleftrightarrow> (case bitmap_entry es of
       None \<Rightarrow> False
     | Some e \<Rightarrow> unat (me_base e) div 4096 \<le> i
         \<and> i < unat (me_base e) div 4096 + bitmap_bytes (ram_pages es) div 4096)"

lemma unat_page_offset:
  assumes "4096 dvd unat base" and "unat base + unat len \<le> 2 ^ 64 - 4096" and "k < unat len div 4096"
  shows "unat (base + of_nat k * PAGE_SIZE) = (unat base div 4096 + k) * 4096"
    and "unat (base + of_nat k * PAGE_SIZE + PAGE_SIZE) = (unat base div 4096 + k + 1) * 4096"
proof -
  have k: "k * 4096 + 4096 \<le> unat len" using assms(3) by simp
  have u: "unat (of_nat k * PAGE_SIZE :: u64) = k * 4096"
    by (rule unat_page_addr) (use k assms(2) in simp)
  then show *: "unat (base + of_nat k * PAGE_SIZE) = (unat base div 4096 + k) * 4096"
    using k assms(1,2) by (subst unat_add_lem [THEN iffD1]) auto
  show "unat (base + of_nat k * PAGE_SIZE + PAGE_SIZE) = (unat base div 4096 + k + 1) * 4096"
    using k assms(1,2) * by (subst unat_add_lem [THEN iffD1]) auto
qed

lemma overlaps_bitmap_iff:
  assumes "4096 dvd unat base" and "unat base + unat len \<le> 2 ^ 64 - 4096" and "k < unat len div 4096"
    and "4096 dvd unat phys" and "4096 dvd unat sz" and "unat phys + unat sz < 2 ^ 64"
  shows "overlaps_bitmap phys sz (base + of_nat k * PAGE_SIZE) \<longleftrightarrow>
    unat phys div 4096 \<le> unat base div 4096 + k
    \<and> unat base div 4096 + k < unat phys div 4096 + unat sz div 4096"
proof -
  obtain p q where pq: "unat phys = 4096 * p" "unat sz = 4096 * q" using assms(4,5) by (auto elim!: dvdE)
  have "unat (phys + sz) = 4096 * (p + q)"
    using assms(6) pq by (subst unat_add_lem [THEN iffD1]) simp_all
  then show ?thesis
    unfolding overlaps_bitmap_def word_le_nat_alt word_less_nat_alt unat_page_offset [OF assms(1-3)]
    using pq by auto
qed

lemma image_shift:
  "(\<lambda>k. b + k) ` {k. k < n \<and> \<not> P (b + k)} = {i. b \<le> i \<and> i < b + n \<and> \<not> P i}" for b n :: nat
  by (auto simp: image_iff le_iff_add)

lemma set_released:
  assumes "me_type e = MEMMAP_USABLE" and "4096 dvd unat (me_base e)"
    and "unat (me_base e) + unat (me_length e) \<le> 2 ^ 64 - 4096"
    and "4096 dvd unat phys" and "4096 dvd unat sz" and "unat phys + unat sz < 2 ^ 64"
  shows "unat ` set (released phys sz e) =
    {i. unat (me_base e) div 4096 \<le> i \<and> i < unat (me_base e) div 4096 + unat (me_length e) div 4096
      \<and> \<not> (unat phys div 4096 \<le> i \<and> i < unat phys div 4096 + unat sz div 4096)}"
proof -
  let ?b = "unat (me_base e) div 4096" and ?n = "unat (me_length e) div 4096"
  let ?over = "\<lambda>i. unat phys div 4096 \<le> i \<and> i < unat phys div 4096 + unat sz div 4096"
  have u: "unat ((me_base e + of_nat k * PAGE_SIZE) div PAGE_SIZE) = ?b + k" if "k < ?n" for k
    using unat_page_offset(1) [OF assms(2,3) that] by (simp add: unat_div)
  have "unat ` set (released phys sz e) =
      (\<lambda>k. unat ((me_base e + of_nat k * PAGE_SIZE) div PAGE_SIZE)) `
        {k. k < ?n \<and> \<not> overlaps_bitmap phys sz (me_base e + of_nat k * PAGE_SIZE)}"
    using assms(1) by (auto simp: released_def image_image)
  also have "{k. k < ?n \<and> \<not> overlaps_bitmap phys sz (me_base e + of_nat k * PAGE_SIZE)} =
      {k. k < ?n \<and> \<not> ?over (?b + k)}"
    using overlaps_bitmap_iff [OF assms(2,3) _ assms(4-6)] by auto
  also have "(\<lambda>k. unat ((me_base e + of_nat k * PAGE_SIZE) div PAGE_SIZE)) ` \<dots> =
      (\<lambda>k. ?b + k) ` {k. k < ?n \<and> \<not> ?over (?b + k)}"
    using u by (intro image_cong) auto
  also have "\<dots> = {i. ?b \<le> i \<and> i < ?b + ?n \<and> \<not> ?over i}"
    by (rule image_shift)
  finally show ?thesis .
qed

lemma usable_pages_released:
  assumes "memmap_ok es"
    and "4096 dvd unat phys" and "4096 dvd unat sz" and "unat phys + unat sz < 2 ^ 64"
  shows "unat ` set (concat (map (released phys sz) es)) =
    {i. usable_page es i \<and> \<not> (unat phys div 4096 \<le> i \<and> i < unat phys div 4096 + unat sz div 4096)}"
proof -
  have "unat ` set (released phys sz e) =
      {i. usable_page [e] i \<and> \<not> (unat phys div 4096 \<le> i \<and> i < unat phys div 4096 + unat sz div 4096)}"
    if "e \<in> set es" for e
  proof (cases "me_type e = MEMMAP_USABLE")
    case True
    then have al: "4096 dvd unat (me_base e)" "4096 dvd unat (me_length e)"
      and le: "unat (me_base e) + unat (me_length e) \<le> 2 ^ 64 - 4096"
      using assms(1) that by (auto simp: memmap_ok_def)
    then show ?thesis
      using True set_released [OF True al(1) le assms(2-4)]
      by (auto simp: usable_page_def div_plus_div_distrib_dvd_left)
  next
    case False
    then show ?thesis by (simp add: released_def usable_page_def)
  qed
  moreover have "usable_page es i \<longleftrightarrow> (\<exists>e \<in> set es. usable_page [e] i)" for i
    by (auto simp: usable_page_def)
  ultimately show ?thesis by (auto simp: image_UN)
qed

section \<open>The whole initialisation\<close>

text \<open>The globals of the other components that the boot goes on with.\<close>

definition other_globals where
  "other_globals s = (int_flag s, boot s, (slabs s, slabs_addr s), (kernel_pagemap s, vmm_la57 s), gdt s,
     (idt_lock s, idt s, idt_free_vector s), (isr_handler_table s, isr_thunks s),
     (terms s, fbs s, fb_init_done s, fb_count s, term_init_done s, term_count s, printf_lock s),
     (device s, dev_trace s), (madt_lapics s, madt_x2apics s, madt_io_apics s, madt_isos s, madt_nmis s))"

lemma pmm_init_run:
  assumes "hhdm_response (boot s) = Some off" and "memmap_response (boot s) = Some es"
    and "\<not> mm_init_done s" and "\<not> pmm_init_done s" and "memmap_ok es"
    and "n = DIV_ROUNDUP (scan_top es 0) PAGE_SIZE" and "sz = ALIGN_UP (n div 8) PAGE_SIZE"
    and "find (\<lambda>e. me_type e = MEMMAP_USABLE \<and> sz < me_length e) es = Some e0"
    and "me_base e0 + off \<noteq> 0"
  shows "\<exists>t. pmm_init s = Ok ((), t) \<and> hhdm t = off \<and> pmm_avl_page_count t = n
    \<and> pmm_bitmap t = me_base e0 + off \<and> pmm_init_done t
    \<and> pmm_last_used_index t = pmm_last_used_index s \<and> pmm_lock t = pmm_lock s
    \<and> mem t = fold (put_bit False (me_base e0 + off)) (concat (map (released (me_base e0) sz) es))
        (memset_mem (mem s) (me_base e0 + off) 0xff sz)
    \<and> memmap t = es \<and> other_globals t = other_globals s \<and> klog t \<noteq> []"
proof -
  let ?s1 = "s\<lparr>hhdm := off, memmap := es, mm_init_done := True,
    klog := klog s @ [(''pmm: Bootloader reported memory map:'', [])]\<rparr>"
  obtain l where scan: "foldM pmm_scan_entry (enumerate 0 es) 0 ?s1 = Ok (scan_top es 0, ?s1\<lparr>klog := l\<rparr>)"
    using foldM_scan by blast
  have rel: "foreach (pmm_release_entry (me_base e0) sz) es t =
      Ok ((), t\<lparr>mem := fold (put_bit False (me_base e0 + off))
        (concat (map (released (me_base e0) sz) es)) (mem t)\<rparr>)"
    if "pmm_bitmap t = me_base e0 + off" for t
    using release_entries [of t es] that assms(5,9) by simp
  show ?thesis
    using assms(1-4,8,9) scan rel unfolding pmm_init_def mm_init_def
    by (simp add: bind_assoc bind_Ok assms(6,7) [symmetric] place_bitmap run_basic other_globals_def)
qed

lemma ram_pages_bound:
  "\<forall>e \<in> set es. unat (me_base e) + unat (me_length e) \<le> 2 ^ 64 - 4096 \<Longrightarrow> ram_pages es < 2 ^ 52"
  by (induction es) auto

lemma unat_page_count:
  assumes "memmap_ok es"
  shows "unat (DIV_ROUNDUP (scan_top es 0) PAGE_SIZE) = ram_pages es" and "ram_pages es < 2 ^ 52"
proof -
  have le: "\<forall>e \<in> set es. unat (me_base e) + unat (me_length e) \<le> 2 ^ 64 - 4096"
    using assms by (simp add: memmap_ok_def)
  show lt: "ram_pages es < 2 ^ 52" by (rule ram_pages_bound [OF le])
  have "unat (scan_top es 0) = ram_pages es * 4096" using unat_scan_top [OF le, of 0] by simp
  then show "unat (DIV_ROUNDUP (scan_top es 0) PAGE_SIZE) = ram_pages es"
    using lt by (subst unat_DIV_ROUNDUP) simp_all
qed

lemma unat_bitmap_size:
  assumes "unat n < 2 ^ 52"
  shows "unat (ALIGN_UP (n div 8) PAGE_SIZE) = bitmap_bytes (unat n)"
  using assms by (subst unat_ALIGN_UP) (simp_all add: bitmap_bytes_def)

lemma usable_page_ram: "usable_page es i \<Longrightarrow> i < ram_pages es"
proof (induction es)
  case (Cons e es)
  have "a div 4096 \<le> (a + 4095) div 4096" for a :: nat by (simp add: div_le_mono)
  then show ?case using Cons by (fastforce simp: usable_page_def is_ram_def max_def)
qed (simp add: usable_page_def)

text \<open>What the boot protocol has to provide: its two responses, and a memory map that keeps the
  protocol's promises, with room for the bitmap at a non-null address. \<open>bitmap_covers\<close>: the
  bitmap size, a page count divided by eight before it is rounded up, has a bit for every page.\<close>

definition pmm_bootable :: "kernel \<Rightarrow> u64 \<Rightarrow> memmap_entry list \<Rightarrow> bool" where
  "pmm_bootable s off es \<longleftrightarrow>
     hhdm_response (boot s) = Some off \<and> memmap_response (boot s) = Some es
     \<and> \<not> mm_init_done s \<and> \<not> pmm_init_done s \<and> pmm_last_used_index s = 0 \<and> \<not> pmm_lock s
     \<and> memmap_ok es
     \<and> (case bitmap_entry es of None \<Rightarrow> False | Some e \<Rightarrow> me_base e + off \<noteq> 0)"

definition bitmap_covers :: "memmap_entry list \<Rightarrow> bool" where
  "bitmap_covers es \<longleftrightarrow> ram_pages es \<le> 8 * bitmap_bytes (ram_pages es)"

lemma bitmap_offset_page:
  assumes "4096 dvd unat base" and "4096 dvd sz" and "unat base + sz < 2 ^ 64" and "in_region (base + off) sz x"
  shows "unat base div 4096 \<le> unat (x - off) div 4096
    \<and> unat (x - off) div 4096 < unat base div 4096 + sz div 4096"
proof -
  let ?k = "unat (x - (base + off))"
  have k: "?k < sz" using assms(4) by (simp add: in_region_def)
  have "x - off = base + (x - (base + off))" by simp
  also have "unat \<dots> = unat base + ?k" using k assms(3) by (intro unat_add_lem [THEN iffD1]) simp
  finally have "unat (x - off) = unat base + ?k" .
  moreover have "unat base + sz = (unat base div 4096 + sz div 4096) * 4096"
    using assms(1,2) by auto
  ultimately show ?thesis using k assms(1) by auto
qed

lemma pmm_bootable_entry:
  assumes "pmm_bootable s off es"
  obtains e where "bitmap_entry es = Some e" "me_base e + off \<noteq> 0" "me_type e = MEMMAP_USABLE"
    "4096 dvd unat (me_base e)" "unat (me_base e) + bitmap_bytes (ram_pages es) < 2 ^ 64"
proof -
  obtain e where e: "bitmap_entry es = Some e" "me_base e + off \<noteq> 0"
    using assms by (auto simp: pmm_bootable_def split: option.splits)
  then have "e \<in> set es \<and> me_type e = MEMMAP_USABLE
      \<and> bitmap_bytes (ram_pages es) < unat (me_length e)"
    by (auto simp: bitmap_entry_def find_Some_iff)
  moreover from this have "4096 dvd unat (me_base e)"
    and "unat (me_base e) + unat (me_length e) \<le> 2 ^ 64 - 4096"
    using assms by (auto simp: pmm_bootable_def memmap_ok_def)
  ultimately show thesis using that [of e] e by simp
qed

lemma bitmap_bytes_dvd: "4096 dvd bitmap_bytes n"
  by (simp add: bitmap_bytes_def)

text \<open>The bitmap after the last loop: set bits, less the released ones.\<close>

lemma bits_after_release:
  assumes "i < 8 * unat sz" and "i < 2 ^ 64"
  shows "bitmap_bit (fold (put_bit False b) bs (memset_mem m b 0xff sz)) b i \<longleftrightarrow> i \<notin> unat ` set bs"
proof -
  have "i div 8 < unat sz" using assms(1) by simp
  then have "in_region b (unat sz) (b + of_nat (i div 8))"
    using unat_u64_less [of sz] by (intro in_region_offset) simp_all
  moreover have "bit (0xff :: u8) k" if "k < 8" for k
  proof -
    have ff: "(0xff :: u8) = mask 8" by (simp add: mask_eq_exp_minus_1)
    show ?thesis unfolding ff bit_mask_iff using that by simp
  qed
  ultimately have "bitmap_bit (memset_mem m b 0xff sz) b i"
    by (simp add: bitmap_bit_def memset_mem_eq)
  then show ?thesis by (simp add: bitmap_bit_fold_put_bit [OF assms(2)])
qed

lemma mem_after_release:
  assumes "\<And>w. w \<in> set bs \<Longrightarrow> unat w < 8 * unat sz" and "\<not> in_region b (unat sz) x"
  shows "fold (put_bit False b) bs (memset_mem m b 0xff sz) x = m x"
proof -
  have "in_region b (unat sz) (b + w div 8)" if "w \<in> set bs" for w
    using assms(1) [OF that] by (intro in_region_word_offset) simp
  then have "fold (put_bit False b) bs (memset_mem m b 0xff sz) x = memset_mem m b 0xff sz x"
    using assms(2) by (intro fold_put_bit_outside) auto
  then show ?thesis using assms(2) by (simp add: memset_mem_eq)
qed

lemma pmm_init_state:
  assumes boot: "pmm_bootable s off es" and e: "bitmap_entry es = Some e"
  obtains t sz bs where "pmm_init s = Ok ((), t)" "hhdm t = off" "unat (pmm_avl_page_count t) = ram_pages es"
    "pmm_bitmap t = me_base e + off" "pmm_init_done t" "pmm_last_used_index t = 0" "\<not> pmm_lock t"
    "unat sz = bitmap_bytes (ram_pages es)"
    "mem t = fold (put_bit False (me_base e + off)) bs (memset_mem (mem s) (me_base e + off) 0xff sz)"
    "unat ` set bs = {i. usable_page es i \<and> \<not> bitmap_page es i}" "memmap t = es" "other_globals t = other_globals s" "klog t \<noteq> []"
proof -
  from pmm_bootable_entry [OF boot] e have e': "me_base e + off \<noteq> 0" "4096 dvd unat (me_base e)"
    and fits: "unat (me_base e) + bitmap_bytes (ram_pages es) < 2 ^ 64"
    by (metis option.inject)+
  have ok: "memmap_ok es" using boot by (simp add: pmm_bootable_def)
  define n where "n = DIV_ROUNDUP (scan_top es 0) PAGE_SIZE"
  define sz where "sz = ALIGN_UP (n div 8) PAGE_SIZE"
  have n: "unat n = ram_pages es" and lt: "unat n < 2 ^ 52"
    using unat_page_count [OF ok] by (simp_all add: n_def)
  have sz: "unat sz = bitmap_bytes (ram_pages es)"
    using unat_bitmap_size [OF lt] n by (simp add: sz_def)
  have find: "find (\<lambda>e. me_type e = MEMMAP_USABLE \<and> sz < me_length e) es = Some e"
    using e by (simp add: bitmap_entry_def word_less_nat_alt sz)
  have dvd: "4096 dvd unat sz" and fit: "unat (me_base e) + unat sz < 2 ^ 64"
    using fits by (simp_all add: sz bitmap_bytes_dvd)
  let ?bs = "concat (map (released (me_base e) sz) es)" and ?b = "me_base e + off"
  obtain t where run: "pmm_init s = Ok ((), t)" "hhdm t = off" "pmm_avl_page_count t = n"
    "pmm_bitmap t = ?b" "pmm_init_done t" "pmm_last_used_index t = 0" "\<not> pmm_lock t"
    and mem: "mem t = fold (put_bit False ?b) ?bs (memset_mem (mem s) ?b 0xff sz)"
    and rest: "memmap t = es" "other_globals t = other_globals s" "klog t \<noteq> []"
    using pmm_init_run [OF _ _ _ _ ok n_def sz_def find e'(1), of s] boot by (auto simp: pmm_bootable_def)
  have "unat ` set ?bs = {i. usable_page es i \<and> \<not> bitmap_page es i}"
    using usable_pages_released [OF ok e'(2) dvd fit] by (simp add: bitmap_page_def e sz)
  then show thesis using that [OF run(1,2) _ run(4-7) sz mem _ rest] n run(3) by simp
qed

lemma bitmap_region_page:
  assumes "pmm_bootable s off es" and "bitmap_entry es = Some e" and "hhdm t = off"
    and "in_region (me_base e + off) (bitmap_bytes (ram_pages es)) x"
  shows "bitmap_page es (page_of t x)"
proof -
  from pmm_bootable_entry [OF assms(1)] assms(2) have "4096 dvd unat (me_base e)"
    and "unat (me_base e) + bitmap_bytes (ram_pages es) < 2 ^ 64"
    by (metis option.inject)+
  from bitmap_offset_page [OF this(1) bitmap_bytes_dvd this(2) assms(4)] show ?thesis
    by (simp add: bitmap_page_def page_of_def assms(2,3))
qed

lemma pmm_init_establishes:
  assumes boot: "pmm_bootable s off es" and covers: "bitmap_covers es"
  shows "\<exists>t. pmm_init s = Ok ((), t) \<and> pmm_ready t \<and> pmm_init_done t \<and> hhdm t = off
    \<and> unat (pmm_avl_page_count t) = ram_pages es
    \<and> free_pages t = {i. usable_page es i \<and> \<not> bitmap_page es i}
    \<and> (\<forall>x. \<not> bitmap_page es (page_of t x) \<longrightarrow> mem t x = mem s x)
    \<and> (\<forall>x. bitmap_byte t x \<longrightarrow> bitmap_page es (page_of t x))
    \<and> pmm_last_used_index t = 0 \<and> memmap t = es \<and> other_globals t = other_globals s \<and> klog t \<noteq> []"
proof -
  obtain e where e: "bitmap_entry es = Some e" by (rule pmm_bootable_entry [OF boot])
  let ?b = "me_base e + off"
  obtain t sz bs where run: "pmm_init s = Ok ((), t)" "hhdm t = off"
    "unat (pmm_avl_page_count t) = ram_pages es" "pmm_bitmap t = ?b" "pmm_init_done t"
    "pmm_last_used_index t = 0" "\<not> pmm_lock t" and sz: "unat sz = bitmap_bytes (ram_pages es)"
    and mem: "mem t = fold (put_bit False ?b) bs (memset_mem (mem s) ?b 0xff sz)"
    and set: "unat ` set bs = {i. usable_page es i \<and> \<not> bitmap_page es i}"
    and rest: "memmap t = es" "other_globals t = other_globals s" "klog t \<noteq> []"
    by (rule pmm_init_state [OF boot e]) blast
  have room: "ram_pages es \<le> 8 * unat sz" using covers by (simp add: bitmap_covers_def sz)
  have lt: "ram_pages es < 2 ^ 52" using boot unat_page_count by (simp add: pmm_bootable_def)
  note byte = bitmap_region_page [OF boot e run(2), folded sz]
  have "page_free t i \<longleftrightarrow> i \<in> unat ` set bs" if "i < ram_pages es" for i
    using bits_after_release [of i sz ?b bs "mem s"] that room lt
    by (simp add: page_free_def run mem)
  then have free: "free_pages t = {i. usable_page es i \<and> \<not> bitmap_page es i}"
    using set usable_page_ram by (auto simp: free_pages_def run)
  have "unat w < 8 * unat sz" if "w \<in> set bs" for w
  proof -
    have "unat w \<in> {i. usable_page es i \<and> \<not> bitmap_page es i}" using that set by blast
    then show ?thesis using usable_page_ram [of es "unat w"] room by simp
  qed
  then have frame: "mem t x = mem s x" if "\<not> bitmap_page es (page_of t x)" for x
    using that byte mem_after_release [of bs sz ?b x "mem s"] by (auto simp: mem)
  have bm: "bitmap_page es (page_of t x)" if "bitmap_byte t x" for x
  proof -
    from that obtain i where "i < ram_pages es" "x = ?b + of_nat (i div 8)"
      by (auto simp: bitmap_byte_def run)
    then show ?thesis using room unat_u64_less [of sz]
      by (intro byte) (simp add: in_region_offset)
  qed
  then have "pmm_ready t" using lt free run by (simp add: pmm_ready_def pmm_wf_def)
  then show ?thesis using run free frame bm rest by blast
qed

text \<open>When the bitmap does not cover the pages, the byte after it, which holds the bits of the last
  pages, lies in a page that is free.\<close>

lemma pmm_init_short_bitmap:
  assumes boot: "pmm_bootable s off es" and short: "\<not> bitmap_covers es"
  shows "\<exists>t x. pmm_init s = Ok ((), t) \<and> bitmap_byte t x \<and> page_of t x \<in> free_pages t"
proof -
  from pmm_bootable_entry [OF boot] obtain e where e: "bitmap_entry es = Some e" "me_type e = MEMMAP_USABLE"
    "4096 dvd unat (me_base e)" and fits: "unat (me_base e) + bitmap_bytes (ram_pages es) < 2 ^ 64" by metis
  let ?b = "me_base e + off" and ?sz = "bitmap_bytes (ram_pages es)"
  let ?q = "unat (me_base e) div 4096 + ?sz div 4096"
  obtain t sz bs where run: "pmm_init s = Ok ((), t)" "hhdm t = off"
    "unat (pmm_avl_page_count t) = ram_pages es" "pmm_bitmap t = ?b" 
    and mem: "mem t = fold (put_bit False ?b) bs (memset_mem (mem s) ?b 0xff sz)"
    and set: "unat ` set bs = {i. usable_page es i \<and> \<not> bitmap_page es i}"
    by (rule pmm_init_state [OF boot e(1)]) blast
  have in_es: "e \<in> set es" and len: "?sz < unat (me_length e)"
    using e(1) by (auto simp: bitmap_entry_def find_Some_iff)
  moreover have "4096 dvd unat (me_length e)" using boot in_es e(2) by (auto simp: pmm_bootable_def memmap_ok_def)
  ultimately have "?q < (unat (me_base e) + unat (me_length e)) div 4096"
    using e(3) bitmap_bytes_dvd [of "ram_pages es"] by (auto elim!: dvdE)
  then have use: "usable_page es ?q" using in_es e(2) by (auto simp: usable_page_def)
  then have q: "?q \<in> unat ` set bs" unfolding set by (simp add: bitmap_page_def e(1))
  have qlt: "?q < ram_pages es" by (rule usable_page_ram [OF use])
  have lt: "ram_pages es < 2 ^ 52" using boot unat_page_count by (simp add: pmm_bootable_def)
  have free: "?q \<in> free_pages t"
    using bitmap_bit_fold_put_bit [of ?q False ?b bs "memset_mem (mem s) ?b 0xff sz"] q qlt lt
    by (simp add: free_pages_def page_free_def run mem)
  let ?x = "?b + of_nat ?sz"
  have "8 * ?sz < ram_pages es" using short by (simp add: bitmap_covers_def)
  then have byte: "bitmap_byte t ?x" by (auto simp: bitmap_byte_def run intro!: exI [of _ "8 * ?sz"])
  have "unat (of_nat ?sz :: u64) = ?sz" using fits by (intro unat_of_nat_u64) simp
  then have "unat (me_base e + of_nat ?sz) = unat (me_base e) + ?sz"
    using fits by (subst unat_add_lem [THEN iffD1]) simp_all
  then have "page_of t ?x = ?q"
    using e(3) bitmap_bytes_dvd [of "ram_pages es"]
    by (auto simp: page_of_def run elim!: dvdE)
  then show ?thesis using run(1) byte free by auto
qed

end
