(* ===== verification/Pmm_Props.thy ===== *)
theory Pmm_Props
  imports Pmm_Init
begin

text \<open>
  The properties of the physical page allocator: what an allocation returns and when it panics,
  zeroing, freeing, runs of allocations, and what \<open>pmm_init\<close> establishes. Each is stated over the
  operations of \<open>Pmm\<close>, and checked on a concrete machine where it has hypotheses.
\<close>

section \<open>Allocation\<close>

text \<open>C5: On an initialised allocator whose lock is free, a request for a positive number of pages with
  an aligned free run on either side of the rotating index returns: the block starts at a multiple
  of its own size, all its pages were free, exactly these pages stop being free, the allocator's
  invariant is kept, its lock is free and the interrupt flag as before, no other global changes,
  and the only bytes written are the bitmap's.\<close>

theorem pmm_alloc_nozero_correct:
  assumes "pmm_ready s" and "0 < unat c" and "\<not> pmm_exhausted s (unat c)"
  shows "\<exists>p t. pmm_alloc_nozero c s = Ok (p, t) \<and> pmm_ready t \<and> alloc_frame s t
    \<and> 4096 * unat c dvd unat p
    \<and> block_of p c \<subseteq> free_pages s \<and> free_pages t = free_pages s - block_of p c
    \<and> (\<forall>x. mem t x \<noteq> mem s x \<longrightarrow> bitmap_byte s x)"
proof -
  obtain b where b: "pmm_pick s (unat c) b"
    and ok: "pmm_alloc_nozero c s = Ok (of_nat b * PAGE_SIZE, pmm_take b (unat c) s)"
    using pmm_alloc_nozero_cases [OF assms(2), of s] assms(1,3) by (auto simp: pmm_ready_def)
  have "mem (pmm_take b (unat c) s) x = mem s x" if "\<not> bitmap_byte s x" for x
    using that picked_block(6) [OF assms(1) b refl] by (rule mem_pmm_take)
  then show ?thesis
    using ok raw_pages.palloc_inv [OF assms(1,2) ok] raw_pages.palloc_frame [OF assms(1,2) ok]
      raw_pages.palloc_addr [OF assms(1,2) ok] raw_pages.palloc_avail [OF assms(1,2) ok]
    by (intro exI [of _ "of_nat b * PAGE_SIZE"] exI [of _ "pmm_take b (unat c) s"])
      (auto simp: dvd_eq_mod_eq_0)
qed

theorem pmm_alloc_nozero_correct_witness:
  "\<exists>p t. pmm_alloc_nozero 2 eight_pages = Ok (p, t) \<and> pmm_ready t \<and> 4096 * 2 dvd unat p"
  using pmm_alloc_nozero_correct [of eight_pages 2]
  by (auto simp: eight_pages_ready eight_pages_exhausted)

text \<open>C14: The block chosen is the first aligned free run at or after the rotating index or, when there is
  none up to the last page, the first one below the index; the index then points after the block.\<close>

theorem pmm_alloc_next_fit:
  assumes "pmm_ready s" and "0 < unat c" and "pmm_alloc_nozero c s = Ok (p, t)"
  shows "\<exists>b. p = of_nat b * PAGE_SIZE \<and> pmm_last_used_index t = of_nat (b + unat c)
    \<and> (first_run (page_free s) (unat c) (unat (pmm_last_used_index s)) (unat (pmm_avl_page_count s)) b
       \<or> no_run (page_free s) (unat c) (unat (pmm_last_used_index s)) (unat (pmm_avl_page_count s))
         \<and> first_run (page_free s) (unat c) 0 (unat (pmm_last_used_index s)) b)"
  by (rule pmm_alloc_nozero_OkD [OF assms]) (auto simp: pmm_pick_def Let_def)

theorem pmm_alloc_next_fit_witness:
  "\<exists>p t b. pmm_alloc_nozero 4 eight_pages = Ok (p, t) \<and> p = of_nat b * PAGE_SIZE
     \<and> pmm_last_used_index t = of_nat (b + 4)"
proof -
  obtain p t where ok: "pmm_alloc_nozero 4 eight_pages = Ok (p, t)"
    using eight_pages_alloc_Ok [of 4] by auto
  show ?thesis using pmm_alloc_next_fit [OF eight_pages_ready _ ok] ok by auto
qed

lemma alloc_exhausted:
  assumes "pmm_ready s" and "0 < unat c"
  shows "(pmm_alloc_nozero c s = Panic ''Out of memory'' \<longleftrightarrow> pmm_exhausted s (unat c))
    \<and> pmm_alloc_nozero c s \<noteq> Diverge"
proof -
  have "first_run f k lo hi b \<Longrightarrow> \<not> no_run f k lo hi" for f k lo hi b
    by (auto simp: first_run_def no_run_def)
  then have "pmm_pick s (unat c) b \<Longrightarrow> \<not> pmm_exhausted s (unat c)" for b
    by (auto simp: pmm_pick_def pmm_exhausted_def Let_def)
  then show ?thesis
    using pmm_alloc_nozero_cases [OF assms(2), of s] assms(1) by (auto simp: pmm_ready_def)
qed

text \<open>C15: An allocation ends in the panic ``Out of memory'' exactly when there is no aligned free run
  of that length above the rotating index and none below it; the search always ends.\<close>

theorem pmm_alloc_panics_iff:
  assumes "pmm_ready s" and "0 < unat c"
  shows "(pmm_alloc_nozero c s = Panic ''Out of memory'' \<longleftrightarrow> pmm_exhausted s (unat c))
    \<and> pmm_alloc_nozero c s \<noteq> Diverge"
  by (rule alloc_exhausted [OF assms])

theorem pmm_alloc_panics_iff_witness:
  "pmm_alloc_nozero 16 eight_pages = Panic ''Out of memory''"
  using pmm_alloc_panics_iff [of eight_pages 16] eight_pages_ready eight_pages_exhausted by simp

text \<open>For single pages the search is complete: the allocator runs out of memory exactly when no
  page is free.\<close>

theorem pmm_alloc_one_complete:
  assumes "pmm_ready s"
  shows "pmm_alloc_nozero 1 s = Panic ''Out of memory'' \<longleftrightarrow> free_pages s = {}"
proof -
  have "pmm_exhausted s 1 \<longleftrightarrow> free_pages s = {}" by (rule exhausted_one [OF assms])
  moreover have "\<exists>b. pmm_pick s 1 b \<Longrightarrow> free_pages s \<noteq> {}"
    using pmm_pick_block(3) [of s 1] assms by (fastforce simp: pmm_ready_def)
  ultimately show ?thesis
    using pmm_alloc_nozero_cases [of 1 s] assms by (auto simp: pmm_ready_def)
qed

theorem pmm_alloc_one_complete_witness:
  "pmm_alloc_nozero 1 (eight_pages\<lparr>pmm_avl_page_count := 0\<rparr>) = Panic ''Out of memory''"
proof -
  have "pmm_ready (eight_pages\<lparr>pmm_avl_page_count := 0\<rparr>)"
    by (simp add: pmm_ready_def pmm_wf_def eight_pages_def blank_kernel_def bitmap_byte_def)
  from pmm_alloc_one_complete [OF this] show ?thesis by (simp add: free_pages_def)
qed

text \<open>C38: A request can fail with memory to spare: the second search stops where the first one began. When the
  only aligned free run of the length asked for begins below the rotating index and ends above it, the kernel panics,
  although the run is there and the same request is met by that run when the index is at the first page.\<close>

theorem pmm_alloc_straddling_run:
  assumes s: "pmm_ready s" and run: "unat c dvd b" "{b..<b + unat c} \<subseteq> free_pages s"
    and only: "\<And>q. unat c dvd q \<Longrightarrow> {q..<q + unat c} \<subseteq> free_pages s \<Longrightarrow> q = b"
    and straddles: "b < unat (pmm_last_used_index s)" "unat (pmm_last_used_index s) < b + unat c"
  shows "pmm_alloc_nozero c s = Panic ''Out of memory''
    \<and> (\<exists>t. pmm_alloc_nozero c (s\<lparr>pmm_last_used_index := 0\<rparr>) = Ok (of_nat b * PAGE_SIZE, t))"
proof
  let ?s = "s\<lparr>pmm_last_used_index := 0\<rparr>"
  have c: "0 < unat c" using straddles by simp
  have free: "free_pages ?s = free_pages s" "page_free ?s = page_free s" by (simp_all add: free_pages_def page_free_def)
  have q: "q = b" if "aligned_run (page_free s) (unat c) q" "q + unat c \<le> unat (pmm_avl_page_count s)" for q
    using that by (intro only) (auto simp: aligned_run_def free_pages_def)
  have last: "unat (pmm_last_used_index s) \<le> unat (pmm_avl_page_count s)" using s by (simp add: pmm_ready_def pmm_wf_def)
  have "pmm_exhausted s (unat c)"
    using q straddles last by (fastforce simp: pmm_exhausted_def no_run_def Let_def)
  then show "pmm_alloc_nozero c s = Panic ''Out of memory''" using alloc_exhausted [OF s c] by blast
  have "pmm_ready ?s" using s unfolding pmm_ready_def pmm_wf_def bitmap_byte_def page_of_def free by simp
  moreover have "\<not> pmm_exhausted ?s (unat c)"
  proof -
    have "b + unat c \<le> unat (pmm_avl_page_count s)" using c subsetD [OF run(2), of "b + unat c - 1"] unfolding free_pages_def by force
    moreover have "aligned_run (page_free s) (unat c) b" using run by (auto simp: aligned_run_def free_pages_def)
    ultimately show ?thesis unfolding pmm_exhausted_def Let_def no_run_def free by auto
  qed
  ultimately obtain q' where q': "pmm_pick ?s (unat c) q'" "pmm_alloc_nozero c ?s = Ok (of_nat q' * PAGE_SIZE, pmm_take q' (unat c) ?s)"
    using pmm_alloc_nozero_cases [OF c, of ?s] by (auto simp: pmm_ready_def)
  have "pmm_wf ?s" using \<open>pmm_ready ?s\<close> by (simp add: pmm_ready_def)
  note pb = pmm_pick_block [OF this q'(1), unfolded free]
  from only [OF pb(2,3)] q'(2) show "\<exists>t. pmm_alloc_nozero c ?s = Ok (of_nat b * PAGE_SIZE, t)" by blast
qed

text \<open>Eight pages of which the first two are free, the index between them.\<close>

definition straddled :: kernel where
  "straddled = eight_pages\<lparr>mem := (\<lambda>_. 0)(0x8000 := 0xfc), pmm_last_used_index := 1\<rparr>"

lemma straddled_free: "pmm_ready straddled" "free_pages straddled = {0, 1}"
proof -
  have fields: "pmm_bitmap straddled = 0x8000" "pmm_avl_page_count straddled = 8" "hhdm straddled = 0"
    "pmm_last_used_index straddled = 1" "\<not> pmm_lock straddled"
    by (simp_all add: straddled_def eight_pages_def blank_kernel_def)
  then show "pmm_ready straddled"
    by (auto simp: pmm_ready_def pmm_wf_def bitmap_byte_def free_pages_def page_of_def)
  have "bit (0xfc :: u8) i \<longleftrightarrow> 2 \<le> i" if "i < 8" for i
    using that by (auto simp: numeral_eq_Suc less_Suc_eq)
  then have "page_free straddled i \<longleftrightarrow> i < 2" if "i < 8" for i
    using that by (auto simp: page_free_def bitmap_bit_def straddled_def eight_pages_def)
  then show "free_pages straddled = {0, 1}" by (auto simp: free_pages_def fields)
qed

theorem pmm_alloc_straddling_run_witness:
  "pmm_alloc_nozero 2 straddled = Panic ''Out of memory''
   \<and> (\<exists>t. pmm_alloc_nozero 2 (straddled\<lparr>pmm_last_used_index := 0\<rparr>) = Ok (0, t))"
proof -
  have "q = 0" if "{q..<q + 2} \<subseteq> {0, 1}" for q :: nat using subsetD [OF that, of "q + 1"] by simp
  moreover have "unat (pmm_last_used_index straddled) = 1" by (simp add: straddled_def)
  moreover have "{0..<0 + 2} \<subseteq> {0, 1 :: nat}" by auto
  ultimately show ?thesis
    using pmm_alloc_straddling_run [of straddled 2 0] straddled_free by simp
qed

section \<open>Zeroing, freeing and runs of requests\<close>

text \<open>Every byte of a block returned by \<open>pmm_alloc\<close> is zero, and no byte outside the block and
  the bitmap has changed.\<close>

theorem pmm_alloc_zeroed:
  assumes "pmm_ready s" and "0 < unat c" and "pmm_alloc c s = Ok (p, t)"
  shows "pmm_ready t \<and> block_of p c \<subseteq> free_pages s \<and> free_pages t = free_pages s - block_of p c
    \<and> (\<forall>x. page_of s x \<in> block_of p c \<longrightarrow> mem t x = 0)
    \<and> (\<forall>x. page_of s x \<notin> block_of p c \<and> \<not> bitmap_byte s x \<longrightarrow> mem t x = mem s x)"
  using pages.palloc_inv [OF assms] pages.palloc_avail [OF assms] pages.palloc_zero [OF assms]
    pages.palloc_mem [OF assms] by blast

theorem pmm_alloc_zeroed_witness:
  "\<exists>p t. pmm_alloc 2 eight_pages = Ok (p, t) \<and> free_pages t = free_pages eight_pages - block_of p 2
     \<and> (\<forall>x. page_of eight_pages x \<in> block_of p 2 \<longrightarrow> mem t x = 0)"
proof -
  obtain p t where ok: "pmm_alloc 2 eight_pages = Ok (p, t)" using eight_pages_zalloc_Ok [of 2] by auto
  show ?thesis using pmm_alloc_zeroed [OF eight_pages_ready _ ok] ok by auto
qed

text \<open>C6: Freeing a page-aligned block inside managed memory that holds no part of the bitmap returns,
  makes exactly its pages free, keeps the allocator's invariant, and touches only the block's
  bytes and the bitmap.\<close>

theorem pmm_free_correct:
  assumes "pmm_ready s" and "4096 dvd unat p"
    and "unat p div 4096 + unat c \<le> unat (pmm_avl_page_count s)"
    and "\<And>x. bitmap_byte s x \<Longrightarrow> page_of s x \<notin> block_of p c"
  shows "\<exists>t. pmm_free p c s = Ok ((), t) \<and> pmm_ready t \<and> alloc_frame s t
    \<and> free_pages t = free_pages s \<union> block_of p c
    \<and> (\<forall>x. \<not> bitmap_byte s x \<and> page_of s x \<notin> block_of p c \<longrightarrow> mem t x = mem s x)"
  using page_store.pfree_Ok [of s p c] assms by (simp add: dvd_eq_mod_eq_0)

theorem pmm_free_correct_witness:
  "\<exists>t. pmm_free 0x2000 3 eight_pages = Ok ((), t) \<and> pmm_ready t
     \<and> free_pages t = free_pages eight_pages \<union> {2..<5}"
proof -
  have "page_of eight_pages x \<notin> block_of 0x2000 3" if "bitmap_byte eight_pages x" for x
    using that by (auto simp: bitmap_byte_def eight_pages_def page_of_def block_of_def blank_kernel_def)
  from pmm_free_correct [OF eight_pages_ready _ _ this] show ?thesis
    by (auto simp: eight_pages_count block_of_def)
qed

text \<open>Allocating a zeroed block and freeing it again gives back the same set of free pages and
  leaves all memory outside the block and the bitmap as it was.\<close>

theorem pmm_alloc_free_roundtrip:
  assumes "pmm_ready s" and "0 < unat c" and "pmm_alloc c s = Ok (p, t)"
  shows "\<exists>u. pmm_free p c t = Ok ((), u) \<and> pmm_ready u \<and> free_pages u = free_pages s
    \<and> (\<forall>x. \<not> bitmap_byte s x \<and> page_of s x \<notin> block_of p c \<longrightarrow> mem u x = mem s x)"
  using page_store.alloc_free_avail [OF assms] .

theorem pmm_alloc_free_roundtrip_witness:
  "\<exists>p t u. pmm_alloc 8 eight_pages = Ok (p, t) \<and> pmm_free p 8 t = Ok ((), u)
     \<and> free_pages u = free_pages eight_pages"
proof -
  obtain p t where ok: "pmm_alloc 8 eight_pages = Ok (p, t)" using eight_pages_zalloc_Ok [of 8] by auto
  show ?thesis using pmm_alloc_free_roundtrip [OF eight_pages_ready _ ok] ok by auto
qed

text \<open>C13: In any sequence of allocations without frees, each of any positive size, all blocks returned
  consist of pages that were free at the start and no two of them share a page.\<close>

theorem pmm_alloc_sequence_disjoint:
  assumes "pmm_ready s" and "\<forall>c \<in> set cs. 0 < unat c" and "alloc_all pmm_alloc cs s = Ok (ps, t)"
  shows "length ps = length cs \<and> pmm_ready t
    \<and> free_pages t = free_pages s - \<Union> (set (map2 block_of ps cs))
    \<and> (\<forall>B \<in> set (map2 block_of ps cs). B \<subseteq> free_pages s)
    \<and> sorted_wrt (\<lambda>A B. A \<inter> B = {}) (map2 block_of ps cs)"
  using pages.alloc_all_disjoint [OF assms] by blast

theorem pmm_alloc_sequence_disjoint_witness:
  "\<exists>ps t. alloc_all pmm_alloc [4] eight_pages = Ok (ps, t) \<and> length ps = 1
     \<and> (\<forall>B \<in> set (map2 block_of ps [4]). B \<subseteq> free_pages eight_pages)"
proof -
  obtain p t where "pmm_alloc 4 eight_pages = Ok (p, t)" using eight_pages_zalloc_Ok [of 4] by auto
  then have ok: "alloc_all pmm_alloc [4] eight_pages = Ok ([p], t)" by (simp add: bind_Ok run_basic)
  show ?thesis using pmm_alloc_sequence_disjoint [OF eight_pages_ready _ ok] ok by auto
qed

section \<open>Initialisation\<close>

text \<open>C7: On a memory map that keeps the boot protocol's promises and a page count whose bitmap covers
  it, \<open>pmm_init\<close> returns with the allocator's invariant established: the page count is that of
  the highest RAM address, the free pages are exactly the usable pages that hold no part of the
  bitmap, and no byte outside the bitmap's pages has changed.\<close>

theorem pmm_init_correct:
  assumes "pmm_bootable s off es" and "bitmap_covers es"
  shows "\<exists>t. pmm_init s = Ok ((), t) \<and> pmm_ready t \<and> pmm_init_done t \<and> hhdm t = off
    \<and> unat (pmm_avl_page_count t) = ram_pages es
    \<and> free_pages t = {i. usable_page es i \<and> \<not> bitmap_page es i}
    \<and> (\<forall>x. \<not> bitmap_page es (page_of t x) \<longrightarrow> mem t x = mem s x)"
  using pmm_init_establishes [OF assms] by blast

definition one_entry_boot :: "u64 \<Rightarrow> kernel" where
  "one_entry_boot len = blank_kernel\<lparr>boot := (boot blank_kernel)\<lparr>
     hhdm_response := Some 0xffff800000000000,
     memmap_response := Some [\<lparr>me_base = 0x1000, me_length = len, me_type = MEMMAP_USABLE\<rparr>]\<rparr>\<rparr>"

lemma one_entry_bootable:
  assumes "len = 0x100000 \<or> len = 0x8000000"
  shows "pmm_bootable (one_entry_boot len) 0xffff800000000000
    [\<lparr>me_base = 0x1000, me_length = len, me_type = MEMMAP_USABLE\<rparr>]"
  using assms
  by (auto simp: pmm_bootable_def one_entry_boot_def blank_kernel_def memmap_ok_def bitmap_entry_def
      bitmap_bytes_def is_ram_def)

theorem pmm_init_correct_witness:
  "\<exists>t. pmm_init (one_entry_boot 0x100000) = Ok ((), t) \<and> pmm_ready t
     \<and> free_pages t = {i. 2 \<le> i \<and> i < 257}"
  using pmm_init_correct [OF one_entry_bootable, of "0x100000"]
  by (force simp: bitmap_covers_def bitmap_bytes_def is_ram_def usable_page_def bitmap_page_def
      bitmap_entry_def)

text \<open>C39: When the number of pages leaves a remainder of one to seven that the division by eight drops
  at the end of a bitmap page, the bitmap's last byte falls into the page after it, and that page
  is free: the allocator will hand out memory that holds its own bitmap.\<close>

theorem pmm_init_bitmap_too_short:
  assumes "pmm_bootable s off es" and "\<not> bitmap_covers es"
  shows "\<exists>t x. pmm_init s = Ok ((), t) \<and> bitmap_byte t x \<and> page_of t x \<in> free_pages t"
  using pmm_init_short_bitmap [OF assms] .

theorem pmm_init_bitmap_too_short_witness:
  "\<exists>t x. pmm_init (one_entry_boot 0x8000000) = Ok ((), t) \<and> bitmap_byte t x \<and> page_of t x \<in> free_pages t"
  using pmm_init_bitmap_too_short [OF one_entry_bootable, of "0x8000000"]
  by (simp add: bitmap_covers_def bitmap_bytes_def is_ram_def)

end
