(* ===== verification/Slab.thy ===== *)
theory Slab
  imports Page_Source
begin

text \<open>
  The slab allocator, \<open>kernel/src/mm/slab.c\<close>: twelve slabs of power-of-two cells, 8 to 16384
  bytes. A slab takes chunks of 64 pages from the page allocator; the first cell of a chunk holds
  a pointer to its slab and the others are linked, through their first word, into the slab's free
  list. Slabs are referred to by their index in the array; the pointer to slab \<open>i\<close> is
  \<open>slabs_addr + 24 * i\<close> (\<open>struct slab\<close> is 24 bytes long).
\<close>

section \<open>Definitions\<close>

text \<open>The index of the highest set bit; the instruction leaves its result undefined at zero.\<close>

fun highest_bit :: "nat \<Rightarrow> nat" where
  "highest_bit n = (if n < 2 then 0 else Suc (highest_bit (n div 2)))"

declare highest_bit.simps [simp del]

definition bsr :: "u64 \<Rightarrow> u64 kprog" where
  "bsr x = (if x = 0 then fault ''bsr of zero'' else return (of_nat (highest_bit (unat x))))"

definition slab_for :: "u64 \<Rightarrow> nat option kprog" where
  "slab_for sz =
     bind (bsr sz) (\<lambda>b. return
       (if b = 0 then Some 0 else if b = 1 then Some 0 else if b = 2 then Some 0
        else if b = 3 then Some 1 else if b = 4 then Some 2 else if b = 5 then Some 3
        else if b = 6 then Some 4 else if b = 7 then Some 5 else if b = 8 then Some 6
        else if b = 9 then Some 7 else if b = 10 then Some 8 else if b = 11 then Some 9
        else if b = 12 then Some 10 else if b = 13 then Some 11 else None))"

definition slab_ptr :: "kernel \<Rightarrow> nat \<Rightarrow> u64" where
  "slab_ptr s i = slabs_addr s + of_nat i * 24"

definition upd_slab :: "nat \<Rightarrow> (slab \<Rightarrow> slab) \<Rightarrow> unit kprog" where
  "upd_slab i f = modify (\<lambda>s. s\<lparr>slabs := (slabs s)[i := f (slabs s ! i)]\<rparr>)"

definition create_slab :: "nat \<Rightarrow> u64 \<Rightarrow> unit kprog" where
  "create_slab i esz =
     bind (upd_slab i (\<lambda>b. b\<lparr>lock := False\<rparr>)) (\<lambda>_.
     bind (pmm_alloc_nozero 64) (\<lambda>phys.
     bind (gets (\<lambda>s. phys + hhdm s)) (\<lambda>chunk.
     bind (upd_slab i (\<lambda>b. b\<lparr>first_free := chunk\<rparr>)) (\<lambda>_.
     bind (upd_slab i (\<lambda>b. b\<lparr>ent_size := esz\<rparr>)) (\<lambda>_.
     let header_offset = ALIGN_UP 8 esz;
         available_size = PAGE_SIZE * 64 - header_offset in
     bind (gets (\<lambda>s. first_free (slabs s ! i))) (\<lambda>slab_hdr.
     bind (gets (\<lambda>s. slab_ptr s i)) (\<lambda>this.
     bind (write64 slab_hdr this) (\<lambda>_.
     bind (upd_slab i (\<lambda>b. b\<lparr>first_free := first_free b + header_offset\<rparr>)) (\<lambda>_.
     bind (gets (\<lambda>s. first_free (slabs s ! i))) (\<lambda>arr.
     bind (bsr esz) (\<lambda>log.
     let max = drop_bit (unat log) available_size - 1;
         fact = drop_bit 3 esz in
     bind (for_range 0 max (\<lambda>j. write64 (arr + j * fact * 8) (arr + (j + 1) * fact * 8))) (\<lambda>_.
     write64 (arr + max * fact * 8) 0))))))))))))"

definition alloc_from_slab :: "nat \<Rightarrow> u64 kprog" where
  "alloc_from_slab i =
     bind (spinlock_acquire (slab_lock i) (slab_lock_update i)) (\<lambda>_.
     bind (gets (\<lambda>s. slabs s ! i)) (\<lambda>b.
     bind (if first_free b = 0 then create_slab i (ent_size b) else return ()) (\<lambda>_.
     bind (gets (\<lambda>s. first_free (slabs s ! i))) (\<lambda>old_free.
     bind (read64 old_free) (\<lambda>nxt.
     bind (upd_slab i (\<lambda>b. b\<lparr>first_free := nxt\<rparr>)) (\<lambda>_.
     bind (spinlock_release (slab_lock_update i)) (\<lambda>_.
     return old_free)))))))"

definition free_in_slab :: "nat \<Rightarrow> u64 \<Rightarrow> unit kprog" where
  "free_in_slab i addr =
     bind (spinlock_acquire (slab_lock i) (slab_lock_update i)) (\<lambda>_.
     bind (if addr = 0 then return ()
       else
         bind (gets (\<lambda>s. first_free (slabs s ! i))) (\<lambda>hd.
         bind (write64 addr hd) (\<lambda>_.
         upd_slab i (\<lambda>b. b\<lparr>first_free := addr\<rparr>)))) (\<lambda>_.
     spinlock_release (slab_lock_update i)))"

definition slab_init :: "unit kprog" where
  "slab_init =
     bind (create_slab 0 8) (\<lambda>_.
     bind (create_slab 1 16) (\<lambda>_.
     bind (create_slab 2 32) (\<lambda>_.
     bind (create_slab 3 64) (\<lambda>_.
     bind (create_slab 4 128) (\<lambda>_.
     bind (create_slab 5 256) (\<lambda>_.
     bind (create_slab 6 512) (\<lambda>_.
     bind (create_slab 7 1024) (\<lambda>_.
     bind (create_slab 8 2048) (\<lambda>_.
     bind (create_slab 9 4096) (\<lambda>_.
     bind (create_slab 10 8192) (\<lambda>_.
     create_slab 11 16384)))))))))))"

definition slab_alloc :: "u64 \<Rightarrow> u64 kprog" where
  "slab_alloc sz =
     bind (slab_for sz) (\<lambda>b.
     case b of
       Some i \<Rightarrow> alloc_from_slab i
     | None \<Rightarrow> return 0)"

text \<open>The slab a header points to; a header that points to no slab is a wild pointer.\<close>

definition slab_of_header :: "u64 \<Rightarrow> nat kprog" where
  "slab_of_header addr =
     bind (read64 (addr AND NOT 0x3ffff)) (\<lambda>p.
     bind (gets (\<lambda>s. find (\<lambda>i. slab_ptr s i = p) [0..<12])) (\<lambda>r.
     case r of Some i \<Rightarrow> return i | None \<Rightarrow> fault ''wild slab pointer''))"

definition slab_realloc :: "u64 \<Rightarrow> u64 \<Rightarrow> u64 kprog" where
  "slab_realloc addr new_size =
     (if addr = 0 then slab_alloc new_size
      else
        bind (slab_of_header addr) (\<lambda>i.
        bind (gets (\<lambda>s. ent_size (slabs s ! i))) (\<lambda>esz.
        if esz < new_size then
          bind (slab_alloc new_size) (\<lambda>new_addr.
          if new_addr = 0 then return 0
          else
            bind (gets (\<lambda>s. ent_size (slabs s ! i))) (\<lambda>esz.
            bind (memcpy new_addr addr esz) (\<lambda>_.
            bind (free_in_slab i addr) (\<lambda>_.
            return new_addr))))
        else return addr)))"

definition slab_free :: "u64 \<Rightarrow> unit kprog" where
  "slab_free addr =
     (if addr = 0 then return ()
      else bind (slab_of_header addr) (\<lambda>i. free_in_slab i addr))"

section \<open>Sizes\<close>

lemma highest_bit_bounds:
  "0 < n \<Longrightarrow> 2 ^ highest_bit n \<le> n \<and> n < 2 ^ Suc (highest_bit n)"
proof (induction n rule: highest_bit.induct)
  case (1 n)
  show ?case
  proof (cases "n < 2")
    case True
    then show ?thesis using 1(2) by (subst (1 2) highest_bit.simps) simp
  next
    case False
    then have "2 ^ highest_bit (n div 2) \<le> n div 2 \<and> n div 2 < 2 ^ Suc (highest_bit (n div 2))"
      using 1 by simp
    moreover have "highest_bit n = Suc (highest_bit (n div 2))"
      using False by (subst highest_bit.simps) simp
    moreover have "x \<le> n div 2 \<and> n div 2 < 2 * x \<Longrightarrow> 2 * x \<le> n \<and> n < 2 * (2 * x)" for x :: nat by auto
    ultimately show ?thesis by simp
  qed
qed

lemma highest_bit_unique:
  assumes "2 ^ k \<le> n" and "n < 2 ^ Suc k"
  shows "highest_bit n = k"
proof -
  have "0 < n" by (rule less_le_trans [OF _ assms(1)]) simp
  then have b: "2 ^ highest_bit n \<le> n" "n < 2 ^ Suc (highest_bit n)" using highest_bit_bounds by auto
  have "(2 :: nat) ^ k < 2 ^ Suc (highest_bit n)" using assms(1) b(2) by simp
  moreover have "(2 :: nat) ^ highest_bit n < 2 ^ Suc k" using assms(2) b(1) by simp
  ultimately have "k < Suc (highest_bit n)" "highest_bit n < Suc k"
    by (auto intro: power_less_imp_less_exp [of "2 :: nat"] simp del: power_Suc)
  then show ?thesis by simp
qed

text \<open>The cell size of slab \<open>i\<close> and the cells of a chunk, the header cell included.\<close>

definition cell_size :: "nat \<Rightarrow> nat" where
  "cell_size i = 8 * 2 ^ i"

definition chunk_cells :: "nat \<Rightarrow> nat" where
  "chunk_cells i = 2 ^ (15 - i)"

lemma less_12_cases:
  "i < 12 \<Longrightarrow> i = 0 \<or> i = 1 \<or> i = 2 \<or> i = 3 \<or> i = 4 \<or> i = 5 \<or> i = 6 \<or> i = 7 \<or> i = 8 \<or> i = 9
     \<or> i = 10 \<or> i = (11 :: nat)"
  by arith

lemma cell_size_bounds:
  assumes "i < 12"
  shows "8 \<le> cell_size i" and "cell_size i \<le> 16384" and "chunk_cells i * cell_size i = 262144"
    and "2 \<le> chunk_cells i" and "highest_bit (cell_size i) = i + 3" and "8 dvd cell_size i"
    and "0 < cell_size i" and "cell_size i < 2 ^ 64"
proof -
  show "8 \<le> cell_size i" "8 dvd cell_size i" "0 < cell_size i" by (simp_all add: cell_size_def)
  show "highest_bit (cell_size i) = i + 3"
    by (rule highest_bit_unique) (simp_all add: cell_size_def power_add)
  show "cell_size i \<le> 16384" "chunk_cells i * cell_size i = 262144" "2 \<le> chunk_cells i" "cell_size i < 2 ^ 64"
    using less_12_cases [OF assms] by (auto simp: cell_size_def chunk_cells_def)
qed

lemma slab_for_eq:
  assumes "0 < unat sz"
  shows "slab_for sz s = Ok (if unat sz < 16384 then Some (highest_bit (unat sz) - 2) else None, s)"
proof -
  let ?b = "highest_bit (unat sz)"
  have b: "2 ^ ?b \<le> unat sz" "unat sz < 2 ^ Suc ?b" using highest_bit_bounds [OF assms] by auto
  have "(2 :: nat) ^ ?b < 2 ^ 64" using b(1) unat_u64_less [of sz] by simp
  then have "?b < 64" by (rule power_less_imp_less_exp [rotated]) simp
  then have u: "unat (of_nat ?b :: u64) = ?b" by (intro unat_of_nat_u64) simp
  have big: "unat sz < 16384 \<longleftrightarrow> ?b < 14"
  proof
    assume "unat sz < 16384"
    then have "(2 :: nat) ^ ?b < 2 ^ 14" using b(1) by simp
    then show "?b < 14" by (rule power_less_imp_less_exp [rotated]) simp
  next
    assume "?b < 14"
    then have "(2 :: nat) ^ Suc ?b \<le> 2 ^ 14" by (intro power_increasing) simp_all
    then show "unat sz < 16384" using b(2) by simp
  qed
  have eq: "(of_nat ?b :: u64) = numeral w \<longleftrightarrow> ?b = numeral w" if "(numeral w :: nat) < 2 ^ 64" for w
    using of_nat_u64_inj [of ?b "numeral w"] that \<open>?b < 64\<close> by simp
  have eq01: "(of_nat ?b :: u64) = 0 \<longleftrightarrow> ?b = 0" "(of_nat ?b :: u64) = 1 \<longleftrightarrow> ?b = 1"
    using of_nat_u64_inj [of ?b 0] of_nat_u64_inj [of ?b 1] \<open>?b < 64\<close> by simp_all
  have nz: "sz \<noteq> 0" using assms by auto
  show ?thesis
  proof (cases "?b < 14")
    case True
    then have "?b = 0 \<or> ?b = 1 \<or> ?b = 2 \<or> ?b = 3 \<or> ?b = 4 \<or> ?b = 5 \<or> ?b = 6 \<or> ?b = 7 \<or> ?b = 8 \<or> ?b = 9
      \<or> ?b = 10 \<or> ?b = 11 \<or> ?b = 12 \<or> ?b = 13" by arith
    moreover have "unat sz < 16384" using True big by simp
    ultimately show ?thesis by (elim disjE) (simp_all add: slab_for_def bsr_def run_basic nz)
  next
    case False
    moreover from this have "\<not> unat sz < 16384" using big by simp
    ultimately show ?thesis by (simp add: slab_for_def bsr_def run_basic eq eq01 nz)
  qed
qed

section \<open>Creating a chunk\<close>

text \<open>Globals the slab allocator changes do not concern the page allocator.\<close>

lemma pmm_slabs_update [simp]:
  "page_of (s\<lparr>slabs := b\<rparr>) = page_of s" "bitmap_byte (s\<lparr>slabs := b\<rparr>) = bitmap_byte s"
  "page_free (s\<lparr>slabs := b\<rparr>) = page_free s" "free_pages (s\<lparr>slabs := b\<rparr>) = free_pages s"
  "pmm_ready (s\<lparr>slabs := b\<rparr>) = pmm_ready s" "pmm_exhausted (s\<lparr>slabs := b\<rparr>) = pmm_exhausted s"
proof -
  show pg: "page_free (s\<lparr>slabs := b\<rparr>) = page_free s" by (simp add: page_free_def fun_eq_iff)
  show "page_of (s\<lparr>slabs := b\<rparr>) = page_of s" "bitmap_byte (s\<lparr>slabs := b\<rparr>) = bitmap_byte s"
    "free_pages (s\<lparr>slabs := b\<rparr>) = free_pages s" "pmm_ready (s\<lparr>slabs := b\<rparr>) = pmm_ready s"
    by (simp_all add: page_of_def bitmap_byte_def free_pages_def pmm_ready_def pmm_wf_def pg fun_eq_iff)
  show "pmm_exhausted (s\<lparr>slabs := b\<rparr>) = pmm_exhausted s"
    unfolding pmm_exhausted_def pg by simp
qed

lemma link_cells:
  assumes e: "8 \<le> e" "cap * e < 2 ^ 64" and f: "f * 8 = of_nat e" and n: "n \<le> cap"
  shows "\<exists>m. foreach (\<lambda>j. write64 (a + j * f * 8) (a + (j + 1) * f * 8)) (map of_nat [0..<n]) s =
      Ok ((), s\<lparr>mem := m\<rparr>)
    \<and> (\<forall>j < n. load64 m (a + of_nat (j * e)) = a + of_nat (Suc j * e))
    \<and> (\<forall>x. \<not> in_region a (n * e) x \<longrightarrow> m x = mem s x)"
  using n
proof (induction n)
  case 0
  show ?case by (rule exI [of _ "mem s"]) (simp add: run_basic)
next
  case (Suc n)
  let ?body = "\<lambda>j. write64 (a + j * f * 8) (a + (j + 1) * f * 8)"
  obtain m where m: "foreach ?body (map of_nat [0..<n]) s = Ok ((), s\<lparr>mem := m\<rparr>)"
    and ld: "\<And>j. j < n \<Longrightarrow> load64 m (a + of_nat (j * e)) = a + of_nat (Suc j * e)"
    and out: "\<And>x. \<not> in_region a (n * e) x \<Longrightarrow> m x = mem s x"
    using Suc by auto
  let ?c = "a + of_nat (n * e)" and ?v = "a + of_nat (Suc n * e)"
  have addr: "a + of_nat k * f * 8 = a + of_nat (k * e)" for k
    using f by (simp add: mult.assoc)
  have "?body (of_nat n) (s\<lparr>mem := m\<rparr>) = Ok ((), s\<lparr>mem := store64 m ?c ?v\<rparr>)"
    using addr [of n] addr [of "Suc n"] by (simp add: write64_def run_basic add.commute)
  then have run: "foreach ?body (map of_nat [0..<Suc n]) s = Ok ((), s\<lparr>mem := store64 m ?c ?v\<rparr>)"
    using m by (simp add: foreach_append bind_Ok run_basic)
  have slot: "in_region (a + of_nat (k * e)) e x" if "in_region (a + of_nat (k * e)) 8 x" for k x
    using that e(1) by (simp add: in_region_def)
  have lt: "n < cap" using Suc.prems by simp
  have "load64 (store64 m ?c ?v) (a + of_nat (j * e)) = a + of_nat (Suc j * e)" if "j < Suc n" for j
  proof (cases "j = n")
    case False
    then have j: "j < n" using that by simp
    have "store64 m ?c ?v x = m x" if "in_region (a + of_nat (j * e)) 8 x" for x
      using slots_apart [OF j lt e(2) slot [OF that]] slot [of n x] by (intro store_le_outside) blast
    then have "load64 (store64 m ?c ?v) (a + of_nat (j * e)) = load64 m (a + of_nat (j * e))"
      by (intro load_le_cong_region) simp_all
    then show ?thesis using ld [OF j] by simp
  qed simp
  moreover have "store64 m ?c ?v x = mem s x" if "\<not> in_region a (Suc n * e) x" for x
  proof -
    have "\<not> in_region ?c e x"
      using that slot_in_room [of n "Suc n" e a x] Suc.prems e(2)
      by (meson lessI le_less_trans mult_le_mono1)
    then have "\<not> in_region ?c 8 x" using slot by blast
    moreover have "\<not> in_region a (n * e) x" using that by (simp add: in_region_def)
    ultimately show ?thesis using out by (simp add: store_le_outside)
  qed
  ultimately show ?case using run by blast
qed

definition chunk_addr :: "kernel \<Rightarrow> nat \<Rightarrow> u64" where
  "chunk_addr s q = of_nat q * PAGE_SIZE + hhdm s"

definition slab_frame :: "kernel \<Rightarrow> kernel \<Rightarrow> bool" where
  "slab_frame s t \<longleftrightarrow> (\<exists>b j m. t = s\<lparr>pmm_last_used_index := j, slabs := b, mem := m\<rparr>)"

lemma slab_frame_refl: "slab_frame s s"
  unfolding slab_frame_def
  by (rule exI [of _ "slabs s"], rule exI [of _ "pmm_last_used_index s"], rule exI [of _ "mem s"]) simp

lemma slab_frame_trans: "slab_frame s t \<Longrightarrow> slab_frame t u \<Longrightarrow> slab_frame s u"
  unfolding slab_frame_def by clarsimp blast

lemma slabs_commute:
  "s\<lparr>mem := m, slabs := b\<rparr> = s\<lparr>slabs := b, mem := m\<rparr>"
  "s\<lparr>slabs := b, pmm_last_used_index := i\<rparr> = s\<lparr>pmm_last_used_index := i, slabs := b\<rparr>" for s :: kernel
  by simp_all

lemma slab_frame_slabs: "slab_frame s t \<Longrightarrow> slab_frame s (t\<lparr>slabs := b\<rparr>)"
  unfolding slab_frame_def by (clarsimp simp only: slabs_commute) auto

lemma slab_frame_mem: "slab_frame s t \<Longrightarrow> slab_frame s (t\<lparr>mem := m\<rparr>)"
  unfolding slab_frame_def by clarsimp blast

lemma slab_frame_alloc: "slab_frame s t \<Longrightarrow> alloc_frame t u \<Longrightarrow> slab_frame s u"
  unfolding slab_frame_def alloc_frame_def by (clarsimp simp add: slabs_commute) blast

lemma slab_frame_fields:
  assumes "slab_frame s t"
  shows "hhdm t = hhdm s" "slabs_addr t = slabs_addr s" "int_flag t = int_flag s"
    "pmm_avl_page_count t = pmm_avl_page_count s" "page_of t = page_of s" "bitmap_byte t = bitmap_byte s"
    "slab_ptr t = slab_ptr s" "chunk_addr t = chunk_addr s"
  using assms by (auto simp: slab_frame_def page_of_def bitmap_byte_def slab_ptr_def chunk_addr_def fun_eq_iff)

lemma chunk_sizes:
  assumes "i < 12" and "esz = of_nat (cell_size i)"
  shows "unat esz = cell_size i" and "ALIGN_UP 8 esz = esz" and "drop_bit 3 esz * 8 = esz"
    and "bsr esz s = Ok (of_nat (i + 3), s)"
    and "unat (drop_bit (unat (of_nat (i + 3) :: u64)) (PAGE_SIZE * 64 - esz) - 1) = chunk_cells i - 2"
  using less_12_cases [OF assms(1)] assms(2) cell_size_bounds(5) [OF assms(1)]
  by (auto simp: cell_size_def chunk_cells_def ALIGN_UP_def DIV_ROUNDUP_def bsr_def run_basic)

text \<open>\<open>fresh_chunk s i q t\<close>: the 64 free pages from \<open>q\<close> became a chunk of slab \<open>i\<close>, whose
  cells after the header are linked in order of address.\<close>

definition fresh_chunk :: "kernel \<Rightarrow> nat \<Rightarrow> nat \<Rightarrow> kernel \<Rightarrow> bool" where
  "fresh_chunk s i q t \<longleftrightarrow>
     pmm_ready t \<and> slab_frame s t \<and> 64 dvd q \<and> q + 64 \<le> unat (pmm_avl_page_count s)
     \<and> {q..<q + 64} \<subseteq> free_pages s \<and> free_pages t = free_pages s - {q..<q + 64}
     \<and> pmm_last_used_index t = of_nat (q + 64)
     \<and> slabs t = (slabs s)[i := \<lparr>lock = False, first_free = chunk_addr s q + of_nat (cell_size i),
         ent_size = of_nat (cell_size i)\<rparr>]
     \<and> load64 (mem t) (chunk_addr s q) = slab_ptr s i
     \<and> (\<forall>k. 1 \<le> k \<and> k < chunk_cells i \<longrightarrow> load64 (mem t) (chunk_addr s q + of_nat (k * cell_size i)) =
         (if Suc k = chunk_cells i then 0 else chunk_addr s q + of_nat (Suc k * cell_size i)))
     \<and> (\<forall>x. page_of s x \<notin> {q..<q + 64} \<and> \<not> bitmap_byte s x \<longrightarrow> mem t x = mem s x)"

lemma region_after:
  assumes "in_region c e x" and "e + n \<le> 2 ^ 64"
  shows "\<not> in_region (c + of_nat e) n x"
proof -
  have lt: "unat (x - c) < e" using assms(1) by (simp add: in_region_def)
  show ?thesis
  proof (cases "e < 2 ^ 64")
    case True
    have sub: "x - (c + of_nat e) = (x - c) - of_nat e" by simp
    have "unat (x - (c + of_nat e)) = 2 ^ 64 + unat (x - c) - e"
      unfolding sub using lt by (subst unat_sub_if') (simp add: unat_of_nat_u64 [OF True])
    then show ?thesis using lt assms(2) by (simp add: in_region_def)
  next
    case False
    then show ?thesis using assms(2) by (simp add: in_region_def)
  qed
qed

text \<open>The memory of a new chunk: the header, the links, and the end of the list.\<close>

lemma chunk_chain:
  assumes i: "i < 12" and m': "m' = store64 m (chunk + of_nat ((chunk_cells i - 1) * cell_size i)) 0"
    and ld: "\<And>j. j < chunk_cells i - 2 \<Longrightarrow> load64 m (chunk + of_nat (Suc j * cell_size i)) =
      chunk + of_nat (Suc (Suc j) * cell_size i)"
    and out: "\<And>x. \<not> in_region (chunk + of_nat (cell_size i)) ((chunk_cells i - 2) * cell_size i) x \<Longrightarrow> m x = m0 x"
  shows "load64 m' chunk = load64 m0 chunk"
    and "1 \<le> k \<Longrightarrow> k < chunk_cells i \<Longrightarrow> load64 m' (chunk + of_nat (k * cell_size i)) =
      (if Suc k = chunk_cells i then 0 else chunk + of_nat (Suc k * cell_size i))"
    and "\<not> in_region chunk 262144 x \<Longrightarrow> m' x = m0 x"
proof -
  let ?e = "cell_size i" and ?N = "chunk_cells i"
  note b = cell_size_bounds [OF i]
  have cap: "?N * ?e < 2 ^ 64" using b(3) by simp
  have sl: "in_region (a + of_nat (k * ?e)) ?e x" if "in_region (a + of_nat (k * ?e)) 8 x" for a k x
    using that b(1) by (simp add: in_region_def)
  have keep: "load64 m' (chunk + of_nat (k * ?e)) = load64 m (chunk + of_nat (k * ?e))" if "k < ?N - 1" for k
  proof (rule load_le_cong_region)
    fix x assume x: "in_region (chunk + of_nat (k * ?e)) 8 x"
    have "?N - 1 < ?N" using b(4) by simp
    from slots_apart [OF that this cap sl [OF x]] show "m' x = m x"
      unfolding m' using sl by (intro store_le_outside) blast
  qed simp
  have "load64 m chunk = load64 m0 chunk"
  proof (rule load_le_cong_region)
    fix x assume "in_region chunk 8 x"
    then have "in_region chunk ?e x" using b(1) by (simp add: in_region_def)
    then show "m x = m0 x"
      using b(2,3) by (intro out region_after) (simp_all add: diff_mult_distrib)
  qed simp
  then show "load64 m' chunk = load64 m0 chunk" using keep [of 0] b(4) by simp
  show "load64 m' (chunk + of_nat (k * ?e)) = (if Suc k = ?N then 0 else chunk + of_nat (Suc k * ?e))"
    if kk: "1 \<le> k" "k < ?N"
  proof (cases "Suc k = ?N")
    case True
    then have "k = ?N - 1" by simp
    then show ?thesis using True unfolding m' by (simp only: load64_store64_same if_True simp_thms)
  next
    case False
    then obtain j where j: "k = Suc j" "j < ?N - 2" using kk by (cases k) auto
    show ?thesis using ld [OF j(2)] keep [of k] False kk j(1) by (simp del: mult_Suc of_nat_mult of_nat_Suc)
  qed
  show "m' x = m0 x" if x: "\<not> in_region chunk 262144 x"
  proof -
    have "\<not> in_region (chunk + of_nat ((?N - 1) * ?e)) 8 x"
      using x sl [of chunk "?N - 1" x] slot_in_room [OF _ cap, of "?N - 1" chunk x] b(3,4) by auto
    moreover have "\<not> in_region (chunk + of_nat ?e) ((?N - 2) * ?e) x"
      using x in_region_sub [of chunk "of_nat ?e" "(?N - 2) * ?e" x 262144] b(2,3,4) chunk_sizes(1) [OF i refl]
      by (auto simp: diff_mult_distrib)
    ultimately show ?thesis using out [of x] by (simp add: m' store_le_outside)
  qed
qed

lemma chunk_memory:
  assumes i: "i < 12" and E: "E = of_nat (cell_size i)" and arr: "arr = chunk + E"
    and mx: "mx = of_nat (chunk_cells i - 2)"
  shows "\<exists>m. bind (foreach (\<lambda>j. write64 (arr + j * drop_bit 3 E * 8) (arr + (j + 1) * drop_bit 3 E * 8))
        (map of_nat [0..<chunk_cells i - 2])) (\<lambda>_. write64 (arr + mx * drop_bit 3 E * 8) 0)
        (s\<lparr>mem := store64 (mem s) chunk ptr\<rparr>) = Ok ((), s\<lparr>mem := m\<rparr>)
    \<and> load64 m chunk = ptr
    \<and> (\<forall>k. 1 \<le> k \<and> k < chunk_cells i \<longrightarrow> load64 m (chunk + of_nat (k * cell_size i)) =
         (if Suc k = chunk_cells i then 0 else chunk + of_nat (Suc k * cell_size i)))
    \<and> (\<forall>x. \<not> in_region chunk 262144 x \<longrightarrow> m x = mem s x)"
proof -
  let ?e = "cell_size i" and ?N = "chunk_cells i"
  note b = cell_size_bounds [OF i] and cs = chunk_sizes [OF i E]
  have cap: "?N * ?e < 2 ^ 64" using b(3) by simp
  let ?s1 = "s\<lparr>mem := store64 (mem s) chunk ptr\<rparr>"
  have slot: "arr + of_nat (j * ?e) = chunk + of_nat (Suc j * ?e)" for j by (simp add: arr E)
  obtain m where m: "foreach (\<lambda>j. write64 (arr + j * drop_bit 3 E * 8) (arr + (j + 1) * drop_bit 3 E * 8))
      (map of_nat [0..<?N - 2]) ?s1 = Ok ((), ?s1\<lparr>mem := m\<rparr>)"
    and ld: "\<And>j. j < ?N - 2 \<Longrightarrow> load64 m (arr + of_nat (j * ?e)) = arr + of_nat (Suc j * ?e)"
    and out: "\<And>x. \<not> in_region arr ((?N - 2) * ?e) x \<Longrightarrow> m x = mem ?s1 x"
    using link_cells [OF b(1) cap, of "drop_bit 3 E" "?N - 2" arr ?s1] cs(3) E by auto
  have lastc: "arr + mx * drop_bit 3 E * 8 = chunk + of_nat ((?N - 1) * ?e)"
  proof -
    have "arr + mx * drop_bit 3 E * 8 = arr + of_nat ((?N - 2) * ?e)"
      using cs(3) by (simp add: mx E mult.assoc)
    also have "\<dots> = chunk + of_nat (Suc (?N - 2) * ?e)" by (rule slot)
    also have "Suc (?N - 2) = ?N - 1" using b(4) by simp
    finally show ?thesis .
  qed
  let ?m = "store64 m (chunk + of_nat ((?N - 1) * ?e)) 0"
  have run: "bind (foreach (\<lambda>j. write64 (arr + j * drop_bit 3 E * 8) (arr + (j + 1) * drop_bit 3 E * 8))
        (map of_nat [0..<?N - 2])) (\<lambda>_. write64 (arr + mx * drop_bit 3 E * 8) 0) ?s1 =
        Ok ((), s\<lparr>mem := ?m\<rparr>)"
    using m unfolding lastc by (simp add: write64_def bind_Ok run_basic)
  note c = chunk_chain [OF i refl ld [unfolded slot] out [unfolded arr E]]
  have "?m x = mem s x" if x: "\<not> in_region chunk 262144 x" for x
    using c(3) [OF _ _ x] x by (simp add: store_le_outside in_region_def)
  moreover have "load64 ?m chunk = ptr" using c(1) by simp
  ultimately show ?thesis using run c(2) by blast
qed

lemma slab_fields:
  "b\<lparr>lock := l, ent_size := e, first_free := f\<rparr> = \<lparr>lock = l, first_free = f, ent_size = e\<rparr>"
  by (cases b) simp

lemma create_slab_Ok:
  assumes s: "pmm_ready s" and i: "i < 12" "length (slabs s) = 12" and heap: "\<not> pmm_exhausted s 64"
  shows "\<exists>q t. create_slab i (of_nat (cell_size i)) s = Ok ((), t) \<and> fresh_chunk s i q t"
proof -
  define E :: u64 where "E = of_nat (cell_size i)"
  note b = cell_size_bounds [OF i(1)] and cs = chunk_sizes [OF i(1) E_def]
  let ?s0 = "s\<lparr>slabs := (slabs s)[i := (slabs s ! i)\<lparr>lock := False\<rparr>]\<rparr>"
  have s0: "pmm_ready ?s0" using s by simp
  obtain q where q: "pmm_pick ?s0 64 q"
    and ok: "pmm_alloc_nozero 64 ?s0 = Ok (of_nat q * PAGE_SIZE, pmm_take q 64 ?s0)"
    using pmm_alloc_nozero_cases [of 64 ?s0] s heap by (auto simp: pmm_ready_def)
  let ?u = "pmm_take q 64 ?s0" and ?p = "of_nat q * PAGE_SIZE :: u64"
  have "pmm_pick ?s0 (unat (64 :: u64)) q" using q by simp
  note blk = picked_block [OF s0 this refl, simplified]
  have ru: "pmm_ready ?u" using pmm_ready_take [OF s0, of "64 :: u64" q] q by simp
  have fru: "slab_frame s ?u"
    using slab_frame_alloc [OF slab_frame_slabs [OF slab_frame_refl] alloc_frame_take] .
  note fu = slab_frame_fields [OF fru]
  let ?ch = "chunk_addr s q"
  let ?S = "(slabs s)[i := \<lparr>lock = False, first_free = ?ch + E, ent_size = E\<rparr>]"
  let ?v = "?u\<lparr>slabs := ?S\<rparr>"
  have su: "slabs ?u = (slabs s)[i := (slabs s ! i)\<lparr>lock := False\<rparr>]" by (simp add: pmm_take_def)
  define mx where "mx = drop_bit (unat (of_nat (i + 3) :: u64)) (PAGE_SIZE * 64 - E) - 1"
  have mxn: "unat mx = chunk_cells i - 2" unfolding mx_def by (rule cs(5))
  have "of_nat (unat mx) = mx" by simp
  then have mx: "mx = of_nat (chunk_cells i - 2)" unfolding mxn by (rule sym)
  obtain m where m: "bind (foreach (\<lambda>j. write64 (?ch + E + j * drop_bit 3 E * 8) (?ch + E + (j + 1) * drop_bit 3 E * 8))
        (map of_nat [0..<chunk_cells i - 2])) (\<lambda>_. write64 (?ch + E + mx * drop_bit 3 E * 8) 0)
        (?v\<lparr>mem := store64 (mem ?v) ?ch (slab_ptr s i)\<rparr>) = Ok ((), ?v\<lparr>mem := m\<rparr>)"
    and hdr: "load64 m ?ch = slab_ptr s i"
    and links: "\<forall>k. 1 \<le> k \<and> k < chunk_cells i \<longrightarrow> load64 m (?ch + of_nat (k * cell_size i)) =
         (if Suc k = chunk_cells i then 0 else ?ch + of_nat (Suc k * cell_size i))"
    and out: "\<And>x. \<not> in_region ?ch 262144 x \<Longrightarrow> m x = mem ?v x"
    using chunk_memory [OF i(1) E_def refl mx, where chunk = ?ch and ptr = "slab_ptr s i" and s = ?v] by blast
  have run: "create_slab i E s = Ok ((), ?v\<lparr>mem := m\<rparr>)"
    using ok i m cs(4) mxn fu(1,2) su
    by (simp add: slab_fields create_slab_def upd_slab_def bind_Ok cs(2) Let_def write64_def slabs_commute
        for_range_foreach mx_def chunk_addr_def slab_ptr_def)
  have free: "{q..<q + 64} \<subseteq> free_pages s" and le: "q + 64 \<le> unat (pmm_avl_page_count s)"
    and small: "(q + 64) * 4096 \<le> 2 ^ 64"
    using blk by simp_all
  have region: "in_region ?ch 262144 x \<longleftrightarrow> page_of s x \<in> {q..<q + 64}" for x
    using region_page_of [OF small, of s x] by (simp add: chunk_addr_def)
  have off: "page_of s x \<notin> {q..<q + 64}" if "bitmap_byte s x" for x
    using raw_pages.own_avail [OF s that] free by blast
  have bits: "m x = mem ?v x" if "bitmap_byte ?v x" for x
    using that off [of x] region [of x] fu(6) by (intro out) simp
  have "pmm_ready (?v\<lparr>mem := m\<rparr>)" "free_pages (?v\<lparr>mem := m\<rparr>) = free_pages s - {q..<q + 64}"
    using pmm_mem_update [OF bits] ru free_pages_pmm_take [of q 64 ?s0] le by simp_all
  moreover have "mem (?v\<lparr>mem := m\<rparr>) x = mem s x" if "page_of s x \<notin> {q..<q + 64}" "\<not> bitmap_byte s x" for x
    using that region [of x] out [of x] mem_pmm_take [of ?s0 x q 64] le by simp
  moreover have "slab_frame s (?v\<lparr>mem := m\<rparr>)"
    by (intro slab_frame_mem slab_frame_slabs fru)
  moreover have "64 dvd q" using pmm_pick_block(2) [OF _ q] s0 by (simp add: pmm_ready_def)
  moreover have "pmm_last_used_index (?v\<lparr>mem := m\<rparr>) = of_nat (q + 64)" by (simp add: pmm_take_def)
  ultimately have "fresh_chunk s i q (?v\<lparr>mem := m\<rparr>)"
    unfolding fresh_chunk_def using le free hdr links by (simp add: E_def)
  then show ?thesis using run unfolding E_def by blast
qed

end
