(* ===== verification/Slab_Heap.thy ===== *)
theory Slab_Heap
  imports Slab
begin

text \<open>
  What the slab allocator guarantees: the invariant \<open>slab_heap n s F L\<close> relates the first \<open>n\<close>
  slabs of a kernel state to their free lists and to the set of live cells, every operation keeps
  it, and live cells never overlap. \<open>n\<close> is 12 once \<open>slab_init\<close> is done.
\<close>

section \<open>The invariant\<close>

text \<open>\<open>free_list m p cs\<close>: following the links from \<open>p\<close> visits the cells \<open>cs\<close> and ends at null.\<close>

fun free_list :: "memory \<Rightarrow> u64 \<Rightarrow> u64 list \<Rightarrow> bool" where
  "free_list m p [] \<longleftrightarrow> p = 0"
| "free_list m p (c # cs) \<longleftrightarrow> p = c \<and> c \<noteq> 0 \<and> free_list m (load64 m c) cs"

text \<open>\<open>slab_chunk s i q\<close>: the 64 pages from \<open>q\<close> are a chunk of slab \<open>i\<close>; \<open>slab_cell s i c\<close>:
  \<open>c\<close> is a cell of such a chunk, not the header.\<close>

definition slab_chunk :: "kernel \<Rightarrow> nat \<Rightarrow> nat \<Rightarrow> bool" where
  "slab_chunk s i q \<longleftrightarrow>
     64 dvd q \<and> q + 64 \<le> unat (pmm_avl_page_count s) \<and> {q..<q + 64} \<inter> free_pages s = {}
     \<and> (\<forall>x. bitmap_byte s x \<longrightarrow> page_of s x \<notin> {q..<q + 64})
     \<and> load64 (mem s) (chunk_addr s q) = slab_ptr s i"

definition slab_cell :: "kernel \<Rightarrow> nat \<Rightarrow> u64 \<Rightarrow> bool" where
  "slab_cell s i c \<longleftrightarrow> (\<exists>q k. slab_chunk s i q \<and> 1 \<le> k \<and> k < chunk_cells i
     \<and> c = chunk_addr s q + of_nat (k * cell_size i))"

definition slab_heap :: "nat \<Rightarrow> kernel \<Rightarrow> (nat \<Rightarrow> u64 list) \<Rightarrow> (nat \<times> u64) set \<Rightarrow> bool" where
  "slab_heap n s F L \<longleftrightarrow>
     n \<le> 12 \<and> pmm_ready s \<and> 262144 dvd unat (hhdm s) \<and> length (slabs s) = 12
     \<and> (\<forall>i < n. ent_size (slabs s ! i) = of_nat (cell_size i) \<and> \<not> lock (slabs s ! i)
         \<and> free_list (mem s) (first_free (slabs s ! i)) (F i) \<and> distinct (F i)
         \<and> (\<forall>c \<in> set (F i). slab_cell s i c))
     \<and> (\<forall>(i, c) \<in> L. i < n \<and> slab_cell s i c \<and> c \<notin> set (F i))"

lemma free_list_cong:
  "(\<And>c. c \<in> set cs \<Longrightarrow> load64 m' c = load64 m c) \<Longrightarrow> free_list m' p cs = free_list m p cs"
  by (induction cs arbitrary: p) auto

lemma slab_heapD:
  assumes "slab_heap n s F L"
  shows "pmm_ready s" "262144 dvd unat (hhdm s)" "length (slabs s) = 12"
    and "i < n \<Longrightarrow> ent_size (slabs s ! i) = of_nat (cell_size i)" "i < n \<Longrightarrow> \<not> lock (slabs s ! i)"
    and "i < n \<Longrightarrow> free_list (mem s) (first_free (slabs s ! i)) (F i)" "i < n \<Longrightarrow> distinct (F i)"
    and "i < n \<Longrightarrow> c \<in> set (F i) \<Longrightarrow> slab_cell s i c"
    and "(i, c) \<in> L \<Longrightarrow> i < n" "(i, c) \<in> L \<Longrightarrow> slab_cell s i c" "(i, c) \<in> L \<Longrightarrow> c \<notin> set (F i)"
    and "n \<le> 12"
  using assms by (auto simp: slab_heap_def)

lemma slab_heapI:
  assumes "n \<le> 12" "pmm_ready s" "262144 dvd unat (hhdm s)" "length (slabs s) = 12"
    and "\<And>i. i < n \<Longrightarrow> ent_size (slabs s ! i) = of_nat (cell_size i) \<and> \<not> lock (slabs s ! i)"
    and "\<And>i. i < n \<Longrightarrow> free_list (mem s) (first_free (slabs s ! i)) (F i) \<and> distinct (F i)"
    and "\<And>i c. i < n \<Longrightarrow> c \<in> set (F i) \<Longrightarrow> slab_cell s i c"
    and "\<And>i c. (i, c) \<in> L \<Longrightarrow> i < n \<and> slab_cell s i c \<and> c \<notin> set (F i)"
  shows "slab_heap n s F L"
  unfolding slab_heap_def using assms by blast

section \<open>Geometry of chunks\<close>

lemma chunk_region:
  assumes "pmm_ready s" and "q + 64 \<le> unat (pmm_avl_page_count s)"
  shows "in_region (chunk_addr s q) 262144 x \<longleftrightarrow> page_of s x \<in> {q..<q + 64}"
proof -
  have "(q + 64) * 4096 \<le> 2 ^ 64"
    using assms pmm_wf_bound [of s] by (simp add: pmm_ready_def)
  from region_page_of [OF this, of s x] show ?thesis by (simp add: chunk_addr_def)
qed

lemma cell_pages:
  assumes "pmm_ready s" and "slab_chunk s i q" and "i < 12" and "k < chunk_cells i"
    and "in_region (chunk_addr s q + of_nat (k * cell_size i)) (cell_size i) x"
  shows "page_of s x \<in> {q..<q + 64}"
proof -
  have "chunk_cells i * cell_size i < 2 ^ 64" using cell_size_bounds(3) [OF assms(3)] by simp
  from slot_in_room [OF assms(4) this assms(5)] show ?thesis
    using chunk_region [OF assms(1)] assms(2) cell_size_bounds(3) [OF assms(3)]
    by (simp add: slab_chunk_def)
qed

lemma slab_ptr_inj:
  assumes "i < 12" and "j < 12" and "slab_ptr s i = slab_ptr s j"
  shows "i = j"
proof -
  have "(of_nat (i * 24) :: u64) = of_nat (j * 24)" using assms(3) by (simp add: slab_ptr_def)
  then have "i * 24 = j * 24" using assms(1,2) by (subst (asm) of_nat_u64_inj) simp_all
  then show ?thesis by simp
qed

lemma aligned_blocks:
  assumes "64 dvd q" and "64 dvd (r :: nat)" and "p \<in> {q..<q + 64}" and "p \<in> {r..<r + 64}"
  shows "q = r"
proof -
  obtain a b where "q = 64 * a" "r = 64 * b" using assms(1,2) by (auto elim!: dvdE)
  then show ?thesis using assms(3,4) by auto
qed

text \<open>Cells do not overlap.\<close>

lemma cells_apart:
  assumes s: "pmm_ready s" and ci: "slab_cell s i c" "i < 12" and dj: "slab_cell s j d" "j < 12"
    and "in_region c (cell_size i) x" and "in_region d (cell_size j) x"
  shows "i = j \<and> c = d"
proof -
  obtain q k where q: "slab_chunk s i q" "1 \<le> k" "k < chunk_cells i" "c = chunk_addr s q + of_nat (k * cell_size i)"
    using ci by (auto simp: slab_cell_def)
  obtain r l where r: "slab_chunk s j r" "1 \<le> l" "l < chunk_cells j" "d = chunk_addr s r + of_nat (l * cell_size j)"
    using dj by (auto simp: slab_cell_def)
  have "page_of s x \<in> {q..<q + 64}" "page_of s x \<in> {r..<r + 64}"
    using cell_pages [OF s q(1) ci(2) q(3)] cell_pages [OF s r(1) dj(2) r(3)] assms(6,7) q(4) r(4) by simp_all
  then have qr: "q = r" using aligned_blocks q(1) r(1) by (auto simp: slab_chunk_def)
  then have ij: "i = j" using slab_ptr_inj [OF ci(2) dj(2)] q(1) r(1) by (simp add: slab_chunk_def)
  have cap: "chunk_cells i * cell_size i < 2 ^ 64" using cell_size_bounds(3) [OF ci(2)] by simp
  have "k = l"
  proof (rule ccontr)
    assume "k \<noteq> l"
    then consider "k < l" | "l < k" by linarith
    then show False
      using slots_apart [OF _ _ cap, of k l "chunk_addr s q" x] slots_apart [OF _ _ cap, of l k "chunk_addr s q" x]
        assms(6,7) q r qr ij by cases simp_all
  qed
  then show ?thesis using qr ij q(4) r(4) by simp
qed

text \<open>The header of a chunk is found by clearing the low 18 bits of a cell's address.\<close>

lemma unat_clear_low:
  "unat (c AND NOT 0x3ffff :: u64) = unat c div 262144 * 262144"
proof -
  have "(c AND NOT 0x3ffff) = push_bit 18 (drop_bit 18 c)"
  proof (rule bit_word_eqI)
    fix n assume n: "n < LENGTH(64)"
    have m: "(0x3ffff :: u64) = mask 18" by (simp add: mask_eq_exp_minus_1)
    show "bit (c AND NOT 0x3ffff) n = bit (push_bit 18 (drop_bit 18 c)) n"
      unfolding m using n by (auto simp: bit_simps)
  qed
  moreover have "unat (push_bit 18 (drop_bit 18 c)) = unat c div 262144 * 262144"
  proof -
    have "unat (drop_bit 18 c) = unat c div 262144" by (simp add: drop_bit_eq_div unat_div)
    moreover have "unat c div 262144 * 262144 < 2 ^ 64" using unat_u64_less [of c] by simp
    ultimately show ?thesis by (simp add: push_bit_eq_mult) (subst unat_mult_lem [THEN iffD1], simp_all)
  qed
  ultimately show ?thesis by simp
qed

lemma chunk_addr_aligned:
  assumes "262144 dvd unat (hhdm s)" and "64 dvd q" and "pmm_ready s" and "q + 64 \<le> unat (pmm_avl_page_count s)"
  shows "262144 dvd unat (chunk_addr s q)"
proof -
  have "q < 2 ^ 52" using assms(3,4) pmm_wf_bound [of s] by (simp add: pmm_ready_def)
  then have "unat (of_nat q * PAGE_SIZE :: u64) = q * 4096" by (rule unat_page_addr)
  then have "262144 dvd unat (of_nat q * PAGE_SIZE :: u64) + unat (hhdm s)"
    using assms(1,2) by (auto elim!: dvdE)
  then show ?thesis
    unfolding chunk_addr_def unat_word_ariths by (simp add: dvd_mod)
qed

lemma cell_addr:
  assumes "pmm_ready s" and "262144 dvd unat (hhdm s)" and "i < 12" and "k < chunk_cells i" and "1 \<le> k"
    and c: "c = chunk_addr s q + of_nat (k * cell_size i)"
    and "64 dvd q" and "q + 64 \<le> unat (pmm_avl_page_count s)"
  shows "c AND NOT 0x3ffff = chunk_addr s q" and "c \<noteq> 0"
proof -
  have al: "262144 dvd unat (chunk_addr s q)"
    using chunk_addr_aligned [OF assms(2,7,1,8)] .
  then have top: "unat (chunk_addr s q) + 262144 \<le> 2 ^ 64"
    using unat_u64_less [of "chunk_addr s q"] by (auto elim!: dvdE)
  note b = cell_size_bounds [OF assms(3)]
  have "k * cell_size i < chunk_cells i * cell_size i" using assms(4) b(7) by simp
  then have off: "0 < k * cell_size i" "k * cell_size i < 262144" using b(3,7) assms(5) by simp_all
  then have "unat (of_nat (k * cell_size i) :: u64) = k * cell_size i" by (intro unat_of_nat_u64) simp
  then have u: "unat c = unat (chunk_addr s q) + k * cell_size i"
    unfolding c using top off by (subst unat_add_lem [THEN iffD1]) simp_all
  then show "c \<noteq> 0" using off by auto
  have "unat (c AND NOT 0x3ffff) = unat (chunk_addr s q)"
    unfolding unat_clear_low u using al off by (auto elim!: dvdE)
  then show "c AND NOT 0x3ffff = chunk_addr s q" by (simp add: word_unat_eq_iff)
qed

lemma cell_header:
  assumes "slab_heap n s F L" and "slab_cell s i c" and "i < 12"
  shows "c \<noteq> 0" and "load64 (mem s) (c AND NOT 0x3ffff) = slab_ptr s i"
proof -
  obtain q k where q: "slab_chunk s i q" "1 \<le> k" "k < chunk_cells i" "c = chunk_addr s q + of_nat (k * cell_size i)"
    using assms(2) by (auto simp: slab_cell_def)
  then have "64 dvd q" "q + 64 \<le> unat (pmm_avl_page_count s)" by (simp_all add: slab_chunk_def)
  note a = cell_addr [OF slab_heapD(1,2) [OF assms(1)] assms(3) q(3,2,4) this]
  show "c \<noteq> 0" by (rule a(2))
  show "load64 (mem s) (c AND NOT 0x3ffff) = slab_ptr s i" using q(1) unfolding a(1) by (simp add: slab_chunk_def)
qed

section \<open>What keeps chunks and cells\<close>

lemma slab_chunk_kept:
  assumes "slab_chunk s i q" and "slab_frame s t" and "{q..<q + 64} \<inter> free_pages t = {}"
    and "\<And>x. in_region (chunk_addr s q) 8 x \<Longrightarrow> mem t x = mem s x"
  shows "slab_chunk t i q"
proof -
  note f = slab_frame_fields [OF assms(2)]
  have "load64 (mem t) (chunk_addr s q) = load64 (mem s) (chunk_addr s q)"
    using assms(4) by (intro load_le_cong_region) simp_all
  then show ?thesis using assms(1,3) by (simp add: slab_chunk_def f)
qed

lemma slab_cell_kept:
  assumes "slab_cell s i c" and "slab_frame s t" and "\<And>q. slab_chunk s i q \<Longrightarrow> slab_chunk t i q"
  shows "slab_cell t i c"
  using assms(1,3) slab_frame_fields(8) [OF assms(2)] by (fastforce simp: slab_cell_def)

text \<open>The header of a chunk overlaps none of its cells, nor any cell of another chunk.\<close>

lemma header_apart:
  assumes s: "pmm_ready s" and ch: "slab_chunk s i q" and cell: "slab_cell s j c" "j < 12"
    and "in_region (chunk_addr s q) 8 x"
  shows "\<not> in_region c (cell_size j) x"
proof
  assume x: "in_region c (cell_size j) x"
  obtain r k where r: "slab_chunk s j r" "1 \<le> k" "k < chunk_cells j" "c = chunk_addr s r + of_nat (k * cell_size j)"
    using cell by (auto simp: slab_cell_def)
  note b = cell_size_bounds [OF cell(2)]
  have "in_region (chunk_addr s q) 262144 x" using assms(5) by (simp add: in_region_def)
  then have "page_of s x \<in> {q..<q + 64}" using chunk_region [OF s] ch by (simp add: slab_chunk_def)
  moreover have "page_of s x \<in> {r..<r + 64}" using cell_pages [OF s r(1) cell(2) r(3)] x r(4) by simp
  ultimately have qr: "q = r" using aligned_blocks ch r(1) by (auto simp: slab_chunk_def)
  have "in_region (chunk_addr s r + of_nat (0 * cell_size j)) (cell_size j) x"
    using assms(5) b(1) qr by (simp add: in_region_def)
  moreover have "chunk_cells j * cell_size j < 2 ^ 64" using b(3) by simp
  ultimately have "\<not> in_region (chunk_addr s r + of_nat (k * cell_size j)) (cell_size j) x"
    using r(2,3) by (intro slots_apart [of 0 k "chunk_cells j"]) simp_all
  then show False using x r(4) by simp
qed

text \<open>A change of memory inside one cell.\<close>

lemma cell_update:
  assumes h: "slab_heap n s F L" and cell: "slab_cell s i c" "i < 12"
    and out: "\<And>x. \<not> in_region c (cell_size i) x \<Longrightarrow> m x = mem s x"
  shows "pmm_ready (s\<lparr>mem := m\<rparr>)" and "free_pages (s\<lparr>mem := m\<rparr>) = free_pages s"
    and "slab_cell s j d \<Longrightarrow> slab_cell (s\<lparr>mem := m\<rparr>) j d"
    and "slab_cell s j d \<Longrightarrow> j < 12 \<Longrightarrow> (j, d) \<noteq> (i, c) \<Longrightarrow> in_region d (cell_size j) x \<Longrightarrow> m x = mem s x"
    and "slab_cell s j d \<Longrightarrow> j < 12 \<Longrightarrow> (j, d) \<noteq> (i, c) \<Longrightarrow> load64 m d = load64 (mem s) d"
proof -
  note s = slab_heapD(1) [OF h]
  have "m x = mem s x" if "bitmap_byte s x" for x
  proof (rule out)
    obtain q k where q: "slab_chunk s i q" "k < chunk_cells i" "c = chunk_addr s q + of_nat (k * cell_size i)"
      using cell by (auto simp: slab_cell_def)
    then show "\<not> in_region c (cell_size i) x"
      using cell_pages [OF s q(1) cell(2) q(2)] that q(3) by (auto simp: slab_chunk_def)
  qed
  note upd = pmm_mem_update [of s m, OF this]
  show "pmm_ready (s\<lparr>mem := m\<rparr>)" "free_pages (s\<lparr>mem := m\<rparr>) = free_pages s" using upd s by simp_all
  have fr: "slab_frame s (s\<lparr>mem := m\<rparr>)" by (rule slab_frame_mem [OF slab_frame_refl])
  have "slab_chunk (s\<lparr>mem := m\<rparr>) j q" if "slab_chunk s j q" for j q
    by (rule slab_chunk_kept [OF that fr])
      (use that upd out header_apart [OF s that cell] in \<open>auto simp: slab_chunk_def\<close>)
  then show "slab_cell s j d \<Longrightarrow> slab_cell (s\<lparr>mem := m\<rparr>) j d"
    using slab_cell_kept [OF _ fr] by blast
  show other: "m x = mem s x"
    if "slab_cell s j d" "j < 12" "(j, d) \<noteq> (i, c)" "in_region d (cell_size j) x" for x
    using cells_apart [OF s that(1,2) cell that(4)] that(3) by (intro out) blast
  show "load64 m d = load64 (mem s) d" if "slab_cell s j d" "j < 12" "(j, d) \<noteq> (i, c)"
    using other [OF that] cell_size_bounds(1) [OF that(2)]
    by (intro load_le_cong_region) (auto simp: in_region_def)
qed

section \<open>A new chunk\<close>

definition chunk_list :: "kernel \<Rightarrow> nat \<Rightarrow> nat \<Rightarrow> u64 list" where
  "chunk_list s i q = map (\<lambda>k. chunk_addr s q + of_nat (k * cell_size i)) [1..<chunk_cells i]"

lemma chain_free_list:
  assumes "\<And>k. 1 \<le> k \<Longrightarrow> k < N \<Longrightarrow> load64 m (addr k) = (if Suc k = N then 0 else addr (Suc k))"
    and "\<And>k. 1 \<le> k \<Longrightarrow> k < N \<Longrightarrow> addr k \<noteq> 0" and "1 \<le> j" and "j \<le> N"
  shows "free_list m (if j = N then 0 else addr j) (map addr [j..<N])"
  using assms(3,4)
proof (induction "N - j" arbitrary: j)
  case 0
  then show ?case by simp
next
  case (Suc d)
  then have j: "j < N" by simp
  have "free_list m (if Suc j = N then 0 else addr (Suc j)) (map addr [Suc j..<N])"
    using Suc by simp
  then show ?case using j Suc.prems assms(1,2) [of j] by (simp add: upt_conv_Cons)
qed

lemma chunk_list_distinct:
  assumes i: "i < 12"
  shows "distinct (chunk_list s i q)"
proof -
  note b = cell_size_bounds [OF i]
  have "inj_on (\<lambda>k. chunk_addr s q + of_nat (k * cell_size i)) (set [1..<chunk_cells i])"
  proof (rule inj_onI)
    fix k l assume kl: "k \<in> set [1..<chunk_cells i]" "l \<in> set [1..<chunk_cells i]"
      and "chunk_addr s q + of_nat (k * cell_size i) = chunk_addr s q + of_nat (l * cell_size i)"
    then have "(of_nat (k * cell_size i) :: u64) = of_nat (l * cell_size i)" by simp
    moreover have "k * cell_size i < 2 ^ 64" if "k < chunk_cells i" for k
    proof -
      have "k * cell_size i < chunk_cells i * cell_size i" using that b(7) by simp
      then show ?thesis using b(3) by simp
    qed
    ultimately have "k * cell_size i = l * cell_size i" using kl by (simp only: of_nat_u64_inj set_upt atLeastLessThan_iff)
    then show "k = l" using b(7) by simp
  qed
  then show ?thesis by (simp add: chunk_list_def distinct_map)
qed

lemma fresh_chunk_bytes:
  assumes "fresh_chunk s i q t" "slab_chunk s j r" "page_of s x \<in> {r..<r + 64}"
  shows "mem t x = mem s x"
proof -
  have "{r..<r + 64} \<inter> free_pages s = {}" "\<And>y. bitmap_byte s y \<Longrightarrow> page_of s y \<notin> {r..<r + 64}"
    using assms(2) by (simp_all add: slab_chunk_def)
  moreover have "{q..<q + 64} \<subseteq> free_pages s"
    and "\<And>x. page_of s x \<notin> {q..<q + 64} \<Longrightarrow> \<not> bitmap_byte s x \<Longrightarrow> mem t x = mem s x"
    using assms(1) by (simp_all add: fresh_chunk_def)
  ultimately show ?thesis using assms(3) by blast
qed

lemma fresh_chunk_kept:
  assumes ready: "pmm_ready s" and fc: "fresh_chunk s i q t" and ch: "slab_chunk s j r"
  shows "slab_chunk t j r"
proof (rule slab_chunk_kept [OF ch])
  show "slab_frame s t" using fc by (simp add: fresh_chunk_def)
  show "{r..<r + 64} \<inter> free_pages t = {}" using ch fc by (auto simp: slab_chunk_def fresh_chunk_def)
  show "mem t x = mem s x" if x: "in_region (chunk_addr s r) 8 x" for x
    by (rule fresh_chunk_bytes [OF fc ch])
      (use x chunk_region [OF ready, of r x] ch in \<open>auto simp: slab_chunk_def in_region_def\<close>)
qed

lemma fresh_chunk_cell:
  assumes ready: "pmm_ready s" and fc: "fresh_chunk s i q t" and cl: "slab_cell s j d"
  shows "slab_cell t j d"
    and "j < 12 \<Longrightarrow> in_region d (cell_size j) x \<Longrightarrow> mem t x = mem s x"
    and "j < 12 \<Longrightarrow> load64 (mem t) d = load64 (mem s) d"
proof -
  have "slab_frame s t" using fc by (simp add: fresh_chunk_def)
  then show "slab_cell t j d" using slab_cell_kept [OF cl] fresh_chunk_kept [OF ready fc] by blast
  show bytes: "mem t x = mem s x" if x: "j < 12" "in_region d (cell_size j) x" for x
  proof -
    obtain r k where r: "slab_chunk s j r" "k < chunk_cells j" "d = chunk_addr s r + of_nat (k * cell_size j)"
      using cl unfolding slab_cell_def by blast
    then show ?thesis using fresh_chunk_bytes [OF fc r(1)] cell_pages [OF ready r(1) x(1) r(2)] x(2) by simp
  qed
  show "load64 (mem t) d = load64 (mem s) d" if j: "j < 12"
    using bytes [OF j] cell_size_bounds(1) [OF j]
    by (intro load_le_cong_region) (auto simp: in_region_def)
qed

lemma fresh_chunk_new:
  assumes ready: "pmm_ready s" and fc: "fresh_chunk s i q t"
  shows "slab_chunk t i q"
    and "c \<in> set (chunk_list s i q) \<Longrightarrow> slab_cell t i c"
    and "slab_cell s i c \<Longrightarrow> i < 12 \<Longrightarrow> c \<notin> set (chunk_list s i q)"
proof -
  have t: "pmm_ready t" "64 dvd q" "q + 64 \<le> unat (pmm_avl_page_count s)" "{q..<q + 64} \<subseteq> free_pages s"
    "free_pages t = free_pages s - {q..<q + 64}" "load64 (mem t) (chunk_addr s q) = slab_ptr s i"
    and fr: "slab_frame s t" using fc by (simp_all add: fresh_chunk_def)
  note f = slab_frame_fields [OF fr]
  show new: "slab_chunk t i q"
    using t raw_pages.own_avail [OF ready] by (auto simp: slab_chunk_def f)
  show "slab_cell t i c" if cl: "c \<in> set (chunk_list s i q)"
  proof -
    obtain k where "1 \<le> k" "k < chunk_cells i" "c = chunk_addr t q + of_nat (k * cell_size i)"
      using cl unfolding chunk_list_def f(8) by (auto simp del: of_nat_mult)
    then show ?thesis using new unfolding slab_cell_def by blast
  qed
  show "c \<notin> set (chunk_list s i q)" if cl: "slab_cell s i c" and i: "i < 12"
  proof
    assume "c \<in> set (chunk_list s i q)"
    then obtain k where k: "k < chunk_cells i" "c = chunk_addr s q + of_nat (k * cell_size i)"
      unfolding chunk_list_def by (auto simp del: of_nat_mult)
    obtain r l where r: "slab_chunk s i r" "l < chunk_cells i" "c = chunk_addr s r + of_nat (l * cell_size i)"
      using cl unfolding slab_cell_def by blast
    have c: "in_region c (cell_size i) c" using cell_size_bounds(7) [OF i] by (simp add: in_region_def)
    have "page_of s c \<in> {r..<r + 64}" using cell_pages [OF ready r(1) i r(2)] c r(3) by simp
    moreover have "page_of t c \<in> {q..<q + 64}" using cell_pages [OF t(1) new i k(1)] c k(2) f by simp
    moreover have "{r..<r + 64} \<inter> free_pages s = {}" using r(1) by (simp add: slab_chunk_def)
    ultimately show False using t(4) unfolding f(5) by blast
  qed
qed

lemma fresh_chunk_list:
  assumes h: "slab_heap n s F L" and fc: "fresh_chunk s i q t" and i: "i < 12"
  shows "free_list (mem t) (chunk_addr s q + of_nat (cell_size i)) (chunk_list s i q)"
proof -
  note hd = slab_heapD [OF h]
  have t: "64 dvd q" "q + 64 \<le> unat (pmm_avl_page_count s)"
    and links: "\<And>k. 1 \<le> k \<Longrightarrow> k < chunk_cells i \<Longrightarrow> load64 (mem t) (chunk_addr s q + of_nat (k * cell_size i)) =
         (if Suc k = chunk_cells i then 0 else chunk_addr s q + of_nat (Suc k * cell_size i))"
    using fc by (simp_all add: fresh_chunk_def)
  have addr: "chunk_addr s q + of_nat (k * cell_size i) \<noteq> 0" if "1 \<le> k" "k < chunk_cells i" for k
    using cell_addr(2) [OF hd(1,2) i that(2,1) refl t] .
  show ?thesis
    using chain_free_list [of "chunk_cells i" "mem t" "\<lambda>k. chunk_addr s q + of_nat (k * cell_size i)" 1] links addr
      cell_size_bounds(4) [OF i]
    by (simp add: chunk_list_def)
qed

lemma fresh_chunk_heap:
  assumes h: "slab_heap n s F L" and fc: "fresh_chunk s i q t" and i: "i < m"
    and m: "n \<le> m" "m \<le> 12" "\<And>j. j < m \<Longrightarrow> j = i \<or> j < n"
  shows "slab_heap m t (F(i := chunk_list s i q)) L"
proof -
  note hd = slab_heapD [OF h]
  note cells = fresh_chunk_cell(1) [OF hd(1) fc] and new = fresh_chunk_new(2,3) [OF hd(1) fc]
  have i12: "i < 12" using i m(2) by simp
  have t: "pmm_ready t" and fr: "slab_frame s t"
    and sl: "slabs t = (slabs s)[i := \<lparr>lock = False, first_free = chunk_addr s q + of_nat (cell_size i),
         ent_size = of_nat (cell_size i)\<rparr>]"
    using fc by (simp_all add: fresh_chunk_def)
  have fls: "free_list (mem t) p (F j) = free_list (mem s) p (F j)" if "j < n" for j p
    using that hd(8,12) by (intro free_list_cong fresh_chunk_cell(3) [OF hd(1) fc, of j]) auto
  have jn: "j < n" if "j < m" "j \<noteq> i" for j using m(3) [OF that(1)] that(2) by blast
  show ?thesis
  proof (rule slab_heapI)
    fix j assume "j < m"
    then show "ent_size (slabs t ! j) = of_nat (cell_size j) \<and> \<not> lock (slabs t ! j)"
      using hd(3,4,5) jn [of j] i12 by (cases "j = i") (simp_all add: sl)
    show "free_list (mem t) (first_free (slabs t ! j)) ((F(i := chunk_list s i q)) j)
        \<and> distinct ((F(i := chunk_list s i q)) j)"
      using hd(3,6,7) jn [OF \<open>j < m\<close>] i12 fresh_chunk_list [OF h fc i12] chunk_list_distinct [OF i12] fls
      by (cases "j = i") (simp_all add: sl)
    show "slab_cell t j c" if "c \<in> set ((F(i := chunk_list s i q)) j)" for c
      using that hd(8) jn [OF \<open>j < m\<close>] new(1) cells by (cases "j = i") auto
  next
    fix j c assume l: "(j, c) \<in> L"
    then show "j < m \<and> slab_cell t j c \<and> c \<notin> set ((F(i := chunk_list s i q)) j)"
      using hd(9-11) [OF l] m(1) cells new(2) i12 by auto
  qed (use t m(2) hd(2,3) slab_frame_fields [OF fr] in \<open>simp_all add: sl\<close>)
qed

section \<open>Taking and returning cells\<close>

lemma slab_slabs_update [simp]:
  "chunk_addr (s\<lparr>slabs := b\<rparr>) = chunk_addr s" "slab_ptr (s\<lparr>slabs := b\<rparr>) = slab_ptr s"
  "slab_chunk (s\<lparr>slabs := b\<rparr>) = slab_chunk s" "slab_cell (s\<lparr>slabs := b\<rparr>) = slab_cell s"
proof -
  show c: "chunk_addr (s\<lparr>slabs := b\<rparr>) = chunk_addr s" "slab_ptr (s\<lparr>slabs := b\<rparr>) = slab_ptr s"
    by (simp_all add: chunk_addr_def slab_ptr_def fun_eq_iff)
  show h: "slab_chunk (s\<lparr>slabs := b\<rparr>) = slab_chunk s" unfolding slab_chunk_def fun_eq_iff by (simp add: c)
  show "slab_cell (s\<lparr>slabs := b\<rparr>) = slab_cell s" unfolding slab_cell_def fun_eq_iff c h by simp
qed

lemma slab_heap_pop:
  assumes h: "slab_heap n s F L" and i: "i < n" "F i = c # cs"
  shows "slab_heap n (s\<lparr>slabs := (slabs s)[i := (slabs s ! i)\<lparr>first_free := load64 (mem s) c\<rparr>]\<rparr>)
      (F(i := cs)) (insert (i, c) L)"
    and "first_free (slabs s ! i) = c" and "c \<noteq> 0" and "slab_cell s i c" and "(i, c) \<notin> L"
proof -
  note hd = slab_heapD [OF h]
  have fl: "free_list (mem s) (first_free (slabs s ! i)) (c # cs)" "distinct (c # cs)"
    using hd(6,7) [OF i(1)] i(2) by simp_all
  then show "first_free (slabs s ! i) = c" "c \<noteq> 0" by simp_all
  show "slab_cell s i c" "(i, c) \<notin> L" using hd(8) [OF i(1), of c] hd(11) [of i c] i(2) by auto
  have i12: "i < length (slabs s)" using hd(3,12) i(1) by simp
  show "slab_heap n (s\<lparr>slabs := (slabs s)[i := (slabs s ! i)\<lparr>first_free := load64 (mem s) c\<rparr>]\<rparr>)
      (F(i := cs)) (insert (i, c) L)" (is "slab_heap n ?t _ _")
  proof (rule slab_heapI)
    fix j assume j: "j < n"
    show "ent_size (slabs ?t ! j) = of_nat (cell_size j) \<and> \<not> lock (slabs ?t ! j)"
      using hd(4,5) [OF j] i12 by (cases "j = i") simp_all
    show "free_list (mem ?t) (first_free (slabs ?t ! j)) ((F(i := cs)) j) \<and> distinct ((F(i := cs)) j)"
      using hd(6,7) [OF j] fl i12 by (cases "j = i") simp_all
    show "slab_cell ?t j d" if "d \<in> set ((F(i := cs)) j)" for d
      using hd(8) [OF j] that i(2) by (cases "j = i") simp_all
  next
    fix j d assume "(j, d) \<in> insert (i, c) L"
    then show "j < n \<and> slab_cell ?t j d \<and> d \<notin> set ((F(i := cs)) j)"
      using hd(8) [OF i(1), of c] hd(9-11) [of j d] fl(2) i by auto
  qed (use hd in simp_all)
qed

lemma slab_heap_push:
  assumes h: "slab_heap n s F L" and l: "(i, c) \<in> L"
  defines "m \<equiv> store64 (mem s) c (first_free (slabs s ! i))"
  shows "slab_heap n (s\<lparr>mem := m, slabs := (slabs s)[i := (slabs s ! i)\<lparr>first_free := c\<rparr>]\<rparr>)
      (F(i := c # F i)) (L - {(i, c)})"
    and "(j, d) \<in> L - {(i, c)} \<Longrightarrow> in_region d (cell_size j) x \<Longrightarrow> m x = mem s x"
    and "free_pages (s\<lparr>mem := m, slabs := b\<rparr>) = free_pages s"
proof -
  note hd = slab_heapD [OF h]
  have i: "i < n" "slab_cell s i c" "c \<notin> set (F i)" and i12: "i < 12" using hd(9-11) [OF l] hd(12) by auto
  have out: "m x = mem s x" if "\<not> in_region c (cell_size i) x" for x
    unfolding m_def using that cell_size_bounds(1) [OF i12] by (intro store_le_outside) (auto simp: in_region_def)
  note cu = cell_update [OF h i(2) i12 out]
  have lt: "j < 12" if "j < n" for j using that hd(12) by simp
  show "(j, d) \<in> L - {(i, c)} \<Longrightarrow> in_region d (cell_size j) x \<Longrightarrow> m x = mem s x"
    using cu(4) [of j d x] hd(9,10) lt by blast
  show "free_pages (s\<lparr>mem := m, slabs := b\<rparr>) = free_pages s" using cu(2) by simp
  have fls: "free_list m p (F j) = free_list (mem s) p (F j)" if "j < n" for j p
    using that hd(8) lt i(3) by (intro free_list_cong cu(5) [of j]) auto
  have cz: "c \<noteq> 0" using cell_header(1) [OF h i(2) i12] .
  show "slab_heap n (s\<lparr>mem := m, slabs := (slabs s)[i := (slabs s ! i)\<lparr>first_free := c\<rparr>]\<rparr>)
      (F(i := c # F i)) (L - {(i, c)})" (is "slab_heap n ?t _ _")
  proof (rule slab_heapI)
    fix j assume j: "j < n"
    show "ent_size (slabs ?t ! j) = of_nat (cell_size j) \<and> \<not> lock (slabs ?t ! j)"
      using hd(3,4,5) j i12 by (cases "j = i") simp_all
    show "free_list (mem ?t) (first_free (slabs ?t ! j)) ((F(i := c # F i)) j) \<and> distinct ((F(i := c # F i)) j)"
      using hd(3,6,7) j i12 i(3) fls [OF j] cz by (cases "j = i") (simp_all add: m_def)
    show "slab_cell ?t j d" if "d \<in> set ((F(i := c # F i)) j)" for d
      using hd(8) [OF j] that cu(3) i(2) by (cases "j = i") auto
  next
    fix j d assume "(j, d) \<in> L - {(i, c)}"
    then show "j < n \<and> slab_cell ?t j d \<and> d \<notin> set ((F(i := c # F i)) j)"
      using hd(9-11) [of j d] cu(3) by auto
  qed (use hd cu(1) in simp_all)
qed

lemma unlocked_slab: "\<not> lock b \<Longrightarrow> b\<lparr>first_free := x, lock := False\<rparr> = b\<lparr>first_free := x\<rparr>"
  by (cases b) simp

lemma alloc_from_slab_run:
  assumes "i < length (slabs s)" and "\<not> int_flag s" and "\<not> lock (slabs s ! i)" and "first_free (slabs s ! i) \<noteq> 0"
  shows "alloc_from_slab i s = Ok (first_free (slabs s ! i),
    s\<lparr>slabs := (slabs s)[i := (slabs s ! i)\<lparr>first_free := load64 (mem s) (first_free (slabs s ! i))\<rparr>]\<rparr>)"
  using assms
  by (simp add: alloc_from_slab_def bind_spinlock_acquire slab_lock_defs upd_slab_def read64_def run_basic
      unlocked_slab)

lemma alloc_from_slab_grow:
  assumes "i < length (slabs s)" and "\<not> int_flag s" and "\<not> lock (slabs s ! i)" and "first_free (slabs s ! i) = 0"
    and "create_slab i (ent_size (slabs s ! i)) (slab_lock_update i (\<lambda>_. True) s) = Ok ((), t)"
    and "i < length (slabs t)" and "\<not> lock (slabs t ! i)"
  shows "alloc_from_slab i s = Ok (first_free (slabs t ! i),
    t\<lparr>slabs := (slabs t)[i := (slabs t ! i)\<lparr>first_free := load64 (mem t) (first_free (slabs t ! i))\<rparr>]\<rparr>)"
  using assms
  by (simp add: alloc_from_slab_def bind_spinlock_acquire slab_lock_defs upd_slab_def read64_def run_basic
      unlocked_slab bind_Ok)

section \<open>Allocation\<close>

text \<open>\<open>live_cells s L\<close>: the allocator is initialised and the cells \<open>L\<close>, each given with the index
  of its slab, are in use by clients and none of them is on a free list. \<open>kept L s t\<close>: their bytes are the same.\<close>

definition live_cells :: "kernel \<Rightarrow> (nat \<times> u64) set \<Rightarrow> bool" where
  "live_cells s L \<longleftrightarrow> \<not> int_flag s \<and> (\<exists>F. slab_heap 12 s F L)"

definition kept :: "(nat \<times> u64) set \<Rightarrow> kernel \<Rightarrow> kernel \<Rightarrow> bool" where
  "kept L s t \<longleftrightarrow> (\<forall>i c x. (i, c) \<in> L \<and> in_region c (cell_size i) x \<longrightarrow> mem t x = mem s x)"

lemma kept_trans: "kept L s t \<Longrightarrow> kept L t u \<Longrightarrow> kept L s u"
  by (simp add: kept_def)

lemma kept_subset: "kept L s t \<Longrightarrow> K \<subseteq> L \<Longrightarrow> kept K s t"
  unfolding kept_def by blast

text \<open>The slab that serves a request, and whether it can.\<close>

definition slab_class :: "u64 \<Rightarrow> nat" where
  "slab_class sz = highest_bit (unat sz) - 2"

definition slab_can :: "kernel \<Rightarrow> u64 \<Rightarrow> bool" where
  "slab_can s sz \<longleftrightarrow> 0 < unat sz \<and> unat sz < 16384
     \<and> (first_free (slabs s ! slab_class sz) = 0 \<longrightarrow> \<not> pmm_exhausted s 64)"

lemma slab_class_room:
  assumes "0 < unat sz" and "unat sz < 16384"
  shows "slab_class sz < 12" and "unat sz < cell_size (slab_class sz)"
proof -
  let ?b = "highest_bit (unat sz)"
  have b: "2 ^ ?b \<le> unat sz" "unat sz < 2 ^ Suc ?b" using highest_bit_bounds [OF assms(1)] by auto
  have "(2 :: nat) ^ ?b < 2 ^ 14" using b(1) assms(2) by simp
  then have "?b < 14" by (rule power_less_imp_less_exp [rotated]) simp
  then show "slab_class sz < 12" by (simp add: slab_class_def)
  have "(2 :: nat) ^ Suc ?b \<le> 2 ^ (3 + (?b - 2))" by (intro power_increasing) simp_all
  then show "unat sz < cell_size (slab_class sz)"
    using b(2) by (simp add: slab_class_def cell_size_def power_add)
qed

lemma fresh_chunk_lock:
  assumes "fresh_chunk (slab_lock_update i f s) i q t"
  shows "fresh_chunk s i q t"
proof -
  have "slab_frame s t"
    using assms slab_frame_trans [OF slab_frame_slabs [OF slab_frame_refl]]
    by (auto simp: fresh_chunk_def slab_lock_defs)
  then show ?thesis using assms by (simp add: fresh_chunk_def slab_lock_defs)
qed

lemma alloc_from_slab_Ok:
  assumes h: "slab_heap 12 s F L" and i: "i < 12" and int: "\<not> int_flag s"
    and room: "first_free (slabs s ! i) = 0 \<Longrightarrow> \<not> pmm_exhausted s 64"
  shows "\<exists>c t F'. alloc_from_slab i s = Ok (c, t) \<and> slab_heap 12 t F' (insert (i, c) L)
    \<and> (i, c) \<notin> L \<and> c \<noteq> 0 \<and> kept L s t \<and> \<not> int_flag t"
proof (cases "F i")
  case (Cons c cs)
  note p = slab_heap_pop [OF h i Cons] and hd = slab_heapD [OF h]
  have "alloc_from_slab i s = Ok (c, s\<lparr>slabs := (slabs s)[i := (slabs s ! i)\<lparr>first_free := load64 (mem s) c\<rparr>]\<rparr>)"
    using alloc_from_slab_run [of i s] hd(3,5) i int p(2,3) by simp
  then show ?thesis using p int by (fastforce simp: kept_def)
next
  case Nil
  note hd = slab_heapD [OF h]
  have z: "first_free (slabs s ! i) = 0" using hd(6) [OF i] Nil by simp
  let ?s = "slab_lock_update i (\<lambda>_. True) s"
  have "pmm_ready ?s" "length (slabs ?s) = 12" "\<not> pmm_exhausted ?s 64"
    using hd(1,3) room [OF z] by (simp_all add: slab_lock_defs)
  from create_slab_Ok [OF this(1) i this(2,3)] obtain q t where
    run: "create_slab i (of_nat (cell_size i)) ?s = Ok ((), t)" and "fresh_chunk ?s i q t" by blast
  then have fc: "fresh_chunk s i q t" using fresh_chunk_lock by blast
  have ht: "slab_heap 12 t (F(i := chunk_list s i q)) L"
    and bytes: "\<And>j d x. slab_cell s j d \<Longrightarrow> j < 12 \<Longrightarrow> in_region d (cell_size j) x \<Longrightarrow> mem t x = mem s x"
    using fresh_chunk_heap [OF h fc i] fresh_chunk_cell(2) [OF slab_heapD(1) [OF h] fc] by auto
  obtain c cs where cs: "chunk_list s i q = c # cs"
    using cell_size_bounds(4) [OF i] by (cases "chunk_list s i q") (auto simp: chunk_list_def)
  have "(F(i := chunk_list s i q)) i = c # cs" using cs by simp
  note p = slab_heap_pop [OF ht i this] and td = slab_heapD [OF ht]
  let ?t = "t\<lparr>slabs := (slabs t)[i := (slabs t ! i)\<lparr>first_free := load64 (mem t) c\<rparr>]\<rparr>"
  have "alloc_from_slab i s = Ok (c, ?t)"
    using alloc_from_slab_grow [of i s t] hd(3,4,5) td(3,5) i int z run p(2) by simp
  moreover have "kept L s ?t"
    unfolding kept_def using bytes hd(9,10) by simp blast
  moreover have "\<not> int_flag ?t"
    using fc int slab_frame_fields(3) [of s t] by (simp add: fresh_chunk_def)
  ultimately show ?thesis using p(1,3,5) by blast
qed

lemma slab_alloc_Ok:
  assumes "live_cells s L" and "slab_can s sz"
  shows "\<exists>c t. slab_alloc sz s = Ok (c, t) \<and> live_cells t (insert (slab_class sz, c) L)
    \<and> (slab_class sz, c) \<notin> L \<and> c \<noteq> 0 \<and> kept L s t"
proof -
  obtain F where h: "slab_heap 12 s F L" and int: "\<not> int_flag s" using assms(1) by (auto simp: live_cells_def)
  have sz: "0 < unat sz" "unat sz < 16384" using assms(2) by (simp_all add: slab_can_def)
  have "slab_alloc sz s = alloc_from_slab (slab_class sz) s"
    using slab_for_eq [OF sz(1), of s] sz(2) by (simp add: slab_alloc_def bind_Ok slab_class_def)
  moreover have "first_free (slabs s ! slab_class sz) = 0 \<Longrightarrow> \<not> pmm_exhausted s 64"
    using assms(2) by (simp add: slab_can_def)
  ultimately show ?thesis
    using alloc_from_slab_Ok [OF h slab_class_room(1) [OF sz] int] by (fastforce simp: live_cells_def)
qed

section \<open>Freeing\<close>

lemma slab_of_header_live:
  assumes h: "slab_heap 12 s F L" and l: "(i, c) \<in> L"
  shows "slab_of_header c s = Ok (i, s)"
proof -
  have i: "i < 12" "slab_cell s i c" using slab_heapD(9,10) [OF h l] .
  have "find (\<lambda>j. slab_ptr s j = slab_ptr s i) [0..<12] = Some i"
    unfolding find_Some_iff using i(1) slab_ptr_inj [of _ i s]
    by (intro exI [of _ i]) (auto dest: slab_ptr_inj [OF less_trans])
  then show ?thesis
    using cell_header(2) [OF h i(2,1)] by (simp add: slab_of_header_def read64_def run_basic)
qed

lemma free_in_slab_run:
  assumes "i < length (slabs s)" and "\<not> int_flag s" and "\<not> lock (slabs s ! i)" and "c \<noteq> 0"
  shows "free_in_slab i c s = Ok ((), s\<lparr>mem := store64 (mem s) c (first_free (slabs s ! i)),
     slabs := (slabs s)[i := (slabs s ! i)\<lparr>first_free := c\<rparr>]\<rparr>)"
  using assms
  by (simp add: free_in_slab_def bind_spinlock_acquire slab_lock_defs upd_slab_def write64_def
      spinlock_release_eq bind_assoc run_basic unlocked_slab)

lemma free_in_slab_Ok:
  assumes "live_cells s L" and l: "(i, c) \<in> L"
  shows "\<exists>t. free_in_slab i c s = Ok ((), t) \<and> live_cells t (L - {(i, c)}) \<and> kept (L - {(i, c)}) s t
    \<and> free_pages t = free_pages s"
proof -
  obtain F where h: "slab_heap 12 s F L" and int: "\<not> int_flag s" using assms(1) by (auto simp: live_cells_def)
  note hd = slab_heapD [OF h]
  have i: "i < 12" "slab_cell s i c" using hd(9,10) [OF l] .
  note p = slab_heap_push [OF h l]
  show ?thesis
    using free_in_slab_run [of i s c] hd(3,5) i(1) int cell_header(1) [OF h i(2,1)] p
    by (simp add: live_cells_def kept_def) blast
qed

lemma slab_free_in:
  assumes h: "slab_heap 12 s F L" and l: "(i, c) \<in> L"
  shows "slab_free c s = free_in_slab i c s"
proof -
  have i: "i < 12" "slab_cell s i c" using slab_heapD(9,10) [OF h l] .
  show ?thesis using cell_header(1) [OF h i(2,1)] slab_of_header_live [OF h l] by (simp add: slab_free_def bind_Ok)
qed

lemma slab_free_Ok:
  assumes "live_cells s L" and l: "(i, c) \<in> L"
  shows "\<exists>t. slab_free c s = Ok ((), t) \<and> live_cells t (L - {(i, c)}) \<and> kept (L - {(i, c)}) s t
    \<and> free_pages t = free_pages s"
proof -
  obtain F where h: "slab_heap 12 s F L" using assms(1) by (auto simp: live_cells_def)
  show ?thesis using free_in_slab_Ok [OF assms] slab_free_in [OF h l] by simp
qed

text \<open>A request that a slab can serve from its free list takes the head of that list.\<close>

lemma slab_alloc_head:
  assumes "live_cells s L" and sz: "0 < unat sz" "unat sz < 16384" and ne: "first_free (slabs s ! slab_class sz) \<noteq> 0"
  shows "\<exists>u. slab_alloc sz s = Ok (first_free (slabs s ! slab_class sz), u)"
proof -
  obtain F where h: "slab_heap 12 s F L" and int: "\<not> int_flag s" using assms(1) by (auto simp: live_cells_def)
  note hd = slab_heapD [OF h] and i = slab_class_room(1) [OF sz]
  have "slab_alloc sz s = alloc_from_slab (slab_class sz) s"
    using slab_for_eq [OF sz(1), of s] sz(2) by (simp add: slab_alloc_def bind_Ok slab_class_def)
  then show ?thesis using alloc_from_slab_run [OF _ int _ ne] hd(3,5) i by simp
qed

text \<open>A freed cell becomes the head of the free list of its slab, and the lists keep all they had.\<close>

lemma slab_free_list:
  assumes live: "live_cells s L" and l: "(i, c) \<in> L" and run: "slab_free c s = Ok ((), t)"
  shows "first_free (slabs t ! i) = c" "i < 12" "c \<noteq> 0"
    and "j < 12 \<Longrightarrow> \<exists>cs. free_list (mem s) (first_free (slabs s ! j)) cs
      \<and> free_list (mem t) (first_free (slabs t ! j)) (if j = i then c # cs else cs)"
proof -
  obtain F where h: "slab_heap 12 s F L" and int: "\<not> int_flag s" using live by (auto simp: live_cells_def)
  note hd = slab_heapD [OF h]
  show i: "i < 12" using hd(9) [OF l] .
  show c: "c \<noteq> 0" using cell_header(1) [OF h hd(10) [OF l] i] .
  have t: "t = s\<lparr>mem := store64 (mem s) c (first_free (slabs s ! i)), slabs := (slabs s)[i := (slabs s ! i)\<lparr>first_free := c\<rparr>]\<rparr>"
    using free_in_slab_run [of i s c] run slab_free_in [OF h l] hd(3,5) i int c by simp
  show "first_free (slabs t ! i) = c" using i hd(3) by (simp add: t)
  have "slab_heap 12 t (F(i := c # F i)) (L - {(i, c)})" unfolding t by (rule slab_heap_push(1) [OF h l])
  note td = slab_heapD [OF this]
  show "\<exists>cs. free_list (mem s) (first_free (slabs s ! j)) cs
      \<and> free_list (mem t) (first_free (slabs t ! j)) (if j = i then c # cs else cs)" if j: "j < 12"
    using hd(6) [OF j] td(6) [OF j] by (intro exI [of _ "F j"]) (auto simp del: free_list.simps)
qed

end
