(* ===== verification/Slab_Props.thy ===== *)
theory Slab_Props
  imports Slab_Heap
begin

text \<open>
  The properties of the slab allocator, over the invariant of \<open>Slab_Heap\<close>: initialisation,
  allocation, freeing and reallocation. The locale \<open>object_store\<close> is what clients rely on, and
  the slab allocator is an interpretation of it.
\<close>

section \<open>The interface\<close>

text \<open>A store of objects: \<open>live s L\<close> says that the objects \<open>L\<close> (each a kind and an address) are
  in use in state \<open>s\<close>; an object of kind \<open>k\<close> has \<open>room k\<close> bytes.\<close>

definition same_objects :: "('k \<Rightarrow> nat) \<Rightarrow> ('k \<times> u64) set \<Rightarrow> kernel \<Rightarrow> kernel \<Rightarrow> bool" where
  "same_objects room L s t \<longleftrightarrow> (\<forall>k c x. (k, c) \<in> L \<and> in_region c (room k) x \<longrightarrow> mem t x = mem s x)"

locale object_store =
  fixes obj_alloc :: "u64 \<Rightarrow> u64 kprog" and obj_free :: "u64 \<Rightarrow> unit kprog"
    and live :: "kernel \<Rightarrow> ('k \<times> u64) set \<Rightarrow> bool" and room :: "'k \<Rightarrow> nat"
    and kind :: "u64 \<Rightarrow> 'k" and can :: "kernel \<Rightarrow> u64 \<Rightarrow> bool"
  assumes alloc_ok: "live s L \<Longrightarrow> can s sz \<Longrightarrow>
      \<exists>c t. obj_alloc sz s = Ok (c, t) \<and> live t (insert (kind sz, c) L) \<and> (kind sz, c) \<notin> L \<and> c \<noteq> 0
        \<and> same_objects room L s t"
    and room_ok: "can s sz \<Longrightarrow> unat sz \<le> room (kind sz)"
    and free_ok: "live s L \<Longrightarrow> (k, c) \<in> L \<Longrightarrow>
      \<exists>t. obj_free c s = Ok ((), t) \<and> live t (L - {(k, c)}) \<and> same_objects room (L - {(k, c)}) s t"
    and apart: "live s L \<Longrightarrow> (k, c) \<in> L \<Longrightarrow> (l, d) \<in> L \<Longrightarrow> in_region c (room k) x \<Longrightarrow>
      in_region d (room l) x \<Longrightarrow> (k, c) = (l, d)"
    and write_ok: "live s L \<Longrightarrow> (k, c) \<in> L \<Longrightarrow> (\<And>x. \<not> in_region c (room k) x \<Longrightarrow> m x = mem s x) \<Longrightarrow>
      live (s\<lparr>mem := m\<rparr>) L"
begin

text \<open>Using an object does not disturb the others.\<close>

lemma use_object:
  assumes "live s L" and "(k, c) \<in> L" and "\<And>x. \<not> in_region c (room k) x \<Longrightarrow> m x = mem s x"
  shows "live (s\<lparr>mem := m\<rparr>) L" and "same_objects room (L - {(k, c)}) s (s\<lparr>mem := m\<rparr>)"
proof -
  show "live (s\<lparr>mem := m\<rparr>) L" using write_ok [OF assms] .
  show "same_objects room (L - {(k, c)}) s (s\<lparr>mem := m\<rparr>)"
    unfolding same_objects_def using apart [OF assms(1,2)] assms(3) by fastforce
qed

text \<open>A temporary object: allocated, used and freed, it leaves the other objects as they were.\<close>

lemma temporary_object:
  assumes l: "live s L" and c: "can s sz" and run: "obj_alloc sz s = Ok (p, t)"
    and m: "\<And>x. \<not> in_region p (room (kind sz)) x \<Longrightarrow> m x = mem t x"
  shows "\<exists>u. obj_free p (t\<lparr>mem := m\<rparr>) = Ok ((), u) \<and> live u L \<and> same_objects room L s u"
proof -
  have t: "live t (insert (kind sz, p) L)" "(kind sz, p) \<notin> L" "same_objects room L s t"
    using alloc_ok [OF l c] run by auto
  note use = use_object [OF t(1) insertI1 m]
  obtain u where u: "obj_free p (t\<lparr>mem := m\<rparr>) = Ok ((), u)" "live u (insert (kind sz, p) L - {(kind sz, p)})"
    "same_objects room (insert (kind sz, p) L - {(kind sz, p)}) (t\<lparr>mem := m\<rparr>) u"
    using free_ok [OF use(1) insertI1] by blast
  have "insert (kind sz, p) L - {(kind sz, p)} = L" using t(2) by simp
  then show ?thesis using u t(3) use(2) by (auto simp: same_objects_def)
qed

end

lemma kept_same_objects: "kept = same_objects cell_size"
  by (simp add: fun_eq_iff kept_def same_objects_def)

lemma live_cells_write:
  assumes "live_cells s L" and l: "(i, c) \<in> L" and out: "\<And>x. \<not> in_region c (cell_size i) x \<Longrightarrow> m x = mem s x"
  shows "live_cells (s\<lparr>mem := m\<rparr>) L"
proof -
  obtain F where h: "slab_heap 12 s F L" and int: "\<not> int_flag s" using assms(1) by (auto simp: live_cells_def)
  note hd = slab_heapD [OF h]
  have i: "i < 12" "slab_cell s i c" using hd(9,10) [OF l] .
  note cu = cell_update [OF h i(2,1) out]
  have ne: "(j, d) \<noteq> (i, c)" if "d \<in> set (F j)" for j d using hd(11) [OF l] that by auto
  have "slab_heap 12 (s\<lparr>mem := m\<rparr>) F L"
  proof (rule slab_heapI)
    fix j :: nat assume j: "j < 12"
    have "free_list m p (F j) = free_list (mem s) p (F j)" for p
      using hd(8) [OF j] j ne by (intro free_list_cong cu(5) [of j]) auto
    then show "free_list (mem (s\<lparr>mem := m\<rparr>)) (first_free (slabs (s\<lparr>mem := m\<rparr>) ! j)) (F j) \<and> distinct (F j)"
      using hd(6,7) [OF j] by simp
  qed (use hd cu(1,3) in \<open>auto\<close>)
  then show ?thesis using int by (auto simp: live_cells_def)
qed

lemma live_cells_apart:
  assumes "live_cells s L" and "(i, c) \<in> L" and "(j, d) \<in> L"
    and "in_region c (cell_size i) x" and "in_region d (cell_size j) x"
  shows "(i, c) = (j, d)"
proof -
  obtain F where h: "slab_heap 12 s F L" using assms(1) by (auto simp: live_cells_def)
  note hd = slab_heapD(9,10) [OF h]
  show ?thesis
    using cells_apart [OF slab_heapD(1) [OF h] hd(2,1) [OF assms(2)] hd(2,1) [OF assms(3)] assms(4,5)] by simp
qed

interpretation slab_store: object_store slab_alloc slab_free live_cells cell_size slab_class slab_can
proof unfold_locales
  show "\<exists>c t. slab_alloc sz s = Ok (c, t) \<and> live_cells t (insert (slab_class sz, c) L)
      \<and> (slab_class sz, c) \<notin> L \<and> c \<noteq> 0 \<and> same_objects cell_size L s t"
    if "live_cells s L" "slab_can s sz" for s L sz
    using slab_alloc_Ok [OF that] by (simp add: kept_same_objects)
  show "unat sz \<le> cell_size (slab_class sz)" if "slab_can s sz" for s sz
    using that slab_class_room(2) [of sz] by (simp add: slab_can_def)
  show "\<exists>t. slab_free c s = Ok ((), t) \<and> live_cells t (L - {(k, c)}) \<and> same_objects cell_size (L - {(k, c)}) s t"
    if "live_cells s L" "(k, c) \<in> L" for s L k c
    using slab_free_Ok [OF that] by (auto simp: kept_same_objects)
qed (rule live_cells_apart live_cells_write; assumption)+

section \<open>Initialisation\<close>

text \<open>The aligned free runs of 64 pages, one of which a new chunk takes.\<close>

definition free_chunks :: "kernel \<Rightarrow> nat set" where
  "free_chunks s = {q. 64 dvd q \<and> q + 64 \<le> unat (pmm_avl_page_count s) \<and> {q..<q + 64} \<subseteq> free_pages s}"

definition chunk_aligned :: "kernel \<Rightarrow> bool" where
  "chunk_aligned s \<longleftrightarrow> 64 dvd unat (pmm_last_used_index s)"

lemma finite_free_chunks: "finite (free_chunks s)"
  by (rule finite_subset [of _ "{..unat (pmm_avl_page_count s)}"]) (auto simp: free_chunks_def)

text \<open>With the rotating index at a multiple of 64 no run of 64 pages is missed.\<close>

lemma free_chunk_found:
  assumes "chunk_aligned s" and "q \<in> free_chunks s"
  shows "\<not> pmm_exhausted s 64"
proof -
  have run: "aligned_run (page_free s) 64 q" "q + 64 \<le> unat (pmm_avl_page_count s)"
    using assms(2) by (auto simp: free_chunks_def aligned_run_def free_pages_def)
  have "q + 64 \<le> l" if "q < l" "l = unat (pmm_last_used_index s)" for l
    using assms that by (auto simp: chunk_aligned_def free_chunks_def elim!: dvdE)
  then show ?thesis
    using run by (cases "unat (pmm_last_used_index s) \<le> q")
      (auto simp: pmm_exhausted_def no_run_def Let_def)
qed

lemma fresh_chunk_rest:
  assumes "pmm_ready s" and fc: "fresh_chunk s i q t"
  shows "chunk_aligned t" and "free_chunks t = free_chunks s - {q}"
proof -
  have f: "64 dvd q" "q + 64 \<le> unat (pmm_avl_page_count s)" "free_pages t = free_pages s - {q..<q + 64}"
    "pmm_last_used_index t = of_nat (q + 64)" "slab_frame s t"
    using fc by (simp_all add: fresh_chunk_def)
  have "unat (of_nat (q + 64) :: u64) = q + 64"
    using f(2) pmm_wf_bound [of s] assms(1) by (intro unat_of_nat_u64) (simp add: pmm_ready_def)
  then show "chunk_aligned t" using f(1,4) by (simp add: chunk_aligned_def)
  have n: "pmm_avl_page_count t = pmm_avl_page_count s" using slab_frame_fields(4) [OF f(5)] .
  have "{r..<r + 64} \<inter> {q..<q + 64} = {}" if "64 dvd r" "r \<noteq> q" for r
    using aligned_blocks [OF that(1) f(1)] that(2) by blast
  moreover have "q \<in> {q..<q + 64}" by simp
  ultimately show "free_chunks t = free_chunks s - {q}"
    unfolding free_chunks_def n f(3) by blast
qed

text \<open>One step of the initialisation: slab \<open>n\<close> joins the first \<open>n\<close>. Each has one chunk, made of pages in \<open>A\<close>.\<close>

definition one_chunk :: "nat set \<Rightarrow> kernel \<Rightarrow> nat \<Rightarrow> u64 list \<Rightarrow> bool" where
  "one_chunk A s i cs \<longleftrightarrow> (\<exists>q. slab_chunk s i q \<and> {q..<q + 64} \<subseteq> A \<and> cs = chunk_list s i q)"

definition slabs_up_to :: "nat set \<Rightarrow> nat \<Rightarrow> kernel \<Rightarrow> bool" where
  "slabs_up_to A n s \<longleftrightarrow> (\<exists>F. slab_heap n s F {} \<and> (\<forall>i < n. one_chunk A s i (F i))) \<and> free_pages s \<subseteq> A \<and> chunk_aligned s
     \<and> 12 \<le> card (free_chunks s) + n \<and> \<not> int_flag s"

text \<open>What \<open>n\<close> new chunks leave alone.\<close>

definition slab_grown :: "nat \<Rightarrow> kernel \<Rightarrow> kernel \<Rightarrow> bool" where
  "slab_grown n s t \<longleftrightarrow> slab_frame s t \<and> free_pages t \<subseteq> free_pages s \<and> card (free_pages s) \<le> card (free_pages t) + 64 * n
     \<and> (\<forall>x. page_of s x \<notin> free_pages s \<and> \<not> bitmap_byte s x \<longrightarrow> mem t x = mem s x)"

lemma slab_grown_refl: "slab_grown 0 s s"
  by (simp add: slab_grown_def slab_frame_refl)

lemma slab_grown_trans: "slab_grown m s t \<Longrightarrow> slab_grown n t u \<Longrightarrow> slab_grown (m + n) s u"
  using slab_frame_trans [of s t u] slab_frame_fields(5,6) [of s t] by (fastforce simp: slab_grown_def)

lemma fresh_chunk_grown:
  assumes "fresh_chunk s i q t"
  shows "slab_grown 1 s t"
proof -
  have "card (free_pages t) = card (free_pages s) - 64"
    using assms by (simp add: fresh_chunk_def card_Diff_subset)
  moreover have "mem t x = mem s x" if "page_of s x \<notin> free_pages s" "\<not> bitmap_byte s x" for x
  proof -
    have "{q..<q + 64} \<subseteq> free_pages s" using assms by (simp add: fresh_chunk_def)
    then show ?thesis using assms that unfolding fresh_chunk_def by blast
  qed
  ultimately show ?thesis using assms by (auto simp: slab_grown_def fresh_chunk_def)
qed

lemma create_slab_step:
  assumes "slabs_up_to A n s" and n: "n < 12" and e: "e = of_nat (cell_size n)"
  shows "\<exists>t. create_slab n e s = Ok ((), t) \<and> slabs_up_to A (Suc n) t \<and> slab_grown 1 s t"
proof -
  obtain F where h: "slab_heap n s F {}" and one: "\<And>i. i < n \<Longrightarrow> one_chunk A s i (F i)" and al: "chunk_aligned s"
    and c: "12 \<le> card (free_chunks s) + n" and int: "\<not> int_flag s" and A: "free_pages s \<subseteq> A"
    using assms(1) by (auto simp: slabs_up_to_def)
  note hd = slab_heapD [OF h]
  have "free_chunks s \<noteq> {}" using c n by auto
  then have "\<not> pmm_exhausted s 64" using free_chunk_found [OF al] by blast
  from create_slab_Ok [OF hd(1) n hd(3) this] obtain q t where
    run: "create_slab n (of_nat (cell_size n)) s = Ok ((), t)" and fc: "fresh_chunk s n q t" by blast
  have ht: "slab_heap (Suc n) t (F(n := chunk_list s n q)) {}"
    by (rule fresh_chunk_heap [OF h fc]) (use n in auto)
  have q: "q \<in> free_chunks s" using fc by (auto simp: fresh_chunk_def free_chunks_def)
  have cl: "chunk_list t i r = chunk_list s i r" for i r
    using slab_frame_fields(8) [of s t] fc by (simp add: chunk_list_def fresh_chunk_def)
  have "one_chunk A t n (chunk_list s n q)"
    using fresh_chunk_new(1) [OF hd(1) fc] q A by (auto simp: one_chunk_def cl free_chunks_def)
  moreover have "one_chunk A t i (F i)" if "i < n" for i
    using one [OF that] fresh_chunk_kept [OF hd(1) fc] by (auto simp: one_chunk_def cl)
  ultimately have "\<forall>i < Suc n. one_chunk A t i ((F(n := chunk_list s n q)) i)" by (simp add: less_Suc_eq)
  moreover have "free_pages t \<subseteq> A" using A fc by (auto simp: fresh_chunk_def)
  moreover have "12 \<le> card (free_chunks t) + Suc n"
    using c q finite_free_chunks [of s] fresh_chunk_rest(2) [OF hd(1) fc]
    by (simp add: card_Diff_singleton_if)
  moreover have "\<not> int_flag t" using fc int slab_frame_fields(3) [of s t] by (simp add: fresh_chunk_def)
  ultimately have "slabs_up_to A (Suc n) t"
    unfolding slabs_up_to_def using ht fresh_chunk_rest(1) [OF hd(1) fc] by blast
  then show ?thesis using run e fresh_chunk_grown [OF fc] by blast
qed

lemma slab_init_Ok:
  assumes "slabs_up_to A 0 s"
  shows "\<exists>t. slab_init s = Ok ((), t) \<and> slabs_up_to A 12 t \<and> slab_grown 12 s t"
proof -
  let ?up = "\<lambda>n t. slabs_up_to A n t \<and> slab_grown n s t"
  have step: "wp (create_slab n e) Q u"
    if u: "?up k u" and k: "k = n" "n < 12" "e = of_nat (cell_size n)" and Q: "\<And>t. ?up (Suc n) t \<Longrightarrow> Q () t"
    for k n e u Q
  proof -
    obtain t where t: "create_slab n e u = Ok ((), t)" "slabs_up_to A (Suc n) t" "slab_grown 1 u t"
      using create_slab_step [of A n u e] u k by blast
    then show ?thesis using slab_grown_trans [of n s u 1 t] u k(1) Q by (simp add: wp_def)
  qed
  have "?up 0 s" using assms slab_grown_refl by blast
  then have "wp slab_init (\<lambda>_. ?up 12) s"
    unfolding slab_init_def wp_bind
    by (elim step) (simp_all add: cell_size_def)
  then show ?thesis by (auto simp: wp_Ok_iff)
qed

section \<open>Reallocation\<close>

lemma live_cell_fields:
  assumes "live_cells s L" and "(i, c) \<in> L"
  shows "slab_of_header c s = Ok (i, s)" and "c \<noteq> 0" and "i < 12"
    and "unat (ent_size (slabs s ! i)) = cell_size i"
proof -
  obtain F where h: "slab_heap 12 s F L" using assms(1) by (auto simp: live_cells_def)
  show "slab_of_header c s = Ok (i, s)" using slab_of_header_live [OF h assms(2)] .
  show i: "i < 12" using slab_heapD(9) [OF h assms(2)] .
  show "c \<noteq> 0" using cell_header(1) [OF h slab_heapD(10) [OF h assms(2)] i] .
  show "unat (ent_size (slabs s ! i)) = cell_size i"
    using slab_heapD(4) [OF h i] cell_size_bounds(8) [OF i] by (simp add: unat_of_nat_u64)
qed

lemma slab_realloc_move:
  assumes live: "live_cells s L" and l: "(i, c) \<in> L" and can: "slab_can s n" and big: "cell_size i < unat n"
  shows "\<exists>d t. slab_realloc c n s = Ok (d, t) \<and> live_cells t (insert (slab_class n, d) (L - {(i, c)}))
    \<and> (slab_class n, d) \<notin> L \<and> kept (L - {(i, c)}) s t
    \<and> (\<forall>k < cell_size i. mem t (d + of_nat k) = mem s (c + of_nat k))"
proof -
  let ?j = "slab_class n"
  note f = live_cell_fields [OF live l]
  obtain d u where u: "slab_alloc n s = Ok (d, u)" "live_cells u (insert (?j, d) L)" "(?j, d) \<notin> L" "d \<noteq> 0" "kept L s u"
    using slab_alloc_Ok [OF live can] by blast
  have l': "(i, c) \<in> insert (?j, d) L" and ne: "(i, c) \<noteq> (?j, d)" using l u(3) by auto
  note g = live_cell_fields [OF u(2) l']
  have room: "cell_size i < cell_size ?j" using slab_class_room(2) [of n] can big by (simp add: slab_can_def)
  let ?e = "ent_size (slabs u ! i)" and ?m = "memcpy_mem (mem u) d c (ent_size (slabs u ! i))"
  have "?m = (\<lambda>x. if in_region d (unat ?e) x then mem u (c + (x - d)) else mem u x)"
  proof (rule memcpy_mem_eq, rule ccontr)
    assume "\<not> (d = c \<or> unat ?e \<le> unat (d - c))"
    then have "in_region c (cell_size i) d" "in_region d (cell_size ?j) d"
      using g(4) room by (simp_all add: in_region_def)
    then show False using live_cells_apart [OF u(2) l' insertI1] ne by blast
  qed
  then have m: "?m x = (if in_region d (cell_size i) x then mem u (c + (x - d)) else mem u x)" for x
    using g(4) by simp
  let ?v = "u\<lparr>mem := ?m\<rparr>"
  have out: "?m x = mem u x" if "\<not> in_region d (cell_size ?j) x" for x
    using that room m [of x] by (simp add: in_region_def)
  note use = slab_store.use_object [OF u(2) insertI1 out]
  obtain t where t: "free_in_slab i c ?v = Ok ((), t)" "live_cells t (insert (?j, d) L - {(i, c)})"
    "kept (insert (?j, d) L - {(i, c)}) ?v t"
    using free_in_slab_Ok [OF use(1) l'] by blast
  have "insert (?j, d) L - {(i, c)} = insert (?j, d) (L - {(i, c)})" using ne by blast
  note t = t [unfolded this]
  have "ent_size (slabs s ! i) < n" using f(4) big by (simp add: word_less_nat_alt)
  then have run: "slab_realloc c n s = Ok (d, t)"
    using f(1,2) u(1,4) t(1) by (simp add: slab_realloc_def bind_Ok memcpy_def run_basic)
  have "kept (L - {(i, c)}) s t"
    unfolding kept_def
  proof (intro allI impI, elim conjE)
    fix k a x assume a: "(k, a) \<in> L - {(i, c)}" "in_region a (cell_size k) x"
    then have "mem t x = ?m x" using t(3) by (auto simp: kept_def)
    also have "\<dots> = mem u x" using use(2) a u(3) by (auto simp: same_objects_def)
    also have "\<dots> = mem s x" using u(5) a by (auto simp: kept_def)
    finally show "mem t x = mem s x" .
  qed
  moreover have "mem t (d + of_nat k) = mem s (c + of_nat k)" if k: "k < cell_size i" for k
  proof -
    have k64: "unat (of_nat k :: u64) = k" using k cell_size_bounds(8) [OF f(3)] by (intro unat_of_nat_u64) simp
    then have r: "in_region d (cell_size i) (d + of_nat k)" "in_region d (cell_size ?j) (d + of_nat k)"
      "in_region c (cell_size i) (c + of_nat k)" using k room by (simp_all add: in_region_def)
    have "mem t (d + of_nat k) = ?m (d + of_nat k)" using t(3) r(2) by (auto simp: kept_def)
    also have "\<dots> = mem u (c + of_nat k)" using m [of "d + of_nat k"] r(1) by simp
    also have "\<dots> = mem s (c + of_nat k)" using u(5) l r(3) unfolding kept_def by blast
    finally show ?thesis .
  qed
  ultimately show ?thesis using run t(2) u(3) by blast
qed

lemma slab_realloc_stay:
  assumes "live_cells s L" and "(i, c) \<in> L" and "unat n \<le> cell_size i"
  shows "slab_realloc c n s = Ok (c, s)"
proof -
  note f = live_cell_fields [OF assms(1,2)]
  have "\<not> ent_size (slabs s ! i) < n" using f(4) assms(3) by (simp add: word_less_nat_alt)
  then show ?thesis using f by (simp add: slab_realloc_def bind_Ok run_basic)
qed

lemma slab_alloc_too_big: "16384 \<le> unat n \<Longrightarrow> slab_alloc n s = Ok (0, s)"
  using slab_for_eq [of n s] by (simp add: slab_alloc_def bind_Ok run_basic)

section \<open>A concrete heap\<close>

definition roomy :: kernel where
  "roomy = blank_kernel\<lparr>pmm_bitmap := 0x400000, pmm_avl_page_count := 1024\<rparr>"

lemma roomy_ready: "pmm_ready roomy"
proof -
  have f: "pmm_bitmap roomy = 0x400000" "pmm_avl_page_count roomy = 1024" "hhdm roomy = 0"
    "pmm_last_used_index roomy = 0" "\<not> pmm_lock roomy"
    by (simp_all add: roomy_def blank_kernel_def)
  have "page_of roomy x = 1024" if bb: "bitmap_byte roomy x" for x
  proof -
    obtain i where i: "i < 1024" "x = 0x400000 + of_nat (i div 8)" using bb by (auto simp: bitmap_byte_def f)
    have "unat (of_nat (i div 8) :: u64) = i div 8" using i(1) by (intro unat_of_nat_u64) simp
    then have "unat x = 0x400000 + i div 8" unfolding i(2) using i(1) by (subst unat_add_lem [THEN iffD1]) simp_all
    then show ?thesis using i(1) by (simp add: page_of_def f)
  qed
  then show ?thesis by (auto simp: pmm_ready_def pmm_wf_def free_pages_def f)
qed

lemma roomy_slabs: "slabs_up_to UNIV 0 roomy"
proof -
  have f: "hhdm roomy = 0" "length (slabs roomy) = 12" "\<not> int_flag roomy" "pmm_last_used_index roomy = 0"
    by (simp_all add: roomy_def blank_kernel_def)
  have "slab_heap 0 roomy (\<lambda>_. []) {}" by (simp add: slab_heap_def roomy_ready f)
  moreover have "(\<lambda>k. 64 * k) ` {..<16} \<subseteq> free_chunks roomy"
    by (auto simp: free_chunks_def free_pages_def page_free_def bitmap_bit_def roomy_def blank_kernel_def)
  then have "card ((\<lambda>k :: nat. 64 * k) ` {..<16}) \<le> card (free_chunks roomy)"
    by (rule card_mono [OF finite_free_chunks])
  then have "12 \<le> card (free_chunks roomy)" by (simp add: card_image inj_on_def)
  ultimately show ?thesis using f by (auto simp: slabs_up_to_def chunk_aligned_def)
qed

lemma slabs_up_live:
  assumes "slabs_up_to A 12 s"
  shows "live_cells s {}" and "0 < unat sz \<Longrightarrow> unat sz < 16384 \<Longrightarrow> slab_can s sz"
    and "i < 12 \<Longrightarrow> first_free (slabs s ! i) \<noteq> 0"
proof -
  obtain F where h: "slab_heap 12 s F {}" and one: "\<And>i. i < 12 \<Longrightarrow> one_chunk A s i (F i)" and int: "\<not> int_flag s"
    using assms by (auto simp: slabs_up_to_def)
  have ne: "F i \<noteq> []" if "i < 12" for i
    using one [OF that] cell_size_bounds(4) [OF that] by (auto simp: one_chunk_def chunk_list_def)
  show "live_cells s {}" using h int by (auto simp: live_cells_def)
  show ff: "first_free (slabs s ! i) \<noteq> 0" if "i < 12" for i
    using slab_heapD(6) [OF h that] ne [OF that] by (cases "F i") auto
  show "0 < unat sz \<Longrightarrow> unat sz < 16384 \<Longrightarrow> slab_can s sz"
    using ff [OF slab_class_room(1), of sz] by (simp add: slab_can_def)
qed

lemma roomy_init:
  obtains t where "slab_init roomy = Ok ((), t)" "live_cells t {}"
    "\<And>sz. 0 < unat sz \<Longrightarrow> unat sz < 16384 \<Longrightarrow> slab_can t sz"
  using slab_init_Ok [OF roomy_slabs] slabs_up_live by blast

lemma roomy_cell:
  assumes "0 < unat sz" and "unat sz < 16384"
  obtains c s t where "slab_init roomy = Ok ((), s)" "slab_alloc sz s = Ok (c, t)"
    "live_cells s {}" "slab_can s sz" "live_cells t {(slab_class sz, c)}"
proof -
  obtain s where s: "slab_init roomy = Ok ((), s)" "live_cells s {}" "slab_can s sz"
    by (rule roomy_init) (use assms in blast)
  obtain c t where "slab_alloc sz s = Ok (c, t)" "live_cells t {(slab_class sz, c)}"
    using slab_alloc_Ok [OF s(2,3)] by blast
  then show thesis using s that by blast
qed

section \<open>The properties\<close>

text \<open>C16: On a page allocator with twelve aligned free runs of 64 pages and the rotating index at a
  multiple of 64 (as \<open>pmm_init\<close> leaves it), \<open>slab_init\<close> returns: the twelve slabs have cells of
  8, 16, ..., 16384 bytes and a free cell each, their locks are free, and no cell is in
  use.\<close>

theorem slab_init_correct:
  assumes "pmm_ready s" and "262144 dvd unat (hhdm s)" and "length (slabs s) = 12" and "\<not> int_flag s"
    and "64 dvd unat (pmm_last_used_index s)" and "12 \<le> card (free_chunks s)"
  shows "\<exists>t. slab_init s = Ok ((), t) \<and> live_cells t {}
    \<and> (\<forall>i < 12. unat (ent_size (slabs t ! i)) = 8 * 2 ^ i \<and> first_free (slabs t ! i) \<noteq> 0 \<and> \<not> lock (slabs t ! i))"
proof -
  have "slab_heap 0 s (\<lambda>_. []) {}" using assms(1-3) by (simp add: slab_heap_def)
  then have "slabs_up_to UNIV 0 s" using assms(4-6) by (auto simp: slabs_up_to_def chunk_aligned_def)
  then obtain t where t: "slab_init s = Ok ((), t)" "slabs_up_to UNIV 12 t" using slab_init_Ok by blast
  then obtain F where h: "slab_heap 12 t F {}" by (auto simp: slabs_up_to_def)
  have "unat (ent_size (slabs t ! i)) = 8 * 2 ^ i \<and> first_free (slabs t ! i) \<noteq> 0 \<and> \<not> lock (slabs t ! i)"
    if i: "i < 12" for i
  proof (intro conjI)
    have "unat (of_nat (cell_size i) :: u64) = cell_size i" by (rule unat_of_nat_u64) (rule cell_size_bounds(8) [OF i])
    then show "unat (ent_size (slabs t ! i)) = 8 * 2 ^ i" using slab_heapD(4) [OF h i] by (simp add: cell_size_def)
    show "first_free (slabs t ! i) \<noteq> 0" by (rule slabs_up_live(3) [OF t(2) i])
    show "\<not> lock (slabs t ! i)" by (rule slab_heapD(5) [OF h i])
  qed
  then show ?thesis using t(1) slabs_up_live(1) [OF t(2)] by blast
qed

theorem slab_init_correct_witness:
  "\<exists>t. slab_init roomy = Ok ((), t) \<and> live_cells t {} \<and> unat (ent_size (slabs t ! 3)) = 64"
proof -
  obtain F where "slab_heap 0 roomy F {}" "64 dvd unat (pmm_last_used_index roomy)" "12 \<le> card (free_chunks roomy)"
    "\<not> int_flag roomy"
    using roomy_slabs by (auto simp: slabs_up_to_def chunk_aligned_def)
  from slab_init_correct [OF slab_heapD(1-3) [OF this(1)] this(4,2,3)] show ?thesis by force
qed

text \<open>C8: A request of 1 to 16383 bytes on an initialised allocator, with a free cell of the right
  slab or a free run for a new chunk, returns a non-null cell with room for it that was not in
  use, overlaps no cell in use and is now in use; the bytes of all cells in use are kept.\<close>

theorem slab_alloc_correct:
  assumes "live_cells s L" and "0 < unat sz" and "unat sz < 16384"
    and "first_free (slabs s ! slab_class sz) = 0 \<Longrightarrow> \<not> pmm_exhausted s 64"
  shows "\<exists>c t. slab_alloc sz s = Ok (c, t) \<and> c \<noteq> 0 \<and> unat sz < cell_size (slab_class sz)
    \<and> live_cells t (insert (slab_class sz, c) L)
    \<and> (\<forall>i d x. (i, d) \<in> L \<and> in_region d (cell_size i) x \<longrightarrow>
         mem t x = mem s x \<and> \<not> in_region c (cell_size (slab_class sz)) x)"
proof -
  have "slab_can s sz" using assms(2-4) by (simp add: slab_can_def)
  from slab_alloc_Ok [OF assms(1) this] obtain c t where
    t: "slab_alloc sz s = Ok (c, t)" "live_cells t (insert (slab_class sz, c) L)" "(slab_class sz, c) \<notin> L" "c \<noteq> 0"
      "kept L s t" by blast
  have "\<not> in_region c (cell_size (slab_class sz)) x" if "(i, d) \<in> L" "in_region d (cell_size i) x" for i d x
    using live_cells_apart [OF t(2) insertI1 insertI2 [OF that(1)]] that t(3) by blast
  moreover have "mem t x = mem s x" if "(i, d) \<in> L" "in_region d (cell_size i) x" for i d x
    using t(5) that unfolding kept_def by blast
  ultimately show ?thesis using t slab_class_room(2) [OF assms(2,3)] by blast
qed

theorem slab_alloc_correct_witness:
  "\<exists>s c t. slab_init roomy = Ok ((), s) \<and> slab_alloc 24 s = Ok (c, t) \<and> live_cells t {(2, c)}"
proof -
  obtain s where s: "slab_init roomy = Ok ((), s)" "live_cells s {}" "slab_can s 24"
    by (rule roomy_init) simp
  have "slab_class 24 = 2" by (simp add: slab_class_def highest_bit.simps)
  then show ?thesis using slab_alloc_correct [OF s(2), of 24] s(1,3) by (auto simp: slab_can_def)
qed

text \<open>C9: Freeing a cell in use finds its slab through the header of its chunk and returns. The cell
  becomes the head of that slab's free list, before all the cells that were on it, and the other free lists are
  as they were: the next request that this slab serves is given the freed cell. The bytes of every other cell in
  use are kept, and no page is returned to the page allocator.\<close>

theorem slab_free_correct:
  assumes "live_cells s L" and "(i, c) \<in> L"
  shows "\<exists>t. slab_free c s = Ok ((), t) \<and> live_cells t (L - {(i, c)}) \<and> free_pages t = free_pages s
    \<and> (\<forall>j d x. (j, d) \<in> L - {(i, c)} \<and> in_region d (cell_size j) x \<longrightarrow> mem t x = mem s x)
    \<and> (\<forall>j < 12. \<exists>cs. free_list (mem s) (first_free (slabs s ! j)) cs
         \<and> free_list (mem t) (first_free (slabs t ! j)) (if j = i then c # cs else cs))
    \<and> (\<forall>n. 0 < unat n \<and> unat n < 16384 \<and> slab_class n = i \<longrightarrow> (\<exists>u. slab_alloc n t = Ok (c, u)))"
proof -
  obtain t where t: "slab_free c s = Ok ((), t)" "live_cells t (L - {(i, c)})" "kept (L - {(i, c)}) s t" "free_pages t = free_pages s"
    using slab_free_Ok [OF assms] by blast
  note f = slab_free_list [OF assms t(1)]
  have "\<exists>u. slab_alloc n t = Ok (c, u)" if "0 < unat n" "unat n < 16384" "slab_class n = i" for n
    using slab_alloc_head [OF t(2) that(1,2)] f(1,3) that(3) by simp
  then show ?thesis using t f(4) unfolding kept_def by blast
qed

theorem slab_free_correct_witness:
  "\<exists>s c t u. slab_init roomy = Ok ((), s) \<and> slab_alloc 100 s = Ok (c, t) \<and> slab_free c t = Ok ((), u)
     \<and> live_cells u {} \<and> free_pages u = free_pages t \<and> (\<exists>v. slab_alloc 70 u = Ok (c, v))"
proof -
  obtain c s t where a: "slab_init roomy = Ok ((), s)" "slab_alloc 100 s = Ok (c, t)"
    "live_cells t {(slab_class 100, c)}"
    by (rule roomy_cell [of 100]) simp_all
  have "slab_class 70 = slab_class 100" by (simp add: slab_class_def highest_bit_unique [of 6])
  then show ?thesis using slab_free_correct [OF a(3) singletonI] a by auto
qed

text \<open>A cell taken from the slab allocator, written to within its bounds and freed again leaves the
  cells in use and their bytes as they were.\<close>

theorem slab_alloc_free_roundtrip:
  assumes "live_cells s L" and "slab_can s sz" and "slab_alloc sz s = Ok (p, t)"
    and "\<And>x. \<not> in_region p (cell_size (slab_class sz)) x \<Longrightarrow> m x = mem t x"
  shows "\<exists>u. slab_free p (t\<lparr>mem := m\<rparr>) = Ok ((), u) \<and> live_cells u L
    \<and> (\<forall>i c x. (i, c) \<in> L \<and> in_region c (cell_size i) x \<longrightarrow> mem u x = mem s x)"
  using slab_store.temporary_object [OF assms] by (simp add: same_objects_def)

theorem slab_alloc_free_roundtrip_witness:
  "\<exists>s p t u. slab_init roomy = Ok ((), s) \<and> slab_alloc 16 s = Ok (p, t)
     \<and> slab_free p (t\<lparr>mem := (mem t)(p := 7)\<rparr>) = Ok ((), u) \<and> live_cells u {}"
proof -
  obtain c s t where a: "slab_init roomy = Ok ((), s)" "slab_alloc 16 s = Ok (c, t)" "live_cells s {}" "slab_can s 16"
    by (rule roomy_cell [of 16]) simp_all
  have "\<not> in_region c (cell_size (slab_class 16)) x \<Longrightarrow> ((mem t)(c := 7)) x = mem t x" for x
    by (auto simp: in_region_def cell_size_def)
  from slab_alloc_free_roundtrip [OF a(3,4,2) this] show ?thesis using a by blast
qed

text \<open>C17: Reallocating a cell in use returns the same cell when the new size fits it; otherwise a new
  cell with room for the new size that starts with all bytes of the old one, which is freed, while
  the bytes of the other cells in use are kept; and null, with nothing changed, when the new size
  is too big for any slab.\<close>

theorem slab_realloc_correct:
  assumes "live_cells s L" and "(i, c) \<in> L"
  shows "(unat n \<le> cell_size i \<longrightarrow> slab_realloc c n s = Ok (c, s))
    \<and> (cell_size i < unat n \<and> slab_can s n \<longrightarrow>
        (\<exists>d t. slab_realloc c n s = Ok (d, t) \<and> live_cells t (insert (slab_class n, d) (L - {(i, c)}))
          \<and> unat n < cell_size (slab_class n) \<and> (slab_class n, d) \<notin> L
          \<and> (\<forall>k < cell_size i. mem t (d + of_nat k) = mem s (c + of_nat k))
          \<and> (\<forall>j e x. (j, e) \<in> L - {(i, c)} \<and> in_region e (cell_size j) x \<longrightarrow> mem t x = mem s x)))
    \<and> (cell_size i < unat n \<and> 16384 \<le> unat n \<longrightarrow> slab_realloc c n s = Ok (0, s))"
proof (intro conjI impI)
  show "unat n \<le> cell_size i \<Longrightarrow> slab_realloc c n s = Ok (c, s)" using slab_realloc_stay [OF assms] .
next
  assume "cell_size i < unat n \<and> slab_can s n"
  then show "\<exists>d t. slab_realloc c n s = Ok (d, t) \<and> live_cells t (insert (slab_class n, d) (L - {(i, c)}))
      \<and> unat n < cell_size (slab_class n) \<and> (slab_class n, d) \<notin> L
      \<and> (\<forall>k < cell_size i. mem t (d + of_nat k) = mem s (c + of_nat k))
      \<and> (\<forall>j e x. (j, e) \<in> L - {(i, c)} \<and> in_region e (cell_size j) x \<longrightarrow> mem t x = mem s x)"
    using slab_realloc_move [OF assms, of n] slab_class_room(2) [of n]
    unfolding kept_def slab_can_def by blast
next
  assume n: "cell_size i < unat n \<and> 16384 \<le> unat n"
  note f = live_cell_fields [OF assms]
  have "ent_size (slabs s ! i) < n" using f(4) n by (simp add: word_less_nat_alt)
  then show "slab_realloc c n s = Ok (0, s)"
    using f slab_alloc_too_big [of n s] n by (simp add: slab_realloc_def bind_Ok run_basic)
qed

theorem slab_realloc_correct_witness:
  "\<exists>s c t. slab_init roomy = Ok ((), s) \<and> slab_alloc 24 s = Ok (c, t) \<and> slab_realloc c 30 t = Ok (c, t)
     \<and> slab_realloc c 20000 t = Ok (0, t)"
proof -
  obtain c s t where a: "slab_init roomy = Ok ((), s)" "slab_alloc 24 s = Ok (c, t)"
    "live_cells t {(slab_class 24, c)}"
    by (rule roomy_cell [of 24]) simp_all
  have "slab_class 24 = 2" by (simp add: slab_class_def highest_bit.simps)
  then show ?thesis
    using slab_realloc_correct [OF a(3) singletonI, of 30] slab_realloc_correct [OF a(3) singletonI, of 20000] a(1,2)
    by (auto simp: cell_size_def)
qed

text \<open>Requests outside 1 to 16383 bytes: from 16384 bytes on the allocator answers null and changes
  nothing, although its last slab has cells of exactly 16384 bytes; a request for nothing runs the
  bit scan on zero, whose result is undefined.\<close>

theorem slab_alloc_limits:
  "(16384 \<le> unat n \<longrightarrow> slab_alloc n s = Ok (0, s)) \<and> slab_alloc 0 s = Fault ''bsr of zero''"
  using slab_alloc_too_big [of n s]
  by (simp add: slab_alloc_def slab_for_def bsr_def bind_Fault run_basic)

theorem slab_alloc_limits_witness: "slab_alloc 16384 roomy = Ok (0, roomy)"
  using slab_alloc_limits [of 16384 roomy] by simp

end
