(* ===== verification/Vmm.thy ===== *)
theory Vmm
  imports Page_Source
begin

text \<open>
  The virtual memory manager, \<open>kernel/src/mm/vmm.c\<close>: page tables in memory, reached through the
  direct map. \<open>kernel_pagemap\<close> is the only page map of the kernel, so the functions that take a
  page map act on it. The ELF header of the kernel file is read from memory at the offsets of the
  ELF64 format.
\<close>

section \<open>Definitions\<close>

definition VMM_PTE_PRESENT :: u64 where "VMM_PTE_PRESENT = push_bit 0 1"
definition VMM_PTE_WRITABLE :: u64 where "VMM_PTE_WRITABLE = push_bit 1 1"
definition VMM_PTE_USER :: u64 where "VMM_PTE_USER = push_bit 2 1"
definition VMM_PTE_NOEXEC :: u64 where "VMM_PTE_NOEXEC = push_bit 63 1"
definition VMM_PTE_WC :: u64 where "VMM_PTE_WC = push_bit 3 1 OR push_bit 7 1"
definition VMM_PTE_FLAGS_MASK :: u64 where
  "VMM_PTE_FLAGS_MASK = 0xfff OR VMM_PTE_PRESENT OR VMM_PTE_WRITABLE OR VMM_PTE_USER
     OR VMM_PTE_NOEXEC OR VMM_PTE_WC"

definition vmm_switch_pagemap :: "unit kprog" where
  "vmm_switch_pagemap = modify (\<lambda>s. s\<lparr>cr3 := top_level (kernel_pagemap s)\<rparr>)"

definition get_next_level :: "u64 \<Rightarrow> u64 \<Rightarrow> bool \<Rightarrow> u64 kprog" where
  "get_next_level current_level index allocate =
     bind (gets (\<lambda>s. current_level + hhdm s + index * 8)) (\<lambda>entry.
     bind (read64 entry) (\<lambda>e.
     if e AND 0x01 \<noteq> 0 then return (e AND NOT VMM_PTE_FLAGS_MASK)
     else if \<not> allocate then return 0
     else
       bind (pmm_alloc 1) (\<lambda>ret.
       bind (write64 entry (ret OR 7)) (\<lambda>_.
       return ret))))"

text \<open>The index of a virtual address in a table: nine bits from bit \<open>k\<close>.\<close>

definition pml_index :: "nat \<Rightarrow> u64 \<Rightarrow> u64" where
  "pml_index k virt = drop_bit k (virt AND push_bit k 0x1ff)"

definition vmm_map_page :: "u64 \<Rightarrow> u64 \<Rightarrow> u64 \<Rightarrow> unit kprog" where
  "vmm_map_page virt phys flags =
     bind (interrupt_toggle False) (\<lambda>old_int_state.
     bind (spinlock_acquire pagemap_lock pagemap_lock_update) (\<lambda>_.
     let pml5_index = pml_index 48 virt;
         pml4_index = pml_index 39 virt;
         pml3_index = pml_index 30 virt;
         pml2_index = pml_index 21 virt;
         pml1_index = pml_index 12 virt in
     bind (gets (\<lambda>s. top_level (kernel_pagemap s))) (\<lambda>pml5.
     bind (gets vmm_la57) (\<lambda>la57.
     bind (if la57 then get_next_level pml5 pml5_index True else return pml5) (\<lambda>pml4.
     bind (get_next_level pml4 pml4_index True) (\<lambda>pml3.
     bind (get_next_level pml3 pml3_index True) (\<lambda>pml2.
     bind (get_next_level pml2 pml2_index True) (\<lambda>pml1.
     bind (gets (\<lambda>s. pml1 + hhdm s + pml1_index * 8)) (\<lambda>entry.
     bind (write64 entry (phys OR flags)) (\<lambda>_.
     bind (spinlock_release pagemap_lock_update) (\<lambda>_.
     bind (interrupt_toggle old_int_state) (\<lambda>_.
     return ()))))))))))))"

definition vmm_map_span :: "u64 \<Rightarrow> u64 \<Rightarrow> u64 \<Rightarrow> u64 \<Rightarrow> unit kprog" where
  "vmm_map_span virt phys len flags =
     (let aligned_phys_top = ALIGN_UP (phys + len) PAGE_SIZE;
          aligned_phys_base = ALIGN_DOWN phys PAGE_SIZE;
          aligned_virt_base = ALIGN_DOWN virt PAGE_SIZE;
          aligned_length = aligned_phys_top - aligned_phys_base in
      for_step 0 aligned_length PAGE_SIZE (\<lambda>i.
        vmm_map_page (aligned_virt_base + i) (aligned_phys_base + i) flags))"

definition map_kernel_span :: "u64 \<Rightarrow> u64 \<Rightarrow> u64 \<Rightarrow> u64 \<Rightarrow> unit kprog" where
  "map_kernel_span virt phys len flags =
     (let aligned_len = ALIGN_UP len PAGE_SIZE in
      bind (printf ''vmm: Kernel: Mapping %p to %p, length 0x%llx'' [PInt phys, PInt virt, PInt aligned_len]) (\<lambda>_.
      for_step 0 aligned_len PAGE_SIZE (\<lambda>i. vmm_map_page (virt + i) (phys + i) flags)))"

text \<open>The loop of \<open>vmm_init\<close> over the program headers: the segments to load are mapped.\<close>

definition vmm_map_segment :: "u64 \<Rightarrow> u64 \<Rightarrow> u64 \<Rightarrow> unit kprog" where
  "vmm_map_segment pbase vbase kernel_phdr =
     bind (read32 kernel_phdr) (\<lambda>p_type.
     if p_type \<noteq> 1 then return ()
     else
       bind (read32 (kernel_phdr + 4)) (\<lambda>p_flags.
       bind (read64 (kernel_phdr + 16)) (\<lambda>p_vaddr.
       bind (read64 (kernel_phdr + 40)) (\<lambda>p_memsz.
       let phys = (p_vaddr - vbase) + pbase;
           flags = VMM_PTE_PRESENT;
           flags = (if p_flags AND 1 = 0 then flags OR VMM_PTE_NOEXEC else flags);
           flags = (if p_flags AND 2 \<noteq> 0 then flags OR VMM_PTE_WRITABLE else flags) in
       map_kernel_span p_vaddr phys p_memsz flags))))"

definition read16 :: "u64 \<Rightarrow> u16 kprog" where
  "read16 a = gets (\<lambda>s. load16 (mem s) a)"

definition vmm_map_kernel :: "u64 \<Rightarrow> u64 \<Rightarrow> u64 \<Rightarrow> unit kprog" where
  "vmm_map_kernel pbase vbase kernel_file =
     bind (read64 (kernel_file + 32)) (\<lambda>e_phoff.
     bind (whileM (\<lambda>(i, phdr) s. i < ucast (load16 (mem s) (kernel_file + 56)))
       (\<lambda>(i, phdr).
          bind (vmm_map_segment pbase vbase phdr) (\<lambda>_.
          bind (read16 (kernel_file + 54)) (\<lambda>e_phentsize.
          return (i + 1, phdr + ucast e_phentsize))))
       (0 :: u64, kernel_file + e_phoff)) (\<lambda>_. return ()))"

text \<open>The loop over the memory map: the direct map.\<close>

definition vmm_map_entry :: "memmap_entry \<Rightarrow> unit kprog" where
  "vmm_map_entry e =
     (if me_type e \<noteq> MEMMAP_USABLE \<and> me_type e \<noteq> MEMMAP_BOOTLOADER_RECLAIMABLE
         \<and> me_type e \<noteq> MEMMAP_EXECUTABLE_AND_MODULES \<and> me_type e \<noteq> MEMMAP_FRAMEBUFFER then return ()
      else
        let base = ALIGN_DOWN (me_base e) PAGE_SIZE;
            top' = ALIGN_UP (me_base e + me_length e) PAGE_SIZE in
        for_step base top' PAGE_SIZE (\<lambda>j.
          bind (gets hhdm) (\<lambda>off.
          vmm_map_page (j + off) j
            (VMM_PTE_PRESENT OR VMM_PTE_NOEXEC OR VMM_PTE_WRITABLE OR
              (if me_type e = MEMMAP_FRAMEBUFFER then VMM_PTE_WC else 0)))))"

text \<open>The body of the loop that allocates the tables of the higher half.\<close>

definition vmm_init_pml3 :: "u64 \<Rightarrow> unit kprog" where
  "vmm_init_pml3 i =
     bind (gets (\<lambda>s. top_level (kernel_pagemap s))) (\<lambda>root.
     bind (get_next_level root i True) (\<lambda>r.
     if r = 0 then panic ''vmm: init failure'' else return ()))"

definition vmm_init :: "unit kprog" where
  "vmm_init =
     bind (gets (\<lambda>s. paging_5lvl_response (boot s))) (\<lambda>mode.
     bind (if mode = Some True then
         bind (printf ''vmm: Using 5 level paging'' []) (\<lambda>_.
         modify (\<lambda>s. s\<lparr>vmm_la57 := True\<rparr>))
       else return ()) (\<lambda>_.
     bind (pmm_alloc 1) (\<lambda>p.
     bind (modify (\<lambda>s. s\<lparr>kernel_pagemap := (kernel_pagemap s)\<lparr>top_level := p\<rparr>\<rparr>)) (\<lambda>_.
     bind (for_range 256 512 vmm_init_pml3) (\<lambda>_.
     bind (gets (\<lambda>s. exec_addr_response (boot s))) (\<lambda>resp.
     case resp of
       None \<Rightarrow> panic ''Executable address bootloader response missing''
     | Some exec_addr_resp \<Rightarrow>
         bind (printf ''vmm: Kernel physical base: %p'' [PInt (physical_base exec_addr_resp)]) (\<lambda>_.
         bind (printf ''vmm: Kernel virtual base: %p'' [PInt (virtual_base exec_addr_resp)]) (\<lambda>_.
         bind (gets (\<lambda>s. executable_file (boot s))) (\<lambda>kernel_file.
         bind (vmm_map_kernel (physical_base exec_addr_resp) (virtual_base exec_addr_resp) kernel_file) (\<lambda>_.
         bind (gets memmap) (\<lambda>es.
         bind (foreach vmm_map_entry es) (\<lambda>_.
         vmm_switch_pagemap))))))))))))"

section \<open>The processor's walk\<close>

text \<open>What the tables mean: the walk the processor does from a table, through present entries, to
  the entry of the last level; \<open>translate s v\<close> is that entry when it is present.\<close>

definition table_entry :: "kernel \<Rightarrow> u64 \<Rightarrow> u64 \<Rightarrow> u64" where
  "table_entry s table i = load64 (mem s) (table + hhdm s + i * 8)"

fun pt_walk :: "kernel \<Rightarrow> u64 \<Rightarrow> u64 list \<Rightarrow> u64 option" where
  "pt_walk s table [] = None"
| "pt_walk s table [i] = Some (table_entry s table i)"
| "pt_walk s table (i # j # is) =
     (let e = table_entry s table i in
      if e AND 0x01 \<noteq> 0 then pt_walk s (e AND NOT VMM_PTE_FLAGS_MASK) (j # is) else None)"

definition pt_indices :: "bool \<Rightarrow> u64 \<Rightarrow> u64 list" where
  "pt_indices la57 v = (if la57 then [pml_index 48 v] else [])
     @ [pml_index 39 v, pml_index 30 v, pml_index 21 v, pml_index 12 v]"

definition present :: "u64 \<Rightarrow> u64 option" where
  "present e = (if e AND 0x01 \<noteq> 0 then Some e else None)"

definition translate :: "kernel \<Rightarrow> u64 \<Rightarrow> u64 option" where
  "translate s v = Option.bind (pt_walk s (top_level (kernel_pagemap s)) (pt_indices (vmm_la57 s) v)) present"

section \<open>The tree of tables\<close>

text \<open>The ghost state: which page holds the table reached by a path of indices from the root.\<close>

type_synonym tables = "nat list \<Rightarrow> nat option"

definition levels :: "kernel \<Rightarrow> nat" where
  "levels s = (if vmm_la57 s then 5 else 4)"

definition table_addr :: "nat \<Rightarrow> u64" where
  "table_addr p = of_nat p * PAGE_SIZE"

definition entry_of :: "kernel \<Rightarrow> nat \<Rightarrow> nat \<Rightarrow> u64" where
  "entry_of s p i = table_entry s (table_addr p) (of_nat i)"

definition entry_ok :: "u64 \<Rightarrow> nat option \<Rightarrow> bool" where
  "entry_ok e r = (case r of
       None \<Rightarrow> e AND 0x01 = 0
     | Some q \<Rightarrow> e AND 0x01 \<noteq> 0 \<and> e AND NOT VMM_PTE_FLAGS_MASK = table_addr q)"

definition own_page :: "kernel \<Rightarrow> nat \<Rightarrow> bool" where
  "own_page s p \<longleftrightarrow> p < unat (pmm_avl_page_count s) \<and> p \<notin> free_pages s
     \<and> (\<forall>x. bitmap_byte s x \<longrightarrow> page_of s x \<noteq> p)"

definition pt_inv :: "kernel \<Rightarrow> tables \<Rightarrow> bool" where
  "pt_inv s T \<longleftrightarrow>
     pmm_ready s \<and> unat (pmm_avl_page_count s) \<le> 2 ^ 40
     \<and> (\<exists>r. T [] = Some r \<and> top_level (kernel_pagemap s) = table_addr r)
     \<and> inj_on T (dom T)
     \<and> (\<forall>ps i. ps @ [i] \<in> dom T \<longrightarrow> ps \<in> dom T)
     \<and> (\<forall>ps p. T ps = Some p \<longrightarrow> own_page s p)
     \<and> (\<forall>ps p i. T ps = Some p \<and> Suc (length ps) < levels s \<and> i < 512 \<longrightarrow>
          entry_ok (entry_of s p i) (T (ps @ [i])))"

lemma pt_invD:
  assumes "pt_inv s T"
  shows "pmm_ready s" and "unat (pmm_avl_page_count s) \<le> 2 ^ 40" and "inj_on T (dom T)"
    and "\<exists>r. T [] = Some r \<and> top_level (kernel_pagemap s) = table_addr r"
    and "ps @ [i] \<in> dom T \<Longrightarrow> ps \<in> dom T" and "T ps = Some p \<Longrightarrow> own_page s p"
    and "T ps = Some p \<Longrightarrow> Suc (length ps) < levels s \<Longrightarrow> i < 512 \<Longrightarrow> entry_ok (entry_of s p i) (T (ps @ [i]))"
  using assms unfolding pt_inv_def by blast+

lemma tables_prefix:
  assumes "pt_inv s T" and "ps @ qs \<in> dom T"
  shows "ps \<in> dom T"
  using assms(2)
proof (induction qs rule: rev_induct)
  case (snoc q qs)
  then show ?case using pt_invD(5) [OF assms(1), of "ps @ qs" q] by simp
qed simp

lemma tables_inj:
  assumes "pt_inv s T" and "T ps = Some p" and "T qs = Some p"
  shows "ps = qs"
  using pt_invD(3) [OF assms(1)] assms(2,3) by (auto simp: inj_on_def dom_def)

text \<open>Against the ghost state the walk is a lookup of the last table.\<close>

lemma walk_tables:
  assumes inv: "pt_inv s T" and "T ps = Some p" and "is \<noteq> []" and "length ps + length is = levels s"
    and "\<forall>i \<in> set is. i < 512"
  shows "pt_walk s (table_addr p) (map of_nat is) =
    (case T (ps @ butlast is) of None \<Rightarrow> None | Some q \<Rightarrow> Some (entry_of s q (last is)))"
  using assms(3,2,4,5)
proof (induction "is" arbitrary: ps p rule: list_nonempty_induct)
  case (single i)
  then show ?case by (simp add: entry_of_def)
next
  case (cons i js)
  obtain j ks where js: "js = j # ks" using cons.hyps by (cases js) auto
  have ok: "entry_ok (table_entry s (table_addr p) (of_nat i)) (T (ps @ [i]))"
    using pt_invD(7) [OF inv cons.prems(1), of i] cons.prems js by (simp add: entry_of_def)
  show ?case
  proof (cases "T (ps @ [i])")
    case None
    have "ps @ [i] @ butlast js \<notin> dom T" using tables_prefix [OF inv, of "ps @ [i]" "butlast js"] None by auto
    then have "T (ps @ i # butlast js) = None" by (simp add: domIff)
    then show ?thesis using None ok js by (simp add: entry_ok_def Let_def)
  next
    case (Some q)
    then show ?thesis
      using ok js cons.IH [OF Some] cons.prems by (simp add: entry_ok_def Let_def split: option.splits)
  qed
qed

section \<open>Indices and entries\<close>

lemma pml_index_eq: "k \<le> 55 \<Longrightarrow> pml_index k v = take_bit 9 (drop_bit k v)"
proof (rule bit_word_eqI)
  fix n assume "k \<le> 55" and n: "n < LENGTH(64)"
  have m: "(0x1ff :: u64) = mask 9" by (simp add: mask_eq_exp_minus_1)
  show "bit (pml_index k v) n = bit (take_bit 9 (drop_bit k v)) n"
    unfolding pml_index_def m using n \<open>k \<le> 55\<close> by (auto simp: bit_simps dest: bit_imp_le_length)
qed

lemma pml_index_less: "k \<le> 55 \<Longrightarrow> unat (pml_index k v) < 512"
  by (simp add: pml_index_eq unsigned_take_bit_eq take_bit_nat_def)

definition pt_path :: "kernel \<Rightarrow> u64 \<Rightarrow> nat list" where
  "pt_path s v = map unat (pt_indices (vmm_la57 s) v)"

lemma pt_path_props:
  shows "length (pt_path s v) = levels s" and "\<forall>i \<in> set (pt_path s v). i < 512" and "pt_path s v \<noteq> []"
    and "map of_nat (pt_path s v) = pt_indices (vmm_la57 s) v"
    and "last (pt_path s v) = unat (pml_index 12 v)"
    and "map of_nat (butlast (pt_path s v)) = butlast (pt_indices (vmm_la57 s) v)"
    and "length (butlast (pt_path s v)) = levels s - 1" and "last (pt_path s v) < 512"
    and "0 < levels s"
  by (auto simp: pt_path_def pt_indices_def levels_def pml_index_less)

lemma translate_tables:
  assumes "pt_inv s T"
  shows "translate s v = (case T (butlast (pt_path s v)) of None \<Rightarrow> None
    | Some q \<Rightarrow> present (entry_of s q (last (pt_path s v))))"
proof -
  obtain r where r: "T [] = Some r" "top_level (kernel_pagemap s) = table_addr r"
    using pt_invD(4) [OF assms] by blast
  have "pt_walk s (table_addr r) (map of_nat (pt_path s v)) =
      (case T ([] @ butlast (pt_path s v)) of None \<Rightarrow> None | Some q \<Rightarrow> Some (entry_of s q (last (pt_path s v))))"
    by (rule walk_tables [OF assms r(1)]) (use pt_path_props(1-3) [of s v] in simp_all)
  then show ?thesis by (simp add: translate_def r pt_path_props split: option.splits)
qed

lemma table_page:
  assumes "p < 2 ^ 40"
  shows "in_region (table_addr p + hhdm s) 4096 x \<longleftrightarrow> page_of s x = p"
  using region_page_of [of p 1 s x] assms by (auto simp: table_addr_def)

lemma entry_in_page:
  assumes "p < 2 ^ 40" and "i < 512" and "in_region (table_addr p + hhdm s + of_nat i * 8) 8 x"
  shows "page_of s x = p"
proof -
  have u: "unat (of_nat (i * 8) :: u64) = i * 8" using assms(2) by (intro unat_of_nat_u64) simp
  have "in_region (table_addr p + hhdm s) 4096 x"
    using in_region_sub [of "table_addr p + hhdm s" "of_nat (i * 8)" 8 x 4096] assms(2,3) u by simp
  then show ?thesis using table_page [OF assms(1)] by simp
qed

lemma entry_cong:
  assumes "p < 2 ^ 40" and "i < 512" and "hhdm t = hhdm s"
    and "\<And>x. page_of s x = p \<Longrightarrow> mem t x = mem s x"
  shows "entry_of t p i = entry_of s p i"
  unfolding entry_of_def table_entry_def assms(3)
  using assms(4) entry_in_page [OF assms(1,2)] by (intro load_le_cong_region) simp_all

definition set_entry :: "nat \<Rightarrow> nat \<Rightarrow> u64 \<Rightarrow> kernel \<Rightarrow> kernel" where
  "set_entry p i v s = s\<lparr>mem := store64 (mem s) (table_addr p + hhdm s + of_nat i * 8) v\<rparr>"

lemma set_entry_simps [simp]:
  "hhdm (set_entry p i v s) = hhdm s" "vmm_la57 (set_entry p i v s) = vmm_la57 s"
  "kernel_pagemap (set_entry p i v s) = kernel_pagemap s" "page_of (set_entry p i v s) = page_of s"
  "bitmap_byte (set_entry p i v s) = bitmap_byte s" "pmm_avl_page_count (set_entry p i v s) = pmm_avl_page_count s"
  "levels (set_entry p i v s) = levels s" "pt_path (set_entry p i v s) = pt_path s"
  by (simp_all add: set_entry_def levels_def pt_path_def fun_eq_iff)

lemma set_entry_outside:
  assumes "p < 2 ^ 40" and "i < 512" and "page_of s x \<noteq> p"
  shows "mem (set_entry p i v s) x = mem s x"
  unfolding set_entry_def using entry_in_page [OF assms(1,2), of s x] assms(3)
  by (auto intro: store_le_outside)

lemma entry_of_set_entry:
  assumes "p < 2 ^ 40" and "i < 512" and "q < 2 ^ 40" and "j < 512"
  shows "entry_of (set_entry p i v s) q j = (if q = p \<and> j = i then v else entry_of s q j)"
proof (cases "q = p")
  case False
  then have "entry_of (set_entry p i v s) q j = entry_of s q j"
    using set_entry_outside [OF assms(1,2)] by (intro entry_cong assms(3,4)) auto
  then show ?thesis using False by simp
next
  case True
  have "load64 (store64 (mem s) (table_addr p + hhdm s + of_nat i * 8) v) (table_addr p + hhdm s + of_nat j * 8) =
      load64 (mem s) (table_addr p + hhdm s + of_nat j * 8)" if "j \<noteq> i"
    by (rule load_store_disjoint [OF disjoint_words]) (use that assms in simp_all)
  then have "entry_of (set_entry p i v s) p j = entry_of s p j" if "j \<noteq> i"
    using that unfolding entry_of_def table_entry_def set_entry_def by simp
  moreover have "entry_of (set_entry p i v s) p i = v"
    by (simp add: set_entry_def entry_of_def table_entry_def)
  ultimately show ?thesis using True by auto
qed

lemma set_entry_pmm:
  assumes "own_page s p" and "p < 2 ^ 40" and "i < 512"
  shows "free_pages (set_entry p i v s) = free_pages s" "pmm_ready (set_entry p i v s) = pmm_ready s"
    "own_page (set_entry p i v s) = own_page s"
proof -
  have "store64 (mem s) (table_addr p + hhdm s + of_nat i * 8) v x = mem s x" if "bitmap_byte s x" for x
    using set_entry_outside [OF assms(2,3), of s x v] assms(1) that by (auto simp: own_page_def set_entry_def)
  note u = pmm_mem_update [OF this]
  show f: "free_pages (set_entry p i v s) = free_pages s" "pmm_ready (set_entry p i v s) = pmm_ready s"
    unfolding set_entry_def using u by blast+
  show "own_page (set_entry p i v s) = own_page s" unfolding own_page_def fun_eq_iff by (simp add: f)
qed

lemma flags_mask: "NOT VMM_PTE_FLAGS_MASK = push_bit 12 (mask 51)"
  by (simp add: VMM_PTE_FLAGS_MASK_def VMM_PTE_PRESENT_def VMM_PTE_WRITABLE_def VMM_PTE_USER_def
      VMM_PTE_NOEXEC_def VMM_PTE_WC_def mask_eq_exp_minus_1)

lemma table_link:
  assumes "q < 2 ^ 40"
  shows "(table_addr q OR 7) AND 0x01 \<noteq> 0" and "(table_addr q OR 7) AND NOT VMM_PTE_FLAGS_MASK = table_addr q"
proof -
  have a: "table_addr q = push_bit 12 (of_nat q)" by (simp add: table_addr_def push_bit_eq_mult mult.commute)
  have m: "(7 :: u64) = mask 3" "(1 :: u64) = mask 1" by (simp_all add: mask_eq_exp_minus_1)
  have "bit ((table_addr q OR 7) AND 0x01) 0" unfolding a m by (simp add: bit_simps)
  then show "(table_addr q OR 7) AND 0x01 \<noteq> 0" by auto
  have hi: "\<not> bit (of_nat q :: u64) n" if "40 \<le> n" for n
  proof -
    have "(of_nat q :: u64) = take_bit 40 (of_nat q)" using assms by (simp add: take_bit_of_nat take_bit_nat_eq_self)
    then show ?thesis using that by (metis bit_take_bit_iff not_le)
  qed
  show "(table_addr q OR 7) AND NOT VMM_PTE_FLAGS_MASK = table_addr q"
    unfolding a m flags_mask
  proof (rule bit_word_eqI)
    fix n assume n: "n < LENGTH(64)"
    show "bit ((push_bit 12 (of_nat q) OR mask 3) AND push_bit 12 (mask 51) :: u64) n = bit (push_bit 12 (of_nat q) :: u64) n"
      using n hi [of "n - 12"] by (cases "40 \<le> n - 12") (auto simp: bit_simps)
  qed
qed

section \<open>Changing the tree\<close>

lemma own_small: "pt_inv s T \<Longrightarrow> own_page s p \<Longrightarrow> p < 2 ^ 40"
  using pt_invD(2) [of s T] by (simp add: own_page_def)

text \<open>Memory outside the tables changes.\<close>

lemma pt_inv_frame:
  assumes inv: "pt_inv s T" and fr: "alloc_frame s u" and u: "pmm_ready u" "free_pages u \<subseteq> free_pages s"
    and same: "\<And>p x. p \<in> ran T \<Longrightarrow> page_of s x = p \<Longrightarrow> mem u x = mem s x"
  shows "pt_inv u T" and "p \<in> ran T \<Longrightarrow> i < 512 \<Longrightarrow> entry_of u p i = entry_of s p i"
    and "own_page s p \<Longrightarrow> own_page u p"
proof -
  note f = alloc_frame_fields [OF fr]
  have f': "pmm_avl_page_count u = pmm_avl_page_count s" "kernel_pagemap u = kernel_pagemap s" "levels u = levels s"
    using fr by (auto simp: alloc_frame_def levels_def)
  show own: "own_page s p \<Longrightarrow> own_page u p" for p using u(2) by (auto simp: own_page_def f f')
  have small: "p < 2 ^ 40" if "p \<in> ran T" for p
    using that own_small [OF inv] pt_invD(6) [OF inv] by (auto simp: ran_def)
  show e: "entry_of u p i = entry_of s p i" if "p \<in> ran T" "i < 512" for p i
    using entry_cong [OF small [OF that(1)] that(2) f(2)] same [OF that(1)] by blast
  have "entry_ok (entry_of u p i) (T (ps @ [i]))" if "T ps = Some p" "Suc (length ps) < levels s" "i < 512" for ps p i
    using pt_invD(7) [OF inv that] e [OF _ that(3), of p] that(1) by (simp add: ranI)
  then show "pt_inv u T"
    unfolding pt_inv_def f' using u(1) pt_invD(2-5) [OF inv] own pt_invD(6) [OF inv] by blast
qed

text \<open>A new table is linked into a table above the last level.\<close>

lemma pt_inv_link:
  assumes inv: "pt_inv s T" and ps: "T ps = Some p" "Suc (length ps) < levels s" and i: "i < 512"
    and none: "T (ps @ [i]) = None" and q: "own_page s q" "q \<notin> ran T" "\<And>j. j < 512 \<Longrightarrow> entry_of s q j = 0"
    and v: "v AND 0x01 \<noteq> 0" "v AND NOT VMM_PTE_FLAGS_MASK = table_addr q"
  shows "pt_inv (set_entry p i v s) (T(ps @ [i] \<mapsto> q))"
proof -
  let ?t = "set_entry p i v s" and ?T = "T(ps @ [i] \<mapsto> q)"
  have own: "own_page s p" using pt_invD(6) [OF inv ps(1)] .
  note p40 = own_small [OF inv own]
  note pmm = set_entry_pmm [OF own p40 i]
  have below: "ps @ [i] @ [j] \<notin> dom T" for j
    using tables_prefix [OF inv, of "ps @ [i]" "[j]"] none by auto
  have "inj_on ?T (dom ?T)" using pt_invD(3) [OF inv] q(2) none by (auto simp: inj_on_def ran_def dom_def)
  moreover have "\<forall>qs j. qs @ [j] \<in> dom ?T \<longrightarrow> qs \<in> dom ?T" using pt_invD(5) [OF inv] ps(1) by auto
  moreover have "\<exists>r. ?T [] = Some r \<and> top_level (kernel_pagemap ?t) = table_addr r"
    using pt_invD(4) [OF inv] by simp
  moreover have "\<forall>qs r. ?T qs = Some r \<longrightarrow> own_page ?t r"
    using pt_invD(6) [OF inv] q(1) by (simp add: pmm)
  moreover have "entry_ok (entry_of ?t r j) (?T (qs @ [j]))"
    if qs: "?T qs = Some r" "Suc (length qs) < levels s" "j < 512" for qs r j
  proof (cases "qs = ps @ [i]")
    case True
    then have "r = q" "q \<noteq> p" using qs(1) q(2) ps(1) by (auto simp: ran_def)
    moreover have "?T (qs @ [j]) = None" using True below [of j] by (simp add: domIff)
    ultimately show ?thesis
      using entry_of_set_entry [OF p40 i own_small [OF inv q(1)] qs(3)] q(3) [OF qs(3)]
      by (simp add: entry_ok_def)
  next
    case False
    then have r: "T qs = Some r" using qs(1) by simp
    note set = entry_of_set_entry [OF p40 i own_small [OF inv pt_invD(6) [OF inv r]] qs(3), of v s]
    show ?thesis
    proof (cases "qs = ps \<and> j = i")
      case True
      then show ?thesis using r ps(1) set v by (simp add: entry_ok_def)
    next
      case other: False
      then have "\<not> (r = p \<and> j = i)" using tables_inj [OF inv r] ps(1) by blast
      then show ?thesis using set pt_invD(7) [OF inv r qs(2,3)] other by auto
    qed
  qed
  ultimately show ?thesis
    unfolding pt_inv_def set_entry_simps pmm using pt_invD(1,2) [OF inv] by blast
qed

lemma translate_link:
  assumes inv: "pt_inv s T" and ps: "T ps = Some p" "Suc (length ps) < levels s" and i: "i < 512"
    and none: "T (ps @ [i]) = None" and q: "own_page s q" "q \<notin> ran T" "\<And>j. j < 512 \<Longrightarrow> entry_of s q j = 0"
    and v: "v AND 0x01 \<noteq> 0" "v AND NOT VMM_PTE_FLAGS_MASK = table_addr q"
  shows "translate (set_entry p i v s) = translate s"
proof
  fix a
  let ?l = "butlast (pt_path s a)" and ?k = "last (pt_path s a)" and ?t = "set_entry p i v s"
  have k: "?k < 512" and len: "Suc (length ?l) = levels s"
    using pt_path_props(7,8) [of s a] pt_path_props(9) [of s] by simp_all
  note tr = translate_tables [OF pt_inv_link [OF assms], of a] translate_tables [OF inv, of a]
  have p: "p < 2 ^ 40" "p \<in> ran T" using ps(1) own_small [OF inv pt_invD(6) [OF inv ps(1)]] by (auto simp: ran_def)
  note set = entry_of_set_entry [OF p(1) i _ k, of _ v s]
  show "translate ?t a = translate s a"
  proof (cases "?l = ps @ [i]")
    case True
    have "entry_of ?t q ?k = 0" using set [OF own_small [OF inv q(1)]] q(2,3) k p(2) by auto
    then show ?thesis using True none tr by (simp add: present_def)
  next
    case False
    have "entry_of ?t r ?k = entry_of s r ?k" if rT: "T ?l = Some r" for r
    proof -
      have "?l \<noteq> ps" using ps(2) len by auto
      then have "r \<noteq> p" using tables_inj [OF inv rT] ps(1) by blast
      then show ?thesis using set [OF own_small [OF inv pt_invD(6) [OF inv rT]]] by simp
    qed
    then show ?thesis using False tr by (simp split: option.splits)
  qed
qed

lemma translate_frame:
  assumes inv: "pt_inv s T" and fr: "alloc_frame s u" and invu: "pt_inv u T"
    and same: "\<And>p i. p \<in> ran T \<Longrightarrow> i < 512 \<Longrightarrow> entry_of u p i = entry_of s p i"
  shows "translate u = translate s"
proof
  fix a
  have "pt_path u = pt_path s" using fr by (auto simp: alloc_frame_def pt_path_def fun_eq_iff)
  moreover have "last (pt_path s a) < 512" using pt_path_props(8) [of s a] .
  ultimately show "translate u a = translate s a"
    using translate_tables [OF inv, of a] translate_tables [OF invu, of a] same [OF ranI]
    by (simp split: option.splits)
qed

text \<open>An entry of the last level changes.\<close>

lemma pt_inv_leaf:
  assumes inv: "pt_inv s T" and ps: "T ps = Some p" "levels s \<le> Suc (length ps)" and i: "i < 512"
  shows "pt_inv (set_entry p i v s) T"
proof -
  have own: "own_page s p" using pt_invD(6) [OF inv ps(1)] .
  note p40 = own_small [OF inv own]
  note pmm = set_entry_pmm [OF own p40 i]
  have "entry_ok (entry_of (set_entry p i v s) r j) (T (qs @ [j]))"
    if qs: "T qs = Some r" "Suc (length qs) < levels s" "j < 512" for qs r j
  proof -
    have "r \<noteq> p" using tables_inj [OF inv ps(1), of qs] qs(1,2) ps(2) by auto
    then show ?thesis
      using entry_of_set_entry [OF p40 i own_small [OF inv pt_invD(6) [OF inv qs(1)]] qs(3), of v s]
        pt_invD(7) [OF inv qs] by simp
  qed
  then show ?thesis
    unfolding pt_inv_def set_entry_simps pmm using pt_invD(1-6) [OF inv] by blast
qed

section \<open>Descending\<close>

text \<open>\<open>vm_ext k s T t T'\<close>: from \<open>s\<close> to \<open>t\<close> at most \<open>k\<close> free pages became tables; no translation
  changed, and memory outside tables, free pages and the bitmap is the same.\<close>

definition vm_frame :: "kernel \<Rightarrow> tables \<Rightarrow> kernel \<Rightarrow> bool" where
  "vm_frame s T t \<longleftrightarrow>
     (\<forall>x. page_of s x \<notin> ran T \<and> page_of s x \<notin> free_pages s \<and> \<not> bitmap_byte s x \<longrightarrow> mem t x = mem s x)"

definition vm_ext :: "nat \<Rightarrow> kernel \<Rightarrow> tables \<Rightarrow> kernel \<Rightarrow> tables \<Rightarrow> bool" where
  "vm_ext k s T t T' \<longleftrightarrow> pt_inv t T' \<and> alloc_frame s t \<and> T \<subseteq>\<^sub>m T' \<and> translate t = translate s
     \<and> free_pages t \<subseteq> free_pages s \<and> ran T' \<subseteq> ran T \<union> free_pages s
     \<and> card (free_pages s) \<le> card (free_pages t) + k \<and> vm_frame s T t"

lemma vm_frame_trans:
  assumes "vm_frame s T t" and "vm_frame t T' u" and fr: "alloc_frame s t"
    and "free_pages t \<subseteq> free_pages s" and "ran T' \<subseteq> ran T \<union> free_pages s"
  shows "vm_frame s T u"
  unfolding vm_frame_def
proof (intro allI impI)
  fix x assume x: "page_of s x \<notin> ran T \<and> page_of s x \<notin> free_pages s \<and> \<not> bitmap_byte s x"
  have "mem t x = mem s x" using assms(1) x unfolding vm_frame_def by blast
  moreover have "mem u x = mem t x"
    using assms(2,4,5) x unfolding vm_frame_def alloc_frame_fields [OF fr] by blast
  ultimately show "mem u x = mem s x" by simp
qed

lemma vm_ext_refl: "pt_inv s T \<Longrightarrow> vm_ext 0 s T s T"
  by (auto simp: vm_ext_def vm_frame_def alloc_frame_refl)

lemma vm_ext_trans:
  assumes a: "vm_ext k s T t T'" and b: "vm_ext l t T' u T''"
  shows "vm_ext (k + l) s T u T''"
proof -
  have "vm_frame s T u"
    by (rule vm_frame_trans [of s T t T' u]) (use a b in \<open>simp_all add: vm_ext_def\<close>)
  moreover have "alloc_frame s u" using a b alloc_frame_trans by (auto simp: vm_ext_def)
  moreover have "T \<subseteq>\<^sub>m T''" using a b map_le_trans by (auto simp: vm_ext_def)
  ultimately show ?thesis using a b unfolding vm_ext_def by auto
qed

lemma get_next_level_present:
  assumes inv: "pt_inv s T" and ps: "T ps = Some p" "Suc (length ps) < levels s" and i: "i < 512"
    and some: "T (ps @ [i]) = Some q"
  shows "get_next_level (table_addr p) (of_nat i) True s = Ok (table_addr q, s)"
  using pt_invD(7) [OF inv ps i] some
  by (simp add: get_next_level_def read64_def entry_ok_def entry_of_def table_entry_def run_basic)

lemma get_next_level_new:
  assumes inv: "pt_inv s T" and ps: "T ps = Some p" "Suc (length ps) < levels s" and i: "i < 512"
    and none: "T (ps @ [i]) = None" and free: "free_pages s \<noteq> {}"
  shows "\<exists>q t. get_next_level (table_addr p) (of_nat i) True s = Ok (table_addr q, t)
    \<and> vm_ext 1 s T t (T(ps @ [i] \<mapsto> q))"
proof -
  note rd = pt_invD(1) [OF inv]
  obtain q u where r: "pmm_alloc 1 s = Ok (table_addr q, u)" and q: "q \<in> free_pages s"
    and fp: "free_pages u = free_pages s - {q}" and ru: "pmm_ready u" and fr: "alloc_frame s u"
    and zero: "\<And>x. page_of s x = q \<Longrightarrow> mem u x = 0"
    and out: "\<And>x. page_of s x \<noteq> q \<Longrightarrow> \<not> bitmap_byte s x \<Longrightarrow> mem u x = mem s x"
    using pmm_alloc_one [OF rd free] unfolding table_addr_def by blast
  note f = alloc_frame_fields [OF fr]
  have own: "own_page s r" if "r \<in> ran T" for r using that pt_invD(6) [OF inv] by (auto simp: ran_def)
  have qT: "q \<notin> ran T" using own q by (auto simp: own_page_def)
  have same: "mem u x = mem s x" if "r \<in> ran T" "page_of s x = r" for r x
    using own [OF that(1)] that qT q by (intro out) (auto simp: own_page_def)
  note fu = pt_inv_frame [OF inv fr ru _ same]
  have invu: "pt_inv u T" using fu(1) fp by auto
  have qb: "q < unat (pmm_avl_page_count s)" using q by (simp add: free_pages_def)
  then have q40: "q < 2 ^ 40" using pt_invD(2) [OF inv] by simp
  have bit: "page_of s x \<noteq> q" if "bitmap_byte s x" for x using raw_pages.own_avail [OF rd that] q by blast
  have avl: "pmm_avl_page_count u = pmm_avl_page_count s" "levels u = levels s" "pt_path u = pt_path s"
    using fr by (auto simp: alloc_frame_def levels_def pt_path_def fun_eq_iff)
  have qown: "own_page u q" using qb bit by (auto simp: own_page_def avl fp f)
  have qz: "entry_of u q j = 0" if "j < 512" for j
  proof -
    have "entry_of (s\<lparr>mem := \<lambda>_. 0\<rparr>) q j = 0"
      by (simp add: entry_of_def table_entry_def numeral_eq_Suc)
    moreover have "entry_of u q j = entry_of (s\<lparr>mem := \<lambda>_. 0\<rparr>) q j"
      using zero f(2) by (intro entry_cong [OF q40 that]) simp_all
    ultimately show ?thesis by simp
  qed
  have p: "p \<in> ran T" "p < 2 ^ 40" using ps(1) own_small [OF inv pt_invD(6) [OF inv ps(1)]] by (auto simp: ran_def)
  let ?t = "set_entry p i (table_addr q OR 7) u" and ?T = "T(ps @ [i] \<mapsto> q)"
  have none0: "table_entry s (table_addr p) (of_nat i) AND 1 = 0"
    using pt_invD(7) [OF inv ps i] none by (simp add: entry_ok_def entry_of_def)
  have run: "get_next_level (table_addr p) (of_nat i) True s = Ok (table_addr q, ?t)"
    using none0 r f(2)
    by (simp add: get_next_level_def read64_def write64_def table_entry_def bind_Ok set_entry_def run_basic)
  have invt: "pt_inv ?t ?T"
    by (rule pt_inv_link [OF invu ps(1) _ i none qown qT qz]) (use ps(2) avl table_link [OF q40] in simp_all)
  note pmm = set_entry_pmm [OF pt_invD(6) [OF invu ps(1)] p(2) i]
  have frt: "alloc_frame s ?t" unfolding set_entry_def by (rule alloc_frame_mem_update [OF fr])
  have "translate ?t = translate s"
    using translate_link [OF invu ps(1) _ i none qown qT qz table_link [OF q40]] translate_frame [OF inv fr invu]
      ps(2) avl(2) fu(2) fp by auto
  moreover have "vm_frame s T ?t"
    unfolding vm_frame_def
  proof (intro allI impI)
    fix x assume x: "page_of s x \<notin> ran T \<and> page_of s x \<notin> free_pages s \<and> \<not> bitmap_byte s x"
    then have "page_of u x \<noteq> p" "mem u x = mem s x" using p(1) q out [of x] by (auto simp: f)
    then show "mem ?t x = mem s x" using set_entry_outside [OF p(2) i] by simp
  qed
  moreover have "card (free_pages s) \<le> card (free_pages ?t) + 1"
    using q by (simp add: pmm fp card_Diff_singleton_if)
  moreover have "T \<subseteq>\<^sub>m ?T" using none by (auto simp: map_le_def dom_def)
  moreover have "ran ?T \<subseteq> ran T \<union> free_pages s" using q none by (auto simp: ran_def split: if_splits)
  ultimately have "vm_ext 1 s T ?t ?T"
    unfolding vm_ext_def using invt frt fp by (auto simp: pmm)
  then show ?thesis using run by blast
qed

text \<open>A new table costs a free page; one that is there costs nothing.\<close>

lemma get_next_level_Ok:
  assumes inv: "pt_inv s T" and ps: "T ps = Some p" "Suc (length ps) < levels s" and i: "i < 512"
    and free: "card ({ps @ [i]} - dom T) \<le> card (free_pages s)"
  shows "\<exists>q t T'. get_next_level (table_addr p) (of_nat i) True s = Ok (table_addr q, t)
    \<and> vm_ext (card ({ps @ [i]} - dom T)) s T t T' \<and> T' (ps @ [i]) = Some q \<and> dom T' = dom T \<union> {ps @ [i]}"
proof (cases "T (ps @ [i])")
  case None
  then have n: "card ({ps @ [i]} - dom T) = 1" by (simp add: domIff insert_Diff_if)
  then have "free_pages s \<noteq> {}" using free by auto
  from get_next_level_new [OF inv ps i None this] obtain q t where
    "get_next_level (table_addr p) (of_nat i) True s = Ok (table_addr q, t)" "vm_ext 1 s T t (T(ps @ [i] \<mapsto> q))" by blast
  then show ?thesis unfolding n by (intro exI [of _ q] exI [of _ t] exI [of _ "T(ps @ [i] \<mapsto> q)"]) simp
next
  case (Some q)
  then have "{ps @ [i]} - dom T = {}" "dom T = dom T \<union> {ps @ [i]}" by auto
  moreover have "vm_ext 0 s T s T" by (rule vm_ext_refl [OF inv])
  ultimately show ?thesis using get_next_level_present [OF inv ps i Some] Some by auto
qed

fun descend :: "u64 \<Rightarrow> u64 list \<Rightarrow> u64 kprog" where
  "descend table [] = return table"
| "descend table (i # is) = bind (get_next_level table i True) (\<lambda>next. descend next is)"

text \<open>The tables below \<open>ps\<close> on the way along \<open>is\<close>.\<close>

definition tables_along :: "nat list \<Rightarrow> nat list \<Rightarrow> nat list set" where
  "tables_along ps is = (\<lambda>k. ps @ take k is) ` {1..length is}"

lemma tables_along_simps [simp]:
  "tables_along ps [] = {}" "tables_along ps (i # js) = {ps @ [i]} \<union> tables_along (ps @ [i]) js"
proof -
  show "tables_along ps [] = {}" by (simp add: tables_along_def)
  have "Suc ` {1..length js} = {2..length (i # js)}" by (simp add: image_Suc_atLeastAtMost numeral_2_eq_2 del: One_nat_def)
  then have img: "{1..length (i # js)} = insert 1 (Suc ` {1..length js})" by auto
  show "tables_along ps (i # js) = {ps @ [i]} \<union> tables_along (ps @ [i]) js"
    unfolding tables_along_def img image_insert image_image by simp
qed

lemma finite_tables_along [simp]: "finite (tables_along ps is)"
  by (simp add: tables_along_def)

lemma root_not_along [simp]: "[] \<notin> tables_along ps is"
  by (cases "is") (auto simp: tables_along_def)

lemma card_new:
  "finite A \<Longrightarrow> finite B \<Longrightarrow> card ((A \<union> B) - D) = card (A - D) + card (B - (D \<union> A))"
  by (subst card_Un_disjoint [symmetric]) (auto intro: arg_cong [of _ _ card])

lemma descend_Ok:
  assumes "pt_inv s T" and "T ps = Some p" and "length ps + length is < levels s"
    and "\<forall>i \<in> set is. i < 512" and "card (tables_along ps is - dom T) \<le> card (free_pages s)"
  shows "\<exists>q t T'. descend (table_addr p) (map of_nat is) s = Ok (table_addr q, t)
    \<and> vm_ext (card (tables_along ps is - dom T)) s T t T' \<and> T' (ps @ is) = Some q
    \<and> dom T' = dom T \<union> tables_along ps is"
  using assms
proof (induction "is" arbitrary: ps p s T)
  case Nil
  then show ?case using vm_ext_refl [OF Nil.prems(1)] by (auto simp: run_basic)
next
  case (Cons i js)
  let ?A = "{ps @ [i]}" and ?B = "tables_along (ps @ [i]) js"
  have c: "card (tables_along ps (i # js) - dom T) = card (?A - dom T) + card (?B - (dom T \<union> ?A))"
    unfolding tables_along_simps by (rule card_new) simp_all
  then have "card (?A - dom T) \<le> card (free_pages s)" using Cons.prems(5) by simp
  then obtain q t T' where q: "get_next_level (table_addr p) (of_nat i) True s = Ok (table_addr q, t)"
    and e: "vm_ext (card (?A - dom T)) s T t T'" and T': "T' (ps @ [i]) = Some q" and d: "dom T' = dom T \<union> ?A"
    using get_next_level_Ok [OF Cons.prems(1,2), of i] Cons.prems(3,4) by auto
  have lv: "levels t = levels s" using e by (auto simp: vm_ext_def alloc_frame_def levels_def)
  have "pt_inv t T'" "card (free_pages s) \<le> card (free_pages t) + card (?A - dom T)" using e by (simp_all add: vm_ext_def)
  moreover have "card (?B - dom T') \<le> card (free_pages t)" using calculation(2) Cons.prems(5) c unfolding d by simp
  ultimately obtain r u T'' where r: "descend (table_addr q) (map of_nat js) t = Ok (table_addr r, u)"
    and f: "vm_ext (card (?B - dom T')) t T' u T''" and T'': "T'' ((ps @ [i]) @ js) = Some r" and d': "dom T'' = dom T' \<union> ?B"
    using Cons.IH [of t T' "ps @ [i]" q] T' Cons.prems(3,4) by (auto simp: lv)
  have "descend (table_addr p) (map of_nat (i # js)) s = Ok (table_addr r, u)" using q r by (simp add: bind_Ok)
  moreover have "vm_ext (card (tables_along ps (i # js) - dom T)) s T u T''"
    using vm_ext_trans [OF e f] unfolding c d .
  ultimately show ?case using T'' d d' by auto
qed

section \<open>Mapping a page\<close>

text \<open>Locks, the interrupt flag and the log are no part of the tables.\<close>

definition vm_same :: "kernel \<Rightarrow> kernel \<Rightarrow> bool" where
  "vm_same s t \<longleftrightarrow> mem t = mem s \<and> hhdm t = hhdm s \<and> pmm_bitmap t = pmm_bitmap s
     \<and> pmm_avl_page_count t = pmm_avl_page_count s \<and> pmm_last_used_index t = pmm_last_used_index s
     \<and> pmm_lock t = pmm_lock s \<and> vmm_la57 t = vmm_la57 s
     \<and> top_level (kernel_pagemap t) = top_level (kernel_pagemap s)"

lemma vm_same_cong:
  assumes "vm_same s t"
  shows "page_of t = page_of s" "bitmap_byte t = bitmap_byte s" "free_pages t = free_pages s"
    "pmm_ready t = pmm_ready s" "pt_inv t = pt_inv s" "translate t = translate s"
proof -
  have f: "mem t = mem s" "hhdm t = hhdm s" "pmm_bitmap t = pmm_bitmap s" "pmm_avl_page_count t = pmm_avl_page_count s"
    "pmm_last_used_index t = pmm_last_used_index s" "pmm_lock t = pmm_lock s" "vmm_la57 t = vmm_la57 s"
    "top_level (kernel_pagemap t) = top_level (kernel_pagemap s)"
    using assms by (simp_all add: vm_same_def)
  show a: "page_of t = page_of s" "bitmap_byte t = bitmap_byte s" "free_pages t = free_pages s"
    by (auto simp: f page_of_def bitmap_byte_def free_pages_def page_free_def)
  show b: "pmm_ready t = pmm_ready s" by (simp add: f a pmm_ready_def pmm_wf_def)
  have e: "table_entry t x i = table_entry s x i" for x i by (simp add: f table_entry_def)
  then have "pt_walk t x is = pt_walk s x is" for x "is"
    by (induction s x "is" rule: pt_walk.induct) (simp_all add: Let_def)
  then show "translate t = translate s" by (auto simp: f translate_def)
  have "own_page t = own_page s" "levels t = levels s" "entry_of t = entry_of s"
    by (auto simp: own_page_def levels_def entry_of_def f a e intro!: ext)
  then show "pt_inv t = pt_inv s" by (auto simp: pt_inv_def b f)
qed

lemma vm_same_locks [simp]:
  "vm_same s (s\<lparr>int_flag := b\<rparr>)" "vm_same s (pagemap_lock_update f s)" "vm_same s (s\<lparr>klog := l\<rparr>)"
  "vm_same s (s\<lparr>cr3 := c\<rparr>)"
  by (simp_all add: vm_same_def pagemap_lock_defs)

lemma vm_same_trans: "vm_same s t \<Longrightarrow> vm_same t u \<Longrightarrow> vm_same s u"
  by (simp add: vm_same_def)

lemma vmm_map_page_descend:
  assumes "\<not> pagemap_lock s"
  shows "vmm_map_page virt phys flags s =
    bind (descend (top_level (kernel_pagemap s)) (butlast (pt_indices (vmm_la57 s) virt))) (\<lambda>pml1.
    bind (gets (\<lambda>s. pml1 + hhdm s + pml_index 12 virt * 8)) (\<lambda>entry.
    bind (write64 entry (phys OR flags)) (\<lambda>_.
    bind (spinlock_release pagemap_lock_update) (\<lambda>_.
    bind (interrupt_toggle (int_flag s)) (\<lambda>_. return ()))))) (pagemap_lock_update (\<lambda>_. True) (s\<lparr>int_flag := False\<rparr>))"
proof -
  let ?k = "\<lambda>old pml1. bind (gets (\<lambda>s. pml1 + hhdm s + pml_index 12 virt * 8)) (\<lambda>entry.
    bind (write64 entry (phys OR flags)) (\<lambda>_.
    bind (spinlock_release pagemap_lock_update) (\<lambda>_.
    bind (interrupt_toggle old) (\<lambda>_. return ()))))"
  have "bind (if la57 then get_next_level pml5 (pml_index 48 virt) True else return pml5) (\<lambda>pml4.
     bind (get_next_level pml4 (pml_index 39 virt) True) (\<lambda>pml3.
     bind (get_next_level pml3 (pml_index 30 virt) True) (\<lambda>pml2.
     bind (get_next_level pml2 (pml_index 21 virt) True) (?k old)))) =
     bind (descend pml5 (butlast (pt_indices la57 virt))) (?k old)" for la57 pml5 old
    by (cases la57) (simp_all add: pt_indices_def bind_assoc del: bind_gets)
  note d = this
  show ?thesis
    unfolding vmm_map_page_def Let_def d
    using assms by (simp add: bind_spinlock_acquire pml.get_int_flag pagemap_lock_defs)
qed

text \<open>The effect on the last table.\<close>

lemma translate_leaf:
  assumes inv: "pt_inv s T" and p: "T (butlast (pt_path s virt)) = Some p"
  shows "translate (set_entry p (last (pt_path s virt)) v s) a =
    (if pt_path s a = pt_path s virt then present v else translate s a)"
proof -
  let ?i = "last (pt_path s virt)" and ?k = "last (pt_path s a)"
  have len: "Suc (length (butlast (pt_path s b))) = levels s" for b
    using pt_path_props(7) [of s b] pt_path_props(9) [of s] by simp
  have small: "?i < 512" "?k < 512" using pt_path_props(8) by blast+
  have leaf: "levels s \<le> Suc (length (butlast (pt_path s virt)))" using len [of virt] by simp
  note tr = translate_tables [OF pt_inv_leaf [OF inv p leaf small(1)], of v a] translate_tables [OF inv, of a]
  note set = entry_of_set_entry [OF own_small [OF inv pt_invD(6) [OF inv p]] small(1) _ small(2), of _ v s]
  have eq: "pt_path s a = pt_path s virt \<longleftrightarrow> butlast (pt_path s a) = butlast (pt_path s virt) \<and> ?k = ?i"
  proof -
    have "pt_path s b = butlast (pt_path s b) @ [last (pt_path s b)]" for b using pt_path_props(3) [of s b] by simp
    from this [of a] this [of virt] show ?thesis by (metis (no_types))
  qed
  show ?thesis
  proof (cases "T (butlast (pt_path s a))")
    case None
    then have "butlast (pt_path s a) \<noteq> butlast (pt_path s virt)" using p by (metis option.distinct(1))
    then have "pt_path s a \<noteq> pt_path s virt" by metis
    then show ?thesis using tr None by simp
  next
    case (Some r)
    have "r = p \<longleftrightarrow> butlast (pt_path s a) = butlast (pt_path s virt)"
      using tables_inj [OF inv Some, of "butlast (pt_path s virt)"] p Some by (metis option.inject)
    then show ?thesis using tr Some set [OF own_small [OF inv pt_invD(6) [OF inv Some]]] unfolding eq by simp
  qed
qed

text \<open>What completed calls have done: the tables on the way to the pages are there, the lock is free
  again, the interrupt flag as before, and the only change to the translation is at the pages.
  \<open>map_cost\<close> is the number of tables that were missing.\<close>

definition table_paths :: "kernel \<Rightarrow> (u64 \<times> u64 \<times> u64) list \<Rightarrow> nat list set" where
  "table_paths s reqs = (\<Union>(v, p, f) \<in> set reqs. tables_along [] (butlast (pt_path s v)))"

definition map_cost :: "kernel \<Rightarrow> tables \<Rightarrow> (u64 \<times> u64 \<times> u64) list \<Rightarrow> nat" where
  "map_cost s T reqs = card (table_paths s reqs - dom T)"

definition vm_mapped :: "nat \<Rightarrow> kernel \<Rightarrow> tables \<Rightarrow> kernel \<Rightarrow> tables \<Rightarrow> (u64 \<times> u64 \<times> u64) list \<Rightarrow> bool" where
  "vm_mapped k s T t T' reqs \<longleftrightarrow> pt_inv t T' \<and> alloc_frame s t \<and> T \<subseteq>\<^sub>m T'
     \<and> free_pages t \<subseteq> free_pages s \<and> ran T' \<subseteq> ran T \<union> free_pages s
     \<and> card (free_pages s) \<le> card (free_pages t) + k \<and> vm_frame s T t \<and> dom T' = dom T \<union> table_paths s reqs
     \<and> translate t = fold (\<lambda>(v, p, f) tr a. if pt_path s a = pt_path s v then present (p OR f) else tr a) reqs (translate s)"

lemma vmm_map_page_Ok:
  assumes inv: "pt_inv s T" and lk: "\<not> pagemap_lock s" and cost: "k = map_cost s T [(virt, phys, flags)]" and free: "k \<le> card (free_pages s)"
  shows "\<exists>t T'. vmm_map_page virt phys flags s = Ok ((), t) \<and> vm_mapped k s T t T' [(virt, phys, flags)]"
proof -
  let ?s = "pagemap_lock_update (\<lambda>_. True) (s\<lparr>int_flag := False\<rparr>)"
  have same: "vm_same s ?s" using vm_same_trans vm_same_locks(1,2) by blast
  note c = vm_same_cong [OF same]
  have mem_s: "mem ?s = mem s" using same by (simp add: vm_same_def)
  obtain r where r: "T [] = Some r" "top_level (kernel_pagemap s) = table_addr r" using pt_invD(4) [OF inv] by blast
  let ?p = "butlast (pt_path s virt)" and ?i = "last (pt_path s virt)"
  have lv: "levels ?s = levels s" "pt_path ?s = pt_path s"
    using same by (auto simp: vm_same_def levels_def pt_path_def fun_eq_iff)
  have len: "Suc (length ?p) = levels s"
    using pt_path_props(7) [of s virt] pt_path_props(9) [of s] by (simp_all add: levels_def)
  have k: "k = card (tables_along [] ?p - dom T)" by (simp add: cost map_cost_def table_paths_def)
  have "\<exists>q t T'. descend (table_addr r) (map of_nat ?p) ?s = Ok (table_addr q, t)
      \<and> vm_ext k ?s T t T' \<and> T' ([] @ ?p) = Some q \<and> dom T' = dom T \<union> tables_along [] ?p"
    unfolding k by (rule descend_Ok) (use inv c r(1) lv len free k pt_path_props(2) [of s virt] in \<open>auto dest: in_set_butlastD\<close>)
  then obtain q u T' where d: "descend (table_addr r) (map of_nat ?p) ?s = Ok (table_addr q, u)"
    and e: "vm_ext k ?s T u T'" and q: "T' ?p = Some q" and dT: "dom T' = dom T \<union> tables_along [] ?p" by auto
  have u: "pt_inv u T'" "alloc_frame ?s u" "translate u = translate s" "free_pages u \<subseteq> free_pages s"
    "ran T' \<subseteq> ran T \<union> free_pages s" "card (free_pages s) \<le> card (free_pages u) + k" "vm_frame s T u" "T \<subseteq>\<^sub>m T'"
    using e mem_s unfolding vm_ext_def vm_frame_def c by simp_all
  have pu: "pt_path u = pt_path s" "levels u = levels s"
    using u(2) by (auto simp: alloc_frame_def pt_path_def levels_def pagemap_lock_defs intro!: ext)
  have i: "?i < 512" using pt_path_props(8) [of s virt] .
  let ?v = "phys OR flags" and ?w = "set_entry q ?i (phys OR flags) u"
  have invw: "pt_inv ?w T'" by (rule pt_inv_leaf [OF u(1) q _ i]) (use len pu in simp)
  have own: "own_page u q" using pt_invD(6) [OF u(1) q] .
  note q40 = own_small [OF u(1) own]
  note pmm = set_entry_pmm [OF own q40 i]
  have tr: "translate ?w a = (if pt_path s a = pt_path s virt then present ?v else translate s a)" for a
    using translate_leaf [OF u(1), of virt q ?v a] q u(3) by (simp add: pu)
  let ?t = "(pagemap_lock_update (\<lambda>_. False) ?w)\<lparr>int_flag := int_flag s\<rparr>"
  have sw: "vm_same ?w ?t" using vm_same_trans vm_same_locks(1,2) by blast
  note cw = vm_same_cong [OF sw]
  have run: "vmm_map_page virt phys flags s = Ok ((), ?t)"
    using d by (simp add: vmm_map_page_descend [OF lk] r(2) pt_path_props(6) [symmetric] bind_Ok
        write64_def set_entry_def pt_path_props(5) interrupt_toggle_eq run_basic)
  have frt: "alloc_frame s ?t"
  proof -
    obtain j m where "u = ?s\<lparr>pmm_last_used_index := j, mem := m\<rparr>" using u(2) by (auto simp: alloc_frame_def)
    then have "?t = s\<lparr>pmm_last_used_index := j, mem := mem ?w\<rparr>"
      using lk by (simp add: set_entry_def pagemap_lock_defs)
    then show ?thesis unfolding alloc_frame_def by blast
  qed
  have "mem ?t x = mem s x" if x: "page_of s x \<notin> ran T" "page_of s x \<notin> free_pages s" "\<not> bitmap_byte s x" for x
  proof -
    have "page_of u x = page_of s x" using alloc_frame_fields(1) [OF u(2)] c(1) by simp
    then have "page_of u x \<noteq> q" using x u(5) q by (auto simp: ran_def)
    then show ?thesis using set_entry_outside [OF q40 i, of u x ?v] u(7) x sw by (simp add: vm_same_def vm_frame_def)
  qed
  then have "vm_frame s T ?t" by (simp add: vm_frame_def)
  moreover have "dom T' = dom T \<union> table_paths s [(virt, phys, flags)]" using dT by (simp add: table_paths_def)
  ultimately have "vm_mapped k s T ?t T' [(virt, phys, flags)]"
    unfolding vm_mapped_def using invw frt u(4-6,8) tr by (auto simp: cw pmm)
  then show ?thesis using run by blast
qed

end
