(* ===== verification/Vmm_Maps.thy ===== *)
theory Vmm_Maps
  imports Vmm
begin

text \<open>
  Sequences of mappings: spans, the segments of the kernel file, the direct map, and
  \<open>vmm_init\<close> as a whole. A completed sequence of requests turns the translation into the one
  obtained by overwriting it request by request.
\<close>

section \<open>Sequences of requests\<close>

type_synonym request = "u64 \<times> u64 \<times> u64"

definition map_all :: "request list \<Rightarrow> unit kprog" where
  "map_all = foreach (\<lambda>(v, p, f). vmm_map_page v p f)"

lemma table_paths_simps [simp]:
  "table_paths s [] = {}" "table_paths s (xs @ ys) = table_paths s xs \<union> table_paths s ys" "finite (table_paths s xs)"
  by (auto simp: table_paths_def)

lemma table_paths_Cons: "table_paths s (x # xs) = table_paths s [x] \<union> table_paths s xs"
  by (auto simp: table_paths_def)

lemma table_paths_mode: "vmm_la57 t = vmm_la57 s \<Longrightarrow> table_paths t = table_paths s"
  by (auto simp: table_paths_def pt_path_def fun_eq_iff)

lemma table_paths_klog [simp]: "table_paths (s\<lparr>klog := l\<rparr>) = table_paths s"
  by (rule table_paths_mode) simp

lemma map_cost_Cons: "map_cost s T (x # xs) = map_cost s T [x] + card (table_paths s xs - (dom T \<union> table_paths s [x]))"
  unfolding map_cost_def table_paths_Cons [of s x xs] by (rule card_new) simp_all

lemma map_cost_append: "map_cost s T (xs @ ys) = map_cost s T xs + card (table_paths s ys - (dom T \<union> table_paths s xs))"
  unfolding map_cost_def table_paths_simps(2) by (rule card_new) simp_all

lemma map_cost_mono: "table_paths s xs \<subseteq> table_paths s ys \<Longrightarrow> map_cost s T xs \<le> map_cost s T ys"
  unfolding map_cost_def by (rule card_mono) auto

text \<open>No page needs more than four tables besides the root.\<close>

lemma map_cost_bound: "map_cost s T reqs \<le> 4 * length reqs"
proof -
  have len: "length (butlast (pt_path s v)) \<le> 4" for v using pt_path_props(7) [of s v] by (simp add: levels_def)
  have "card (tables_along [] ps) \<le> length ps" for ps
    unfolding tables_along_def using card_image_le [of "{1..length ps}"] by simp
  then have one: "card (tables_along [] (butlast (pt_path s v))) \<le> 4" for v using len [of v] order_trans by blast
  have "card (table_paths s reqs) \<le> 4 * length reqs"
  proof (induction reqs)
    case (Cons r reqs)
    obtain v p f where r: "r = (v, p, f)" by (cases r)
    have "card (table_paths s (r # reqs)) \<le> card (table_paths s [r]) + card (table_paths s reqs)"
      unfolding table_paths_Cons [of s r reqs] by (rule card_Un_le)
    moreover have "card (table_paths s [r]) \<le> 4" using one [of v] by (simp add: table_paths_def r)
    ultimately show ?case using Cons by simp
  qed simp
  then show ?thesis unfolding map_cost_def using card_mono [of "table_paths s reqs" "table_paths s reqs - dom T"] by simp
qed

lemma vm_mapped_refl: "pt_inv s T \<Longrightarrow> vm_mapped 0 s T s T []"
  by (auto simp: vm_mapped_def vm_frame_def alloc_frame_refl)

lemma vm_mapped_weaken: "vm_mapped k s T t T' reqs \<Longrightarrow> k \<le> l \<Longrightarrow> vm_mapped l s T t T' reqs"
  by (auto simp: vm_mapped_def)

lemma vm_mapped_mode:
  assumes "vm_mapped k s T t T' r"
  shows "vmm_la57 t = vmm_la57 s" and "pt_path t = pt_path s" and "table_paths t = table_paths s"
  using assms by (auto simp: vm_mapped_def alloc_frame_def pt_path_def intro!: ext table_paths_mode)

lemma vm_mapped_trans:
  assumes a: "vm_mapped k s T t T' r1" and b: "vm_mapped l t T' u T'' r2"
  shows "vm_mapped (k + l) s T u T'' (r1 @ r2)"
proof -
  have fr: "alloc_frame s t" using a by (simp add: vm_mapped_def)
  have "vm_frame s T u"
    by (rule vm_frame_trans [of s T t T' u]) (use a b in \<open>simp_all add: vm_mapped_def\<close>)
  moreover have "alloc_frame s u" using a b alloc_frame_trans by (auto simp: vm_mapped_def)
  moreover have "T \<subseteq>\<^sub>m T''" using a b map_le_trans by (auto simp: vm_mapped_def)
  moreover have "dom T'' = dom T \<union> table_paths s (r1 @ r2)"
    using a b vm_mapped_mode(3) [OF a] by (auto simp: vm_mapped_def)
  ultimately show ?thesis using a b vm_mapped_mode(2) [OF a] unfolding vm_mapped_def by auto
qed

text \<open>What is left to pay after the first requests.\<close>

lemma map_cost_rest:
  assumes "vm_mapped (map_cost s T xs) s T t T' xs" and "map_cost s T (xs @ ys) \<le> card (free_pages s)"
  shows "map_cost t T' ys \<le> card (free_pages t)" and "map_cost s T (xs @ ys) = map_cost s T xs + map_cost t T' ys"
proof -
  have "dom T' = dom T \<union> table_paths s xs" "card (free_pages s) \<le> card (free_pages t) + map_cost s T xs"
    using assms(1) by (simp_all add: vm_mapped_def)
  moreover show eq: "map_cost s T (xs @ ys) = map_cost s T xs + map_cost t T' ys"
    using calculation(1) vm_mapped_mode(3) [OF assms(1)] unfolding map_cost_append by (simp add: map_cost_def)
  ultimately show "map_cost t T' ys \<le> card (free_pages t)" using assms(2) by simp
qed

lemma map_all_Ok:
  assumes "pt_inv s T" and "\<not> pagemap_lock s" and "map_cost s T reqs \<le> card (free_pages s)"
  shows "\<exists>t T'. map_all reqs s = Ok ((), t) \<and> vm_mapped (map_cost s T reqs) s T t T' reqs"
  using assms
proof (induction reqs arbitrary: s T)
  case Nil
  then show ?case using vm_mapped_refl by (auto simp: map_all_def run_basic map_cost_def)
next
  case (Cons r reqs)
  obtain v p f where r: "r = (v, p, f)" by (cases r)
  have "map_cost s T [r] \<le> card (free_pages s)" using Cons.prems(3) by (simp add: map_cost_Cons [of s T r reqs])
  from vmm_map_page_Ok [OF Cons.prems(1,2) refl this [unfolded r]] obtain t T' where
    t: "vmm_map_page v p f s = Ok ((), t)" and m: "vm_mapped (map_cost s T [r]) s T t T' [r]" unfolding r by blast
  note rest = map_cost_rest [OF m, of reqs]
  have "\<not> pagemap_lock t" using m Cons.prems(2) by (auto simp: vm_mapped_def alloc_frame_def pagemap_lock_def)
  moreover have "pt_inv t T'" "map_cost t T' reqs \<le> card (free_pages t)"
    using m rest(1) Cons.prems(3) by (simp_all add: vm_mapped_def)
  ultimately obtain u T'' where u: "map_all reqs t = Ok ((), u)" and m': "vm_mapped (map_cost t T' reqs) t T' u T'' reqs"
    using Cons.IH by blast
  have "map_all (r # reqs) s = Ok ((), u)" using t u by (simp add: map_all_def r bind_Ok)
  then show ?case using vm_mapped_trans [OF m m'] rest(2) Cons.prems(3) by auto
qed

section \<open>Spans\<close>

definition span_reqs :: "u64 \<Rightarrow> u64 \<Rightarrow> u64 \<Rightarrow> u64 \<Rightarrow> request list" where
  "span_reqs virt phys len flags =
     map (\<lambda>k. (virt + of_nat k * PAGE_SIZE, phys + of_nat k * PAGE_SIZE, flags)) [0..<step_count (unat len) 4096]"

lemma foreach_map: "foreach body (map g xs) = foreach (\<lambda>x. body (g x)) xs"
  by (induction xs) simp_all

lemma for_step_span:
  assumes "unat len + 4096 \<le> 2 ^ 64"
  shows "for_step 0 len PAGE_SIZE (\<lambda>i. vmm_map_page (virt + i) (phys + i) flags) = map_all (span_reqs virt phys len flags)"
  using for_step_foreach [of PAGE_SIZE len 0] assms
  by (simp add: map_all_def span_reqs_def foreach_map)

text \<open>The last request that concerns an address decides.\<close>

lemma fold_requests:
  "fold (\<lambda>(v, p, f) tr a. if P a v then g p f else tr a) reqs tr a =
     (case find (\<lambda>(v, p, f). P a v) (rev reqs) of None \<Rightarrow> tr a | Some (v, p, f) \<Rightarrow> g p f)"
  by (induction reqs arbitrary: tr rule: rev_induct) (auto split: prod.splits)

text \<open>Addresses translated by the same entry agree in bits 12 to 47.\<close>

lemma pt_path_bits:
  assumes "pt_path s a = pt_path s b" and "12 \<le> n" and "n < 48"
  shows "bit a n = bit b n"
proof -
  have idx: "pml_index k a = pml_index k b" if "k \<in> {12, 21, 30, 39}" for k
    using assms(1) that by (auto simp: pt_path_def pt_indices_def word_unat_eq_iff split: if_splits)
  have "bit a (k + j) = bit b (k + j)" if "k \<in> {12, 21, 30, 39}" "j < 9" for k j
  proof -
    have "k \<le> 55" using that(1) by auto
    then have "bit (take_bit 9 (drop_bit k a)) j = bit (take_bit 9 (drop_bit k b)) j"
      using idx [OF that(1)] by (simp add: pml_index_eq)
    then show ?thesis using that(2) by (simp add: bit_simps)
  qed
  from this [of 12 "n - 12"] this [of 21 "n - 21"] this [of 30 "n - 30"] this [of 39 "n - 39"]
  show ?thesis using assms(2,3) by (cases "n < 21"; cases "n < 30"; cases "n < 39") simp_all
qed

lemma pt_path_page:
  assumes "pt_path s a = pt_path s b"
  shows "unat a div 4096 mod 2 ^ 36 = unat b div 4096 mod 2 ^ 36"
proof -
  have "take_bit 36 (drop_bit 12 a) = take_bit 36 (drop_bit 12 b)"
  proof (rule bit_word_eqI)
    fix n assume "n < LENGTH(64)"
    show "bit (take_bit 36 (drop_bit 12 a)) n = bit (take_bit 36 (drop_bit 12 b)) n"
      using pt_path_bits [OF assms, of "n + 12"] by (auto simp: bit_simps add.commute)
  qed
  then have "unat (take_bit 36 (drop_bit 12 a)) = unat (take_bit 36 (drop_bit 12 b))" by simp
  then show ?thesis by (simp add: unsigned_take_bit_eq take_bit_eq_mod drop_bit_eq_div unat_div unat_mod)
qed

lemma page_step:
  assumes "4096 dvd unat v"
  shows "unat (v + of_nat k * PAGE_SIZE) div 4096 mod 2 ^ 36 = (unat v div 4096 + k) mod 2 ^ 36"
proof -
  obtain n where n: "unat v = 4096 * n" using assms by (auto elim: dvdE)
  have m: "unat (of_nat x :: u64) = x mod 2 ^ 64" for x by (simp add: unat_of_nat)
  have "v + of_nat k * PAGE_SIZE = of_nat (unat v + k * 4096)" by simp
  then have "unat (v + of_nat k * PAGE_SIZE) = (4096 * n + k * 4096) mod 2 ^ 64"
    unfolding n by (simp only: m)
  also have "\<dots> = 4096 * ((n + k) mod 2 ^ 52)"
    using mult_mod_right [of 4096 "n + k" "2 ^ 52"] by (simp add: distrib_left mult.commute)
  finally show ?thesis using n by (simp add: mod_mod_cancel)
qed

lemma add_mod_inj:
  assumes "(a + j) mod m = (a + k) mod m" and "j < m" and "k < (m :: nat)"
  shows "j = k"
proof -
  have "i = l" if "(a + i) mod m = (a + l) mod m" "i \<le> l" "l < m" for i l
  proof -
    have "m dvd (a + l) - (a + i)" using that(1,2) by (intro mod_eq_dvd_iff_nat [THEN iffD1]) simp_all
    then show ?thesis using that(2,3) by (auto dest: dvd_imp_le)
  qed
  from this [of j k] this [of k j] show ?thesis using assms by (cases "j \<le> k") simp_all
qed

lemma span_distinct:
  assumes "4096 dvd unat v" and "j < n" and "k < n" and "n \<le> 2 ^ 36"
    and "pt_path s (v + of_nat j * PAGE_SIZE) = pt_path s (v + of_nat k * PAGE_SIZE)"
  shows "j = k"
proof -
  have "(unat v div 4096 + j) mod 2 ^ 36 = (unat v div 4096 + k) mod 2 ^ 36"
    using pt_path_page [OF assms(5)] by (simp only: page_step [OF assms(1)])
  then show ?thesis by (rule add_mod_inj) (use assms(2-4) in linarith)+
qed

lemma span_translate:
  assumes m: "vm_mapped l s T t T' (span_reqs virt phys len flags)" and "4096 dvd unat virt"
    and n: "n = step_count (unat len) 4096" "n \<le> 2 ^ 36"
  shows "k < n \<Longrightarrow> translate t (virt + of_nat k * PAGE_SIZE) = present ((phys + of_nat k * PAGE_SIZE) OR flags)"
    and "(\<And>k. k < n \<Longrightarrow> pt_path s a \<noteq> pt_path s (virt + of_nat k * PAGE_SIZE)) \<Longrightarrow> translate t a = translate s a"
proof -
  let ?f = "\<lambda>a (v, p, f). pt_path s a = pt_path s v"
  have tr: "translate t a = (case find (?f a) (rev (span_reqs virt phys len flags)) of
      None \<Rightarrow> translate s a | Some (v, p, f) \<Rightarrow> present (p OR f))" for a
    using m unfolding vm_mapped_def by (simp add: fold_requests)
  show "translate t a = translate s a"
    if "\<And>k. k < n \<Longrightarrow> pt_path s a \<noteq> pt_path s (virt + of_nat k * PAGE_SIZE)"
  proof -
    have "find (?f a) (rev (span_reqs virt phys len flags)) = None"
      using that by (auto simp: find_None_iff span_reqs_def n(1))
    then show ?thesis by (simp add: tr)
  qed
  show "translate t (virt + of_nat k * PAGE_SIZE) = present ((phys + of_nat k * PAGE_SIZE) OR flags)" if k: "k < n"
  proof -
    let ?a = "virt + of_nat k * PAGE_SIZE"
    have "find (?f ?a) (rev (span_reqs virt phys len flags)) \<noteq> None"
      using k by (auto simp: find_None_iff span_reqs_def n(1))
    then obtain x where x: "find (?f ?a) (rev (span_reqs virt phys len flags)) = Some x" by blast
    then have "?f ?a x" "x \<in> set (span_reqs virt phys len flags)"
      by (auto simp: find_Some_iff) (metis length_rev nth_mem set_rev)+
    then obtain j where j: "j < n" "x = (virt + of_nat j * PAGE_SIZE, phys + of_nat j * PAGE_SIZE, flags)"
      "pt_path s ?a = pt_path s (virt + of_nat j * PAGE_SIZE)"
      by (auto simp: span_reqs_def n(1))
    then have "j = k" using span_distinct [OF assms(2) k j(1) n(2) j(3)] by simp
    then show ?thesis using tr [of ?a] x j(2) by simp
  qed
qed

lemma vmm_map_span_run:
  assumes "unat (ALIGN_UP (phys + len) PAGE_SIZE - ALIGN_DOWN phys PAGE_SIZE) + 4096 \<le> 2 ^ 64"
  shows "vmm_map_span virt phys len flags =
    map_all (span_reqs (ALIGN_DOWN virt PAGE_SIZE) (ALIGN_DOWN phys PAGE_SIZE)
      (ALIGN_UP (phys + len) PAGE_SIZE - ALIGN_DOWN phys PAGE_SIZE) flags)"
  using for_step_span [OF assms] by (simp add: vmm_map_span_def Let_def)

section \<open>The requests of \<open>vmm_init\<close>\<close>

definition entry_reqs :: "u64 \<Rightarrow> memmap_entry \<Rightarrow> request list" where
  "entry_reqs off e =
     (if me_type e \<noteq> MEMMAP_USABLE \<and> me_type e \<noteq> MEMMAP_BOOTLOADER_RECLAIMABLE
         \<and> me_type e \<noteq> MEMMAP_EXECUTABLE_AND_MODULES \<and> me_type e \<noteq> MEMMAP_FRAMEBUFFER then []
      else let base = ALIGN_DOWN (me_base e) PAGE_SIZE;
               top' = ALIGN_UP (me_base e + me_length e) PAGE_SIZE in
        map (\<lambda>k. (base + of_nat k * PAGE_SIZE + off, base + of_nat k * PAGE_SIZE,
            VMM_PTE_PRESENT OR VMM_PTE_NOEXEC OR VMM_PTE_WRITABLE OR
              (if me_type e = MEMMAP_FRAMEBUFFER then VMM_PTE_WC else 0)))
          [0..<step_count (unat top' - unat base) 4096])"

definition segment_reqs :: "memory \<Rightarrow> u64 \<Rightarrow> u64 \<Rightarrow> u64 \<Rightarrow> request list" where
  "segment_reqs m pbase vbase phdr =
     (if load32 m phdr \<noteq> 1 then []
      else span_reqs (load64 m (phdr + 16)) (load64 m (phdr + 16) - vbase + pbase)
        (ALIGN_UP (load64 m (phdr + 40)) PAGE_SIZE)
        (VMM_PTE_PRESENT OR (if load32 m (phdr + 4) AND 1 = 0 then VMM_PTE_NOEXEC else 0)
          OR (if load32 m (phdr + 4) AND 2 \<noteq> 0 then VMM_PTE_WRITABLE else 0)))"

definition phdr_at :: "memory \<Rightarrow> u64 \<Rightarrow> nat \<Rightarrow> u64" where
  "phdr_at m file i = file + load64 m (file + 32) + of_nat i * ucast (load16 m (file + 54))"

definition first_segments :: "memory \<Rightarrow> u64 \<Rightarrow> u64 \<Rightarrow> u64 \<Rightarrow> nat \<Rightarrow> request list" where
  "first_segments m pbase vbase file k =
     concat (map (\<lambda>i. segment_reqs m pbase vbase (phdr_at m file i)) [0..<k])"

definition kernel_reqs :: "memory \<Rightarrow> u64 \<Rightarrow> u64 \<Rightarrow> u64 \<Rightarrow> request list" where
  "kernel_reqs m pbase vbase file =
     first_segments m pbase vbase file (unat (load16 m (file + 56)))"

text \<open>The direct map of one entry, and of all.\<close>

lemma vm_mapped_fields:
  assumes "vm_mapped k s T t T' reqs"
  shows "pt_inv t T'" and "hhdm t = hhdm s" and "pagemap_lock t = pagemap_lock s" and "klog t = klog s"
    and "card (free_pages s) \<le> card (free_pages t) + k"
  using assms by (auto simp: vm_mapped_def alloc_frame_def pagemap_lock_def)

lemma map_all_append: "map_all (xs @ ys) = bind (map_all xs) (\<lambda>_. map_all ys)"
  by (simp add: map_all_def foreach_append)

lemma direct_map_loop:
  assumes "pt_inv s T" and "\<not> pagemap_lock s" and "map_cost s T (map (\<lambda>j. (j + hhdm s, j, fl)) js) \<le> card (free_pages s)"
  shows "foreach (\<lambda>j. bind (gets hhdm) (\<lambda>off. vmm_map_page (j + off) j fl)) js s =
    map_all (map (\<lambda>j. (j + hhdm s, j, fl)) js) s"
  using assms
proof (induction js arbitrary: s T)
  case Nil
  then show ?case by (simp add: map_all_def)
next
  case (Cons j js)
  let ?r = "(j + hhdm s, j, fl)" and ?rs = "map (\<lambda>j. (j + hhdm s, j, fl)) js"
  have c: "map_cost s T ([?r] @ ?rs) \<le> card (free_pages s)" using Cons.prems(3) by simp
  then have "map_cost s T [?r] \<le> card (free_pages s)" unfolding map_cost_append by simp
  from vmm_map_page_Ok [OF Cons.prems(1,2) refl this] obtain t T' where
    t: "vmm_map_page (j + hhdm s) j fl s = Ok ((), t)" and m: "vm_mapped (map_cost s T [?r]) s T t T' [?r]" by blast
  note f = vm_mapped_fields [OF m] and rest = map_cost_rest(1) [OF m c]
  show ?case
    using Cons.IH [OF f(1)] f rest Cons.prems(2) t by (simp add: map_all_def bind_Ok bind_assoc)
qed

lemma vmm_map_entry_run:
  assumes "pt_inv s T" and "\<not> pagemap_lock s" and "map_cost s T (entry_reqs (hhdm s) e) \<le> card (free_pages s)"
    and "unat (ALIGN_UP (me_base e + me_length e) PAGE_SIZE) + 4096 \<le> 2 ^ 64"
  shows "vmm_map_entry e s = map_all (entry_reqs (hhdm s) e) s"
proof (cases "me_type e \<noteq> MEMMAP_USABLE \<and> me_type e \<noteq> MEMMAP_BOOTLOADER_RECLAIMABLE
    \<and> me_type e \<noteq> MEMMAP_EXECUTABLE_AND_MODULES \<and> me_type e \<noteq> MEMMAP_FRAMEBUFFER")
  case True
  then show ?thesis by (simp add: vmm_map_entry_def entry_reqs_def map_all_def)
next
  case n: False
  let ?fl = "VMM_PTE_PRESENT OR VMM_PTE_NOEXEC OR VMM_PTE_WRITABLE OR
    (if me_type e = MEMMAP_FRAMEBUFFER then VMM_PTE_WC else 0)"
  let ?b = "ALIGN_DOWN (me_base e) PAGE_SIZE" and ?t = "ALIGN_UP (me_base e + me_length e) PAGE_SIZE"
  let ?js = "map (\<lambda>k. ?b + of_nat k * PAGE_SIZE) [0..<step_count (unat ?t - unat ?b) 4096]"
  have r: "entry_reqs (hhdm s) e = map (\<lambda>j. (j + hhdm s, j, ?fl)) ?js"
    unfolding entry_reqs_def if_not_P [OF n] by (simp add: Let_def comp_def)
  have fs: "for_step ?b ?t PAGE_SIZE body = foreach body ?js" for body :: "u64 \<Rightarrow> unit kprog"
    using for_step_foreach [of PAGE_SIZE ?t ?b body] assms(4) by simp
  have "vmm_map_entry e = for_step ?b ?t PAGE_SIZE (\<lambda>j. bind (gets hhdm) (\<lambda>off. vmm_map_page (j + off) j ?fl))"
    unfolding vmm_map_entry_def if_not_P [OF n] Let_def by simp
  also have "\<dots> = foreach (\<lambda>j. bind (gets hhdm) (\<lambda>off. vmm_map_page (j + off) j ?fl)) ?js"
    by (rule fs)
  finally show ?thesis
    using direct_map_loop [OF assms(1,2) assms(3) [unfolded r]] unfolding r by simp
qed

definition entries_fit :: "memmap_entry list \<Rightarrow> bool" where
  "entries_fit es \<longleftrightarrow> (\<forall>e \<in> set es. unat (ALIGN_UP (me_base e + me_length e) PAGE_SIZE) + 4096 \<le> 2 ^ 64)"

lemma vmm_map_entries:
  assumes "pt_inv s T" and "\<not> pagemap_lock s" and "entries_fit es"
    and "map_cost s T (concat (map (entry_reqs (hhdm s)) es)) \<le> card (free_pages s)"
  shows "foreach vmm_map_entry es s = map_all (concat (map (entry_reqs (hhdm s)) es)) s"
  using assms
proof (induction es arbitrary: s T)
  case Nil
  then show ?case by (simp add: map_all_def)
next
  case (Cons e es)
  let ?r = "entry_reqs (hhdm s) e"
  have all: "map_cost s T (?r @ concat (map (entry_reqs (hhdm s)) es)) \<le> card (free_pages s)" using Cons.prems(4) by simp
  then have c: "map_cost s T ?r \<le> card (free_pages s)" unfolding map_cost_append by simp
  have run: "vmm_map_entry e s = map_all ?r s"
    using Cons.prems c by (intro vmm_map_entry_run) (simp_all add: entries_fit_def)
  obtain t T' where t: "map_all ?r s = Ok ((), t)" and m: "vm_mapped (map_cost s T ?r) s T t T' ?r"
    using map_all_Ok [OF Cons.prems(1,2) c] by blast
  note f = vm_mapped_fields [OF m] and rest = map_cost_rest(1) [OF m all]
  have "foreach vmm_map_entry es t = map_all (concat (map (entry_reqs (hhdm s)) es)) t"
    using Cons.IH [OF f(1)] f rest Cons.prems by (simp add: entries_fit_def)
  then show ?case using run t by (simp add: map_all_append bind_Ok)
qed

section \<open>The segments of the kernel file\<close>

text \<open>The bytes of the file header and of the program headers.\<close>

definition elf_byte :: "memory \<Rightarrow> u64 \<Rightarrow> u64 \<Rightarrow> bool" where
  "elf_byte m file x \<longleftrightarrow> in_region file 64 x
     \<or> (\<exists>i < unat (load16 m (file + 56)). in_region (phdr_at m file i) 56 x)"

definition segment_fits :: "memory \<Rightarrow> u64 \<Rightarrow> bool" where
  "segment_fits m phdr \<longleftrightarrow> unat (ALIGN_UP (load64 m (phdr + 40)) PAGE_SIZE) + 4096 \<le> 2 ^ 64"

lemma elf_loads:
  assumes "\<forall>x. elf_byte m file x \<longrightarrow> m' x = m x"
  shows "load64 m' (file + 32) = load64 m (file + 32)" and "load16 m' (file + 54) = load16 m (file + 54)"
    and "load16 m' (file + 56) = load16 m (file + 56)"
    and "i < unat (load16 m (file + 56)) \<Longrightarrow> segment_reqs m' pb vb (phdr_at m file i) = segment_reqs m pb vb (phdr_at m file i)"
    and "i < unat (load16 m (file + 56)) \<Longrightarrow> load32 m' (phdr_at m file i) = load32 m (phdr_at m file i)"
    and "i < unat (load16 m (file + 56)) \<Longrightarrow> segment_fits m' (phdr_at m file i) = segment_fits m (phdr_at m file i)"
proof -
  have sub: "in_region a k x" if "in_region (a + off) n x" "unat off + n \<le> k" "k < 2 ^ 64" for a off n k x
    using in_region_sub [OF that(1,2)] that(3) by simp
  have hdr: "m' x = m x" if "in_region (file + off) n x" "unat off + n \<le> 64" for off n x
    using sub [OF that] assms by (simp add: elf_byte_def)
  show "load64 m' (file + 32) = load64 m (file + 32)" "load16 m' (file + 54) = load16 m (file + 54)"
    "load16 m' (file + 56) = load16 m (file + 56)"
    using hdr by (auto intro!: load_le_cong_region)
  assume i: "i < unat (load16 m (file + 56))"
  let ?p = "phdr_at m file i"
  have ph: "m' x = m x" if "in_region (?p + off) n x" "unat off + n \<le> 56" for off n x
    using sub [OF that] i assms by (auto simp: elf_byte_def)
  have "load32 m' (?p + 0) = load32 m (?p + 0)" by (rule load_le_cong_region) (use ph [of 0 4] in auto)
  then show ty: "load32 m' ?p = load32 m ?p" by simp
  have "load32 m' (?p + 4) = load32 m (?p + 4)" by (rule load_le_cong_region) (use ph [of 4 4] in auto)
  moreover have "load64 m' (?p + 16) = load64 m (?p + 16)" by (rule load_le_cong_region) (use ph [of 16 8] in auto)
  moreover have "load64 m' (?p + 40) = load64 m (?p + 40)" by (rule load_le_cong_region) (use ph [of 40 8] in auto)
  ultimately show "segment_reqs m' pb vb ?p = segment_reqs m pb vb ?p" "segment_fits m' ?p = segment_fits m ?p"
    by (simp_all add: segment_reqs_def segment_fits_def ty)
qed

text \<open>Mappings with messages logged in between.\<close>

definition vm_logged :: "nat \<Rightarrow> kernel \<Rightarrow> tables \<Rightarrow> kernel \<Rightarrow> tables \<Rightarrow> request list \<Rightarrow> bool" where
  "vm_logged k s T t T' reqs \<longleftrightarrow> vm_mapped k s T (t\<lparr>klog := klog s\<rparr>) T' reqs"

lemma vm_mapped_klog:
  assumes "vm_mapped k s T t T' reqs"
  shows "vm_mapped k (s\<lparr>klog := l\<rparr>) T (t\<lparr>klog := l\<rparr>) T' reqs"
proof -
  note a = vm_same_cong [OF vm_same_locks(3) [of s l]] and b = vm_same_cong [OF vm_same_locks(3) [of t l]]
  obtain i m where "t = s\<lparr>pmm_last_used_index := i, mem := m\<rparr>"
    using assms by (auto simp: vm_mapped_def alloc_frame_def)
  then have "t\<lparr>klog := l\<rparr> = (s\<lparr>klog := l\<rparr>)\<lparr>pmm_last_used_index := i, mem := m\<rparr>" by simp
  then have "alloc_frame (s\<lparr>klog := l\<rparr>) (t\<lparr>klog := l\<rparr>)" unfolding alloc_frame_def by blast
  moreover have "pt_path (s\<lparr>klog := l\<rparr>) = pt_path s" by (auto simp: pt_path_def intro!: ext)
  ultimately show ?thesis using assms by (simp add: vm_mapped_def vm_frame_def a b)
qed

lemma vm_logged_trans:
  assumes a: "vm_logged k s T t T' r1" and b: "vm_logged l t T' u T'' r2"
  shows "vm_logged (k + l) s T u T'' (r1 @ r2)"
proof -
  have "vm_mapped l (t\<lparr>klog := klog s\<rparr>) T' (u\<lparr>klog := klog s\<rparr>) T'' r2"
    using vm_mapped_klog [OF b [unfolded vm_logged_def], of "klog s"] by simp
  from vm_mapped_trans [OF a [unfolded vm_logged_def] this] show ?thesis by (simp add: vm_logged_def)
qed

lemma vm_logged_fields:
  assumes "vm_logged k s T t T' reqs"
  shows "pt_inv t T'" and "hhdm t = hhdm s" and "pagemap_lock t = pagemap_lock s"
    and "card (free_pages s) \<le> card (free_pages t) + k" and "boot t = boot s" and "memmap t = memmap s"
    and "vm_frame s T t" and "int_flag t = int_flag s" and "levels t = levels s"
    and "translate t = fold (\<lambda>(v, p, f) tr a. if pt_path s a = pt_path s v then present (p OR f) else tr a)
      reqs (translate s)"
    and "top_level (kernel_pagemap t) = top_level (kernel_pagemap s)" and "T \<subseteq>\<^sub>m T'"
    and "vmm_la57 t = vmm_la57 s"
proof -
  have m: "vm_mapped k s T (t\<lparr>klog := klog s\<rparr>) T' reqs" using assms by (simp add: vm_logged_def)
  note c = vm_same_cong [OF vm_same_locks(3) [of t "klog s"]]
  show "pt_inv t T'" "card (free_pages s) \<le> card (free_pages t) + k" "vm_frame s T t" "T \<subseteq>\<^sub>m T'"
    "translate t = fold (\<lambda>(v, p, f) tr a. if pt_path s a = pt_path s v then present (p OR f) else tr a)
      reqs (translate s)"
    using m by (simp_all add: vm_mapped_def vm_frame_def c)
  obtain i m where "t\<lparr>klog := klog s\<rparr> = s\<lparr>pmm_last_used_index := i, mem := m\<rparr>"
    using m by (auto simp: vm_mapped_def alloc_frame_def)
  note e = arg_cong [OF this]
  show "hhdm t = hhdm s" "boot t = boot s" "memmap t = memmap s" "int_flag t = int_flag s"
    "pagemap_lock t = pagemap_lock s" "levels t = levels s" "vmm_la57 t = vmm_la57 s"
    "top_level (kernel_pagemap t) = top_level (kernel_pagemap s)"
    using e [of hhdm] e [of boot] e [of memmap] e [of int_flag] e [of kernel_pagemap] e [of vmm_la57]
    by (simp_all add: pagemap_lock_def levels_def)
qed

lemma vm_logged_rest:
  assumes "vm_logged (map_cost s T xs) s T t T' xs" and "map_cost s T (xs @ ys) \<le> card (free_pages s)"
  shows "map_cost t T' ys \<le> card (free_pages t)" and "map_cost s T (xs @ ys) = map_cost s T xs + map_cost t T' ys"
  using map_cost_rest [OF assms(1) [unfolded vm_logged_def] assms(2)] vm_same_cong(3) [OF vm_same_locks(3) [of t "klog s"]]
  by (simp_all add: map_cost_def)

text \<open>The variables the virtual memory manager never writes.\<close>

definition vmm_globals where
  "vmm_globals s = (hhdm s, memmap s, pmm_bitmap s, pmm_avl_page_count s, slabs s, slabs_addr s, int_flag s, boot s,
     (device s, dev_trace s), (madt_lapics s, madt_x2apics s, madt_io_apics s, madt_isos s, madt_nmis s),
     (terms s, fbs s, fb_init_done s, fb_count s, term_init_done s, term_count s, printf_lock s))"

lemma vm_logged_globals:
  assumes "vm_logged k s T t T' reqs"
  shows "vmm_globals t = vmm_globals s" and "free_pages t \<subseteq> free_pages s" and "ran T' \<subseteq> ran T \<union> free_pages s"
proof -
  have m: "vm_mapped k s T (t\<lparr>klog := klog s\<rparr>) T' reqs" using assms by (simp add: vm_logged_def)
  show "ran T' \<subseteq> ran T \<union> free_pages s" using m by (simp add: vm_mapped_def)
  show "free_pages t \<subseteq> free_pages s"
    using m vm_same_cong(3) [OF vm_same_locks(3) [of t "klog s"]] by (simp add: vm_mapped_def)
  obtain i m where "t\<lparr>klog := klog s\<rparr> = s\<lparr>pmm_last_used_index := i, mem := m\<rparr>"
    using m by (auto simp: vm_mapped_def alloc_frame_def)
  from arg_cong [OF this, of vmm_globals] show "vmm_globals t = vmm_globals s" by (simp add: vmm_globals_def)
qed

lemma map_kernel_span_Ok:
  assumes "pt_inv s T" and "\<not> pagemap_lock s" and "unat (ALIGN_UP len PAGE_SIZE) + 4096 \<le> 2 ^ 64"
    and "reqs = span_reqs virt phys (ALIGN_UP len PAGE_SIZE) flags" and "map_cost s T reqs \<le> card (free_pages s)"
  shows "\<exists>t T'. map_kernel_span virt phys len flags s = Ok ((), t) \<and> vm_logged (map_cost s T reqs) s T t T' reqs"
proof -
  let ?l = "klog s @ [(''vmm: Kernel: Mapping %p to %p, length 0x%llx'', [PInt phys, PInt virt, PInt (ALIGN_UP len PAGE_SIZE)])]"
  let ?s = "s\<lparr>klog := ?l\<rparr>"
  note c = vm_same_cong [OF vm_same_locks(3) [of s ?l]]
  have cost: "map_cost ?s = map_cost s" by (simp add: map_cost_def fun_eq_iff)
  have "pt_inv ?s T" "\<not> pagemap_lock ?s" "map_cost ?s T reqs \<le> card (free_pages ?s)"
    using assms(1,2,5) by (simp_all add: c pagemap_lock_def cost)
  from map_all_Ok [OF this, unfolded cost] obtain t T' where t: "map_all reqs ?s = Ok ((), t)" "vm_mapped (map_cost s T reqs) ?s T t T' reqs"
    by blast
  have "map_kernel_span virt phys len flags s = Ok ((), t)"
    using t(1) unfolding map_kernel_span_def Let_def for_step_span [OF assms(3)] assms(4) by simp
  moreover have "vm_logged (map_cost s T reqs) s T t T' reqs"
    using vm_mapped_klog [OF t(2), of "klog s"] by (simp add: vm_logged_def)
  ultimately show ?thesis by blast
qed

text \<open>The number of pages that \<open>len\<close> bytes from \<open>phys\<close> touch, and the requests of a span.\<close>

definition span_pages :: "u64 \<Rightarrow> u64 \<Rightarrow> nat" where
  "span_pages phys len = (unat phys + unat len + 4095) div 4096 - unat phys div 4096"

definition vmm_span :: "u64 \<Rightarrow> u64 \<Rightarrow> u64 \<Rightarrow> u64 \<Rightarrow> request list" where
  "vmm_span virt phys len flags = span_reqs (ALIGN_DOWN virt PAGE_SIZE) (ALIGN_DOWN phys PAGE_SIZE)
     (ALIGN_UP (phys + len) PAGE_SIZE - ALIGN_DOWN phys PAGE_SIZE) flags"

lemma vmm_map_span_Ok:
  assumes "pt_inv s T" and "\<not> pagemap_lock s" and "unat phys + unat len + 8192 < 2 ^ 64"
    and "4 * span_pages phys len \<le> card (free_pages s)"
  shows "\<exists>t T'. vmm_map_span virt phys len flags s = Ok ((), t)
      \<and> vm_mapped (4 * span_pages phys len) s T t T' (vmm_span virt phys len flags)"
    and "step_count (unat (ALIGN_UP (phys + len) PAGE_SIZE - ALIGN_DOWN phys PAGE_SIZE)) 4096 = span_pages phys len"
proof -
  let ?top = "ALIGN_UP (phys + len) PAGE_SIZE" and ?base = "ALIGN_DOWN phys PAGE_SIZE"
  have sum: "unat (phys + len) = unat phys + unat len" using assms(3) by (intro unat_add_lem [THEN iffD1]) simp
  have top': "unat ?top = (unat phys + unat len + 4095) div 4096 * 4096"
    using unat_ALIGN_UP [of PAGE_SIZE "phys + len"] assms(3) by (simp add: sum)
  have base: "unat ?base = unat phys div 4096 * 4096" by (simp add: unat_ALIGN_DOWN)
  have le: "unat phys div 4096 \<le> (unat phys + unat len + 4095) div 4096" by (intro div_le_mono) simp
  have "unat (?top - ?base) = unat ?top - unat ?base"
    using le by (subst unat_sub_if') (simp add: top' base)
  then have len: "unat (?top - ?base) = span_pages phys len * 4096" by (simp add: top' base span_pages_def diff_mult_distrib)
  show cnt: "step_count (unat (?top - ?base)) 4096 = span_pages phys len" by (simp add: len step_count_def)
  have "span_pages phys len * 4096 \<le> unat phys + unat len + 4095" by (simp add: span_pages_def diff_mult_distrib)
  then have fit: "unat (?top - ?base) + 4096 \<le> 2 ^ 64" using assms(3) by (simp add: len)
  have n: "length (vmm_span virt phys len flags) = span_pages phys len" using cnt by (simp add: vmm_span_def span_reqs_def)
  let ?r = "vmm_span virt phys len flags"
  have c: "map_cost s T ?r \<le> 4 * span_pages phys len" using map_cost_bound [of s T ?r] n by simp
  then have "map_cost s T ?r \<le> card (free_pages s)" using assms(4) by simp
  from map_all_Ok [OF assms(1,2) this] obtain t T' where t: "map_all ?r s = Ok ((), t)" and m: "vm_mapped (map_cost s T ?r) s T t T' ?r" by blast
  show "\<exists>t T'. vmm_map_span virt phys len flags s = Ok ((), t)
      \<and> vm_mapped (4 * span_pages phys len) s T t T' (vmm_span virt phys len flags)"
    using t vm_mapped_weaken [OF m c] vmm_map_span_run [OF fit, of virt flags] unfolding vmm_span_def by auto
qed

end
