(* ===== verification/Vmm_Init.thy ===== *)
theory Vmm_Init
  imports Vmm_Maps
begin

text \<open>
  The initialisation of the virtual memory manager and the properties of the component: mapping a
  page, mapping a span, and what \<open>vmm_init\<close> establishes.
\<close>

section \<open>The kernel's segments\<close>

lemma vmm_map_segment_Ok:
  assumes "pt_inv s T" and "\<not> pagemap_lock s" and fit: "load32 (mem s) phdr = 1 \<Longrightarrow> segment_fits (mem s) phdr"
    and reqs: "reqs = segment_reqs (mem s) pb vb phdr" and "map_cost s T reqs \<le> card (free_pages s)"
  shows "\<exists>t T'. vmm_map_segment pb vb phdr s = Ok ((), t) \<and> vm_logged (map_cost s T reqs) s T t T' reqs"
proof (cases "load32 (mem s) phdr = 1")
  case False
  then have "reqs = []" "vmm_map_segment pb vb phdr s = Ok ((), s)"
    by (simp_all add: reqs segment_reqs_def vmm_map_segment_def read32_def run_basic)
  then show ?thesis using vm_mapped_refl [OF assms(1)] by (auto simp: vm_logged_def map_cost_def)
next
  case True
  let ?v = "load64 (mem s) (phdr + 16)" and ?fl = "load32 (mem s) (phdr + 4)"
  let ?flags = "VMM_PTE_PRESENT OR (if ?fl AND 1 = 0 then VMM_PTE_NOEXEC else 0)
    OR (if ?fl AND 2 \<noteq> 0 then VMM_PTE_WRITABLE else 0)"
  have "vmm_map_segment pb vb phdr s = map_kernel_span ?v (?v - vb + pb) (load64 (mem s) (phdr + 40)) ?flags s"
    using True by (simp add: vmm_map_segment_def read32_def read64_def Let_def or.assoc)
  moreover have "reqs = span_reqs ?v (?v - vb + pb) (ALIGN_UP (load64 (mem s) (phdr + 40)) PAGE_SIZE) ?flags"
    using True by (simp add: reqs segment_reqs_def)
  ultimately show ?thesis
    using map_kernel_span_Ok [OF assms(1,2) _ _ assms(5)] fit [OF True] by (simp add: segment_fits_def)
qed

text \<open>The headers are readable, outside the tables, the free pages and the bitmap, and no segment
  reaches the top of the address space.\<close>

definition elf_ok :: "kernel \<Rightarrow> nat set \<Rightarrow> u64 \<Rightarrow> bool" where
  "elf_ok s P file \<longleftrightarrow>
     (\<forall>i < unat (load16 (mem s) (file + 56)).
        load32 (mem s) (phdr_at (mem s) file i) = 1 \<longrightarrow> segment_fits (mem s) (phdr_at (mem s) file i))
     \<and> (\<forall>x. elf_byte (mem s) file x \<longrightarrow> page_of s x \<notin> P \<and> page_of s x \<notin> free_pages s \<and> \<not> bitmap_byte s x)"

lemma first_segments_Suc:
  "first_segments m pb vb file (Suc k) = first_segments m pb vb file k @ segment_reqs m pb vb (phdr_at m file k)"
  by (simp add: first_segments_def)

lemma first_segments_mono: "k \<le> n \<Longrightarrow> table_paths s (first_segments m pb vb file k) \<subseteq> table_paths s (first_segments m pb vb file n)"
  by (induction n rule: dec_induct) (auto simp: first_segments_Suc)

lemma elf_kept:
  assumes "elf_ok s (ran T) file" and "vm_logged l s T t T' q"
  shows "\<forall>x. elf_byte (mem s) file x \<longrightarrow> mem t x = mem s x"
  using vm_logged_fields(7) [OF assms(2)] assms(1) unfolding vm_frame_def elf_ok_def by blast

lemma segment_step:
  assumes ok: "elf_ok s (ran T) file" and lk: "\<not> pagemap_lock s"
    and free: "map_cost s T (kernel_reqs (mem s) pb vb file) \<le> card (free_pages s)"
    and v: "vm_logged (map_cost s T (first_segments (mem s) pb vb file k)) s T t T' (first_segments (mem s) pb vb file k)"
    and k: "k < unat (load16 (mem s) (file + 56))"
  shows "\<exists>u T''. vmm_map_segment pb vb (phdr_at (mem s) file k) t = Ok ((), u)
    \<and> vm_logged (map_cost s T (first_segments (mem s) pb vb file (Suc k))) s T u T'' (first_segments (mem s) pb vb file (Suc k))"
proof -
  let ?m = "mem s" and ?p = "phdr_at (mem s) file k" and ?F = "first_segments (mem s) pb vb file"
  let ?q = "segment_reqs ?m pb vb ?p"
  note f = vm_logged_fields [OF v] and el = elf_loads [OF elf_kept [OF ok v]]
  have q: "?q = segment_reqs (mem t) pb vb ?p" using el(4) [OF k] by simp
  have "table_paths s (?F (Suc k)) \<subseteq> table_paths s (kernel_reqs ?m pb vb file)"
    unfolding kernel_reqs_def using k by (intro first_segments_mono) simp
  then have "map_cost s T (?F (Suc k)) \<le> card (free_pages s)" using free map_cost_mono [of s] order_trans by blast
  then have all: "map_cost s T (?F k @ ?q) \<le> card (free_pages s)" by (simp add: first_segments_Suc)
  note c = vm_logged_rest [OF v all]
  have "segment_fits (mem t) ?p" if "load32 (mem t) ?p = 1"
    using ok k that el(5,6) [OF k] by (simp add: elf_ok_def)
  then obtain u T'' where "vmm_map_segment pb vb ?p t = Ok ((), u)" "vm_logged (map_cost t T' ?q) t T' u T'' ?q"
    using vmm_map_segment_Ok [OF f(1) _ _ q c(1)] f(3) lk by blast
  then show ?thesis using vm_logged_trans [OF v] c(2) by (fastforce simp: first_segments_Suc)
qed

lemma unat_ucast_u16: "unat (ucast (w :: u16) :: u64) = unat w"
  using unsigned_less [of w, where ?'a = nat] by (simp add: unsigned_ucast_eq take_bit_nat_eq_self)

lemma vmm_map_kernel_Ok:
  assumes inv: "pt_inv s T" and lk: "\<not> pagemap_lock s" and ok: "elf_ok s (ran T) file"
    and free: "map_cost s T (kernel_reqs (mem s) pb vb file) \<le> card (free_pages s)"
  shows "\<exists>t T'. vmm_map_kernel pb vb file s = Ok ((), t)
    \<and> vm_logged (map_cost s T (kernel_reqs (mem s) pb vb file)) s T t T' (kernel_reqs (mem s) pb vb file)"
proof -
  let ?m = "mem s" and ?n = "unat (load16 (mem s) (file + 56))" and ?F = "first_segments (mem s) pb vb file"
  let ?I = "\<lambda>(i, phdr) t. \<exists>k T'. k \<le> ?n \<and> i = of_nat k \<and> phdr = phdr_at ?m file k
    \<and> vm_logged (map_cost s T (?F k)) s T t T' (?F k)"
  let ?b = "\<lambda>(i :: u64, phdr :: u64) s. i < ucast (load16 (mem s) (file + 56))"
  have n: "?n < 2 ^ 16" using unsigned_less [of "load16 ?m (file + 56)", where ?'a = nat] by simp
  have unat: "unat (of_nat k :: u64) = k" if "k \<le> ?n" for k using that n by (intro unat_of_nat_u64) simp
  have num: "?b (of_nat k, p) t \<longleftrightarrow> k < ?n" if "vm_logged l s T t T' q" "k \<le> ?n" for k l t T' q p
    using elf_loads(3) [OF elf_kept [OF ok that(1)]] unat [OF that(2)]
    by (simp add: word_less_nat_alt unat_ucast_u16)
  have "wp (whileM ?b (\<lambda>(i, phdr). bind (vmm_map_segment pb vb phdr) (\<lambda>_. bind (read16 (file + 54)) (\<lambda>e.
          return (i + 1, phdr + ucast e)))) (0, file + load64 ?m (file + 32)))
     (\<lambda>_ t. \<exists>T'. vm_logged (map_cost s T (?F ?n)) s T t T' (?F ?n)) s"
  proof (rule wp_whileM [where I = ?I and M = "\<lambda>(i, phdr) t. ?n - unat i"])
    have "vm_logged 0 s T s T []" using vm_mapped_refl [OF inv] by (simp add: vm_logged_def)
    then show "?I (0, file + load64 ?m (file + 32)) s"
      by (auto intro!: exI [of _ 0] simp: phdr_at_def first_segments_def map_cost_def)
  next
    fix l t assume I: "?I l t" and stop: "\<not> ?b l t"
    then obtain k T' where l: "l = (of_nat k, phdr_at ?m file k)" "k \<le> ?n" and v: "vm_logged (map_cost s T (?F k)) s T t T' (?F k)"
      by (cases l) auto
    then have "k = ?n" using stop num [OF v l(2)] by (auto simp: le_less)
    then show "\<exists>T'. vm_logged (map_cost s T (?F ?n)) s T t T' (?F ?n)" using v by blast
  next
    fix l t assume I: "?I l t" and go: "?b l t"
    then obtain k T' where l: "l = (of_nat k, phdr_at ?m file k)" "k \<le> ?n" and v: "vm_logged (map_cost s T (?F k)) s T t T' (?F k)"
      by (cases l) auto
    have k: "k < ?n" using go num [OF v l(2)] l(1) by simp
    obtain u T'' where u: "vmm_map_segment pb vb (phdr_at ?m file k) t = Ok ((), u)"
      and v': "vm_logged (map_cost s T (?F (Suc k))) s T u T'' (?F (Suc k))"
      using segment_step [OF ok lk free v k] by blast
    have "phdr_at ?m file k + ucast (load16 (mem u) (file + 54)) = phdr_at ?m file (Suc k)"
      using elf_loads(2) [OF elf_kept [OF ok v']] by (simp add: phdr_at_def algebra_simps)
    then show "wp (case l of (i, phdr) \<Rightarrow> bind (vmm_map_segment pb vb phdr) (\<lambda>_. bind (read16 (file + 54)) (\<lambda>e.
          return (i + 1, phdr + ucast e)))) (\<lambda>l' t'. ?I l' t' \<and> (case l' of (i, phdr) \<Rightarrow> \<lambda>t. ?n - unat i) t'
            < (case l of (i, phdr) \<Rightarrow> \<lambda>t. ?n - unat i) t) t"
      using l(1) k v' unat [of k] unat [of "Suc k"]
      by (auto simp: wp_def [of "vmm_map_segment _ _ _"] u read16_def add.commute intro!: exI [of _ "Suc k"])
  qed
  then show ?thesis
    by (fastforce simp: vmm_map_kernel_def wp_Ok_iff kernel_reqs_def read64_def bind_Ok run_basic)
qed

section \<open>The root and the higher half\<close>

lemma root_table:
  assumes s: "pmm_ready s" and "unat (pmm_avl_page_count s) \<le> 2 ^ 40" and "free_pages s \<noteq> {}"
  shows "\<exists>r t. pmm_alloc 1 s = Ok (table_addr r, t) \<and> alloc_frame s t \<and> r \<in> free_pages s
    \<and> free_pages t = free_pages s - {r}
    \<and> (\<forall>x. page_of s x \<notin> free_pages s \<and> \<not> bitmap_byte s x \<longrightarrow> mem t x = mem s x)
    \<and> pt_inv (t\<lparr>kernel_pagemap := (kernel_pagemap t)\<lparr>top_level := table_addr r\<rparr>\<rparr>) [[] \<mapsto> r]"
proof -
  obtain r t where r: "pmm_alloc 1 s = Ok (table_addr r, t)" "r \<in> free_pages s" "free_pages t = free_pages s - {r}"
    "pmm_ready t" and fr: "alloc_frame s t" and zero: "\<And>x. page_of s x = r \<Longrightarrow> mem t x = 0"
    and out: "\<And>x. page_of s x \<noteq> r \<Longrightarrow> \<not> bitmap_byte s x \<Longrightarrow> mem t x = mem s x"
    using pmm_alloc_one [OF s assms(3)] unfolding table_addr_def by blast
  let ?u = "t\<lparr>kernel_pagemap := (kernel_pagemap t)\<lparr>top_level := table_addr r\<rparr>\<rparr>"
  note f = alloc_frame_fields [OF fr]
  have avl: "pmm_avl_page_count t = pmm_avl_page_count s" using fr by (auto simp: alloc_frame_def)
  have r40: "r < 2 ^ 40" using r(2) assms(2) by (simp add: free_pages_def)
  have fp: "free_pages ?u = free_pages t" "pmm_ready ?u = pmm_ready t"
    by (auto simp: free_pages_def page_free_def pmm_ready_def pmm_wf_def bitmap_byte_def page_of_def)
  have "page_of s x \<noteq> r" if "bitmap_byte s x" for x using raw_pages.own_avail [OF s that] r(2) by blast
  moreover have "page_of ?u = page_of s" "bitmap_byte ?u = bitmap_byte s"
    using f by (simp_all add: page_of_def bitmap_byte_def fun_eq_iff)
  moreover have "r < unat (pmm_avl_page_count ?u)" using r(2) by (simp add: free_pages_def avl)
  ultimately have own: "own_page ?u r" unfolding own_page_def fp r(3) by auto
  have "entry_of ?u r i = 0" if "i < 512" for i
  proof -
    have "entry_of ?u r i = entry_of (s\<lparr>mem := \<lambda>_. 0\<rparr>) r i"
      using zero f(2) by (intro entry_cong [OF r40 that]) simp_all
    then show ?thesis by (simp add: entry_of_def table_entry_def numeral_eq_Suc)
  qed
  then have "pt_inv ?u [[] \<mapsto> r]"
    using own r(4) assms(2) by (auto simp: pt_inv_def fp avl entry_ok_def split: if_splits)
  moreover have "mem t x = mem s x" if "page_of s x \<notin> free_pages s" "\<not> bitmap_byte s x" for x
    using that r(2) by (intro out) auto
  ultimately show ?thesis using r(1-3) fr by blast
qed

lemma empty_tables:
  assumes "pt_inv s [[] \<mapsto> r]"
  shows "translate s a = None"
proof -
  have "butlast (pt_path s a) \<noteq> []" by (simp add: pt_path_def pt_indices_def)
  then show ?thesis using translate_tables [OF assms, of a] by simp
qed

lemma higher_half_loop:
  assumes "pt_inv s T" and "T [] = Some r" and "0 \<notin> free_pages s" and "0 \<notin> ran T"
    and "\<forall>i \<in> set is. i < 512" and "length is \<le> card (free_pages s)"
  shows "\<exists>t T'. foreach vmm_init_pml3 (map of_nat is) s = Ok ((), t)
    \<and> vm_ext (length is) s T t T' \<and> dom T' = dom T \<union> (\<lambda>i. [i]) ` set is"
  using assms
proof (induction "is" arbitrary: s T)
  case Nil
  then show ?case using vm_ext_refl [OF Nil.prems(1)] by (auto simp: run_basic)
next
  case (Cons i js)
  have top0: "top_level (kernel_pagemap s) = table_addr r"
    using pt_invD(4) [OF Cons.prems(1)] Cons.prems(2) by simp
  have n: "card ({[] @ [i]} - dom T) \<le> 1" using card_mono [of "{[] @ [i]}" "{[] @ [i]} - dom T"] by simp
  then have "card ({[] @ [i]} - dom T) \<le> card (free_pages s)" "Suc (length ([] :: nat list)) < levels s" "i < 512"
    using Cons.prems(5,6) by (auto simp: levels_def)
  from get_next_level_Ok [OF Cons.prems(1,2) this(2,3,1)]
  obtain q t T' where q: "get_next_level (table_addr r) (of_nat i) True s = Ok (table_addr q, t)"
    and e0: "vm_ext (card ({[] @ [i]} - dom T)) s T t T'" and T': "T' [i] = Some q" and dT: "dom T' = dom T \<union> {[i]}" by auto
  have e: "vm_ext 1 s T t T'" using e0 n by (auto simp: vm_ext_def)
  have t: "pt_inv t T'" "free_pages t \<subseteq> free_pages s" "ran T' \<subseteq> ran T \<union> free_pages s" "T \<subseteq>\<^sub>m T'"
    "card (free_pages s) \<le> card (free_pages t) + 1" using e by (simp_all add: vm_ext_def)
  have z: "0 \<notin> ran T'" "0 \<notin> free_pages t" using t(2,3) Cons.prems(3,4) by auto
  then have "q \<noteq> 0" using ranI [of T' "[i]" q] T' by metis
  moreover have "q < 2 ^ 40" using own_small [OF t(1) pt_invD(6) [OF t(1) T']] .
  ultimately have "table_addr q \<noteq> 0" using unat_page_addr [of q] by (auto simp: table_addr_def)
  then have b: "vmm_init_pml3 (of_nat i) s = Ok ((), t)"
    using q by (simp add: vmm_init_pml3_def top0 bind_Ok run_basic)
  have "T' [] = Some r" using t(4) Cons.prems(2) unfolding map_le_def by (metis domI)
  then obtain u T'' where u: "foreach vmm_init_pml3 (map of_nat js) t = Ok ((), u)"
    "vm_ext (length js) t T' u T''" "dom T'' = dom T' \<union> (\<lambda>i. [i]) ` set js"
    using Cons.IH [OF t(1) _ z(2,1)] Cons.prems(5,6) t(5) by auto
  then show ?case
    using b vm_ext_trans [OF e u(2)] dT by (auto simp: bind_Ok)
qed

lemma elf_same:
  assumes same: "\<forall>x. elf_byte m file x \<longrightarrow> m' x = m x"
  shows "phdr_at m' file = phdr_at m file" and "elf_byte m' file = elf_byte m file"
    and "kernel_reqs m' pb vb file = kernel_reqs m pb vb file"
proof -
  note el = elf_loads [OF same]
  show ph: "phdr_at m' file = phdr_at m file" by (auto simp: phdr_at_def el(1,2))
  show "elf_byte m' file = elf_byte m file" by (auto simp: elf_byte_def el(3) ph)
  show "kernel_reqs m' pb vb file = kernel_reqs m pb vb file"
    unfolding kernel_reqs_def first_segments_def ph el(3) using el(4)
    by (intro arg_cong [of _ _ concat] map_cong) auto
qed

lemma elf_ok_transfer:
  assumes ok: "elf_ok s P file" and same: "\<forall>x. elf_byte (mem s) file x \<longrightarrow> mem t x = mem s x"
    and pg: "page_of t = page_of s" "bitmap_byte t = bitmap_byte s" "free_pages t \<subseteq> free_pages s"
    and Q: "Q \<subseteq> P \<union> free_pages s"
  shows "elf_ok t Q file" and "kernel_reqs (mem t) pb vb file = kernel_reqs (mem s) pb vb file"
  using ok Q pg(3) elf_loads(5,6) [OF same] unfolding elf_ok_def elf_same [OF same] elf_loads(3) [OF same] pg(1,2)
  by auto

section \<open>\<open>vmm_init\<close>\<close>

definition init_reqs :: "kernel \<Rightarrow> exec_addr \<Rightarrow> request list" where
  "init_reqs s ex = kernel_reqs (mem s) (physical_base ex) (virtual_base ex) (executable_file (boot s))
     @ concat (map (entry_reqs (hhdm s)) (memmap s))"

text \<open>The state in which the root is allocated: the paging mode is recorded.\<close>

definition paging_mode :: "kernel \<Rightarrow> kernel" where
  "paging_mode s = (if paging_5lvl_response (boot s) = Some True
     then s\<lparr>klog := klog s @ [(''vmm: Using 5 level paging'', [])], vmm_la57 := True\<rparr> else s)"

definition root_tables :: "nat list set" where
  "root_tables = insert [] ((\<lambda>i. [i]) ` {256..<512})"

text \<open>The tables \<open>vmm_init\<close> makes besides the root: those of the higher half and those on the way to the
  pages it maps.\<close>

definition init_tables :: "kernel \<Rightarrow> exec_addr \<Rightarrow> nat list set" where
  "init_tables s ex = (\<lambda>i. [i]) ` {256..<512} \<union> table_paths (paging_mode s) (init_reqs s ex)"

definition vmm_bootable :: "kernel \<Rightarrow> exec_addr \<Rightarrow> bool" where
  "vmm_bootable s ex \<longleftrightarrow> pmm_ready s \<and> unat (pmm_avl_page_count s) \<le> 2 ^ 40 \<and> 0 \<notin> free_pages s
     \<and> \<not> pagemap_lock s \<and> exec_addr_response (boot s) = Some ex
     \<and> elf_ok s {} (executable_file (boot s)) \<and> entries_fit (memmap s)
     \<and> 1 + card (init_tables s ex) \<le> card (free_pages s)"

text \<open>From the root table to the direct map, in a state where the paging mode is known.\<close>

lemma map_everything:
  assumes inv: "pt_inv s T" and lk: "\<not> pagemap_lock s" and ok: "elf_ok s (ran T) (executable_file (boot s))"
    and fit: "entries_fit (memmap s)" and free: "map_cost s T (init_reqs s ex) \<le> card (free_pages s)"
    and none: "\<And>a. translate s a = None"
  shows "\<exists>t T'. bind (vmm_map_kernel (physical_base ex) (virtual_base ex) (executable_file (boot s))) (\<lambda>_.
      bind (gets memmap) (\<lambda>es. foreach vmm_map_entry es)) s = Ok ((), t)
    \<and> pt_inv t T' \<and> T \<subseteq>\<^sub>m T' \<and> vmm_la57 t = vmm_la57 s \<and> \<not> pagemap_lock t
    \<and> card (free_pages s) \<le> card (free_pages t) + map_cost s T (init_reqs s ex)
    \<and> translate t = fold (\<lambda>(v, p, f) tr a. if pt_path s a = pt_path s v then present (p OR f) else tr a) (init_reqs s ex) (\<lambda>_. None)
    \<and> vm_frame s T t \<and> free_pages t \<subseteq> free_pages s \<and> vmm_globals t = vmm_globals s \<and> ran T' \<subseteq> ran T \<union> free_pages s"
proof -
  let ?file = "executable_file (boot s)"
  let ?k = "kernel_reqs (mem s) (physical_base ex) (virtual_base ex) ?file"
  let ?d = "concat (map (entry_reqs (hhdm s)) (memmap s))"
  have all: "map_cost s T (?k @ ?d) \<le> card (free_pages s)" using free by (simp add: init_reqs_def)
  then have c: "map_cost s T ?k \<le> card (free_pages s)" unfolding map_cost_append by simp
  obtain t T' where t: "vmm_map_kernel (physical_base ex) (virtual_base ex) ?file s = Ok ((), t)"
    and v: "vm_logged (map_cost s T ?k) s T t T' ?k"
    using vmm_map_kernel_Ok [OF inv lk ok c] by blast
  note f = vm_logged_fields [OF v] and ct = vm_logged_rest [OF v all]
  have lt: "\<not> pagemap_lock t" using f lk by simp
  have run: "foreach vmm_map_entry (memmap t) t = map_all ?d t"
    using vmm_map_entries [OF f(1) lt, of "memmap s"] ct(1) fit by (simp add: f)
  obtain u T'' where u: "map_all ?d t = Ok ((), u)" and m: "vm_mapped (map_cost t T' ?d) t T' u T'' ?d"
    using map_all_Ok [OF f(1) lt ct(1)] by blast
  have "vm_logged (map_cost t T' ?d) t T' u T'' ?d"
    using m vm_mapped_klog [OF m, of "klog t"] vm_mapped_fields(4) [OF m] by (simp add: vm_logged_def)
  from vm_logged_trans [OF v this] have w: "vm_logged (map_cost s T (init_reqs s ex)) s T u T'' (init_reqs s ex)"
    using ct(2) by (simp add: init_reqs_def)
  have "translate s = (\<lambda>_. None)" using none by blast
  then show ?thesis
    using t run u vm_logged_fields(1,3,4,7,10,12,13) [OF w] vm_logged_globals [OF w] lk by (auto simp: bind_Ok)
qed

lemma paging_mode_same:
  "page_of (paging_mode s) = page_of s" "bitmap_byte (paging_mode s) = bitmap_byte s"
  "free_pages (paging_mode s) = free_pages s" "pmm_ready (paging_mode s) = pmm_ready s"
  "mem (paging_mode s) = mem s" "hhdm (paging_mode s) = hhdm s" "memmap (paging_mode s) = memmap s"
  "boot (paging_mode s) = boot s" "pagemap_lock (paging_mode s) = pagemap_lock s"
  "pmm_avl_page_count (paging_mode s) = pmm_avl_page_count s"
  by (auto simp: paging_mode_def page_of_def bitmap_byte_def free_pages_def page_free_def pmm_ready_def
      pmm_wf_def pagemap_lock_def)

lemma pt_path_mode: "vmm_la57 t = vmm_la57 s \<Longrightarrow> pt_path t = pt_path s"
  by (auto simp: pt_path_def intro!: ext)

text \<open>The root and the tables of the higher half.\<close>

lemma tables_created:
  assumes b: "pmm_ready s" "unat (pmm_avl_page_count s) \<le> 2 ^ 40" "0 \<notin> free_pages s" "257 \<le> card (free_pages s)"
  shows "\<exists>t T. bind (pmm_alloc 1) (\<lambda>p.
      bind (modify (\<lambda>s. s\<lparr>kernel_pagemap := (kernel_pagemap s)\<lparr>top_level := p\<rparr>\<rparr>)) (\<lambda>_.
      for_range 256 512 vmm_init_pml3)) s = Ok ((), t)
    \<and> pt_inv t T \<and> dom T = root_tables \<and> (\<forall>a. translate t a = None)
    \<and> ran T \<subseteq> free_pages s \<and> free_pages t \<subseteq> free_pages s \<and> card (free_pages s) \<le> card (free_pages t) + 257
    \<and> (\<forall>x. page_of s x \<notin> free_pages s \<and> \<not> bitmap_byte s x \<longrightarrow> mem t x = mem s x)
    \<and> (\<exists>i m pm. t = s\<lparr>pmm_last_used_index := i, mem := m, kernel_pagemap := (kernel_pagemap s)\<lparr>top_level := pm\<rparr>\<rparr>)"
proof -
  have ne: "free_pages s \<noteq> {}" using b(4) by auto
  from root_table [OF b(1,2) ne] obtain r t where r: "pmm_alloc 1 s = Ok (table_addr r, t)" "alloc_frame s t"
    "r \<in> free_pages s" "free_pages t = free_pages s - {r}"
    and out: "\<And>x. page_of s x \<notin> free_pages s \<Longrightarrow> \<not> bitmap_byte s x \<Longrightarrow> mem t x = mem s x"
    and inv: "pt_inv (t\<lparr>kernel_pagemap := (kernel_pagemap t)\<lparr>top_level := table_addr r\<rparr>\<rparr>) [[] \<mapsto> r]" by blast
  let ?u = "t\<lparr>kernel_pagemap := (kernel_pagemap t)\<lparr>top_level := table_addr r\<rparr>\<rparr>" and ?T = "[[] \<mapsto> r]"
  have same: "page_of ?u = page_of s" "bitmap_byte ?u = bitmap_byte s" "free_pages ?u = free_pages t"
    using alloc_frame_fields [OF r(2)]
    by (auto simp: page_of_def bitmap_byte_def free_pages_def page_free_def fun_eq_iff)
  have "card (free_pages t) = card (free_pages s) - 1" using r(3,4) by simp
  then have "256 \<le> card (free_pages ?u)" using b(4) by (simp add: same)
  moreover have "r \<noteq> 0" using b(3) r(3) by metis
  then have z: "0 \<notin> free_pages ?u" "0 \<notin> ran ?T" using b(3) by (simp_all add: same r(4))
  define ix where "ix = [256 :: nat..<512]"
  have ix: "\<forall>i \<in> set ix. i < 512" "length ix = 256" "set ix = {256..<512}"
    by (auto simp: ix_def simp del: upt_rec_numeral)
  have "?T [] = Some r" by simp
  from higher_half_loop [OF inv this z ix(1)] ix(2) calculation
  obtain v T' where v: "foreach vmm_init_pml3 (map of_nat ix) ?u = Ok ((), v)"
    "vm_ext 256 ?u ?T v T'" "dom T' = root_tables" unfolding ix(3) root_tables_def by auto
  have run: "bind (pmm_alloc 1) (\<lambda>p.
      bind (modify (\<lambda>s. s\<lparr>kernel_pagemap := (kernel_pagemap s)\<lparr>top_level := p\<rparr>\<rparr>)) (\<lambda>_.
      for_range 256 512 vmm_init_pml3)) s = Ok ((), v)"
    using r(1) v(1) by (simp add: bind_Ok for_range_foreach ix_def del: upt_rec_numeral)
  have e: "pt_inv v T'" "translate v = translate ?u" "free_pages v \<subseteq> free_pages t" "ran T' \<subseteq> insert r (free_pages t)"
    "card (free_pages t) \<le> card (free_pages v) + 256" "vm_frame ?u ?T v" "alloc_frame ?u v"
    using v(2) by (simp_all add: vm_ext_def same)
  have "mem v x = mem s x" if "page_of s x \<notin> free_pages s" "\<not> bitmap_byte s x" for x
    using e(6) that out [OF that] r(3,4) by (auto simp: vm_frame_def same)
  moreover have "\<exists>i m pm. v = s\<lparr>pmm_last_used_index := i, mem := m, kernel_pagemap := (kernel_pagemap s)\<lparr>top_level := pm\<rparr>\<rparr>"
  proof -
    obtain i m j n where "v = ?u\<lparr>pmm_last_used_index := i, mem := m\<rparr>" "t = s\<lparr>pmm_last_used_index := j, mem := n\<rparr>"
      using e(7) r(2) by (auto simp: alloc_frame_def)
    then have "v = s\<lparr>pmm_last_used_index := i, mem := m, kernel_pagemap := (kernel_pagemap s)\<lparr>top_level := table_addr r\<rparr>\<rparr>"
      by simp
    then show ?thesis by blast
  qed
  moreover have "translate v a = None" for a using e(2) empty_tables [OF inv] by simp
  ultimately show ?thesis using run e(1,3,4,5) v(3) r(3,4) \<open>card (free_pages t) = card (free_pages s) - 1\<close>
    by (intro exI [of _ v] exI [of _ T']) auto
qed

text \<open>The whole from its parts.\<close>

lemma vmm_init_run:
  assumes run: "bind (pmm_alloc 1) (\<lambda>p.
      bind (modify (\<lambda>s. s\<lparr>kernel_pagemap := (kernel_pagemap s)\<lparr>top_level := p\<rparr>\<rparr>)) (\<lambda>_.
      for_range 256 512 vmm_init_pml3)) (paging_mode s) = Ok ((), u)"
    and ex: "exec_addr_response (boot u) = Some ex"
    and w: "bind (vmm_map_kernel (physical_base ex) (virtual_base ex) (executable_file (boot u))) (\<lambda>_.
      bind (gets memmap) (\<lambda>es. foreach vmm_map_entry es))
      (u\<lparr>klog := klog u @ [(''vmm: Kernel physical base: %p'', [PInt (physical_base ex)])]
        @ [(''vmm: Kernel virtual base: %p'', [PInt (virtual_base ex)])]\<rparr>) = Ok ((), w)"
  shows "vmm_init s = Ok ((), w\<lparr>cr3 := top_level (kernel_pagemap w)\<rparr>)"
proof -
  let ?s = "paging_mode s"
  obtain p t where a: "pmm_alloc 1 ?s = Ok (p, t)"
    "for_range 256 512 vmm_init_pml3 (t\<lparr>kernel_pagemap := (kernel_pagemap t)\<lparr>top_level := p\<rparr>\<rparr>) = Ok ((), u)"
    using run by (auto simp: bind_eq_Ok_iff run_basic)
  obtain x where x: "vmm_map_kernel (physical_base ex) (virtual_base ex) (executable_file (boot u))
      (u\<lparr>klog := klog u @ [(''vmm: Kernel physical base: %p'', [PInt (physical_base ex)]),
        (''vmm: Kernel virtual base: %p'', [PInt (virtual_base ex)])]\<rparr>) = Ok ((), x)"
    "foreach vmm_map_entry (memmap x) x = Ok ((), w)"
    using w by (auto simp: bind_eq_Ok_iff run_basic)
  have "bind (if paging_5lvl_response (boot s) = Some True then
         bind (printf ''vmm: Using 5 level paging'' []) (\<lambda>_. modify (\<lambda>s. s\<lparr>vmm_la57 := True\<rparr>))
       else return ()) g s = g () ?s" for g :: "unit \<Rightarrow> unit kprog"
    by (simp add: paging_mode_def bind_assoc)
  then show ?thesis
    using a x ex by (simp add: vmm_init_def bind_Ok vmm_switch_pagemap_def run_basic)
qed

lemma card_init_tables:
  "card (init_tables s ex) = 256 + card (table_paths (paging_mode s) (init_reqs s ex) - root_tables)"
proof -
  let ?A = "(\<lambda>i. [i]) ` {256..<512 :: nat}" and ?B = "table_paths (paging_mode s) (init_reqs s ex)"
  have "card ?A = 256" by (subst card_image) (simp_all add: inj_on_def)
  moreover have "[] \<notin> ?B" by (auto simp: table_paths_def)
  then have "?B - insert [] ?A = ?B - ({} \<union> ?A)" by auto
  ultimately show ?thesis using card_new [of ?A ?B "{}"] by (simp add: init_tables_def root_tables_def)
qed

lemma init_tables_bound: "card (init_tables s ex) \<le> 256 + 4 * length (init_reqs s ex)"
proof -
  let ?P = "table_paths (paging_mode s) (init_reqs s ex)"
  have "card (?P - root_tables) \<le> card ?P" by (rule card_mono) auto
  then show ?thesis
    using map_cost_bound [of "paging_mode s" Map.empty "init_reqs s ex"] unfolding card_init_tables by (simp add: map_cost_def)
qed

lemma vmm_init_Ok:
  assumes "vmm_bootable s ex"
  shows "\<exists>t T. vmm_init s = Ok ((), t) \<and> pt_inv t T \<and> cr3 t = top_level (kernel_pagemap t)
    \<and> (\<forall>i. 256 \<le> i \<and> i < 512 \<longrightarrow> [i] \<in> dom T)
    \<and> vmm_la57 t = vmm_la57 (paging_mode s) \<and> \<not> pagemap_lock t
    \<and> card (free_pages s) \<le> card (free_pages t) + (1 + card (init_tables s ex))
    \<and> translate t = fold (\<lambda>(v, p, f) tr a. if pt_path t a = pt_path t v then present (p OR f) else tr a) (init_reqs s ex) (\<lambda>_. None)
    \<and> free_pages t \<subseteq> free_pages s \<and> ran T \<subseteq> free_pages s \<and> vmm_globals t = vmm_globals s
    \<and> (\<forall>x. page_of s x \<notin> free_pages s \<and> \<not> bitmap_byte s x \<longrightarrow> mem t x = mem s x)"
proof -
  let ?s = "paging_mode s" and ?file = "executable_file (boot s)" and ?H = root_tables
  note pm = paging_mode_same [of s]
  have b: "pmm_ready ?s" "unat (pmm_avl_page_count ?s) \<le> 2 ^ 40" "0 \<notin> free_pages ?s" "257 \<le> card (free_pages ?s)"
    and lk: "\<not> pagemap_lock s" and ex: "exec_addr_response (boot s) = Some ex"
    and ok: "elf_ok s {} ?file" and fit: "entries_fit (memmap s)"
    and room: "257 + card (table_paths ?s (init_reqs s ex) - ?H) \<le> card (free_pages s)"
    using assms by (simp_all add: vmm_bootable_def pm card_init_tables)
  from tables_created [OF b] obtain u T i m p where
    run: "bind (pmm_alloc 1) (\<lambda>p.
      bind (modify (\<lambda>s. s\<lparr>kernel_pagemap := (kernel_pagemap s)\<lparr>top_level := p\<rparr>\<rparr>)) (\<lambda>_.
      for_range 256 512 vmm_init_pml3)) ?s = Ok ((), u)"
    and u: "pt_inv u T" "dom T = ?H" "\<forall>a. translate u a = None"
      "ran T \<subseteq> free_pages s" "free_pages u \<subseteq> free_pages s" "card (free_pages s) \<le> card (free_pages u) + 257"
      "\<forall>x. page_of s x \<notin> free_pages s \<and> \<not> bitmap_byte s x \<longrightarrow> mem u x = mem s x"
    and ueq: "u = ?s\<lparr>pmm_last_used_index := i, mem := m, kernel_pagemap := (kernel_pagemap ?s)\<lparr>top_level := p\<rparr>\<rparr>"
    unfolding pm by blast
  let ?l = "klog u @ [(''vmm: Kernel physical base: %p'', [PInt (physical_base ex)])]
    @ [(''vmm: Kernel virtual base: %p'', [PInt (virtual_base ex)])]"
  let ?v = "u\<lparr>klog := ?l\<rparr>"
  note c = vm_same_cong [OF vm_same_locks(3) [of u ?l]]
  have f: "hhdm ?v = hhdm s" "memmap ?v = memmap s" "boot ?v = boot s" "pagemap_lock ?v = pagemap_lock s"
    "vmm_la57 ?v = vmm_la57 ?s" "mem ?v = mem u" "page_of ?v = page_of s" "bitmap_byte ?v = bitmap_byte s"
    using pm by (auto simp: ueq pagemap_lock_def page_of_def bitmap_byte_def fun_eq_iff)
  have same: "\<forall>x. elf_byte (mem s) ?file x \<longrightarrow> mem ?v x = mem s x"
    using ok u(7) by (simp add: elf_ok_def)
  have tr: "elf_ok ?v (ran T) ?file" "kernel_reqs (mem ?v) (physical_base ex) (virtual_base ex) ?file =
      kernel_reqs (mem s) (physical_base ex) (virtual_base ex) ?file"
    using elf_ok_transfer [OF ok same f(7,8), of "ran T"] u(4,5) c(3) by auto
  have reqs: "init_reqs ?v ex = init_reqs s ex" using tr(2) f by (simp add: init_reqs_def)
  have cost: "map_cost ?v T (init_reqs s ex) = card (table_paths ?s (init_reqs s ex) - ?H)"
    unfolding map_cost_def u(2) table_paths_mode [OF f(5)] ..
  have "pt_inv ?v T" "\<not> pagemap_lock ?v" "elf_ok ?v (ran T) (executable_file (boot ?v))" "entries_fit (memmap ?v)"
    "map_cost ?v T (init_reqs ?v ex) \<le> card (free_pages ?v)" "\<And>a. translate ?v a = None"
    using u lk tr(1) fit room f c unfolding reqs cost by simp_all
  from map_everything [OF this] obtain w T' where w:
    "bind (vmm_map_kernel (physical_base ex) (virtual_base ex) ?file) (\<lambda>_.
      bind (gets memmap) (\<lambda>es. foreach vmm_map_entry es)) ?v = Ok ((), w)"
    "pt_inv w T'" "T \<subseteq>\<^sub>m T'" "vmm_la57 w = vmm_la57 ?v"
    and w': "\<not> pagemap_lock w" "card (free_pages u) \<le> card (free_pages w) + card (table_paths ?s (init_reqs s ex) - ?H)"
    and w'': "translate w = fold (\<lambda>(v, p, f) tr a. if pt_path ?v a = pt_path ?v v then present (p OR f) else tr a)
      (init_reqs s ex) (\<lambda>_. None)"
    and fr: "vm_frame ?v T w" "free_pages w \<subseteq> free_pages u" "vmm_globals w = vmm_globals ?v" "ran T' \<subseteq> ran T \<union> free_pages u"
    unfolding cost reqs f(3) c(3) by blast
  let ?t = "w\<lparr>cr3 := top_level (kernel_pagemap w)\<rparr>"
  note d = vm_same_cong [OF vm_same_locks(4) [of w "top_level (kernel_pagemap w)"]]
  have "vmm_init s = Ok ((), ?t)"
  proof (rule vmm_init_run [OF run])
    have bu: "boot u = boot s" using f(3) by simp
    show "exec_addr_response (boot u) = Some ex" using ex bu by simp
    show "bind (vmm_map_kernel (physical_base ex) (virtual_base ex) (executable_file (boot u))) (\<lambda>_.
      bind (gets memmap) (\<lambda>es. foreach vmm_map_entry es)) ?v = Ok ((), w)" unfolding bu by (rule w(1))
  qed
  moreover have "[i] \<in> dom T'" if "256 \<le> i" "i < 512" for i
  proof -
    have "[i] \<in> dom T" using u(2) that by (simp add: root_tables_def)
    then show ?thesis using w(3) by (force simp: map_le_def)
  qed
  moreover have "pt_path ?v = pt_path ?t" using w(4) by (intro pt_path_mode) simp
  moreover have "pagemap_lock ?t = pagemap_lock w" by (simp add: pagemap_lock_def)
  moreover have "vmm_globals ?t = vmm_globals w" "vmm_globals ?v = vmm_globals s" by (simp_all add: vmm_globals_def ueq paging_mode_def)
  moreover have "mem ?t x = mem s x" if "page_of s x \<notin> free_pages s" "\<not> bitmap_byte s x" for x
    using fr(1) u(4,5,7) that f(6-8) c(3) by (auto simp: vm_frame_def)
  moreover have "ran T' \<subseteq> free_pages s" using fr(4) u(4,5) by blast
  ultimately show ?thesis
    using w(2,4) w' w'' f(5) u(5,6) fr(2,3) by (intro exI [of _ ?t] exI [of _ T']) (simp add: d subset_trans card_init_tables)
qed

section \<open>A concrete machine\<close>

text \<open>1023 free pages from page 1 on, the bitmap behind them, a kernel file without program headers
  and one usable entry of two pages.\<close>

definition vm_machine :: kernel where
  "vm_machine = blank_kernel\<lparr>mem := (\<lambda>_. 0)(0x400000 := 1),
     memmap := [\<lparr>me_base = 0x1000, me_length = 0x2000, me_type = MEMMAP_USABLE\<rparr>],
     pmm_bitmap := 0x400000, pmm_avl_page_count := 1024,
     boot := (boot blank_kernel)\<lparr>exec_addr_response := Some \<lparr>physical_base = 0, virtual_base = 0\<rparr>,
       executable_file := 0x500000\<rparr>\<rparr>"

lemma vm_machine_fields:
  "mem vm_machine = (\<lambda>_. 0)(0x400000 := 1)" "pmm_bitmap vm_machine = 0x400000"
  "pmm_avl_page_count vm_machine = 1024" "hhdm vm_machine = 0" "pmm_last_used_index vm_machine = 0"
  "\<not> pmm_lock vm_machine" "\<not> pagemap_lock vm_machine" "executable_file (boot vm_machine) = 0x500000"
  "exec_addr_response (boot vm_machine) = Some \<lparr>physical_base = 0, virtual_base = 0\<rparr>"
  "memmap vm_machine = [\<lparr>me_base = 0x1000, me_length = 0x2000, me_type = MEMMAP_USABLE\<rparr>]"
  "paging_5lvl_response (boot vm_machine) = None" "vmm_la57 vm_machine = False"
  by (simp_all add: vm_machine_def blank_kernel_def pagemap_lock_def kernel_image_def blank_cpu_def)

lemma vm_machine_bitmap:
  assumes "bitmap_byte vm_machine x"
  shows "page_of vm_machine x = 1024"
proof -
  obtain i where i: "i < 1024" "x = 0x400000 + of_nat (i div 8)"
    using assms by (auto simp: bitmap_byte_def vm_machine_fields)
  have "unat (of_nat (i div 8) :: u64) = i div 8" using i(1) by (intro unat_of_nat_u64) simp
  then have "unat x = 0x400000 + i div 8" unfolding i(2) using i(1) by (subst unat_add_lem [THEN iffD1]) simp_all
  then show ?thesis using i(1) by (simp add: page_of_def vm_machine_fields)
qed

lemma vm_machine_free: "free_pages vm_machine = {1..<1024}"
proof -
  have "page_free vm_machine i \<longleftrightarrow> i \<noteq> 0" if i: "i < 1024" for i
  proof -
    have "unat (of_nat (i div 8) :: u64) = i div 8" using i by (intro unat_of_nat_u64) simp
    then have "(of_nat (i div 8) :: u64) = 0 \<longleftrightarrow> i div 8 = 0" by (simp only: word_unat_eq_iff unat_0)
    then have "(0x400000 + of_nat (i div 8) :: u64) = 0x400000 \<longleftrightarrow> i div 8 = 0" by simp
    moreover have "bit (1 :: u8) (i mod 8) \<longleftrightarrow> i mod 8 = 0" by (simp add: bit_1_iff)
    ultimately show ?thesis by (auto simp: page_free_def bitmap_bit_def vm_machine_fields)
  qed
  then show ?thesis by (auto simp: free_pages_def vm_machine_fields)
qed

lemma vm_machine_phnum: "load16 (mem vm_machine) (0x500000 + 56) = 0"
proof -
  have "load_le (Suc (Suc 0)) (mem vm_machine) (0x500000 + 56) = (0 :: u16)" by (simp add: vm_machine_fields)
  then show ?thesis by (simp only: numeral_2_eq_2)
qed

lemma vm_machine_reqs: "length (init_reqs vm_machine \<lparr>physical_base = 0, virtual_base = 0\<rparr>) = 2"
  using vm_machine_phnum by (simp add: init_reqs_def kernel_reqs_def first_segments_def vm_machine_fields entry_reqs_def
      Let_def ALIGN_UP_def ALIGN_DOWN_def DIV_ROUNDUP_def step_count_def)

lemma vm_machine_tables: "card (init_tables vm_machine \<lparr>physical_base = 0, virtual_base = 0\<rparr>) \<le> 264"
  using init_tables_bound [of vm_machine "\<lparr>physical_base = 0, virtual_base = 0\<rparr>"] vm_machine_reqs by simp

lemma vm_machine_bootable: "vmm_bootable vm_machine \<lparr>physical_base = 0, virtual_base = 0\<rparr>"
proof -
  note num = vm_machine_phnum
  have "pmm_ready vm_machine"
    using vm_machine_bitmap by (auto simp: pmm_ready_def pmm_wf_def vm_machine_fields vm_machine_free)
  moreover have "elf_ok vm_machine {} 0x500000"
  proof -
    have pg: "page_of vm_machine x = 1280" if "in_region 0x500000 64 x" for x
    proof -
      have "unat (x - 0x500000) < 64" using that by (simp add: in_region_def)
      then have "unat (x - 0x500000 + 0x500000) = unat (x - 0x500000) + unat (0x500000 :: u64)"
        by (intro unat_add_lem [THEN iffD1]) simp
      then show ?thesis using \<open>unat (x - 0x500000) < 64\<close> by (simp add: page_of_def vm_machine_fields)
    qed
    have "\<not> bitmap_byte vm_machine x" if "in_region 0x500000 64 x" for x
      using pg [OF that] vm_machine_bitmap [of x] by auto
    then show ?thesis using num pg by (auto simp: elf_ok_def elf_byte_def vm_machine_free)
  qed
  moreover have "card (init_tables vm_machine \<lparr>physical_base = 0, virtual_base = 0\<rparr>) \<le> 264" by (rule vm_machine_tables)
  ultimately show ?thesis
    by (simp add: vmm_bootable_def vm_machine_fields vm_machine_free entries_fit_def ALIGN_UP_def DIV_ROUNDUP_def)
qed

lemma vm_machine_init:
  obtains t T where "vmm_init vm_machine = Ok ((), t)" "pt_inv t T" "\<not> pagemap_lock t" "700 \<le> card (free_pages t)"
    "\<not> vmm_la57 t"
proof -
  obtain t T where t: "vmm_init vm_machine = Ok ((), t)" "pt_inv t T" "\<not> pagemap_lock t" "vmm_la57 t = vmm_la57 (paging_mode vm_machine)"
    "card (free_pages vm_machine) \<le> card (free_pages t) + (1 + card (init_tables vm_machine \<lparr>physical_base = 0, virtual_base = 0\<rparr>))"
    using vmm_init_Ok [OF vm_machine_bootable] by blast
  show thesis
    by (rule that [OF t(1-3)]) (use t(4,5) vm_machine_tables in \<open>simp_all add: vm_machine_free paging_mode_def vm_machine_fields\<close>)
qed

section \<open>The properties\<close>

text \<open>C10: Mapping a page, on a well-formed tree of tables with the lock free and a free page for each
  table that is missing on the way, returns
  with the tree well-formed, the lock free and the interrupt flag as before. Every address whose
  table indices are those of the page is now translated by the new entry, every other address as
  before, and memory outside tables, free pages and the bitmap is unchanged: the operation refines
  the update of one point of the translation.\<close>

theorem vmm_map_page_refines:
  assumes "pt_inv s T" and "\<not> pagemap_lock s" and "map_cost s T [(virt, phys, flags)] \<le> card (free_pages s)"
  shows "\<exists>t T'. vmm_map_page virt phys flags s = Ok ((), t) \<and> pt_inv t T' \<and> alloc_frame s t
    \<and> ran T \<subseteq> ran T' \<and> ran T' \<subseteq> ran T \<union> free_pages s
    \<and> (\<forall>a. translate t a = (if pt_path s a = pt_path s virt then present (phys OR flags) else translate s a))
    \<and> (\<forall>x. page_of s x \<notin> ran T \<and> page_of s x \<notin> free_pages s \<and> \<not> bitmap_byte s x \<longrightarrow> mem t x = mem s x)"
proof -
  obtain t T' where t: "vmm_map_page virt phys flags s = Ok ((), t)" and m: "vm_mapped (map_cost s T [(virt, phys, flags)]) s T t T' [(virt, phys, flags)]"
    using vmm_map_page_Ok [OF assms(1,2) refl assms(3)] by blast
  have "ran T \<subseteq> ran T'" using m by (auto simp: vm_mapped_def map_le_def ran_def) (metis domI)
  then show ?thesis using t m unfolding vm_mapped_def vm_frame_def by auto
qed

theorem vmm_map_page_refines_witness:
  "\<exists>s t. vmm_init vm_machine = Ok ((), s) \<and> vmm_map_page 0x7000 0x5000 3 s = Ok ((), t)
     \<and> translate t 0x7000 = Some 0x5003"
proof -
  obtain s T where s: "vmm_init vm_machine = Ok ((), s)" "pt_inv s T" "\<not> pagemap_lock s" "700 \<le> card (free_pages s)"
    by (rule vm_machine_init) blast
  have "map_cost s T [(0x7000, 0x5000, 3)] \<le> card (free_pages s)" using map_cost_bound [of s T "[(0x7000, 0x5000, 3)]"] s(4) by simp
  from vmm_map_page_refines [OF s(2,3) this] show ?thesis
    using s(1) by (auto simp: present_def)
qed

text \<open>C24: Mapping a span maps page after page: the \<open>k\<close>-th page from the page of \<open>virt\<close> is translated to
  the \<open>k\<close>-th page from the page of \<open>phys\<close>, with the flags given, for every page that the bytes
  \<open>phys\<close> to \<open>phys + len\<close> touch, and addresses of no page of the span keep their translation.\<close>

theorem vmm_map_span_correct:
  assumes "pt_inv s T" and "\<not> pagemap_lock s"
    and n: "n = (unat phys + unat len + 4095) div 4096 - unat phys div 4096"
    and "unat phys + unat len + 8192 < 2 ^ 64" and "n \<le> 2 ^ 36" and "4 * n \<le> card (free_pages s)"
  shows "\<exists>t T'. vmm_map_span virt phys len flags s = Ok ((), t) \<and> pt_inv t T' \<and> alloc_frame s t
    \<and> (\<forall>k < n. translate t (ALIGN_DOWN virt PAGE_SIZE + of_nat k * PAGE_SIZE) =
         present ((ALIGN_DOWN phys PAGE_SIZE + of_nat k * PAGE_SIZE) OR flags))
    \<and> (\<forall>a. (\<forall>k < n. pt_path s a \<noteq> pt_path s (ALIGN_DOWN virt PAGE_SIZE + of_nat k * PAGE_SIZE)) \<longrightarrow>
         translate t a = translate s a)"
proof -
  have sp: "span_pages phys len = n" by (simp add: n span_pages_def)
  note ok = vmm_map_span_Ok [OF assms(1,2,4), unfolded sp, OF assms(6)]
  obtain t T' where t: "vmm_map_span virt phys len flags s = Ok ((), t)"
    and m: "vm_mapped (4 * n) s T t T' (vmm_span virt phys len flags)"
    using ok(1) [of virt flags] by blast
  have al: "4096 dvd unat (ALIGN_DOWN virt PAGE_SIZE)" by (simp add: unat_ALIGN_DOWN)
  note tr = span_translate [OF m [unfolded vmm_span_def] al ok(2) [symmetric] assms(5)]
  show ?thesis using t tr m unfolding vm_mapped_def by (intro exI [of _ t] exI [of _ T']) auto
qed

theorem vmm_map_span_correct_witness:
  "\<exists>s t. vmm_init vm_machine = Ok ((), s) \<and> vmm_map_span 0xffff800000009010 0x9010 0x1800 3 s = Ok ((), t)
     \<and> translate t 0xffff800000009000 = Some 0x9003 \<and> translate t 0xffff80000000a000 = Some 0xa003"
proof -
  obtain s T where s: "vmm_init vm_machine = Ok ((), s)" "pt_inv s T" "\<not> pagemap_lock s" "700 \<le> card (free_pages s)"
    by (rule vm_machine_init) blast
  obtain t where t: "vmm_map_span 0xffff800000009010 0x9010 0x1800 3 s = Ok ((), t)"
    and k: "\<forall>k < 2. translate t (ALIGN_DOWN 0xffff800000009010 PAGE_SIZE + of_nat k * PAGE_SIZE) =
         present ((ALIGN_DOWN 0x9010 PAGE_SIZE + of_nat k * PAGE_SIZE) OR 3)"
    using vmm_map_span_correct [OF s(2,3), of 2 "0x9010" "0x1800" "0xffff800000009010" 3] s(4) by auto
  show ?thesis using s(1) t k [THEN spec, of 0] k [THEN spec, of 1] by (simp add: ALIGN_DOWN_def present_def)
qed

text \<open>C11: On a machine whose boot data is complete and whose free memory suffices, \<open>vmm_init\<close> returns with
  a well-formed tree loaded into the processor: each of the 256 tables of the higher half exists,
  and an address is translated by the last of the requests (the pages of the kernel's segments,
  then the direct map) that concerns it, and by none when no request does.\<close>

theorem vmm_init_correct:
  assumes "vmm_bootable s ex"
  shows "\<exists>t T. vmm_init s = Ok ((), t) \<and> pt_inv t T \<and> cr3 t = top_level (kernel_pagemap t) \<and> \<not> pagemap_lock t
    \<and> (\<forall>i. 256 \<le> i \<and> i < 512 \<longrightarrow> [i] \<in> dom T)
    \<and> (\<forall>a. translate t a =
        (case find (\<lambda>(v, p, f). pt_path t a = pt_path t v) (rev (init_reqs s ex)) of
           None \<Rightarrow> None | Some (v, p, f) \<Rightarrow> present (p OR f)))"
  using vmm_init_Ok [OF assms] by (auto simp: fold_requests)

theorem vmm_init_correct_witness:
  "\<exists>t T. vmm_init vm_machine = Ok ((), t) \<and> pt_inv t T \<and> cr3 t = top_level (kernel_pagemap t)"
  using vmm_init_correct [OF vm_machine_bootable] by blast

end
