(* ===== verification/Cpu.thy ===== *)
theory Cpu
  imports Spinlock
begin

text \<open>
  Access to the processor and to devices: the inline functions of \<open>kernel/src/sys/cpu.k.h\<close> and
  \<open>kernel/src/sys/port.k.h\<close>. Control registers and model-specific registers are fields of the
  state; ports, the local APIC's registers, the time stamp counter and the random number
  instructions are devices, whose answer to a read depends on the events so far.
\<close>

section \<open>Devices\<close>

definition dev_write :: "dev_event \<Rightarrow> unit kprog" where
  "dev_write e = modify (\<lambda>s. s\<lparr>dev_trace := dev_trace s @ [e]\<rparr>)"

definition dev_read :: "dev_event \<Rightarrow> u64 kprog" where
  "dev_read e =
     bind (modify (\<lambda>s. s\<lparr>dev_trace := dev_trace s @ [e]\<rparr>)) (\<lambda>_.
     gets (\<lambda>s. device s (dev_trace s)))"

lemma dev_write_eq: "dev_write e s = Ok ((), s\<lparr>dev_trace := dev_trace s @ [e]\<rparr>)"
  by (simp add: dev_write_def run_basic)

lemma dev_read_eq: "dev_read e s = Ok (device s (dev_trace s @ [e]), s\<lparr>dev_trace := dev_trace s @ [e]\<rparr>)"
  by (simp add: dev_read_def run_basic)

lemma bind_dev [simp]:
  "bind (dev_write e) g s = g () (s\<lparr>dev_trace := dev_trace s @ [e]\<rparr>)"
  "bind (dev_read e) h s = h (device s (dev_trace s @ [e])) (s\<lparr>dev_trace := dev_trace s @ [e]\<rparr>)"
  by (simp_all add: bind_Ok dev_write_eq dev_read_eq)

section \<open>Ports\<close>

definition outb :: "u16 \<Rightarrow> u8 \<Rightarrow> unit kprog" where
  "outb port val = dev_write (PortOut 1 port (ucast val))"

definition outw :: "u16 \<Rightarrow> u16 \<Rightarrow> unit kprog" where
  "outw port val = dev_write (PortOut 2 port (ucast val))"

definition outd :: "u16 \<Rightarrow> u32 \<Rightarrow> unit kprog" where
  "outd port val = dev_write (PortOut 4 port val)"

definition inb :: "u16 \<Rightarrow> u8 kprog" where
  "inb port = bind (dev_read (PortIn 1 port)) (\<lambda>v. return (ucast v))"

definition inw :: "u16 \<Rightarrow> u16 kprog" where
  "inw port = bind (dev_read (PortIn 2 port)) (\<lambda>v. return (ucast v))"

definition ind :: "u16 \<Rightarrow> u32 kprog" where
  "ind port = bind (dev_read (PortIn 4 port)) (\<lambda>v. return (ucast v))"

lemmas port_defs = outb_def outw_def outd_def inb_def inw_def ind_def

section \<open>Control registers\<close>

definition read_cr0 :: "u64 kprog" where "read_cr0 = gets cr0"
definition read_cr2 :: "u64 kprog" where "read_cr2 = gets cr2"
definition read_cr3 :: "u64 kprog" where "read_cr3 = gets cr3"
definition read_cr4 :: "u64 kprog" where "read_cr4 = gets cr4"
definition write_cr0 :: "u64 \<Rightarrow> unit kprog" where "write_cr0 v = modify (\<lambda>s. s\<lparr>cr0 := v\<rparr>)"
definition write_cr2 :: "u64 \<Rightarrow> unit kprog" where "write_cr2 v = modify (\<lambda>s. s\<lparr>cr2 := v\<rparr>)"
definition write_cr3 :: "u64 \<Rightarrow> unit kprog" where "write_cr3 v = modify (\<lambda>s. s\<lparr>cr3 := v\<rparr>)"
definition write_cr4 :: "u64 \<Rightarrow> unit kprog" where "write_cr4 v = modify (\<lambda>s. s\<lparr>cr4 := v\<rparr>)"

lemmas cr_defs = read_cr0_def read_cr2_def read_cr3_def read_cr4_def
  write_cr0_def write_cr2_def write_cr3_def write_cr4_def

text \<open>64-bit values travel in a pair of 32-bit registers.\<close>

definition low32 :: "u64 \<Rightarrow> u32" where "low32 v = ucast v"
definition high32 :: "u64 \<Rightarrow> u32" where "high32 v = ucast (drop_bit 32 v)"
definition join32 :: "u32 \<Rightarrow> u32 \<Rightarrow> u64" where "join32 edx eax = push_bit 32 (ucast edx) OR ucast eax"

lemma join32_split [simp]: "join32 (high32 v) (low32 v) = v"
proof (rule bit_word_eqI)
  fix n assume n: "n < LENGTH(64)"
  show "bit (join32 (high32 v) (low32 v)) n = bit v n"
    using n by (cases "n < 32") (auto simp: join32_def high32_def low32_def bit_simps)
qed

definition wrxcr :: "u32 \<Rightarrow> u64 \<Rightarrow> unit kprog" where
  "wrxcr reg val =
     (let a = low32 val; d = high32 val in
      if reg = 0 then modify (\<lambda>s. s\<lparr>xcr0 := join32 d a\<rparr>) else fault ''xsetbv of an unknown register'')"

definition rdtsc :: "u64 kprog" where
  "rdtsc = bind (dev_read TscRead) (\<lambda>tsc. let edx = high32 tsc; eax = low32 tsc in return (join32 edx edx))"

definition rdrand :: "u64 kprog" where "rdrand = dev_read RandRead"
definition rdseed :: "u64 kprog" where "rdseed = dev_read SeedRead"

section \<open>Model-specific registers\<close>

text \<open>The registers from 0x800 to 0x8ff are the local APIC's.\<close>

definition lapic_msr :: "u32 \<Rightarrow> bool" where
  "lapic_msr r \<longleftrightarrow> 0x800 \<le> r \<and> r < 0x900"

definition rdmsr :: "u32 \<Rightarrow> u64 kprog" where
  "rdmsr r = bind (if lapic_msr r then dev_read (MsrRead r) else gets (\<lambda>s. msr s r)) (\<lambda>v.
     let eax = low32 v; edx = high32 v in return (join32 edx eax))"

definition wrmsr :: "u32 \<Rightarrow> u64 \<Rightarrow> u64 kprog" where
  "wrmsr r val =
     (let eax = low32 val; edx = high32 val in
      bind (if lapic_msr r then dev_write (MsrWrite r (join32 edx eax))
        else modify (\<lambda>s. s\<lparr>msr := (msr s)(r := join32 edx eax)\<rparr>)) (\<lambda>_.
      return (join32 edx eax)))"

lemma rdmsr_eq: "rdmsr r = (if lapic_msr r then dev_read (MsrRead r) else gets (\<lambda>s. msr s r))"
  by (auto simp: rdmsr_def fun_eq_iff dev_read_eq run_basic)

lemma wrmsr_eq: "wrmsr r v s = Ok (v, if lapic_msr r then s\<lparr>dev_trace := dev_trace s @ [MsrWrite r v]\<rparr>
    else s\<lparr>msr := (msr s)(r := v)\<rparr>)"
  by (simp add: wrmsr_def Let_def run_basic)

definition set_kernel_gs_base :: "u64 \<Rightarrow> unit kprog" where
  "set_kernel_gs_base addr = bind (wrmsr 0xc0000102 addr) (\<lambda>_. return ())"
definition set_gs_base :: "u64 \<Rightarrow> unit kprog" where
  "set_gs_base addr = bind (wrmsr 0xc0000101 addr) (\<lambda>_. return ())"
definition set_fs_base :: "u64 \<Rightarrow> unit kprog" where
  "set_fs_base addr = bind (wrmsr 0xc0000100 addr) (\<lambda>_. return ())"
definition get_kernel_gs_base :: "u64 kprog" where "get_kernel_gs_base = rdmsr 0xc0000102"
definition get_gs_base :: "u64 kprog" where "get_gs_base = rdmsr 0xc0000101"
definition get_fs_base :: "u64 kprog" where "get_fs_base = rdmsr 0xc0000100"

lemmas base_defs = set_kernel_gs_base_def set_gs_base_def set_fs_base_def
  get_kernel_gs_base_def get_gs_base_def get_fs_base_def

section \<open>Processor identification\<close>

definition CPUID_XSAVE :: u32 where "CPUID_XSAVE = push_bit 26 1"
definition CPUID_AVX :: u32 where "CPUID_AVX = push_bit 28 1"
definition CPUID_AVX512 :: u32 where "CPUID_AVX512 = push_bit 16 1"
definition CPUID_SEP :: u32 where "CPUID_SEP = push_bit 11 1"

text \<open>The four registers, or nothing when the processor does not have the leaf.\<close>

definition cpuid :: "u32 \<Rightarrow> u32 \<Rightarrow> (u32 \<times> u32 \<times> u32 \<times> u32) option kprog" where
  "cpuid leaf subleaf = gets (\<lambda>s.
     let cpuid_max = fst (cpuid_leaf s (leaf AND 0x80000000) 0) in
     if cpuid_max < leaf then None else Some (cpuid_leaf s leaf subleaf))"

text \<open>\<open>hlt\<close> waits for an interrupt and changes nothing.\<close>

definition halt :: "unit kprog" where
  "halt = return ()"

section \<open>Per-processor data\<close>

text \<open>\<open>struct cpu_local\<close> is in memory; these are the addresses of its fields (the packed task state
  segment starts at offset 24 and is 104 bytes long), and those of \<open>struct thread\<close>.\<close>

definition cl_cpu_number :: "u64 \<Rightarrow> u64" where "cl_cpu_number p = p"
definition cl_lapic_id :: "u64 \<Rightarrow> u64" where "cl_lapic_id p = p + 8"
definition cl_is_bsp :: "u64 \<Rightarrow> u64" where "cl_is_bsp p = p + 12"
definition cl_online :: "u64 \<Rightarrow> u64" where "cl_online p = p + 13"
definition cl_lapic_timer_freq :: "u64 \<Rightarrow> u64" where "cl_lapic_timer_freq p = p + 16"
definition cl_tss :: "u64 \<Rightarrow> u64" where "cl_tss p = p + 24"
definition cl_common_int_stack :: "u64 \<Rightarrow> u64" where "cl_common_int_stack p = p + 128"
definition cl_abort_stack :: "u64 \<Rightarrow> u64" where "cl_abort_stack p = p + 136"
definition cl_idle_thread :: "u64 \<Rightarrow> u64" where "cl_idle_thread p = p + 144"
definition sizeof_cpu_local :: u64 where "sizeof_cpu_local = 192"

definition tss_rsp0 :: "u64 \<Rightarrow> u64" where "tss_rsp0 p = p + 4"
definition tss_ist1 :: "u64 \<Rightarrow> u64" where "tss_ist1 p = p + 36"

definition th_self :: "u64 \<Rightarrow> u64" where "th_self p = p"
definition th_running_on :: "u64 \<Rightarrow> u64" where "th_running_on p = p + 8"

lemmas cl_defs = cl_cpu_number_def cl_lapic_id_def cl_is_bsp_def cl_online_def cl_lapic_timer_freq_def
  cl_tss_def cl_common_int_stack_def cl_abort_stack_def cl_idle_thread_def sizeof_cpu_local_def
  tss_rsp0_def tss_ist1_def th_self_def th_running_on_def

section \<open>Properties\<close>

text \<open>What is stored in the GS, kernel GS and FS base registers is what is read back, whatever is
  done to the other two in between.\<close>

theorem segment_bases_roundtrip:
  "bind (set_gs_base a) (\<lambda>_. bind (set_kernel_gs_base b) (\<lambda>_. bind (set_fs_base c) (\<lambda>_.
     bind get_gs_base (\<lambda>x. bind get_kernel_gs_base (\<lambda>y. bind get_fs_base (\<lambda>z. return (x, y, z))))))) s =
   Ok ((a, b, c), s\<lparr>msr := (msr s)(0xc0000101 := a, 0xc0000102 := b, 0xc0000100 := c)\<rparr>)"
  by (simp add: base_defs rdmsr_eq wrmsr_eq lapic_msr_def bind_Ok bind_assoc run_basic fun_upd_twist)

text \<open>\<open>rdtsc\<close> does not return the time stamp counter but its upper half in both halves: two counter
  values that differ only in the lower 32 bits are not told apart.\<close>

theorem rdtsc_upper_half_twice:
  "rdtsc s = Ok (join32 (high32 (device s (dev_trace s @ [TscRead]))) (high32 (device s (dev_trace s @ [TscRead]))),
     s\<lparr>dev_trace := dev_trace s @ [TscRead]\<rparr>)
   \<and> rdtsc (s\<lparr>device := \<lambda>_. 5\<rparr>) = Ok (0, s\<lparr>device := \<lambda>_. 5, dev_trace := dev_trace s @ [TscRead]\<rparr>)"
  by (simp add: rdtsc_def Let_def run_basic join32_def high32_def)

section \<open>The memory manager's data\<close>

text \<open>What setting up descriptor tables, handlers and terminals leaves alone.\<close>

definition mm_data where
  "mm_data s = (mem s, int_flag s, boot s, hhdm s, memmap s,
     (pmm_lock s, pmm_bitmap s, pmm_avl_page_count s, pmm_last_used_index s), slabs s, slabs_addr s, kernel_pagemap s, vmm_la57 s,
     (device s, dev_trace s), (madt_lapics s, madt_x2apics s, madt_io_apics s, madt_isos s, madt_nmis s),
     (terms s, fbs s, fb_init_done s, fb_count s, term_init_done s, term_count s, printf_lock s))"

definition idt_data where
  "idt_data s = (idt_lock s, idt s, idt_free_vector s, isr_handler_table s, isr_thunks s)"

end
