(* ===== verification/Gdt.thy ===== *)
theory Gdt
  imports Cpu
begin

text \<open>
  The global descriptor table, \<open>kernel/src/sys/gdt.c\<close>. What the processor reads from a descriptor
  (present bit, privilege level, kind, base) is defined here by its layout, and the properties are
  about what it reads.
\<close>

section \<open>Definitions\<close>

definition GDT_KERNEL_CODE_SEL :: u16 where "GDT_KERNEL_CODE_SEL = 0x08"
definition GDT_KERNEL_DATA_SEL :: u16 where "GDT_KERNEL_DATA_SEL = 0x10"
definition GDT_USER_CODE_SEL :: u16 where "GDT_USER_CODE_SEL = 0x1b"
definition GDT_USER_DATA_SEL :: u16 where "GDT_USER_DATA_SEL = 0x23"
definition GDT_TSS_SEL :: u16 where "GDT_TSS_SEL = 0x28"

lemmas gdt_sels = GDT_KERNEL_CODE_SEL_def GDT_KERNEL_DATA_SEL_def GDT_USER_CODE_SEL_def
  GDT_USER_DATA_SEL_def GDT_TSS_SEL_def

definition set_gdt :: "nat \<Rightarrow> gdt_descriptor \<Rightarrow> unit kprog" where
  "set_gdt i d = modify (\<lambda>s. s\<lparr>gdt := (gdt s)[i := d]\<rparr>)"

text \<open>The base of a segment descriptor. Loading a data segment register takes it from the table; for FS
  and GS it ends up in the base register.\<close>

definition segment_base :: "gdt_descriptor \<Rightarrow> u64" where
  "segment_base d = ucast (g_base_low16 d) OR push_bit 16 (ucast (g_base_mid8 d)) OR push_bit 24 (ucast (g_base_high8 d))"

definition selected :: "kernel \<Rightarrow> u16 \<Rightarrow> gdt_descriptor" where
  "selected s sel = gdt s ! unat (drop_bit 3 sel)"

definition gdt_reload :: "unit kprog" where
  "gdt_reload =
     bind (modify (\<lambda>s. s\<lparr>gdtr_limit := of_nat (8 * length (gdt s)) - 1, gdtr_base := gdt_addr s\<rparr>)) (\<lambda>_.
     bind (modify (\<lambda>s. s\<lparr>seg_cs := GDT_KERNEL_CODE_SEL\<rparr>)) (\<lambda>_.
     bind (modify (\<lambda>s. s\<lparr>seg_ds := GDT_KERNEL_DATA_SEL, seg_es := GDT_KERNEL_DATA_SEL,
       seg_ss := GDT_KERNEL_DATA_SEL\<rparr>)) (\<lambda>_.
     modify (\<lambda>s. s\<lparr>seg_fs := GDT_USER_DATA_SEL, seg_gs := GDT_USER_DATA_SEL,
       msr := (msr s)(0xc0000100 := segment_base (selected s GDT_USER_DATA_SEL),
         0xc0000101 := segment_base (selected s GDT_USER_DATA_SEL))\<rparr>))))"

definition gdt_init :: "unit kprog" where
  "gdt_init =
     bind (set_gdt 0 \<lparr>g_limit = 0, g_base_low16 = 0, g_base_mid8 = 0, g_access = 0, g_granularity = 0,
       g_base_high8 = 0\<rparr>) (\<lambda>_.
     bind (set_gdt 1 \<lparr>g_limit = 0, g_base_low16 = 0, g_base_mid8 = 0, g_access = 0x9b, g_granularity = 0x20,
       g_base_high8 = 0\<rparr>) (\<lambda>_.
     bind (set_gdt 2 \<lparr>g_limit = 0, g_base_low16 = 0, g_base_mid8 = 0, g_access = 0x93, g_granularity = 0,
       g_base_high8 = 0\<rparr>) (\<lambda>_.
     bind (set_gdt 3 \<lparr>g_limit = 0, g_base_low16 = 0, g_base_mid8 = 0, g_access = 0xfb, g_granularity = 0x20,
       g_base_high8 = 0\<rparr>) (\<lambda>_.
     bind (set_gdt 4 \<lparr>g_limit = 0, g_base_low16 = 0, g_base_mid8 = 0, g_access = 0xf3, g_granularity = 0,
       g_base_high8 = 0\<rparr>) (\<lambda>_.
     gdt_reload)))))"

text \<open>\<open>ltr\<close> wants an available 64-bit task state segment and marks it busy.\<close>

definition ltr :: "u16 \<Rightarrow> unit kprog" where
  "ltr sel =
     bind (gets (\<lambda>s. selected s sel)) (\<lambda>d.
     if g_access d AND 0x9f \<noteq> 0x89 then fault ''ltr: not an available task state segment''
     else modify (\<lambda>s. s\<lparr>task_reg := sel,
       gdt := (gdt s)[unat (drop_bit 3 sel) := d\<lparr>g_access := g_access d OR 2\<rparr>]\<rparr>))"

text \<open>\<open>struct cpu_tss\<close> is packed: two 32-bit and twelve 64-bit fields.\<close>

definition sizeof_cpu_tss :: u16 where "sizeof_cpu_tss = 104"

definition gdt_load_tss :: "u64 \<Rightarrow> unit kprog" where
  "gdt_load_tss tss =
     bind (spinlock_acquire gdt_lock gdt_lock_update) (\<lambda>_.
     bind (set_gdt 5 \<lparr>g_limit = sizeof_cpu_tss - 1, g_base_low16 = ucast tss,
       g_base_mid8 = ucast (drop_bit 16 tss), g_access = 0x89, g_granularity = 0,
       g_base_high8 = ucast (drop_bit 24 tss)\<rparr>) (\<lambda>_.
     bind (set_gdt 6 \<lparr>g_limit = ucast (drop_bit 32 tss), g_base_low16 = ucast (drop_bit 48 tss),
       g_base_mid8 = 0, g_access = 0, g_granularity = 0, g_base_high8 = 0\<rparr>) (\<lambda>_.
     bind (ltr GDT_TSS_SEL) (\<lambda>_.
     spinlock_release gdt_lock_update))))"

section \<open>What the processor reads\<close>

definition d_present :: "gdt_descriptor \<Rightarrow> bool" where "d_present d = bit (g_access d) 7"
definition d_segment :: "gdt_descriptor \<Rightarrow> bool" where "d_segment d = bit (g_access d) 4"
definition d_code :: "gdt_descriptor \<Rightarrow> bool" where "d_code d = bit (g_access d) 3"
definition d_write_read :: "gdt_descriptor \<Rightarrow> bool" where "d_write_read d = bit (g_access d) 1"
definition d_long :: "gdt_descriptor \<Rightarrow> bool" where "d_long d = bit (g_granularity d) 5"
definition d_dpl :: "gdt_descriptor \<Rightarrow> u8" where "d_dpl d = drop_bit 5 (g_access d) AND 3"
definition sel_rpl :: "u16 \<Rightarrow> u16" where "sel_rpl sel = sel AND 3"

text \<open>A 64-bit code segment, and a writable data segment, of a privilege level.\<close>

definition long_code :: "gdt_descriptor \<Rightarrow> nat \<Rightarrow> bool" where
  "long_code d pl \<longleftrightarrow> d_present d \<and> d_segment d \<and> d_code d \<and> d_write_read d \<and> d_long d \<and> unat (d_dpl d) = pl"

definition writable_data :: "gdt_descriptor \<Rightarrow> nat \<Rightarrow> bool" where
  "writable_data d pl \<longleftrightarrow> d_present d \<and> d_segment d \<and> \<not> d_code d \<and> d_write_read d \<and> unat (d_dpl d) = pl"

text \<open>The base of a system descriptor spans two slots.\<close>

definition system_base :: "gdt_descriptor \<Rightarrow> gdt_descriptor \<Rightarrow> u64" where
  "system_base lo hi = segment_base lo OR push_bit 32 (ucast (g_limit hi)) OR push_bit 48 (ucast (g_base_low16 hi))"

section \<open>Properties\<close>

lemma length7:
  assumes "length xs = 7"
  obtains a b c d e f g where "xs = [a, b, c, d, e, f, g]"
  using assms by (auto simp: numeral_eq_Suc length_Suc_conv)

lemma gdt_init_frame:
  "\<exists>t. gdt_init s = Ok ((), t) \<and> mm_data t = mm_data s \<and> idt_data t = idt_data s"
  by (simp add: gdt_init_def gdt_reload_def set_gdt_def run_basic mm_data_def idt_data_def)

text \<open>C31: After \<open>gdt_init\<close> the table register covers the seven slots, every selector constant of the
  kernel selects a present segment of the right kind whose privilege level is the one requested in
  the selector, the segment registers hold these selectors, and the FS and GS bases are zero.\<close>

theorem gdt_init_segments:
  assumes "length (gdt s) = 7"
  shows "\<exists>t. gdt_init s = Ok ((), t) \<and> length (gdt t) = 7
    \<and> unat (gdtr_limit t) + 1 = 8 * length (gdt t) \<and> gdtr_base t = gdt_addr s
    \<and> long_code (selected t GDT_KERNEL_CODE_SEL) 0 \<and> writable_data (selected t GDT_KERNEL_DATA_SEL) 0
    \<and> long_code (selected t GDT_USER_CODE_SEL) 3 \<and> writable_data (selected t GDT_USER_DATA_SEL) 3
    \<and> sel_rpl GDT_KERNEL_CODE_SEL = 0 \<and> sel_rpl GDT_KERNEL_DATA_SEL = 0
    \<and> sel_rpl GDT_USER_CODE_SEL = 3 \<and> sel_rpl GDT_USER_DATA_SEL = 3
    \<and> seg_cs t = GDT_KERNEL_CODE_SEL \<and> seg_ss t = GDT_KERNEL_DATA_SEL \<and> seg_ds t = GDT_KERNEL_DATA_SEL
    \<and> seg_es t = GDT_KERNEL_DATA_SEL \<and> seg_fs t = GDT_USER_DATA_SEL \<and> seg_gs t = GDT_USER_DATA_SEL
    \<and> msr t 0xc0000100 = 0 \<and> msr t 0xc0000101 = 0"
proof -
  obtain a b c d e f g where "gdt s = [a, b, c, d, e, f, g]" using length7 [OF assms] .
  then show ?thesis
    by (simp add: gdt_init_def gdt_reload_def set_gdt_def selected_def gdt_sels long_code_def writable_data_def
        d_present_def d_segment_def d_code_def d_write_read_def d_long_def d_dpl_def sel_rpl_def
        segment_base_def run_basic)
qed

theorem gdt_init_segments_witness:
  "\<exists>t. gdt_init blank_kernel = Ok ((), t) \<and> seg_cs t = 8 \<and> gdtr_base t = 0x2000"
  using gdt_init_segments [of blank_kernel] by (auto simp: blank_kernel_def gdt_sels)

lemma tss_base_join:
  "system_base
     \<lparr>g_limit = l, g_base_low16 = ucast tss, g_base_mid8 = ucast (drop_bit 16 tss), g_access = a, g_granularity = gr,
       g_base_high8 = ucast (drop_bit 24 tss)\<rparr>
     \<lparr>g_limit = ucast (drop_bit 32 tss), g_base_low16 = ucast (drop_bit 48 tss), g_base_mid8 = m, g_access = a',
       g_granularity = gr', g_base_high8 = h\<rparr> = tss"
proof (rule bit_word_eqI)
  fix n assume "n < LENGTH(64)"
  then consider "n < 16" | "16 \<le> n" "n < 24" | "24 \<le> n" "n < 32" | "32 \<le> n" "n < 48" | "48 \<le> n" "n < 64"
    by fastforce
  then show "bit (system_base
     \<lparr>g_limit = l, g_base_low16 = ucast tss, g_base_mid8 = ucast (drop_bit 16 tss), g_access = a, g_granularity = gr,
       g_base_high8 = ucast (drop_bit 24 tss)\<rparr>
     \<lparr>g_limit = ucast (drop_bit 32 tss), g_base_low16 = ucast (drop_bit 48 tss), g_base_mid8 = m, g_access = a',
       g_granularity = gr', g_base_high8 = h\<rparr>) n = bit tss n"
    by cases (auto simp: system_base_def segment_base_def bit_simps)
qed

text \<open>C32: With interrupts off and the table's lock free, \<open>gdt_load_tss\<close> returns with the lock free, the
  task register holding the selector of a busy task state segment whose base, put together from
  its six pieces, is the address given and whose limit covers the structure, and the five segment
  descriptors unchanged.\<close>

theorem gdt_load_tss_roundtrip:
  assumes "length (gdt s) = 7" and "\<not> int_flag s" and "\<not> gdt_lock s"
  shows "\<exists>t. gdt_load_tss tss s = Ok ((), t) \<and> \<not> gdt_lock t \<and> task_reg t = GDT_TSS_SEL
    \<and> system_base (selected t GDT_TSS_SEL) (gdt t ! 6) = tss
    \<and> unat (g_limit (selected t GDT_TSS_SEL)) + 1 = 104 \<and> g_access (selected t GDT_TSS_SEL) = 0x8b
    \<and> take 5 (gdt t) = take 5 (gdt s) \<and> length (gdt t) = 7"
proof -
  obtain a b c d e f g where "gdt s = [a, b, c, d, e, f, g]" using length7 [OF assms(1)] .
  then show ?thesis
    using assms(2,3)
    by (simp add: gdt_load_tss_def bind_spinlock_acquire set_gdt_def ltr_def selected_def gdt_sels
        spinlock_release_eq tss_base_join sizeof_cpu_tss_def bind_assoc run_basic)
qed

theorem gdt_load_tss_roundtrip_witness:
  "\<exists>t. gdt_load_tss 0xffff800012345678 blank_kernel = Ok ((), t) \<and> task_reg t = 0x28"
  using gdt_load_tss_roundtrip [of blank_kernel "0xffff800012345678"] by (auto simp: blank_kernel_def gdt_sels)

end
