(* ===== verification/Idt.thy ===== *)
theory Idt
  imports Gdt
begin

text \<open>
  Interrupt gates (\<open>kernel/src/sys/idt.c\<close>) and handlers (\<open>kernel/src/sys/isr.c\<close>). The table of
  handlers holds names of handlers; \<open>run_isr\<close> is what calling one does.
\<close>

section \<open>Definitions\<close>

definition idt_reload :: "unit kprog" where
  "idt_reload = modify (\<lambda>s. s\<lparr>idtr_limit := of_nat (16 * length (idt s)) - 1, idtr_base := idt_addr s\<rparr>)"

definition idt_init :: "unit kprog" where
  "idt_init = idt_reload"

definition idt_set_handler :: "u8 \<Rightarrow> u64 \<Rightarrow> u8 \<Rightarrow> u8 \<Rightarrow> unit kprog" where
  "idt_set_handler vector isr ist flags =
     modify (\<lambda>s. s\<lparr>idt := (idt s)[unat vector :=
       \<lparr>i_base_low16 = ucast isr, i_selector = GDT_KERNEL_CODE_SEL, i_ist = ist, i_flags = flags,
        i_base_mid16 = ucast (drop_bit 16 isr), i_base_high32 = ucast (drop_bit 32 isr), i_reserved = 0\<rparr>]\<rparr>)"

definition idt_set_ist :: "u8 \<Rightarrow> u8 \<Rightarrow> unit kprog" where
  "idt_set_ist vector ist =
     modify (\<lambda>s. s\<lparr>idt := (idt s)[unat vector := (idt s ! unat vector)\<lparr>i_ist := ist\<rparr>]\<rparr>)"

definition idt_allocate_vector :: "u8 kprog" where
  "idt_allocate_vector =
     bind (spinlock_acquire idt_lock idt_lock_update) (\<lambda>_.
     bind (gets idt_free_vector) (\<lambda>v.
     if v = 0xf0 then panic ''IDT exhausted''
     else
       bind (modify (\<lambda>s. s\<lparr>idt_free_vector := v + 1\<rparr>)) (\<lambda>_.
       bind (spinlock_release idt_lock_update) (\<lambda>_.
       return v))))"

subsection \<open>Handlers\<close>

definition isr_exception_names :: "string list" where
  "isr_exception_names =
     [''Division exception'', ''Debug'', ''NMI'', ''Breakpoint'', ''Overflow'', ''Bound range exceeded'',
      ''Invalid opcode'', ''Device not available'', ''Double fault'', ''???'', ''Invalid TSS'',
      ''Segment not present'', ''Stack-segment fault'', ''General protection fault'', ''Page fault'', ''???'',
      ''x87 exception'', ''Alignment check'', ''Machine check'', ''SIMD exception'', ''Virtualisation'']"

text \<open>Of the interrupted context the handler only looks at the code segment.\<close>

definition isr_generic_exception :: "u32 \<Rightarrow> u64 \<Rightarrow> unit kprog" where
  "isr_generic_exception int_number ctx_cs =
     (let exception_name = (if unat int_number < length isr_exception_names
        then isr_exception_names ! unat int_number else ''???'') in
      if ctx_cs = ucast GDT_USER_CODE_SEL then panic exception_name else panic exception_name)"

definition isr_abort :: "unit kprog" where
  "isr_abort = bind (whileM (\<lambda>_ s. True) (\<lambda>_. bind halt (\<lambda>_. return ())) ()) (\<lambda>_. return ())"

definition CPU_ABORT_IST :: u8 where "CPU_ABORT_IST = 1"

definition isr_install :: "u8 \<Rightarrow> unit kprog" where
  "isr_install i =
     bind (gets (\<lambda>s. isr_thunks s ! unat i)) (\<lambda>thunk.
     bind (idt_set_handler i thunk 0 0x8e) (\<lambda>_.
     modify (\<lambda>s. s\<lparr>isr_handler_table := (isr_handler_table s)[unat i := isr_generic_exception_handler]\<rparr>)))"

definition isr_init :: "unit kprog" where
  "isr_init =
     bind (whileM (\<lambda>i s. i < 32) (\<lambda>i. bind (isr_install i) (\<lambda>_. return (i + 1))) (0 :: u8)) (\<lambda>_.
     bind (whileM (\<lambda>(i, stop) s. \<not> stop) (\<lambda>(i, stop).
       bind (isr_install i) (\<lambda>_.
       if i = 255 then return (i, True) else return (i + 1, False))) (32 :: u8, False)) (\<lambda>_.
     bind idt_allocate_vector (\<lambda>v.
     bind (modify (\<lambda>s. s\<lparr>isr_abort_vector := v\<rparr>)) (\<lambda>_.
     bind (gets (\<lambda>s. isr_thunks s ! unat (isr_abort_vector s))) (\<lambda>thunk.
     bind (idt_set_handler v thunk CPU_ABORT_IST 0x8e) (\<lambda>_.
     modify (\<lambda>s. s\<lparr>isr_handler_table := (isr_handler_table s)[unat (isr_abort_vector s) := isr_abort_handler]\<rparr>)))))))"

section \<open>Gates\<close>

text \<open>The address a gate leads to.\<close>

definition gate_addr :: "idt_descriptor \<Rightarrow> u64" where
  "gate_addr d = ucast (i_base_low16 d) OR push_bit 16 (ucast (i_base_mid16 d)) OR push_bit 32 (ucast (i_base_high32 d))"

definition gate :: "u64 \<Rightarrow> u8 \<Rightarrow> u8 \<Rightarrow> idt_descriptor" where
  "gate isr ist flags = \<lparr>i_base_low16 = ucast isr, i_selector = GDT_KERNEL_CODE_SEL, i_ist = ist, i_flags = flags,
     i_base_mid16 = ucast (drop_bit 16 isr), i_base_high32 = ucast (drop_bit 32 isr), i_reserved = 0\<rparr>"

lemma gate_addr_gate [simp]: "gate_addr (gate isr ist flags) = isr"
proof (rule bit_word_eqI)
  fix n assume "n < LENGTH(64)"
  then consider "n < 16" | "16 \<le> n" "n < 32" | "32 \<le> n" "n < 64" by fastforce
  then show "bit (gate_addr (gate isr ist flags)) n = bit isr n"
    by cases (auto simp: gate_addr_def gate_def bit_simps)
qed

lemma gate_fields [simp]:
  "i_ist (gate isr ist flags) = ist" "i_flags (gate isr ist flags) = flags"
  "i_selector (gate isr ist flags) = GDT_KERNEL_CODE_SEL"
  by (simp_all add: gate_def)

lemma idt_set_handler_eq:
  "idt_set_handler v isr ist flags s = Ok ((), s\<lparr>idt := (idt s)[unat v := gate isr ist flags]\<rparr>)"
  by (simp add: idt_set_handler_def gate_def run_basic)

text \<open>A gate set for a vector leads to the handler's address, put together from its three pieces, with
  the kernel's code segment and the stack index and flags given; a later change of the stack index
  keeps all that, and the gates of other vectors are unchanged.\<close>

theorem idt_set_handler_roundtrip:
  assumes "length (idt s) = 256"
  shows "\<exists>t. bind (idt_set_handler v isr ist flags) (\<lambda>_. idt_set_ist v ist') s = Ok ((), t)
    \<and> gate_addr (idt t ! unat v) = isr \<and> i_selector (idt t ! unat v) = GDT_KERNEL_CODE_SEL
    \<and> i_ist (idt t ! unat v) = ist' \<and> i_flags (idt t ! unat v) = flags
    \<and> (\<forall>w. w \<noteq> unat v \<longrightarrow> idt t ! w = idt s ! w)"
proof -
  have v: "unat v < length (idt s)" using unsigned_less [of v, where ?'a = nat] assms by simp
  have "gate_addr ((gate isr ist flags)\<lparr>i_ist := ist'\<rparr>) = isr"
    using gate_addr_gate [of isr ist flags] by (simp add: gate_addr_def)
  then show ?thesis
    using v by (simp add: idt_set_handler_eq idt_set_ist_def bind_Ok run_basic)
qed

theorem idt_set_handler_roundtrip_witness:
  "\<exists>t. bind (idt_set_handler 14 0xffffffff80001230 0 0x8e) (\<lambda>_. idt_set_ist 14 3) blank_kernel = Ok ((), t)
     \<and> gate_addr (idt t ! 14) = 0xffffffff80001230"
  using idt_set_handler_roundtrip [of blank_kernel 14 "0xffffffff80001230" 0 "0x8e" 3]
  by (auto simp: blank_kernel_def)

section \<open>Vectors\<close>

lemma idt_allocate_vector_Ok:
  assumes "\<not> int_flag s" and "\<not> idt_lock s" and "idt_free_vector s \<noteq> 0xf0"
  shows "idt_allocate_vector s = Ok (idt_free_vector s, s\<lparr>idt_free_vector := idt_free_vector s + 1\<rparr>)"
proof -
  have "s\<lparr>idt_lock := False\<rparr> = s" using assms(2) by (simp add: idtl.upd_id)
  then have "s\<lparr>idt_lock := False, idt_free_vector := v\<rparr> = s\<lparr>idt_free_vector := v\<rparr>" for v by simp
  then show ?thesis
    using assms by (simp add: idt_allocate_vector_def bind_spinlock_acquire run_basic)
qed

lemma idt_allocate_vector_full:
  assumes "\<not> int_flag s" and "\<not> idt_lock s" and "idt_free_vector s = 0xf0"
  shows "idt_allocate_vector s = Panic ''IDT exhausted''"
  using assms by (simp add: idt_allocate_vector_def bind_spinlock_acquire panic_def)

fun allocate_vectors :: "nat \<Rightarrow> u8 list kprog" where
  "allocate_vectors 0 = return []"
| "allocate_vectors (Suc n) = bind idt_allocate_vector (\<lambda>v. bind (allocate_vectors n) (\<lambda>vs. return (v # vs)))"

lemma allocate_vectors_Ok:
  assumes "\<not> int_flag s" and "\<not> idt_lock s" and "unat (idt_free_vector s) + n \<le> 240"
  shows "allocate_vectors n s = Ok (map of_nat [unat (idt_free_vector s)..<unat (idt_free_vector s) + n],
    s\<lparr>idt_free_vector := idt_free_vector s + of_nat n\<rparr>)"
  using assms
proof (induction n arbitrary: s)
  case 0
  then show ?case by (simp add: run_basic)
next
  case (Suc n)
  let ?v = "idt_free_vector s"
  have ne: "?v \<noteq> 0xf0" using Suc.prems(3) by auto
  have u: "unat (?v + 1) = unat ?v + 1" using Suc.prems(3) by (subst unat_add_lem [THEN iffD1]) simp_all
  let ?s = "s\<lparr>idt_free_vector := ?v + 1\<rparr>"
  have IH: "allocate_vectors n ?s = Ok (map of_nat [unat ?v + 1..<unat ?v + 1 + n],
      ?s\<lparr>idt_free_vector := ?v + 1 + of_nat n\<rparr>)"
    using Suc.IH [of ?s] Suc.prems u by simp
  have "map of_nat [unat ?v..<unat ?v + Suc n] = ?v # map of_nat [unat ?v + 1..<unat ?v + 1 + n]"
  proof -
    have "[unat ?v..<unat ?v + Suc n] = unat ?v # [unat ?v + 1..<unat ?v + 1 + n]"
      by (simp add: upt_conv_Cons del: upt_Suc)
    then show ?thesis by (simp del: upt_Suc)
  qed
  then show ?case
    using idt_allocate_vector_Ok [OF Suc.prems(1,2) ne] IH by (simp add: bind_Ok run_basic add.assoc del: upt_Suc)
qed

text \<open>With interrupts off and the lock free, successive allocations hand out each vector from 32 to 239
  once, in order and none of the exception vectors, and the one after these panics.\<close>

theorem idt_vectors_allocated_once:
  assumes "\<not> int_flag s" and "\<not> idt_lock s" and "idt_free_vector s = 32" and "n \<le> 208"
  shows "\<exists>t. allocate_vectors n s = Ok (map of_nat [32..<32 + n], t)
    \<and> distinct (map of_nat [32..<32 + n] :: u8 list) \<and> (\<forall>v \<in> set (map of_nat [32..<32 + n] :: u8 list). 32 \<le> v \<and> v < 0xf0)
    \<and> \<not> idt_lock t \<and> (n = 208 \<longrightarrow> idt_allocate_vector t = Panic ''IDT exhausted'')"
proof -
  let ?t = "s\<lparr>idt_free_vector := 32 + of_nat n\<rparr>"
  have run: "allocate_vectors n s = Ok (map of_nat [32..<32 + n], ?t)"
    using allocate_vectors_Ok [OF assms(1,2), of n] assms(3,4) by simp
  have u: "unat (of_nat k :: u8) = k" if "k < 256" for k using that by (simp add: unat_of_nat)
  have "inj_on (of_nat :: nat \<Rightarrow> u8) (set [32..<32 + n])"
  proof (rule inj_onI)
    fix x y assume xy: "x \<in> set [32..<32 + n]" "y \<in> set [32..<32 + n]" and "(of_nat x :: u8) = of_nat y"
    then have "unat (of_nat x :: u8) = unat (of_nat y :: u8)" by simp
    moreover have "x < 256" "y < 256" using xy assms(4) by simp_all
    ultimately show "x = y" by (simp only: u)
  qed
  then have "distinct (map of_nat [32..<32 + n] :: u8 list)" by (simp add: distinct_map)
  moreover have "\<forall>v \<in> set (map of_nat [32..<32 + n] :: u8 list). 32 \<le> v \<and> v < 0xf0"
    using assms(4) u by (auto simp: word_le_nat_alt word_less_nat_alt)
  moreover have "idt_allocate_vector ?t = Panic ''IDT exhausted''" if "n = 208"
    using that assms(1,2) by (intro idt_allocate_vector_full) simp_all
  ultimately show ?thesis using run assms(2) by (intro exI [of _ ?t]) simp
qed

theorem idt_vectors_allocated_once_witness:
  "\<exists>t. allocate_vectors 3 blank_kernel = Ok ([32, 33, 34], t) \<and> \<not> idt_lock t"
  using idt_vectors_allocated_once [of blank_kernel 3] by (auto simp: blank_kernel_def)

section \<open>Installing the handlers\<close>

text \<open>The two loops over an 8-bit counter.\<close>

lemma loop_below:
  assumes "lo \<le> hi"
  shows "whileM (\<lambda>i s. i < hi) (\<lambda>i. bind (body i) (\<lambda>_. return (i + 1))) (lo :: u8) =
    bind (foreach body (map of_nat [unat lo..<unat hi])) (\<lambda>_. return hi)"
  using assms
proof (induction "unat hi - unat lo" arbitrary: lo)
  case 0
  then have "lo = hi" by (simp add: word_le_nat_alt word_unat_eq_iff)
  then show ?case by (auto simp: whileM_unfold fun_eq_iff) (simp add: run_basic)
next
  case (Suc n)
  then have lt: "lo < hi" and ltn: "unat lo < unat hi" by (auto simp: word_less_nat_alt)
  have u: "unat (lo + 1) = unat lo + 1"
    using ltn unsigned_less [of hi, where ?'a = nat] by (subst unat_add_lem [THEN iffD1]) simp_all
  have IH: "whileM (\<lambda>i s. i < hi) (\<lambda>i. bind (body i) (\<lambda>_. return (i + 1))) (lo + 1) =
      bind (foreach body (map of_nat [unat lo + 1..<unat hi])) (\<lambda>_. return hi)"
    using Suc.hyps(1) [of "lo + 1"] Suc.hyps(2) ltn u by (simp add: word_le_nat_alt)
  have "[unat lo..<unat hi] = unat lo # [unat lo + 1..<unat hi]" using ltn by (simp add: upt_conv_Cons)
  then show ?case using lt IH by (auto simp: whileM_unfold [of _ _ lo] bind_assoc fun_eq_iff)
qed

lemma loop_to_255:
  "whileM (\<lambda>(i, stop) s. \<not> stop) (\<lambda>(i, stop). bind (body i) (\<lambda>_.
       if i = 255 then return (i, True) else return (i + 1, False))) (lo :: u8, False) =
    bind (foreach body (map of_nat [unat lo..<256])) (\<lambda>_. return (255, True))"
proof (induction "255 - unat lo" arbitrary: lo)
  case 0
  then have "unat lo = 255" using unsigned_less [of lo, where ?'a = nat] by simp
  then have lo: "lo = 255" by (simp add: word_unat_eq_iff)
  show ?case
    unfolding lo by (auto simp: whileM_unfold [of _ _ "(255, False)"] whileM_unfold [of _ _ "(255, True)"]
        bind_assoc run_basic fun_eq_iff intro!: arg_cong [of _ _ "\<lambda>g. bind (body 255) g _"])
next
  case (Suc n)
  then have ltn: "unat lo < 255" by simp
  then have ne: "lo \<noteq> 255" by auto
  have u: "unat (lo + 1) = unat lo + 1" using ltn by (subst unat_add_lem [THEN iffD1]) simp_all
  have "[unat lo..<256] = unat lo # [unat lo + 1..<256]" using ltn by (simp add: upt_conv_Cons)
  then show ?case
    using Suc.hyps(1) [of "lo + 1"] Suc.hyps(2) ltn u ne
    by (auto simp: whileM_unfold [of _ _ "(lo, False)"] bind_assoc fun_eq_iff)
qed

lemma fold_list_update:
  "n \<le> length xs \<Longrightarrow> fold (\<lambda>v l. l[v := g v]) [0..<n] xs = map g [0..<n] @ drop n xs"
proof (induction n)
  case (Suc n)
  then have "drop n xs = xs ! n # drop (Suc n) xs" by (simp add: Cons_nth_drop_Suc)
  then show ?case using Suc by (simp add: list_update_append)
qed simp

lemma foreach_install:
  assumes "\<forall>v \<in> set vs. v < 256"
  shows "foreach isr_install (map of_nat vs) s = Ok ((), s\<lparr>idt := fold (\<lambda>v l. l[v := gate (isr_thunks s ! v) 0 0x8e]) vs (idt s),
      isr_handler_table := fold (\<lambda>v l. l[v := isr_generic_exception_handler]) vs (isr_handler_table s)\<rparr>)"
  using assms
proof (induction vs arbitrary: s)
  case Nil
  then show ?case by (simp add: run_basic)
next
  case (Cons v vs)
  let ?s = "s\<lparr>idt := (idt s)[v := gate (isr_thunks s ! v) 0 0x8e],
    isr_handler_table := (isr_handler_table s)[v := isr_generic_exception_handler]\<rparr>"
  have "unat (of_nat v :: u8) = v" using Cons.prems by (simp add: unat_of_nat)
  then have inst: "isr_install (of_nat v) s = Ok ((), ?s)"
    by (simp add: isr_install_def idt_set_handler_eq bind_Ok run_basic)
  have "\<forall>v \<in> set vs. v < 256" using Cons.prems by simp
  note IH = Cons.IH [OF this, of ?s]
  show ?case unfolding list.map foreach.simps bind_Ok [where f = "isr_install (of_nat v)", OF inst] IH by simp
qed

lemma isr_init_Ok:
  assumes "length (idt s) = 256" and "length (isr_handler_table s) = 256" and "\<not> int_flag s" and "\<not> idt_lock s"
    and "idt_free_vector s = 32"
  shows "\<exists>t. isr_init s = Ok ((), t) \<and> isr_abort_vector t = 32 \<and> idt_free_vector t = 33
    \<and> \<not> int_flag t \<and> \<not> idt_lock t \<and> length (isr_handler_table t) = 256
    \<and> (\<forall>v < 256. gate_addr (idt t ! v) = isr_thunks s ! v \<and> i_flags (idt t ! v) = 0x8e
         \<and> i_selector (idt t ! v) = GDT_KERNEL_CODE_SEL
         \<and> i_ist (idt t ! v) = (if v = 32 then 1 else 0)
         \<and> isr_handler_table t ! v = (if v = 32 then isr_abort_handler else isr_generic_exception_handler))
    \<and> mm_data t = mm_data s"
proof -
  let ?g = "\<lambda>v. gate (isr_thunks s ! v) 0 0x8e"
  let ?u = "s\<lparr>idt := map ?g [0..<256], isr_handler_table := map (\<lambda>_. isr_generic_exception_handler) [0..<256]\<rparr>"
  have all: "map of_nat [0..<32] @ map of_nat [32..<256] = (map of_nat [0..<256] :: u8 list)"
    using upt_add_eq_append [of 0 32 224] by (simp del: upt_rec_numeral)
  have "foreach isr_install (map of_nat [0..<256]) s = Ok ((), ?u)"
    using foreach_install [of "[0..<256]" s] assms(1,2)
    by (simp add: fold_list_update del: upt_rec_numeral)
  then have loops: "bind (foreach isr_install (map of_nat [0..<32])) (\<lambda>_. foreach isr_install (map of_nat [32..<256])) s = Ok ((), ?u)"
    unfolding all [symmetric] foreach_append .
  have v: "idt_allocate_vector ?u = Ok (32, ?u\<lparr>idt_free_vector := 33\<rparr>)"
    using idt_allocate_vector_Ok [of ?u] assms(3-5) by (simp del: upt_rec_numeral)
  let ?t = "?u\<lparr>idt_free_vector := 33, isr_abort_vector := 32, idt := (idt ?u)[32 := gate (isr_thunks s ! 32) 1 0x8e],
    isr_handler_table := (isr_handler_table ?u)[32 := isr_abort_handler]\<rparr>"
  have "isr_init s = Ok ((), ?t)"
  proof -
    obtain w where w: "foreach isr_install (map of_nat [0..<32]) s = Ok ((), w)"
      "foreach isr_install (map of_nat [32..<256]) w = Ok ((), ?u)"
      using loops by (auto simp: bind_eq_Ok_iff simp del: upt_rec_numeral)
    have "whileM (\<lambda>i s. i < 32) (\<lambda>i. bind (isr_install i) (\<lambda>_. return (i + 1))) (0 :: u8) s = Ok (32, w)"
      using w(1) by (simp add: loop_below bind_Ok run_basic del: upt_rec_numeral)
    moreover have "whileM (\<lambda>(i, stop) s. \<not> stop) (\<lambda>(i, stop). bind (isr_install i) (\<lambda>_.
       if i = 255 then return (i, True) else return (i + 1, False))) (32 :: u8, False) w = Ok ((255, True), ?u)"
      using w(2) unfolding loop_to_255 by (simp add: bind_Ok run_basic del: upt_rec_numeral)
    ultimately show ?thesis
      unfolding isr_init_def
      by (simp only: bind_Ok) (simp add: bind_Ok [where f = idt_allocate_vector, OF v] idt_set_handler_eq bind_Ok CPU_ABORT_IST_def run_basic del: upt_rec_numeral)
  qed
  moreover have "gate_addr (idt ?t ! v) = isr_thunks s ! v \<and> i_flags (idt ?t ! v) = 0x8e
         \<and> i_selector (idt ?t ! v) = GDT_KERNEL_CODE_SEL
         \<and> i_ist (idt ?t ! v) = (if v = 32 then 1 else 0)
         \<and> isr_handler_table ?t ! v = (if v = 32 then isr_abort_handler else isr_generic_exception_handler)"
    if "v < 256" for v
    using that by (simp add: nth_list_update del: upt_rec_numeral)
  moreover have "mm_data ?t = mm_data s" by (simp add: mm_data_def)
  ultimately show ?thesis using assms(3,4) by (intro exI [of _ ?t]) (simp del: upt_rec_numeral)
qed

text \<open>C28: \<open>isr_init\<close> returns, its 8-bit counters notwithstanding, with a gate for each of the 256 vectors
  that leads to the vector's entry stub on the interrupted stack with interrupts off, handled by the
  generic handler, except for the abort vector, 32, which has the abort handler on stack 1; the
  next vector to be allocated is 33.\<close>

theorem isr_init_correct:
  assumes "length (idt s) = 256" and "length (isr_handler_table s) = 256" and "\<not> int_flag s" and "\<not> idt_lock s"
    and "idt_free_vector s = 32"
  shows "\<exists>t. isr_init s = Ok ((), t) \<and> isr_abort_vector t = 32 \<and> idt_free_vector t = 33
    \<and> (\<forall>v < 256. gate_addr (idt t ! v) = isr_thunks s ! v \<and> i_flags (idt t ! v) = 0x8e
         \<and> i_selector (idt t ! v) = GDT_KERNEL_CODE_SEL
         \<and> i_ist (idt t ! v) = (if v = 32 then 1 else 0)
         \<and> isr_handler_table t ! v = (if v = 32 then isr_abort_handler else isr_generic_exception_handler))"
  using isr_init_Ok [OF assms] by blast

theorem isr_init_correct_witness:
  "\<exists>t. isr_init blank_kernel = Ok ((), t) \<and> isr_abort_vector t = 32 \<and> isr_handler_table t ! 14 = isr_generic_exception_handler"
proof -
  have "length (idt blank_kernel) = 256" "length (isr_handler_table blank_kernel) = 256" "\<not> int_flag blank_kernel"
    "\<not> idt_lock blank_kernel" "idt_free_vector blank_kernel = 32"
    by (simp_all add: blank_kernel_def)
  from isr_init_correct [OF this] show ?thesis by fastforce
qed

end
