(* ===== verification/Terminal.thy ===== *)
theory Terminal
  imports Cpu
begin

text \<open>
  Framebuffers (\<open>kernel/src/devices/fb/fb.c\<close>), terminals (\<open>devices/term/term.c\<close>) and formatted
  output (\<open>lib/printf.c\<close>). The terminal emulator and the formatter are parameters, collected in a
  record; \<open>debug_build\<close> is whether the kernel is compiled with \<open>DEBUG\<close>.
\<close>

section \<open>Definitions\<close>

record display =
  flanterm_fb_init :: "bool \<Rightarrow> u64 \<Rightarrow> u64 kprog"
  flanterm_deinit :: "u64 \<Rightarrow> unit kprog"
  flanterm_write :: "u64 \<Rightarrow> u8 list \<Rightarrow> unit kprog"
  npf_format :: "string \<Rightarrow> print_arg list \<Rightarrow> u8 list"
  debug_build :: bool

definition FBS_MAX :: u64 where "FBS_MAX = 16"
definition TERMS_MAX :: u64 where "TERMS_MAX = 16"

subsection \<open>Framebuffers\<close>

definition fb_step :: "u64 list \<Rightarrow> unit \<Rightarrow> unit kprog" where
  "fb_step framebuffers = (\<lambda>_. modify (\<lambda>s. s\<lparr>fbs := (fbs s)[unat (fb_count s) := framebuffers ! unat (fb_count s)],
     fb_count := fb_count s + 1\<rparr>))"

definition fb_init :: "unit kprog" where
  "fb_init =
     bind (gets fb_init_done) (\<lambda>d.
     if d then return ()
     else
       bind (modify (\<lambda>s. s\<lparr>fb_count := 0\<rparr>)) (\<lambda>_.
       bind (gets (\<lambda>s. framebuffer_response (boot s))) (\<lambda>response.
       case response of
         None \<Rightarrow> return ()
       | Some framebuffers \<Rightarrow>
           bind (whileM (\<lambda>_ s. fb_count s < of_nat (length framebuffers) \<and> fb_count s \<noteq> FBS_MAX) (fb_step framebuffers) ()) (\<lambda>_.
           modify (\<lambda>s. s\<lparr>fb_init_done := True\<rparr>)))))"

subsection \<open>Terminals\<close>

definition term_lock :: "nat \<Rightarrow> kernel \<Rightarrow> bool" where
  "term_lock i s = term_spinlock (terms s ! i)"

definition term_lock_update :: "nat \<Rightarrow> (bool \<Rightarrow> bool) \<Rightarrow> kernel \<Rightarrow> kernel" where
  "term_lock_update i f s = s\<lparr>terms := (terms s)[i := term_spinlock_update f (terms s ! i)]\<rparr>"

definition term_step :: "display \<Rightarrow> bool \<Rightarrow> unit \<Rightarrow> unit kprog" where
  "term_step env debug = (\<lambda>_.
     bind (gets (\<lambda>s. unat (term_count s))) (\<lambda>i.
     bind (modify (\<lambda>s. s\<lparr>terms := (terms s)[i := (terms s ! i)\<lparr>term_spinlock := False\<rparr>]\<rparr>)) (\<lambda>_.
     bind (gets (\<lambda>s. fbs s ! i)) (\<lambda>fb.
     bind (flanterm_fb_init env debug fb) (\<lambda>ctx.
     bind (modify (\<lambda>s. s\<lparr>terms := (terms s)[i := (terms s ! i)\<lparr>ft_ctx := ctx\<rparr>]\<rparr>)) (\<lambda>_.
     modify (\<lambda>s. s\<lparr>term_count := term_count s + 1\<rparr>)))))))"

definition term_init :: "display \<Rightarrow> bool \<Rightarrow> unit kprog" where
  "term_init env debug =
     bind (gets term_init_done) (\<lambda>d.
     if (if debug then d \<noteq> TERM_INIT_NOT_DONE else d = TERM_INIT_NORMAL_DONE) then return ()
     else
       bind fb_init (\<lambda>_.
       bind (gets term_count) (\<lambda>n.
       bind (if n \<noteq> 0 then
           bind (gets (\<lambda>s. ft_ctx (terms s ! 0))) (\<lambda>ctx.
           bind (flanterm_deinit env ctx) (\<lambda>_.
           modify (\<lambda>s. s\<lparr>term_count := 0\<rparr>)))
         else return ()) (\<lambda>_.
       let terms_limit = (if debug then 1 else TERMS_MAX) in
       bind (whileM (\<lambda>_ s. term_count s < fb_count s \<and> term_count s \<noteq> terms_limit) (term_step env debug) ()) (\<lambda>_.
       modify (\<lambda>s. s\<lparr>term_init_done := (if debug then TERM_INIT_DEBUG_DONE else TERM_INIT_NORMAL_DONE)\<rparr>))))))"

definition term_write :: "display \<Rightarrow> u64 \<Rightarrow> u8 list \<Rightarrow> unit kprog" where
  "term_write env terminal data =
     bind (gets term_init_done) (\<lambda>d.
     if d = TERM_INIT_NOT_DONE then return ()
     else
       let i = unat terminal in
       bind (interrupt_toggle False) (\<lambda>old_int_state.
       bind (spinlock_acquire (term_lock i) (term_lock_update i)) (\<lambda>_.
       bind (gets (\<lambda>s. ft_ctx (terms s ! i))) (\<lambda>ctx.
       bind (flanterm_write env ctx data) (\<lambda>_.
       bind (spinlock_release (term_lock_update i)) (\<lambda>_.
       bind (interrupt_toggle old_int_state) (\<lambda>_.
       return ())))))))"

subsection \<open>Formatted output\<close>

definition debug_putchar :: "display \<Rightarrow> u8 \<Rightarrow> unit kprog" where
  "debug_putchar env c =
     bind (term_write env 0 [c]) (\<lambda>_.
     if debug_build env then outb 0xe9 c else return ())"

text \<open>The formatter passes the characters of the text to \<open>debug_putchar\<close> one by one; the value is their
  number.\<close>

definition vprintf :: "display \<Rightarrow> string \<Rightarrow> print_arg list \<Rightarrow> u32 kprog" where
  "vprintf env fmt args =
     bind (term_init env True) (\<lambda>_.
     bind (interrupt_toggle False) (\<lambda>old_int_state.
     bind (spinlock_acquire printf_lock printf_lock_update) (\<lambda>_.
     bind (foreach (debug_putchar env) (npf_format env fmt args)) (\<lambda>_.
     bind (spinlock_release printf_lock_update) (\<lambda>_.
     bind (interrupt_toggle old_int_state) (\<lambda>_.
     return (of_nat (length (npf_format env fmt args)))))))))"

text \<open>\<open>printf\<close> hands its arguments on. \<open>snprintf\<close> does not touch the terminal: it is the formatter's, on a buffer.\<close>

definition printf_args :: "display \<Rightarrow> string \<Rightarrow> print_arg list \<Rightarrow> u32 kprog" where
  "printf_args env fmt args = bind (vprintf env fmt args) (\<lambda>ret. return ret)"

definition snprintf :: "(u64 \<Rightarrow> u64 \<Rightarrow> string \<Rightarrow> print_arg list \<Rightarrow> u32 kprog) \<Rightarrow> u64 \<Rightarrow> u64 \<Rightarrow> string \<Rightarrow> print_arg list \<Rightarrow> u32 kprog" where
  "snprintf npf_vsnprintf buf bufsz fmt args = bind (npf_vsnprintf buf bufsz fmt args) (\<lambda>ret. return ret)"

text \<open>The models of the initialisation code collect the messages they print in \<open>klog\<close>, without the newline at
  their end; this prints them. The boot calls it wherever a part that prints has run.\<close>

definition flush_log :: "display \<Rightarrow> unit kprog" where
  "flush_log env =
     bind (gets klog) (\<lambda>msgs.
     bind (modify (\<lambda>s. s\<lparr>klog := []\<rparr>)) (\<lambda>_.
     foreach (\<lambda>(fmt, args). bind (printf_args env (fmt @ [CHR 0x0a]) args) (\<lambda>_. return ())) msgs))"

section \<open>Locks\<close>

interpretation printfl: lock_cell printf_lock printf_lock_update "\<lambda>_. True"
  by unfold_locales simp_all

lemma term_spinlock_update_id: "f (term_spinlock r) = term_spinlock r \<Longrightarrow> term_spinlock_update f r = r"
  by (cases r) simp

lemmas term_lock_defs = term_lock_def term_lock_update_def

interpretation terml: lock_cell "term_lock i" "term_lock_update i" "\<lambda>s. i < length (terms s)" for i
  by unfold_locales (simp_all add: term_lock_defs comp_def term_spinlock_update_id)

section \<open>Framebuffers\<close>

lemma fb_loop:
  assumes "length (fbs s) = 16" and "n = min 16 (length l)" and "length l < 2 ^ 64" and "i \<le> n" and "unat (fb_count s) = i"
  shows "whileM (\<lambda>_ s. fb_count s < of_nat (length l) \<and> fb_count s \<noteq> FBS_MAX) (fb_step l) () s =
    Ok ((), s\<lparr>fbs := take i (fbs s) @ drop i (take n l) @ drop n (fbs s), fb_count := of_nat n\<rparr>)"
  using assms(1,4,5)
proof (induction "n - i" arbitrary: i s)
  case 0
  then have i: "i = n" by simp
  have "\<not> (fb_count s < of_nat (length l) \<and> fb_count s \<noteq> FBS_MAX)"
    using 0(4) i assms(2,3) by (auto simp: word_less_nat_alt unat_of_nat_u64 FBS_MAX_def word_unat_eq_iff)
  moreover have "fb_count s = of_nat n" using 0(4) i unat_of_nat_u64 [of n] assms(2) by (simp add: word_unat_eq_iff)
  ultimately show ?case using i by (subst whileM_unfold) auto
next
  case (Suc m)
  then have lt: "i < n" by simp
  let ?t = "s\<lparr>fbs := (fbs s)[i := l ! i], fb_count := fb_count s + 1\<rparr>"
  have "fb_count s < of_nat (length l) \<and> fb_count s \<noteq> FBS_MAX"
    using Suc.prems(3) lt assms(2,3) by (auto simp: word_less_nat_alt unat_of_nat_u64 FBS_MAX_def word_unat_eq_iff)
  then have step: "whileM (\<lambda>_ s. fb_count s < of_nat (length l) \<and> fb_count s \<noteq> FBS_MAX) (fb_step l) () s =
      whileM (\<lambda>_ s. fb_count s < of_nat (length l) \<and> fb_count s \<noteq> FBS_MAX) (fb_step l) () ?t"
    using Suc.prems(3) by (subst whileM_unfold) (simp add: fb_step_def)
  have u: "unat (fb_count ?t) = Suc i"
    using Suc.prems(3) lt assms(2) by (simp, subst unat_add_lem [THEN iffD1]) simp_all
  have "take (Suc i) ((fbs s)[i := l ! i]) @ drop (Suc i) (take n l) @ drop n ((fbs s)[i := l ! i])
      = take i (fbs s) @ drop i (take n l) @ drop n (fbs s)"
  proof -
    have "take (Suc i) ((fbs s)[i := l ! i]) = take i (fbs s) @ [l ! i]"
      using lt assms(2) Suc.prems(1) by (simp add: take_Suc_conv_app_nth)
    moreover have "drop i (take n l) = l ! i # drop (Suc i) (take n l)"
      using lt assms(2) by (simp add: Cons_nth_drop_Suc [symmetric])
    ultimately show ?thesis using lt by (simp add: drop_update_cancel)
  qed
  then show ?case
    using Suc.hyps(1) [of "Suc i" ?t] Suc.hyps(2) Suc.prems(1) lt u step by simp
qed

text \<open>\<open>fb_init\<close> takes over the bootloader's framebuffers in order, up to the sixteen there is room for;
  without the bootloader's response there are none, and a later call tries again.\<close>

theorem fb_init_clamped:
  assumes "\<not> fb_init_done s" and "length (fbs s) = 16" and "\<forall>l. framebuffer_response (boot s) = Some l \<longrightarrow> length l < 2 ^ 64"
  shows "\<exists>t. fb_init s = Ok ((), t) \<and> length (fbs t) = 16
    \<and> (case framebuffer_response (boot s) of
         None \<Rightarrow> fb_count t = 0 \<and> \<not> fb_init_done t
       | Some l \<Rightarrow> unat (fb_count t) = min 16 (length l) \<and> take (unat (fb_count t)) (fbs t) = take 16 l \<and> fb_init_done t)"
proof (cases "framebuffer_response (boot s)")
  case None
  then show ?thesis using assms by (simp add: fb_init_def run_basic)
next
  case (Some l)
  let ?n = "min 16 (length l)" and ?s = "s\<lparr>fb_count := 0\<rparr>"
  have l: "length l < 2 ^ 64" using assms(3) Some by blast
  have "length (fbs ?s) = 16" "0 \<le> ?n" "unat (fb_count ?s) = 0" using assms(2) by simp_all
  note loop = fb_loop [OF this(1) refl l this(2,3)]
  have u: "unat (of_nat ?n :: u64) = ?n" by (rule unat_of_nat_u64) simp
  show ?thesis
    using assms(1,2) Some u
    by (cases "length l \<le> 16") (simp_all add: fb_init_def bind_Ok [where f = "whileM _ _ _", OF loop] run_basic)
qed

theorem fb_init_clamped_witness:
  "\<exists>t. fb_init (blank_kernel\<lparr>boot := (boot blank_kernel)\<lparr>framebuffer_response := Some (replicate 20 7)\<rparr>\<rparr>) = Ok ((), t)
     \<and> unat (fb_count t) = 16"
  using fb_init_clamped [of "blank_kernel\<lparr>boot := (boot blank_kernel)\<lparr>framebuffer_response := Some (replicate 20 7)\<rparr>\<rparr>"]
  by (auto simp: blank_kernel_def)

section \<open>Output\<close>

text \<open>What the kernel relies on of the terminal emulator: writing to a context it made returns, and leaves
  the kernel's own variables alone.\<close>

definition same_console :: "kernel \<Rightarrow> kernel \<Rightarrow> bool" where
  "same_console s t \<longleftrightarrow> printf_lock t = printf_lock s \<and> terms t = terms s \<and> int_flag t = int_flag s
     \<and> term_init_done t = term_init_done s"

definition display_ok :: "display \<Rightarrow> u64 \<Rightarrow> bool" where
  "display_ok env ctx \<longleftrightarrow> (\<forall>d s. wp (flanterm_write env ctx d) (\<lambda>_. same_console s) s)"

lemma same_console_refl [simp]: "same_console s s" by (simp add: same_console_def)

lemma debug_putchar_ok:
  assumes "display_ok env (ft_ctx (terms s ! 0))" and "0 < length (terms s)" and "\<not> term_lock 0 s"
    and "term_init_done s \<noteq> TERM_INIT_NOT_DONE"
  shows "wp (debug_putchar env c) (\<lambda>_. same_console s) s"
proof -
  let ?body = "bind (gets (\<lambda>s. ft_ctx (terms s ! 0))) (\<lambda>ctx. flanterm_write env ctx [c])"
  let ?u = "term_lock_update 0 (\<lambda>_. True) (s\<lparr>int_flag := False\<rparr>)"
  have ctx: "ft_ctx (terms ?u ! 0) = ft_ctx (terms s ! 0)" using assms(2) by (simp add: term_lock_defs)
  have "wp (flanterm_write env (ft_ctx (terms ?u ! 0)) [c]) (\<lambda>_ t. same_console s ((term_lock_update 0 (\<lambda>_. False) t)\<lparr>int_flag := int_flag s\<rparr>)) ?u"
    unfolding ctx
  proof (rule wp_mono [where Q = "\<lambda>_. same_console ?u"])
    show "wp (flanterm_write env (ft_ctx (terms s ! 0)) [c]) (\<lambda>_. same_console ?u) ?u"
      using assms(1) by (simp add: display_ok_def)
    fix t assume "same_console ?u t"
    then show "same_console s ((term_lock_update 0 (\<lambda>_. False) t)\<lparr>int_flag := int_flag s\<rparr>)"
      using assms(2,3) by (auto simp: same_console_def term_lock_defs term_spinlock_update_id comp_def)
  qed
  then have "wp (term_write env 0 [c]) (\<lambda>_. same_console s) s"
    using assms(3,4) by (simp add: term_write_def terml.get_int_flag) (erule wp_mono, simp)
  then have "wp (term_write env 0 [c]) (\<lambda>_ t. wp (if debug_build env then outb 0xe9 c else return ()) (\<lambda>_. same_console s) t) s"
    by (rule wp_mono) (simp add: port_defs dev_write_def same_console_def)
  then show ?thesis by (simp add: debug_putchar_def)
qed

lemma putchars_ok:
  assumes "display_ok env (ft_ctx (terms s ! 0))" and "0 < length (terms s)" and "\<not> term_lock 0 s"
    and "term_init_done s \<noteq> TERM_INIT_NOT_DONE"
  shows "wp (foreach (debug_putchar env) cs) (\<lambda>_. same_console s) s"
proof (rule wp_foreach [where I = "\<lambda>_. same_console s"])
  fix ys c zs t assume t: "same_console s t"
  then have "wp (debug_putchar env c) (\<lambda>_. same_console t) t"
    using assms by (intro debug_putchar_ok) (simp_all add: same_console_def term_lock_def)
  then show "wp (debug_putchar env c) (\<lambda>_. same_console s) t"
    by (rule wp_mono) (use t in \<open>simp add: same_console_def\<close>)
qed simp

text \<open>C34: With a terminal set up and its lock and the output lock free, formatted output returns, whatever
  the text and the interrupt flag are, with both locks free again and the flag as it was.\<close>

theorem vprintf_returns:
  assumes "display_ok env (ft_ctx (terms s ! 0))" and "0 < length (terms s)" and "\<not> term_lock 0 s" and "\<not> printf_lock s"
    and "term_init_done s \<noteq> TERM_INIT_NOT_DONE"
  shows "wp (vprintf env fmt args) (\<lambda>n t. same_console s t \<and> \<not> printf_lock t \<and> \<not> term_lock 0 t
    \<and> n = of_nat (length (npf_format env fmt args))) s"
proof -
  let ?u = "s\<lparr>int_flag := False, printf_lock := True\<rparr>"
  have "wp (foreach (debug_putchar env) (npf_format env fmt args)) (\<lambda>_. same_console ?u) ?u"
    using assms by (intro putchars_ok) (simp_all add: term_lock_def)
  then have "wp (foreach (debug_putchar env) (npf_format env fmt args))
      (\<lambda>_ t. same_console s (t\<lparr>printf_lock := False, int_flag := int_flag s\<rparr>) \<and> \<not> term_lock 0 t) ?u"
    by (rule wp_mono) (use assms(3,4) in \<open>auto simp: same_console_def term_lock_def\<close>)
  then have "wp (foreach (debug_putchar env) (npf_format env fmt args))
      (\<lambda>_ t. same_console s (t\<lparr>printf_lock := False, int_flag := int_flag s\<rparr>) \<and> \<not> term_lock 0 (t\<lparr>printf_lock := False, int_flag := int_flag s\<rparr>)) ?u"
    by (rule wp_mono) (simp add: term_lock_def)
  then show ?thesis
    using assms(4,5) by (simp add: vprintf_def term_init_def) (erule wp_mono, simp)
qed

text \<open>A terminal that ignores what is written, and nothing formatted but the text itself.\<close>

definition silent :: display where
  "silent = \<lparr>flanterm_fb_init = (\<lambda>_ fb. return 0x9000), flanterm_deinit = (\<lambda>_. return ()), flanterm_write = (\<lambda>_ _. return ()),
     npf_format = (\<lambda>fmt _. map of_char fmt), debug_build = True\<rparr>"

theorem vprintf_returns_witness:
  "wp (vprintf silent ''ok'' []) (\<lambda>n t. n = 2 \<and> int_flag t) (blank_kernel\<lparr>term_init_done := TERM_INIT_DEBUG_DONE, int_flag := True\<rparr>)"
proof -
  let ?s = "blank_kernel\<lparr>term_init_done := TERM_INIT_DEBUG_DONE, int_flag := True\<rparr>"
  have "display_ok silent (ft_ctx (terms ?s ! 0))" by (simp add: display_ok_def silent_def)
  moreover have "0 < length (terms ?s)" "\<not> term_lock 0 ?s" "\<not> printf_lock ?s" "term_init_done ?s \<noteq> TERM_INIT_NOT_DONE"
    by (simp_all add: blank_kernel_def kernel_image_def term_lock_def)
  ultimately have "wp (vprintf silent ''ok'' []) (\<lambda>n t. same_console ?s t \<and> \<not> printf_lock t \<and> \<not> term_lock 0 t
      \<and> n = of_nat (length (npf_format silent ''ok'' []))) ?s"
    by (rule vprintf_returns)
  then show ?thesis by (rule wp_mono) (simp add: same_console_def silent_def)
qed

text \<open>On a machine without framebuffers the first character of the first output is written to the
  terminal context null.\<close>

theorem headless_output_uses_null:
  assumes "framebuffer_response (boot s) = None" and "\<not> fb_init_done s" and "term_count s = 0"
    and "term_init_done s = TERM_INIT_NOT_DONE" and "terms s = replicate 16 \<lparr>term_spinlock = False, ft_ctx = 0\<rparr>"
    and "\<not> printf_lock s" and "npf_format env fmt args = c # cs" and "\<forall>d t. flanterm_write env 0 d t = Fault msg"
  shows "vprintf env fmt args s = Fault msg"
proof -
  have loop: "whileM (\<lambda>_ s. term_count s < fb_count s \<and> term_count s \<noteq> 1) (term_step env True) () (s\<lparr>fb_count := 0\<rparr>) = Ok ((), s\<lparr>fb_count := 0\<rparr>)"
    using assms(3) by (subst whileM_unfold) simp
  let ?t = "s\<lparr>fb_count := 0, term_init_done := TERM_INIT_DEBUG_DONE\<rparr>"
  have init: "term_init env True s = Ok ((), ?t)"
    using assms(1-4) by (simp add: term_init_def fb_init_def bind_Ok [where f = "whileM _ _ _", OF loop] bind_assoc run_basic)
  let ?u = "?t\<lparr>int_flag := False, printf_lock := True\<rparr>"
  have free: "\<not> term_lock 0 (?u\<lparr>int_flag := False\<rparr>)" using assms(5) by (simp add: term_lock_def)
  have ctx: "ft_ctx (terms (term_lock_update 0 (\<lambda>_. True) (?u\<lparr>int_flag := False\<rparr>)) ! 0) = 0" using assms(5) by (simp add: term_lock_defs)
  have "debug_putchar env c ?u = Fault msg"
    using free ctx assms(8)
    by (simp add: debug_putchar_def term_write_def bind_assoc bind_spinlock_acquire bind_Fault)
  then show ?thesis
    using assms(6,7) by (simp add: vprintf_def bind_Ok [where f = "term_init _ _", OF init] bind_spinlock_acquire bind_Fault)
qed

theorem headless_output_uses_null_witness:
  "vprintf (silent\<lparr>flanterm_write := \<lambda>ctx d. if ctx = 0 then fault ''null context'' else return ()\<rparr>) ''hi'' [] blank_kernel
     = Fault ''null context''"
  by (rule headless_output_uses_null [of _ _ _ _ "of_char (CHR ''h'')" "[of_char (CHR ''i'')]"])
    (simp_all add: blank_kernel_def blank_cpu_def kernel_image_def silent_def run_basic)

end
