(* ===== verification/Console.thy ===== *)
theory Console
  imports Terminal Vmm
begin

text \<open>
  The terminal on its way from the first message to the allocated terminals. What the boot relies on of the
  terminal emulator, which is not part of the repository, is a contract on its three entry points; under it
  \<open>term_init\<close> and the output of messages return and disturb only the screens and the pages of the terminals.
\<close>

section \<open>The contract of the emulator\<close>

text \<open>\<open>V\<close> is the memory of the screens and of the emulator itself; \<open>owns ctx P s\<close> says that \<open>ctx\<close> is a terminal
  context in good order, allocated on the pages \<open>P\<close>; \<open>room n F\<close> says that \<open>n\<close> more terminals can be allocated
  from the free pages \<open>F\<close>, and \<open>K\<close> bounds the pages that one takes.\<close>

type_synonym owner = "u64 \<Rightarrow> nat set \<Rightarrow> kernel \<Rightarrow> bool"

definition drawn :: "u64 set \<Rightarrow> nat set \<Rightarrow> kernel \<Rightarrow> memory \<Rightarrow> bool" where
  "drawn V P s m \<longleftrightarrow> (\<forall>x. x \<notin> V \<and> page_of s x \<notin> P \<longrightarrow> m x = mem s x)"

definition screen_apart :: "u64 set \<Rightarrow> kernel \<Rightarrow> bool" where
  "screen_apart V s \<longleftrightarrow> (\<forall>x \<in> V. \<not> bitmap_byte s x \<and> page_of s x \<notin> free_pages s)"

text \<open>Without an allocator a context is made in the emulator's own memory.\<close>

definition opens_early :: "display \<Rightarrow> u64 set \<Rightarrow> owner \<Rightarrow> u64 set \<Rightarrow> bool" where
  "opens_early env V owns FB \<longleftrightarrow> (\<forall>fb \<in> FB. \<forall>s. \<exists>ctx m. flanterm_fb_init env True fb s = Ok (ctx, s\<lparr>mem := m\<rparr>)
     \<and> drawn V {} s m \<and> owns ctx {} (s\<lparr>mem := m\<rparr>))"

definition closes :: "display \<Rightarrow> u64 set \<Rightarrow> owner \<Rightarrow> bool" where
  "closes env V owns \<longleftrightarrow> (\<forall>ctx s. owns ctx {} s \<longrightarrow> (\<exists>m. flanterm_deinit env ctx s = Ok ((), s\<lparr>mem := m\<rparr>) \<and> drawn V {} s m))"

definition writes :: "display \<Rightarrow> u64 set \<Rightarrow> owner \<Rightarrow> bool" where
  "writes env V owns \<longleftrightarrow> (\<forall>ctx P d s. owns ctx P s \<longrightarrow> (\<exists>m. flanterm_write env ctx d s = Ok ((), s\<lparr>mem := m\<rparr>)
     \<and> drawn V P s m \<and> owns ctx P (s\<lparr>mem := m\<rparr>)))"

text \<open>With the kernel's allocator it takes free pages, and leaves the other contexts in order.\<close>

definition opens :: "display \<Rightarrow> u64 set \<Rightarrow> owner \<Rightarrow> (nat \<Rightarrow> nat set \<Rightarrow> bool) \<Rightarrow> nat \<Rightarrow> u64 set \<Rightarrow> bool" where
  "opens env V owns room K FB \<longleftrightarrow> (\<forall>fb \<in> FB. \<forall>s n. pmm_ready s \<and> screen_apart V s \<and> room (Suc n) (free_pages s) \<longrightarrow>
     (\<exists>ctx P t. flanterm_fb_init env False fb s = Ok (ctx, t) \<and> alloc_frame s t \<and> pmm_ready t
        \<and> P \<subseteq> free_pages s \<and> card P \<le> K \<and> free_pages t = free_pages s - P \<and> room n (free_pages t)
        \<and> (\<forall>x. x \<notin> V \<and> page_of s x \<notin> P \<and> \<not> bitmap_byte s x \<longrightarrow> mem t x = mem s x)
        \<and> owns ctx P t \<and> (\<forall>ctx' P'. owns ctx' P' s \<and> P' \<inter> free_pages s = {} \<longrightarrow> owns ctx' P' t)))"

text \<open>A context depends on its own memory only.\<close>

definition stays :: "u64 set \<Rightarrow> owner \<Rightarrow> bool" where
  "stays V owns \<longleftrightarrow> (\<forall>ctx P s t. owns ctx P s \<and> hhdm t = hhdm s \<and> (\<forall>x. x \<in> V \<or> page_of s x \<in> P \<longrightarrow> mem t x = mem s x)
     \<longrightarrow> owns ctx P t)"

definition display_works :: "display \<Rightarrow> u64 set \<Rightarrow> owner \<Rightarrow> (nat \<Rightarrow> nat set \<Rightarrow> bool) \<Rightarrow> nat \<Rightarrow> u64 set \<Rightarrow> bool" where
  "display_works env V owns room K FB \<longleftrightarrow> opens_early env V owns FB \<and> closes env V owns \<and> writes env V owns
     \<and> opens env V owns room K FB \<and> stays V owns \<and> \<not> debug_build env"

lemma display_worksD:
  assumes "display_works env V owns room K FB"
  shows "fb \<in> FB \<Longrightarrow> \<exists>ctx m. flanterm_fb_init env True fb s = Ok (ctx, s\<lparr>mem := m\<rparr>) \<and> drawn V {} s m \<and> owns ctx {} (s\<lparr>mem := m\<rparr>)"
    and "owns ctx {} s \<Longrightarrow> \<exists>m. flanterm_deinit env ctx s = Ok ((), s\<lparr>mem := m\<rparr>) \<and> drawn V {} s m"
    and "owns ctx P s \<Longrightarrow> \<exists>m. flanterm_write env ctx d s = Ok ((), s\<lparr>mem := m\<rparr>) \<and> drawn V P s m \<and> owns ctx P (s\<lparr>mem := m\<rparr>)"
    and "fb \<in> FB \<Longrightarrow> pmm_ready s \<Longrightarrow> screen_apart V s \<Longrightarrow> room (Suc n) (free_pages s) \<Longrightarrow>
      \<exists>ctx P t. flanterm_fb_init env False fb s = Ok (ctx, t) \<and> alloc_frame s t \<and> pmm_ready t
        \<and> P \<subseteq> free_pages s \<and> card P \<le> K \<and> free_pages t = free_pages s - P \<and> room n (free_pages t)
        \<and> (\<forall>x. x \<notin> V \<and> page_of s x \<notin> P \<and> \<not> bitmap_byte s x \<longrightarrow> mem t x = mem s x)
        \<and> owns ctx P t \<and> (\<forall>ctx' P'. owns ctx' P' s \<and> P' \<inter> free_pages s = {} \<longrightarrow> owns ctx' P' t)"
    and "owns ctx P s \<Longrightarrow> hhdm t = hhdm s \<Longrightarrow> (\<And>x. x \<in> V \<or> page_of s x \<in> P \<Longrightarrow> mem t x = mem s x) \<Longrightarrow> owns ctx P t"
    and "\<not> debug_build env"
  using assms unfolding display_works_def opens_early_def closes_def writes_def opens_def stays_def by blast+

text \<open>The page allocator depends on its bitmap only.\<close>

lemma pmm_mem_cong:
  assumes "hhdm t = hhdm s" and "pmm_bitmap t = pmm_bitmap s" and "pmm_avl_page_count t = pmm_avl_page_count s"
    and "pmm_last_used_index t = pmm_last_used_index s" and "pmm_lock t = pmm_lock s" and "\<forall>x. bitmap_byte s x \<longrightarrow> mem t x = mem s x"
  shows "free_pages t = free_pages s" and "pmm_ready t \<longleftrightarrow> pmm_ready s" and "page_of t = page_of s" and "bitmap_byte t = bitmap_byte s"
proof -
  show pg: "page_of t = page_of s" and bb: "bitmap_byte t = bitmap_byte s" using assms(1-3) by (simp_all add: page_of_def bitmap_byte_def fun_eq_iff)
  have "page_free t i = page_free s i" if "i < unat (pmm_avl_page_count s)" for i
    using assms(2,6) that by (auto simp: page_free_def bitmap_bit_def bitmap_byte_def)
  then show "free_pages t = free_pages s" by (auto simp: free_pages_def assms(3))
  with pg bb show "pmm_ready t \<longleftrightarrow> pmm_ready s" using assms by (simp add: pmm_ready_def pmm_wf_def)
qed

lemma drawn_trans: "drawn V P s m \<Longrightarrow> drawn V P (s\<lparr>mem := m\<rparr>) m' \<Longrightarrow> drawn V P s m'"
  by (simp add: drawn_def page_of_def)

lemma drawn_refl [simp]: "drawn V P s (mem s)"
  by (simp add: drawn_def)

section \<open>Output\<close>

definition console_up :: "owner \<Rightarrow> nat set \<Rightarrow> kernel \<Rightarrow> bool" where
  "console_up owns P s \<longleftrightarrow> term_init_done s \<noteq> TERM_INIT_NOT_DONE \<and> 0 < length (terms s) \<and> \<not> term_lock 0 s
     \<and> owns (ft_ctx (terms s ! 0)) P s"

lemma console_up_mem: "owns (ft_ctx (terms s ! 0)) P (s\<lparr>mem := m\<rparr>) \<Longrightarrow> console_up owns P s \<Longrightarrow> console_up owns P (s\<lparr>mem := m\<rparr>)"
  by (simp add: console_up_def term_lock_def)

lemma unlocked_terms: "\<not> term_lock 0 s \<Longrightarrow> (terms s)[0 := term_spinlock_update (\<lambda>_. False) (terms s ! 0)] = terms s"
  by (simp add: term_lock_def term_spinlock_update_id)

lemma debug_putchar_draws:
  assumes w: "display_works env V owns room K FB" and c: "console_up owns P s"
  shows "\<exists>m. debug_putchar env c s = Ok ((), s\<lparr>mem := m\<rparr>) \<and> drawn V P s m \<and> console_up owns P (s\<lparr>mem := m\<rparr>)"
proof -
  let ?ctx = "ft_ctx (terms s ! 0)" and ?u = "term_lock_update 0 (\<lambda>_. True) (s\<lparr>int_flag := False\<rparr>)"
  have l: "0 < length (terms s)" "\<not> term_lock 0 s" "term_init_done s \<noteq> TERM_INIT_NOT_DONE" "owns ?ctx P s"
    using c by (simp_all add: console_up_def)
  have "owns ?ctx P ?u" by (rule display_worksD(5) [OF w l(4)]) (simp_all add: term_lock_update_def)
  then obtain m where m: "flanterm_write env ?ctx [c] ?u = Ok ((), ?u\<lparr>mem := m\<rparr>)" "drawn V P ?u m" "owns ?ctx P (?u\<lparr>mem := m\<rparr>)"
    using display_worksD(3) [OF w] by blast
  have ctx: "ft_ctx (terms ?u ! 0) = ?ctx" using l(1) by (simp add: term_lock_defs)
  have free: "\<not> term_lock 0 (s\<lparr>int_flag := False\<rparr>)" using l(2) by (simp add: term_lock_def)
  have undo: "(term_lock_update 0 (\<lambda>_. False) (?u\<lparr>mem := m\<rparr>))\<lparr>int_flag := int_flag s\<rparr> = s\<lparr>mem := m\<rparr>"
    using l(1) unlocked_terms [OF l(2)] by (simp add: term_lock_update_def comp_def)
  have "debug_putchar env c s = Ok ((), s\<lparr>mem := m\<rparr>)"
    using free l(3) display_worksD(6) [OF w] m(1) undo
    by (simp add: debug_putchar_def term_write_def bind_assoc bind_spinlock_acquire ctx bind_Ok run_basic)
  moreover have "owns ?ctx P (s\<lparr>mem := m\<rparr>)" by (rule display_worksD(5) [OF w m(3)]) (simp_all add: term_lock_update_def)
  moreover have "drawn V P s m" using m(2) by (simp add: drawn_def page_of_def term_lock_update_def)
  ultimately show ?thesis using console_up_mem [OF _ c] by blast
qed


lemma putchars_draw:
  assumes w: "display_works env V owns room K FB" and "console_up owns P s"
  shows "\<exists>m. foreach (debug_putchar env) cs s = Ok ((), s\<lparr>mem := m\<rparr>) \<and> drawn V P s m \<and> console_up owns P (s\<lparr>mem := m\<rparr>)"
  using assms(2)
proof (induction cs arbitrary: s)
  case Nil
  then show ?case by (intro exI [of _ "mem s"]) (simp add: run_basic)
next
  case (Cons c cs)
  obtain m where m: "debug_putchar env c s = Ok ((), s\<lparr>mem := m\<rparr>)" "drawn V P s m" "console_up owns P (s\<lparr>mem := m\<rparr>)"
    using debug_putchar_draws [OF w Cons.prems] by blast
  from Cons.IH [OF m(3)] obtain m' where m': "foreach (debug_putchar env) cs (s\<lparr>mem := m\<rparr>) = Ok ((), s\<lparr>mem := m'\<rparr>)"
    "drawn V P (s\<lparr>mem := m\<rparr>) m'" "console_up owns P (s\<lparr>mem := m'\<rparr>)" by auto
  then show ?case using m(1) drawn_trans [OF m(2) m'(2)] by (auto simp: bind_Ok)
qed

lemma console_up_quiet:
  assumes "display_works env V owns room K FB" and "console_up owns P s"
    and "hhdm t = hhdm s" and "mem t = mem s" and "terms t = terms s" and "term_init_done t = term_init_done s"
  shows "console_up owns P t"
  using assms(2-) display_worksD(5) [OF assms(1), of "ft_ctx (terms s ! 0)" P s t] by (simp add: console_up_def term_lock_def)

lemma vprintf_draws:
  assumes w: "display_works env V owns room K FB" and c: "console_up owns P s" and l: "\<not> printf_lock s"
  shows "\<exists>m n. vprintf env fmt args s = Ok (n, s\<lparr>mem := m\<rparr>) \<and> drawn V P s m \<and> console_up owns P (s\<lparr>mem := m\<rparr>)"
proof -
  let ?u = "s\<lparr>int_flag := False, printf_lock := True\<rparr>"
  have "console_up owns P ?u" by (rule console_up_quiet [OF w c]) simp_all
  from putchars_draw [OF w this] obtain m where m: "foreach (debug_putchar env) (npf_format env fmt args) ?u = Ok ((), ?u\<lparr>mem := m\<rparr>)"
    "drawn V P ?u m" "console_up owns P (?u\<lparr>mem := m\<rparr>)" by blast
  have "console_up owns P (s\<lparr>mem := m\<rparr>)" by (rule console_up_quiet [OF w m(3)]) simp_all
  moreover have "drawn V P s m" using m(2) by (simp add: drawn_def page_of_def)
  moreover have "term_init env True s = Ok ((), s)" using c by (simp add: term_init_def console_up_def run_basic)
  then have "vprintf env fmt args s = Ok (of_nat (length (npf_format env fmt args)), s\<lparr>mem := m\<rparr>)"
    using m(1) l by (simp add: vprintf_def bind_Ok bind_spinlock_acquire run_basic)
  ultimately show ?thesis by blast
qed

abbreviation print_all :: "display \<Rightarrow> (string \<times> print_arg list) list \<Rightarrow> unit kprog" where
  "print_all env \<equiv> foreach (\<lambda>(fmt, args). bind (printf_args env (fmt @ [CHR 0x0a]) args) (\<lambda>_. return ()))"

lemma print_all_draws:
  assumes w: "display_works env V owns room K FB" and "console_up owns P s" and "\<not> printf_lock s"
  shows "\<exists>m. print_all env msgs s = Ok ((), s\<lparr>mem := m\<rparr>) \<and> drawn V P s m \<and> console_up owns P (s\<lparr>mem := m\<rparr>)"
  using assms(2,3)
proof (induction msgs arbitrary: s)
  case Nil
  then show ?case by (intro exI [of _ "mem s"]) (simp add: run_basic)
next
  case (Cons x msgs)
  obtain fmt args where x: "x = (fmt, args)" by fastforce
  obtain m n where m: "vprintf env (fmt @ [CHR 0x0a]) args s = Ok (n, s\<lparr>mem := m\<rparr>)" "drawn V P s m" "console_up owns P (s\<lparr>mem := m\<rparr>)"
    using vprintf_draws [OF w Cons.prems] by blast
  from Cons.IH [OF m(3)] Cons.prems(2) obtain m' where m': "print_all env msgs (s\<lparr>mem := m\<rparr>) = Ok ((), s\<lparr>mem := m'\<rparr>)"
    "drawn V P (s\<lparr>mem := m\<rparr>) m'" "console_up owns P (s\<lparr>mem := m'\<rparr>)" by auto
  then show ?case using m(1) drawn_trans [OF m(2) m'(2)] by (auto simp: x printf_args_def bind_assoc bind_Ok run_basic)
qed

text \<open>With a terminal the pending messages come out, and nothing but the screen and the terminal's pages changes.\<close>

lemma flush_log_draws:
  assumes w: "display_works env V owns room K FB" and c: "console_up owns P s" and l: "\<not> printf_lock s"
  shows "\<exists>m. flush_log env s = Ok ((), s\<lparr>klog := [], mem := m\<rparr>) \<and> drawn V P s m \<and> console_up owns P (s\<lparr>klog := [], mem := m\<rparr>)"
proof -
  let ?u = "s\<lparr>klog := []\<rparr>"
  have "console_up owns P ?u" by (rule console_up_quiet [OF w c]) simp_all
  from print_all_draws [OF w this] l obtain m where m: "print_all env (klog s) ?u = Ok ((), ?u\<lparr>mem := m\<rparr>)" "drawn V P ?u m"
    "console_up owns P (?u\<lparr>mem := m\<rparr>)" by auto
  then show ?thesis by (auto simp: flush_log_def run_basic drawn_def page_of_def)
qed


section \<open>The first message\<close>

text \<open>The console as the image has it, and with the terminal that the first message sets up.\<close>

definition console_blank :: "kernel \<Rightarrow> bool" where
  "console_blank s \<longleftrightarrow> \<not> fb_init_done s \<and> length (fbs s) = 16 \<and> terms s = replicate 16 \<lparr>term_spinlock = False, ft_ctx = 0\<rparr>
     \<and> term_count s = 0 \<and> term_init_done s = TERM_INIT_NOT_DONE \<and> \<not> printf_lock s"

abbreviation screens :: "u64 list \<Rightarrow> nat" where
  "screens l \<equiv> min 16 (length l)"

definition console_early :: "owner \<Rightarrow> u64 list \<Rightarrow> kernel \<Rightarrow> bool" where
  "console_early owns l s \<longleftrightarrow> fb_init_done s \<and> fb_count s = of_nat (screens l) \<and> take (screens l) (fbs s) = take (screens l) l
     \<and> term_count s = 1 \<and> term_init_done s = TERM_INIT_DEBUG_DONE \<and> length (terms s) = 16 \<and> \<not> printf_lock s
     \<and> console_up owns {} s"

text \<open>Nothing but the console, memory and the rotating index of the page allocator changes.\<close>

definition console_frame :: "kernel \<Rightarrow> kernel \<Rightarrow> bool" where
  "console_frame s t \<longleftrightarrow> (\<exists>f n d ts k p g m j. t = s\<lparr>fbs := f, fb_count := n, fb_init_done := d, terms := ts, term_count := k,
     term_init_done := p, klog := g, mem := m, pmm_last_used_index := j\<rparr>)"

lemma console_frameI:
  "t = s\<lparr>fbs := fbs t, fb_count := fb_count t, fb_init_done := fb_init_done t, terms := terms t, term_count := term_count t,
     term_init_done := term_init_done t, klog := klog t, mem := mem t, pmm_last_used_index := pmm_last_used_index t\<rparr>
   \<Longrightarrow> console_frame s t"
  unfolding console_frame_def by blast

lemma console_frame_trans: "console_frame s t \<Longrightarrow> console_frame t u \<Longrightarrow> console_frame s u"
  unfolding console_frame_def by clarsimp blast

lemma console_frame_log: "console_frame s (s\<lparr>klog := g\<rparr>)" and console_frame_mem: "console_frame s (s\<lparr>mem := m\<rparr>)"
  by (rule console_frameI, simp)+

lemma console_frame_pages: "alloc_frame s t \<Longrightarrow> console_frame s t"
  by (rule console_frameI) (auto simp: alloc_frame_def)

lemma fb_init_run:
  assumes "\<not> fb_init_done s" and "length (fbs s) = 16" and r: "framebuffer_response (boot s) = Some l" and "length l < 2 ^ 64"
  shows "fb_init s = Ok ((), s\<lparr>fb_count := of_nat (screens l), fbs := take (screens l) l @ drop (screens l) (fbs s), fb_init_done := True\<rparr>)"
proof -
  let ?s = "s\<lparr>fb_count := 0\<rparr>"
  have "length (fbs ?s) = 16" "0 \<le> screens l" "unat (fb_count ?s) = 0" using assms(2) by simp_all
  note loop = fb_loop [OF this(1) refl assms(4) this(2,3)]
  show ?thesis using assms(1) r by (simp add: fb_init_def bind_Ok [where f = "whileM _ _ _", OF loop] run_basic)
qed

lemma term_init_early:
  assumes w: "display_works env V owns room K (set l)" and b: "console_blank s"
    and r: "framebuffer_response (boot s) = Some l" "length l < 2 ^ 64" "l \<noteq> []"
  shows "\<exists>t. term_init env True s = Ok ((), t) \<and> console_early owns l t \<and> console_frame s t
    \<and> pmm_last_used_index t = pmm_last_used_index s \<and> drawn V {} s (mem t)"
proof -
  let ?n = "screens l" and ?T = "terms s"
  let ?u = "s\<lparr>fb_count := of_nat ?n, fbs := take ?n l @ drop ?n (fbs s), fb_init_done := True\<rparr>"
  have bl: "\<not> fb_init_done s" "length (fbs s) = 16" "?T = replicate 16 \<lparr>term_spinlock = False, ft_ctx = 0\<rparr>"
    "term_count s = 0" "term_init_done s = TERM_INIT_NOT_DONE" "\<not> printf_lock s" using b by (simp_all add: console_blank_def)
  have T: "?T[0 := (?T ! 0)\<lparr>term_spinlock := False\<rparr>] = ?T" by (simp add: bl(3) list_update_same_conv)
  have n: "0 < ?n" using r(3) by simp
  have hd: "fbs ?u ! 0 = l ! 0" using n by (simp add: nth_append)
  have "l ! 0 \<in> set l" using r(3) by simp
  from display_worksD(1) [OF w this, of ?u] obtain ctx m where m: "flanterm_fb_init env True (l ! 0) ?u = Ok (ctx, ?u\<lparr>mem := m\<rparr>)"
    "drawn V {} ?u m" "owns ctx {} (?u\<lparr>mem := m\<rparr>)" by blast
  let ?v = "?u\<lparr>mem := m, terms := ?T[0 := (?T ! 0)\<lparr>ft_ctx := ctx\<rparr>], term_count := 1\<rparr>"
  let ?b = "\<lambda>_ s. term_count s < fb_count s \<and> term_count s \<noteq> 1"
  have "(0 :: u64) < of_nat ?n" using n unat_of_nat_u64 [of ?n] by (simp add: word_less_nat_alt)
  moreover have "term_step env True () ?u = Ok ((), ?v)" using bl(4) m(1) hd T by (simp add: term_step_def bind_Ok run_basic)
  ultimately have "whileM ?b (term_step env True) () ?u = whileM ?b (term_step env True) () ?v"
    using bl(4) by (subst whileM_unfold) (simp add: bind_Ok)
  also have "\<dots> = Ok ((), ?v)" by (subst whileM_unfold) simp
  finally have loop: "whileM ?b (term_step env True) () ?u = Ok ((), ?v)" .
  let ?t = "?v\<lparr>term_init_done := TERM_INIT_DEBUG_DONE\<rparr>"
  have "term_init env True s = Ok ((), ?t)"
    using fb_init_run [OF bl(1,2) r(1,2)] bl(4,5) loop by (simp add: term_init_def bind_assoc bind_Ok run_basic)
  moreover have "owns ctx {} ?t" by (rule display_worksD(5) [OF w m(3)]) simp_all
  then have "console_early owns l ?t" using bl(6) n by (simp add: console_early_def console_up_def term_lock_def bl(3))
  moreover have "console_frame s ?t" by (rule console_frameI) simp
  moreover have "drawn V {} s (mem ?t)" using m(2) by (simp add: drawn_def page_of_def)
  ultimately show ?thesis by (intro exI [of _ ?t]) simp
qed

text \<open>The first message sets up the terminal on the first screen and comes out on it.\<close>

lemma flush_log_first:
  assumes w: "display_works env V owns room K (set l)" and b: "console_blank s" and k: "klog s \<noteq> []"
    and r: "framebuffer_response (boot s) = Some l" "length l < 2 ^ 64" "l \<noteq> []"
  shows "\<exists>t. flush_log env s = Ok ((), t) \<and> console_early owns l t \<and> console_frame s t
    \<and> pmm_last_used_index t = pmm_last_used_index s \<and> drawn V {} s (mem t)"
proof -
  let ?s = "s\<lparr>klog := []\<rparr>"
  obtain x xs where x: "klog s = x # xs" using k by (cases "klog s") auto
  have "console_blank ?s" "framebuffer_response (boot ?s) = Some l" using b r(1) by (simp_all add: console_blank_def)
  from term_init_early [OF w this r(2,3)] obtain t where t: "term_init env True ?s = Ok ((), t)" "console_early owns l t"
    "console_frame ?s t" "pmm_last_used_index t = pmm_last_used_index s" "drawn V {} ?s (mem t)" by auto
  have c: "console_up owns {} t" "\<not> printf_lock t" using t(2) by (simp_all add: console_early_def)
  have "term_init env True t = Ok ((), t)" using c(1) by (simp add: term_init_def console_up_def run_basic)
  then have "vprintf env fmt args ?s = vprintf env fmt args t" for fmt args
    using t(1) by (simp add: vprintf_def bind_Ok)
  then have "print_all env (klog s) ?s = print_all env (klog s) t"
    unfolding x by (cases x) (simp add: printf_args_def bind_assoc, simp add: bind_def)
  moreover obtain m where m: "print_all env (klog s) t = Ok ((), t\<lparr>mem := m\<rparr>)" "drawn V {} t m" "console_up owns {} (t\<lparr>mem := m\<rparr>)"
    using print_all_draws [OF w c] by blast
  ultimately have "flush_log env s = Ok ((), t\<lparr>mem := m\<rparr>)" by (simp add: flush_log_def run_basic)
  moreover have "console_early owns l (t\<lparr>mem := m\<rparr>)" using t(2) m(3) by (simp add: console_early_def)
  moreover have "console_frame s (t\<lparr>mem := m\<rparr>)"
    by (rule console_frame_trans [OF console_frame_log console_frame_trans [OF t(3) console_frame_mem]])
  moreover have "drawn V {} s m" using m(2) t(3,5) by (auto simp: drawn_def page_of_def console_frame_def)
  ultimately show ?thesis using t(4) by (intro exI [of _ "t\<lparr>mem := m\<rparr>"]) simp
qed


section \<open>The allocated terminals\<close>

lemma console_frame_fields:
  assumes "console_frame s t"
  shows "hhdm t = hhdm s" "page_of t = page_of s" "bitmap_byte t = bitmap_byte s" "boot t = boot s" "printf_lock t = printf_lock s"
    "pmm_avl_page_count t = pmm_avl_page_count s"
  using assms by (auto simp: console_frame_def page_of_def bitmap_byte_def fun_eq_iff)

text \<open>What \<open>k\<close> of \<open>n\<close> terminals made since \<open>s\<close> leave alone. The first has pages of its own.\<close>

definition terms_made :: "u64 set \<Rightarrow> owner \<Rightarrow> (nat \<Rightarrow> nat set \<Rightarrow> bool) \<Rightarrow> nat \<Rightarrow> nat \<Rightarrow> kernel \<Rightarrow> nat \<Rightarrow> kernel \<Rightarrow> bool" where
  "terms_made V owns room K n s k t \<longleftrightarrow> console_frame s t \<and> term_count t = of_nat k \<and> fb_count t = fb_count s \<and> fbs t = fbs s
     \<and> length (terms t) = 16 \<and> pmm_ready t \<and> room (n - k) (free_pages t) \<and> free_pages t \<subseteq> free_pages s
     \<and> card (free_pages s) \<le> card (free_pages t) + k * K
     \<and> (\<forall>x. x \<notin> V \<and> page_of s x \<notin> free_pages s \<and> \<not> bitmap_byte s x \<longrightarrow> mem t x = mem s x)
     \<and> (0 < k \<longrightarrow> \<not> term_lock 0 t \<and> (\<exists>P. P \<subseteq> free_pages s - free_pages t \<and> owns (ft_ctx (terms t ! 0)) P t))"

lemma term_step_makes:
  assumes w: "display_works env V owns room K (set l)" and v: "screen_apart V s"
    and f: "take n (fbs s) = take n l" "n \<le> 16" "n \<le> length l" and k: "k < n" and made: "terms_made V owns room K n s k t"
  shows "\<exists>u. term_step env False () t = Ok ((), u) \<and> terms_made V owns room K n s (Suc k) u"
proof -
  let ?T = "(terms t)[k := (terms t ! k)\<lparr>term_spinlock := False\<rparr>]"
  let ?t = "t\<lparr>terms := ?T\<rparr>"
  have fr: "console_frame s t" and c: "term_count t = of_nat k" "fb_count t = fb_count s" "fbs t = fbs s" "length (terms t) = 16" "pmm_ready t"
      "room (n - k) (free_pages t)" "free_pages t \<subseteq> free_pages s" "card (free_pages s) \<le> card (free_pages t) + k * K"
    and mem: "\<And>x. x \<notin> V \<Longrightarrow> page_of s x \<notin> free_pages s \<Longrightarrow> \<not> bitmap_byte s x \<Longrightarrow> mem t x = mem s x"
    and first: "0 < k \<Longrightarrow> \<not> term_lock 0 t \<and> (\<exists>P. P \<subseteq> free_pages s - free_pages t \<and> owns (ft_ctx (terms t ! 0)) P t)"
    using made by (simp_all add: terms_made_def)
  note ff = console_frame_fields [OF fr]
  have i: "unat (of_nat k :: u64) = k" using k f(2) by (intro unat_of_nat_u64) simp
  have "vm_same t ?t" by (simp add: vm_same_def)
  note s1 = vm_same_cong [OF this]
  have "take n (fbs s) ! k = fbs s ! k" "take n l ! k = l ! k" using k by simp_all
  then have fb: "fbs ?t ! k = l ! k" using f(1) c(3) by simp
  have in_l: "l ! k \<in> set l" using k f(3) by simp
  have rd: "pmm_ready ?t" "screen_apart V ?t" "room (Suc (n - Suc k)) (free_pages ?t)"
    using c(5-7) v ff k by (auto simp: s1 screen_apart_def Suc_diff_Suc)
  from display_worksD(4) [OF w in_l rd] obtain ctx P u where u: "flanterm_fb_init env False (l ! k) ?t = Ok (ctx, u)" "alloc_frame ?t u" "pmm_ready u"
      "P \<subseteq> free_pages t" "card P \<le> K" "free_pages u = free_pages t - P" "room (n - Suc k) (free_pages u)"
    and um: "\<And>x. x \<notin> V \<Longrightarrow> page_of t x \<notin> P \<Longrightarrow> \<not> bitmap_byte t x \<Longrightarrow> mem u x = mem t x"
    and uo: "owns ctx P u" and others: "\<And>ctx' P'. owns ctx' P' ?t \<Longrightarrow> P' \<inter> free_pages t = {} \<Longrightarrow> owns ctx' P' u"
    unfolding s1 by auto
  let ?u = "u\<lparr>terms := ?T[k := (?T ! k)\<lparr>ft_ctx := ctx\<rparr>], term_count := of_nat (Suc k)\<rparr>"
  have uf: "terms u = ?T" "term_count u = of_nat k" "fb_count u = fb_count s" "fbs u = fbs s" "hhdm u = hhdm t" "page_of u = page_of t"
    using u(2) c(1-3) by (auto simp: alloc_frame_def page_of_def fun_eq_iff)
  have "vm_same u ?u" by (simp add: vm_same_def)
  note s2 = vm_same_cong [OF this]
  have run: "term_step env False () t = Ok ((), ?u)"
    using u(1) fb uf(1,2) by (simp add: term_step_def c(1) i bind_Ok run_basic add.commute)
  have frame: "console_frame s ?u"
  proof -
    have "console_frame t ?t" "console_frame u ?u" by (rule console_frameI, simp)+
    then show ?thesis using console_frame_trans [OF fr] console_frame_trans console_frame_pages [OF u(2)] by blast
  qed
  have moved: "owns c Q ?u" if "owns c Q u" for c Q by (rule display_worksD(5) [OF w that]) simp_all
  have "\<not> term_lock 0 ?u \<and> (\<exists>P. P \<subseteq> free_pages s - free_pages ?u \<and> owns (ft_ctx (terms ?u ! 0)) P ?u)"
  proof (cases "k = 0")
    case True
    then show ?thesis unfolding s2 using c(4,7) u(4,6) moved [OF uo] by (auto simp: term_lock_def intro!: exI [of _ P])
  next
    case False
    then obtain Q where Q: "\<not> term_lock 0 t" "Q \<subseteq> free_pages s - free_pages t" "owns (ft_ctx (terms t ! 0)) Q t" using first by auto
    have "owns (ft_ctx (terms t ! 0)) Q ?t" by (rule display_worksD(5) [OF w Q(3)]) simp_all
    then have "owns (ft_ctx (terms t ! 0)) Q ?u" using Q(2) by (intro moved others) auto
    then show ?thesis unfolding s2 using False Q(1,2) u(6) by (auto simp: term_lock_def intro!: exI [of _ Q])
  qed
  moreover have "card (free_pages s) \<le> card (free_pages ?u) + Suc k * K"
    unfolding s2 using c(8) u(4-6) finite_free_pages [of t] card_mono [of "free_pages t" P] by (simp add: card_Diff_subset finite_subset)
  moreover have "mem ?u x = mem s x" if "x \<notin> V" "page_of s x \<notin> free_pages s" "\<not> bitmap_byte s x" for x
    using um [of x] mem [of x] that u(4) c(7) ff by auto
  moreover have "length (terms ?u) = 16" "term_count ?u = of_nat (Suc k)" "fb_count ?u = fb_count s" "fbs ?u = fbs s"
    using c(4) uf(3,4) by simp_all
  moreover have "pmm_ready ?u" "room (n - Suc k) (free_pages ?u)" "free_pages ?u \<subseteq> free_pages s"
    unfolding s2 using u(3,6,7) c(7) by auto
  ultimately have "terms_made V owns room K n s (Suc k) ?u" using frame unfolding terms_made_def by blast
  then show ?thesis using run by blast
qed

lemma term_loop:
  assumes w: "display_works env V owns room K (set l)" and v: "screen_apart V s"
    and f: "take n (fbs s) = take n l" "n \<le> 16" "n \<le> length l" "fb_count s = of_nat n" and "k \<le> n" and "terms_made V owns room K n s k t"
  shows "\<exists>u. whileM (\<lambda>_ s. term_count s < fb_count s \<and> term_count s \<noteq> TERMS_MAX) (term_step env False) () t = Ok ((), u)
    \<and> terms_made V owns room K n s n u"
  using assms(7,8)
proof (induction "n - k" arbitrary: k t)
  case 0
  then have "term_count t = of_nat n" "fb_count t = of_nat n" using f(4) by (simp_all add: terms_made_def)
  then show ?case using 0 by (subst whileM_unfold) auto
next
  case (Suc m)
  then have k: "k < n" by simp
  obtain u where u: "term_step env False () t = Ok ((), u)" "terms_made V owns room K n s (Suc k) u"
    using term_step_makes [OF w v f(1-3) k Suc.prems(2)] by blast
  have "term_count t = of_nat k" "fb_count t = of_nat n" using f(4) Suc.prems(2) by (simp_all add: terms_made_def)
  moreover have "unat (of_nat k :: u64) = k" "unat (of_nat n :: u64) = n" using k f(2) by (intro unat_of_nat_u64, simp)+
  ultimately have "term_count t < fb_count t \<and> term_count t \<noteq> TERMS_MAX" using k f(2) by (auto simp: word_less_nat_alt TERMS_MAX_def word_unat_eq_iff)
  then show ?case
    using Suc.hyps(1) [of "Suc k" u] Suc.hyps(2) k u by (subst whileM_unfold) (simp add: bind_Ok)
qed

text \<open>The early terminal is given up, and every screen there is room for gets a terminal of its own.\<close>

lemma term_init_normal:
  assumes w: "display_works env V owns room K (set l)" and v: "screen_apart V s" and e: "console_early owns l s" and l: "l \<noteq> []"
    and rd: "pmm_ready s" and room: "room (screens l) (free_pages s)"
  shows "\<exists>t P. term_init env False s = Ok ((), t) \<and> console_frame s t \<and> console_up owns P t \<and> pmm_ready t
    \<and> P \<subseteq> free_pages s - free_pages t \<and> free_pages t \<subseteq> free_pages s \<and> card (free_pages s) \<le> card (free_pages t) + screens l * K
    \<and> (\<forall>x. x \<notin> V \<and> page_of s x \<notin> free_pages s \<and> \<not> bitmap_byte s x \<longrightarrow> mem t x = mem s x)"
proof -
  have c: "fb_init_done s" "fb_count s = of_nat (screens l)" "take (screens l) (fbs s) = take (screens l) l" "term_count s = 1"
    "term_init_done s = TERM_INIT_DEBUG_DONE" "length (terms s) = 16" "owns (ft_ctx (terms s ! 0)) {} s"
    using e by (simp_all add: console_early_def console_up_def)
  obtain m where m: "flanterm_deinit env (ft_ctx (terms s ! 0)) s = Ok ((), s\<lparr>mem := m\<rparr>)" "drawn V {} s m"
    using display_worksD(2) [OF w c(7)] by blast
  let ?s = "s\<lparr>mem := m, term_count := 0\<rparr>"
  have frame: "console_frame s ?s" by (rule console_frameI) simp
  have same: "mem ?s x = mem s x" if "x \<notin> V" for x using m(2) that by (simp add: drawn_def)
  have bm: "\<forall>x. bitmap_byte s x \<longrightarrow> mem ?s x = mem s x" using v same by (auto simp: screen_apart_def)
  have fp: "free_pages ?s = free_pages s" "pmm_ready ?s" using pmm_mem_cong [OF _ _ _ _ _ bm] rd by simp_all
  have sc: "screen_apart V ?s" using v console_frame_fields(2,3) [OF frame] by (simp add: screen_apart_def fp)
  have "terms_made V owns room K (screens l) ?s 0 ?s"
    using c(6) fp room by (simp add: terms_made_def console_frameI)
  from term_loop [OF w sc _ _ _ _ _ this] c(2,3) obtain u where u:
    "whileM (\<lambda>_ s. term_count s < fb_count s \<and> term_count s \<noteq> TERMS_MAX) (term_step env False) () ?s = Ok ((), u)"
    "terms_made V owns room K (screens l) ?s (screens l) u" by auto
  let ?t = "u\<lparr>term_init_done := TERM_INIT_NORMAL_DONE\<rparr>"
  have "vm_same u ?t" by (simp add: vm_same_def)
  note s2 = vm_same_cong [OF this]
  have "0 < screens l" using l by simp
  then obtain P where P: "\<not> term_lock 0 u" "P \<subseteq> free_pages s - free_pages u" "owns (ft_ctx (terms u ! 0)) P u"
    using u(2) fp(1) by (auto simp: terms_made_def)
  have "owns (ft_ctx (terms u ! 0)) P ?t" by (rule display_worksD(5) [OF w P(3)]) simp_all
  then have "console_up owns P ?t" using P(1) u(2) by (simp add: console_up_def terms_made_def term_lock_def)
  moreover have "console_frame u ?t" by (rule console_frameI) simp
  then have "console_frame s ?t" using u(2) console_frame_trans frame unfolding terms_made_def by blast
  moreover have "term_init env False s = Ok ((), ?t)"
    using c(1,4,5) m(1) u(1) by (simp add: term_init_def fb_init_def bind_assoc bind_Ok run_basic)
  moreover have "mem ?t x = mem s x" if "x \<notin> V" "page_of s x \<notin> free_pages s" "\<not> bitmap_byte s x" for x
    using u(2) that same [OF that(1)] console_frame_fields(2,3) [OF frame] by (simp add: terms_made_def fp)
  ultimately show ?thesis
    using u(2) P(2) fp(1) by (intro exI [of _ ?t] exI [of _ P]) (simp add: terms_made_def s2)
qed


text \<open>Output disturbs neither the page allocator nor the page tables.\<close>

lemma flush_log_tables:
  assumes w: "display_works env V owns room K FB" and c: "console_up owns P s" and l: "\<not> printf_lock s" and inv: "pt_inv s T"
    and V: "\<And>x. x \<in> V \<Longrightarrow> page_of s x \<notin> ran T \<and> \<not> bitmap_byte s x" and P: "P \<inter> ran T = {}" "\<And>x. bitmap_byte s x \<Longrightarrow> page_of s x \<notin> P"
  shows "\<exists>m. flush_log env s = Ok ((), s\<lparr>klog := [], mem := m\<rparr>) \<and> drawn V P s m \<and> console_up owns P (s\<lparr>klog := [], mem := m\<rparr>)
    \<and> pt_inv (s\<lparr>klog := [], mem := m\<rparr>) T \<and> translate (s\<lparr>klog := [], mem := m\<rparr>) = translate s
    \<and> free_pages (s\<lparr>klog := [], mem := m\<rparr>) = free_pages s"
proof -
  obtain m where m: "flush_log env s = Ok ((), s\<lparr>klog := [], mem := m\<rparr>)" "drawn V P s m" "console_up owns P (s\<lparr>klog := [], mem := m\<rparr>)"
    using flush_log_draws [OF w c l] by blast
  let ?s = "s\<lparr>klog := []\<rparr>" and ?t = "s\<lparr>klog := [], mem := m\<rparr>"
  have "vm_same s ?s" by (simp add: vm_same_def)
  note v = vm_same_cong [OF this]
  have bs: "\<forall>x. bitmap_byte s x \<longrightarrow> mem ?t x = mem s x" using m(2) V P(2) by (auto simp: drawn_def)
  have p: "free_pages ?t = free_pages s" "pmm_ready ?t = pmm_ready s" by (rule pmm_mem_cong [OF _ _ _ _ _ bs]; simp)+
  have fr: "alloc_frame ?s ?t" unfolding alloc_frame_def by (intro exI [of _ "pmm_last_used_index s"] exI [of _ m]) simp
  have inv': "pt_inv ?s T" using inv v(5) by simp
  have rd: "pmm_ready ?t" "free_pages ?t \<subseteq> free_pages ?s" using p pt_invD(1) [OF inv] v(3) by simp_all
  have tab: "mem ?t x = mem ?s x" if "q \<in> ran T" "page_of ?s x = q" for q x
    using m(2) V [of x] P(1) that v(1) by (auto simp: drawn_def)
  note f = pt_inv_frame [OF inv' fr rd tab]
  show ?thesis using m f(1) translate_frame [OF inv' fr f(1,2)] v(6) p(1) by auto
qed

end
