(* ===== verification/Boot.thy ===== *)
theory Boot
  imports Pmm_Props Slab_Props Vmm_Init Idt Console
begin

text \<open>
  The first half of the boot, from the loaded image to the kernel's own page tables: \<open>pmm_init\<close>,
  \<open>slab_init\<close>, \<open>term_init\<close>, \<open>gdt_init\<close>, \<open>idt_init\<close>, \<open>isr_init\<close> and \<open>vmm_init\<close> in the order of
  \<open>kmain\<close>, each starting from what the one before it established. The messages of \<open>pmm_init\<close> and
  \<open>vmm_init\<close> are printed when these return.
\<close>

section \<open>Definitions\<close>

definition boot_memory :: "display \<Rightarrow> unit kprog" where
  "boot_memory env =
     bind pmm_init (\<lambda>_.
     bind (flush_log env) (\<lambda>_.
     bind slab_init (\<lambda>_.
     bind (term_init env False) (\<lambda>_.
     bind gdt_init (\<lambda>_.
     bind idt_init (\<lambda>_.
     bind isr_init (\<lambda>_.
     bind vmm_init (\<lambda>_.
     flush_log env))))))))"

text \<open>The pages the page allocator starts with, and what has to be mapped.\<close>

definition boot_free :: "memmap_entry list \<Rightarrow> nat set" where
  "boot_free es = {i. usable_page es i \<and> \<not> bitmap_page es i}"

definition boot_reqs :: "kernel \<Rightarrow> u64 \<Rightarrow> memmap_entry list \<Rightarrow> exec_addr \<Rightarrow> request list" where
  "boot_reqs s off es ex = kernel_reqs (mem s) (physical_base ex) (virtual_base ex) (executable_file (boot s))
     @ concat (map (entry_reqs off) es)"

definition boot_table_paths :: "kernel \<Rightarrow> u64 \<Rightarrow> memmap_entry list \<Rightarrow> exec_addr \<Rightarrow> nat list set" where
  "boot_table_paths s off es ex = (\<lambda>i. [i]) ` {256..<512} \<union> table_paths (paging_mode s) (boot_reqs s off es ex)"

text \<open>The machine has enough memory: twelve aligned runs of 64 pages for the slabs, and the pages for
  the page tables and \<open>k\<close> more beside these.\<close>

definition boot_room :: "nat \<Rightarrow> kernel \<Rightarrow> u64 \<Rightarrow> memmap_entry list \<Rightarrow> exec_addr \<Rightarrow> bool" where
  "boot_room k s off es ex \<longleftrightarrow> 12 \<le> card {q. 64 dvd q \<and> {q..<q + 64} \<subseteq> boot_free es}
     \<and> 12 * 64 + k + 1 + card (boot_table_paths s off es ex) \<le> card (boot_free es)"

text \<open>The headers of the kernel's file lie in no usable page and its segments end below the top of the
  address space.\<close>

definition boot_elf :: "kernel \<Rightarrow> u64 \<Rightarrow> memmap_entry list \<Rightarrow> bool" where
  "boot_elf s off es \<longleftrightarrow> (let file = executable_file (boot s) in
     (\<forall>i < unat (load16 (mem s) (file + 56)).
        load32 (mem s) (phdr_at (mem s) file i) = 1 \<longrightarrow> segment_fits (mem s) (phdr_at (mem s) file i))
     \<and> (\<forall>x. elf_byte (mem s) file x \<longrightarrow> \<not> usable_page es (unat (x - off) div 4096)))"

definition kernel_bootable :: "nat \<Rightarrow> kernel \<Rightarrow> u64 \<Rightarrow> memmap_entry list \<Rightarrow> exec_addr \<Rightarrow> bool" where
  "kernel_bootable k s off es ex \<longleftrightarrow> pmm_bootable s off es \<and> bitmap_covers es \<and> 262144 dvd unat off \<and> ram_pages es \<le> 2 ^ 40
     \<and> \<not> usable_page es 0 \<and> entries_fit es \<and> exec_addr_response (boot s) = Some ex
     \<and> \<not> int_flag s \<and> boot_elf s off es \<and> boot_room k s off es ex"

text \<open>The bootloader reports a framebuffer \<open>l\<close>, the emulator keeps its contract on it, its memory is neither usable memory nor
  that of the kernel's file, and however the slabs are placed there is room for a terminal on each screen.\<close>

definition display_ready :: "display \<Rightarrow> u64 set \<Rightarrow> owner \<Rightarrow> (nat \<Rightarrow> nat set \<Rightarrow> bool) \<Rightarrow> nat \<Rightarrow> u64 list \<Rightarrow>
    kernel \<Rightarrow> u64 \<Rightarrow> memmap_entry list \<Rightarrow> bool" where
  "display_ready env V owns room K l s off es \<longleftrightarrow> framebuffer_response (boot s) = Some l \<and> l \<noteq> [] \<and> length l < 2 ^ 64
     \<and> display_works env V owns room K (set l)
     \<and> (\<forall>x \<in> V. \<not> usable_page es (unat (x - off) div 4096) \<and> \<not> elf_byte (mem s) (executable_file (boot s)) x)
     \<and> (\<forall>F \<subseteq> boot_free es. card (boot_free es) \<le> card F + 768 \<longrightarrow> room (screens l) F)"

lemma display_readyD:
  assumes "display_ready env V owns room K l s off es"
  shows "framebuffer_response (boot s) = Some l" and "l \<noteq> []" and "length l < 2 ^ 64" and "display_works env V owns room K (set l)"
    and "x \<in> V \<Longrightarrow> \<not> usable_page es (unat (x - off) div 4096)" and "x \<in> V \<Longrightarrow> \<not> elf_byte (mem s) (executable_file (boot s)) x"
    and "F \<subseteq> boot_free es \<Longrightarrow> card (boot_free es) \<le> card F + 768 \<Longrightarrow> room (screens l) F"
  using assms by (simp_all add: display_ready_def)

section \<open>What the steps in between leave alone\<close>

lemma mm_data_cong:
  assumes "mm_data t = mm_data s"
  shows "free_pages t = free_pages s" and "page_of t = page_of s" and "bitmap_byte t = bitmap_byte s"
    and "slab_heap n t F L \<longleftrightarrow> slab_heap n s F L" and "vmm_bootable t ex \<longleftrightarrow> vmm_bootable s ex" and "init_reqs t ex = init_reqs s ex"
    and "paging_5lvl_response (boot t) = paging_5lvl_response (boot s)" and "vmm_la57 t = vmm_la57 s"
proof -
  have f: "mem t = mem s" "boot t = boot s" "hhdm t = hhdm s" "memmap t = memmap s" "pmm_lock t = pmm_lock s"
    "pmm_bitmap t = pmm_bitmap s" "pmm_avl_page_count t = pmm_avl_page_count s" "pmm_last_used_index t = pmm_last_used_index s"
    "slabs t = slabs s" "slabs_addr t = slabs_addr s" "kernel_pagemap t = kernel_pagemap s" "vmm_la57 t = vmm_la57 s"
    using assms by (simp_all add: mm_data_def)
  have "vm_same s t" by (simp add: vm_same_def f)
  note v = vm_same_cong [OF this]
  show "free_pages t = free_pages s" "page_of t = page_of s" "bitmap_byte t = bitmap_byte s" by (fact v)+
  have "slab_ptr t = slab_ptr s" "chunk_addr t = chunk_addr s" by (auto simp: slab_ptr_def chunk_addr_def f)
  then have c: "slab_chunk t = slab_chunk s" by (auto simp: slab_chunk_def f v intro!: ext)
  then have "slab_cell t = slab_cell s" using \<open>chunk_addr t = chunk_addr s\<close> by (auto simp: slab_cell_def intro!: ext)
  then show "slab_heap n t F L \<longleftrightarrow> slab_heap n s F L" by (simp add: slab_heap_def f v)
  have r: "init_reqs t ex = init_reqs s ex" by (simp add: init_reqs_def f)
  then show "init_reqs t ex = init_reqs s ex" .
  show "paging_5lvl_response (boot t) = paging_5lvl_response (boot s)" "vmm_la57 t = vmm_la57 s" by (simp_all add: f)
  have "table_paths (paging_mode t) = table_paths (paging_mode s)" by (rule table_paths_mode) (simp add: paging_mode_def f)
  then have "init_tables t ex = init_tables s ex" by (simp add: init_tables_def r)
  then show "vmm_bootable t ex \<longleftrightarrow> vmm_bootable s ex"
    by (simp add: vmm_bootable_def elf_ok_def pagemap_lock_def f v)
qed

text \<open>Between the terminals and the page tables.\<close>

lemma boot_tables:
  assumes "length (idt s) = 256" and "length (isr_handler_table s) = 256" and "\<not> int_flag s" and "\<not> idt_lock s" and "idt_free_vector s = 32"
  shows "\<exists>t. bind gdt_init (\<lambda>_. bind idt_init (\<lambda>_. isr_init)) s = Ok ((), t) \<and> mm_data t = mm_data s"
proof -
  obtain t2 where t2: "gdt_init s = Ok ((), t2)" "mm_data t2 = mm_data s" "idt_data t2 = idt_data s"
    using gdt_init_frame [of s] by auto
  obtain t3 where t3: "idt_init t2 = Ok ((), t3)" "mm_data t3 = mm_data s" "idt_data t3 = idt_data s"
    using t2(2,3) by (simp add: idt_init_def idt_reload_def run_basic mm_data_def idt_data_def)
  obtain t where t: "isr_init t3 = Ok ((), t)" "mm_data t = mm_data t3"
    using isr_init_Ok [of t3] assms t3(2,3) by (auto simp: mm_data_def idt_data_def)
  show ?thesis using t2(1) t3(1,2) t by (simp add: bind_Ok)
qed

section \<open>The slabs under the page tables\<close>

text \<open>Terminals and page tables come from free pages, which no chunk is made of.\<close>

lemma slab_heap_tables:
  assumes h: "slab_heap n s F {}" and one: "\<forall>i < n. one_chunk A s i (F i)" and t: "pmm_ready t" "free_pages t \<subseteq> free_pages s"
    and f: "hhdm t = hhdm s" "pmm_avl_page_count t = pmm_avl_page_count s" "slabs t = slabs s" "slabs_addr t = slabs_addr s"
      "pmm_bitmap t = pmm_bitmap s"
    and mem: "\<And>x. page_of s x \<in> A \<Longrightarrow> page_of s x \<notin> free_pages s \<Longrightarrow> \<not> bitmap_byte s x \<Longrightarrow> mem t x = mem s x"
  shows "slab_heap n t F {}"
proof -
  have g: "page_of t = page_of s" "bitmap_byte t = bitmap_byte s" "slab_ptr t = slab_ptr s" "chunk_addr t = chunk_addr s"
    by (auto simp: page_of_def bitmap_byte_def slab_ptr_def chunk_addr_def f fun_eq_iff)
  note hd = slab_heapD [OF h]
  have same: "mem t x = mem s x" if "slab_chunk s i q" "{q..<q + 64} \<subseteq> A" "page_of s x \<in> {q..<q + 64}" for i q x
    using that by (intro mem) (auto simp: slab_chunk_def)
  have chunk: "slab_chunk t i q" if c: "slab_chunk s i q" "{q..<q + 64} \<subseteq> A" for i q
  proof -
    have "load64 (mem t) (chunk_addr s q) = load64 (mem s) (chunk_addr s q)"
    proof (rule load_le_cong_region)
      fix x assume "in_region (chunk_addr s q) 8 x"
      then have "in_region (chunk_addr s q) 262144 x" by (simp add: in_region_def)
      then show "mem t x = mem s x" using chunk_region [OF hd(1)] c(1) same [OF c] by (simp add: slab_chunk_def)
    qed simp
    then show ?thesis using c(1) t(2) by (auto simp: slab_chunk_def f g)
  qed
  have cells: "slab_cell t i c \<and> load64 (mem t) c = load64 (mem s) c" if i: "i < n" and c: "c \<in> set (F i)" for i c
  proof -
    obtain q where q0: "slab_chunk s i q" "{q..<q + 64} \<subseteq> A" "F i = chunk_list s i q" using one i by (auto simp: one_chunk_def)
    obtain k where "1 \<le> k" "k < chunk_cells i" "c = chunk_addr s q + of_nat (k * cell_size i)"
      using c unfolding q0(3) chunk_list_def by (auto simp del: of_nat_mult)
    note q = q0(1,2) this
    have i12: "i < 12" using i hd(12) by simp
    have "load64 (mem t) c = load64 (mem s) c"
    proof (rule load_le_cong_region)
      fix x assume "in_region c 8 x"
      then have "in_region c (cell_size i) x" using cell_size_bounds(1) [OF i12] by (simp add: in_region_def)
      then show "mem t x = mem s x" using same [OF q(1,2)] cell_pages [OF hd(1) q(1) i12 q(4)] q(5) by simp
    qed simp
    then show ?thesis using chunk [OF q(1,2)] q(3-5) unfolding slab_cell_def g by blast
  qed
  show ?thesis
  proof (rule slab_heapI)
    show "free_list (mem t) (first_free (slabs t ! i)) (F i) \<and> distinct (F i)" if i: "i < n" for i
    proof -
      have "free_list (mem t) p (F i) = free_list (mem s) p (F i)" for p
        using cells [OF i] by (intro free_list_cong) simp
      then show ?thesis using hd(6,7) [OF i] by (simp add: f)
    qed
  qed (use hd t cells in \<open>auto simp: f\<close>)
qed

section \<open>The stages\<close>

lemma bitmap_page_usable:
  assumes "memmap_ok es" and "bitmap_page es i"
  shows "usable_page es i"
proof -
  obtain e where e: "bitmap_entry es = Some e" "unat (me_base e) div 4096 \<le> i"
    "i < unat (me_base e) div 4096 + bitmap_bytes (ram_pages es) div 4096"
    using assms(2) by (auto simp: bitmap_page_def split: option.splits)
  then have in_es: "e \<in> set es" "me_type e = MEMMAP_USABLE" "bitmap_bytes (ram_pages es) < unat (me_length e)"
    by (auto simp: bitmap_entry_def find_Some_iff)
  then have "4096 dvd unat (me_base e)" using assms(1) by (auto simp: memmap_ok_def)
  then have "(unat (me_base e) + unat (me_length e)) div 4096 = unat (me_base e) div 4096 + unat (me_length e) div 4096"
    by (rule div_plus_div_distrib_dvd_left)
  moreover have "bitmap_bytes (ram_pages es) div 4096 \<le> unat (me_length e) div 4096"
    using in_es(3) by (intro div_le_mono) simp
  ultimately show ?thesis using e in_es by (auto simp: usable_page_def intro!: bexI [of _ e])
qed

text \<open>What the boot leaves alone: memory that is not usable and not the display's \<open>V\<close>, the devices and the vectors filled from
  firmware tables; at most \<open>k\<close> pages are taken.\<close>

definition fw_data where
  "fw_data s = ((device s, dev_trace s), (madt_lapics s, madt_x2apics s, madt_io_apics s, madt_isos s, madt_nmis s))"

definition boot_kept :: "u64 set \<Rightarrow> nat \<Rightarrow> kernel \<Rightarrow> u64 \<Rightarrow> memmap_entry list \<Rightarrow> kernel \<Rightarrow> bool" where
  "boot_kept V k s off es t \<longleftrightarrow> hhdm t = off \<and> unat (pmm_avl_page_count t) = ram_pages es \<and> fw_data t = fw_data s
     \<and> free_pages t \<subseteq> boot_free es \<and> card (boot_free es) \<le> card (free_pages t) + k
     \<and> (\<forall>x. bitmap_byte t x \<longrightarrow> usable_page es (page_of t x))
     \<and> (\<forall>x. \<not> usable_page es (page_of t x) \<and> x \<notin> V \<longrightarrow> mem t x = mem s x)"

lemma boot_kept_step:
  assumes k: "boot_kept V k s off es t" and f: "free_pages u \<subseteq> free_pages t" "card (free_pages t) \<le> card (free_pages u) + l"
    and g: "hhdm u = hhdm t" "pmm_avl_page_count u = pmm_avl_page_count t" "pmm_bitmap u = pmm_bitmap t" "fw_data u = fw_data t"
    and mem: "\<And>x. x \<notin> V \<Longrightarrow> page_of t x \<notin> free_pages t \<Longrightarrow> \<not> bitmap_byte t x \<Longrightarrow> mem u x = mem t x"
  shows "boot_kept V (k + l) s off es u"
proof -
  have pg: "page_of u = page_of t" "bitmap_byte u = bitmap_byte t" using g(1-3) by (auto simp: page_of_def bitmap_byte_def fun_eq_iff)
  have "mem u x = mem t x" if "\<not> usable_page es (page_of t x)" "x \<notin> V" for x
    using k that by (intro mem) (auto simp: boot_kept_def boot_free_def)
  then show ?thesis using k f g pg by (auto simp: boot_kept_def)
qed

text \<open>The display's memory is apart from what the kernel manages.\<close>

lemma boot_screen:
  assumes d: "display_ready env V owns room K l s off es" and k: "boot_kept V k s off es t" and x: "x \<in> V"
  shows "\<not> usable_page es (page_of t x)" and "\<not> bitmap_byte t x" and "page_of t x \<notin> free_pages t"
proof -
  show u: "\<not> usable_page es (page_of t x)" using display_readyD(5) [OF d x] k by (simp add: boot_kept_def page_of_def)
  then show "\<not> bitmap_byte t x" "page_of t x \<notin> free_pages t" using k by (auto simp: boot_kept_def boot_free_def)
qed

lemma boot_screen_apart:
  "display_ready env V owns room K l s off es \<Longrightarrow> boot_kept V k s off es t \<Longrightarrow> screen_apart V t"
  by (simp add: screen_apart_def boot_screen)

text \<open>A state in which the boot kept its promises so far is one in which the page tables can be built.\<close>

lemma boot_kept_vmm:
  assumes b: "kernel_bootable k s off es ex" and d: "display_ready env V owns room K l s off es" and kept: "boot_kept V (768 + k) s off es t"
    and t: "pmm_ready t" "boot t = boot s" "memmap t = es" "\<not> pagemap_lock t" "vmm_la57 t = vmm_la57 s"
  shows "vmm_bootable t ex" and "init_reqs t ex = boot_reqs s off es ex" and "init_tables t ex = boot_table_paths s off es ex"
proof -
  let ?file = "executable_file (boot s)"
  have hh: "hhdm t = off" using kept by (simp add: boot_kept_def)
  have elf: "boot_elf s off es" using b by (simp add: kernel_bootable_def)
  have out: "\<not> usable_page es (page_of t x)" if "elf_byte (mem s) ?file x" for x
    using elf that hh by (simp add: boot_elf_def Let_def page_of_def)
  have same: "\<forall>x. elf_byte (mem s) ?file x \<longrightarrow> mem t x = mem s x"
    using out display_readyD(6) [OF d] kept unfolding boot_kept_def by blast
  have "page_of t x \<notin> free_pages t \<and> \<not> bitmap_byte t x" if "elf_byte (mem s) ?file x" for x
    using out [OF that] kept by (auto simp: boot_kept_def boot_free_def)
  then have ok: "elf_ok t {} ?file"
    using elf elf_loads(3,5,6) [OF same] unfolding elf_ok_def elf_same [OF same] boot_elf_def Let_def by auto
  show reqs: "init_reqs t ex = boot_reqs s off es ex" by (simp add: init_reqs_def boot_reqs_def t hh elf_same(3) [OF same])
  have "table_paths (paging_mode t) = table_paths (paging_mode s)" using t(2,5) by (intro table_paths_mode) (simp add: paging_mode_def)
  then show tabs: "init_tables t ex = boot_table_paths s off es ex" by (simp add: init_tables_def boot_table_paths_def reqs)
  have "0 \<notin> free_pages t" "unat (pmm_avl_page_count t) \<le> 2 ^ 40" "1 + card (init_tables t ex) \<le> card (free_pages t)"
    using b kept tabs by (auto simp: kernel_bootable_def boot_room_def boot_kept_def boot_free_def)
  then show "vmm_bootable t ex" using b t ok by (simp add: vmm_bootable_def kernel_bootable_def)
qed

text \<open>After \<open>pmm_init\<close> and its messages the slabs can be set up.\<close>

lemma boot_pages:
  assumes b: "kernel_bootable k s off es ex" and d: "display_ready env V owns room K l s off es" and sl: "length (slabs s) = 12"
    and bl: "console_blank s"
  shows "\<exists>t. bind pmm_init (\<lambda>_. flush_log env) s = Ok ((), t) \<and> slabs_up_to {i. usable_page es i} 0 t \<and> console_early owns l t \<and> memmap t = es
    \<and> boot t = boot s \<and> idt_data t = idt_data s \<and> pagemap_lock t = pagemap_lock s \<and> vmm_la57 t = vmm_la57 s \<and> boot_kept V 0 s off es t"
proof -
  have pb: "pmm_bootable s off es" "bitmap_covers es" and ok: "memmap_ok es" and off: "262144 dvd unat off"
    and int: "\<not> int_flag s" and room: "boot_room k s off es ex"
    using b by (simp_all add: kernel_bootable_def pmm_bootable_def)
  obtain u where u: "pmm_init s = Ok ((), u)" "pmm_ready u" "hhdm u = off" "unat (pmm_avl_page_count u) = ram_pages es"
    "free_pages u = boot_free es" "pmm_last_used_index u = 0" "memmap u = es" "other_globals u = other_globals s" "klog u \<noteq> []"
    and mem: "\<And>x. \<not> bitmap_page es (page_of u x) \<Longrightarrow> mem u x = mem s x"
    and bm: "\<And>x. bitmap_byte u x \<Longrightarrow> bitmap_page es (page_of u x)"
    using pmm_init_establishes [OF pb] unfolding boot_free_def by blast
  have o: "boot u = boot s" "slabs u = slabs s" "int_flag u = int_flag s" "fw_data u = fw_data s" "idt_data u = idt_data s"
    "pagemap_lock u = pagemap_lock s" "vmm_la57 u = vmm_la57 s"
    using u(8) by (simp_all add: other_globals_def fw_data_def idt_data_def pagemap_lock_def)
  have "console_blank u" "framebuffer_response (boot u) = Some l"
    using bl u(8) display_readyD(1) [OF d] by (simp_all add: console_blank_def other_globals_def)
  from flush_log_first [OF display_readyD(4) [OF d] this(1) u(9) this(2) display_readyD(3,2) [OF d]] obtain t where
    t: "flush_log env u = Ok ((), t)" "console_early owns l t" "console_frame u t" "pmm_last_used_index t = pmm_last_used_index u"
    and dr: "drawn V {} u (mem t)" by blast
  obtain ff fc fd tt tc td kl m j where teq: "t = u\<lparr>fbs := ff, fb_count := fc, fb_init_done := fd, terms := tt, term_count := tc,
     term_init_done := td, klog := kl, mem := m, pmm_last_used_index := j\<rparr>" using t(3) unfolding console_frame_def by blast
  have same: "mem t x = mem u x" if "x \<notin> V" for x using dr that by (simp add: drawn_def)
  have "x \<notin> V" if "bitmap_byte u x" for x
    using bm [OF that] bitmap_page_usable [OF ok] display_readyD(5) [OF d] u(3) by (auto simp: page_of_def)
  then have bs: "\<forall>x. bitmap_byte u x \<longrightarrow> mem t x = mem u x" using same by blast
  have "hhdm t = hhdm u" "pmm_bitmap t = pmm_bitmap u" "pmm_avl_page_count t = pmm_avl_page_count u" "pmm_lock t = pmm_lock u"
    by (simp_all add: teq)
  note p = pmm_mem_cong [OF this(1-3) t(4) this(4) bs]
  have f: "boot t = boot s" "memmap t = es" "hhdm t = off" "pagemap_lock t = pagemap_lock s" "idt_data t = idt_data s" "slabs t = slabs s"
    "\<not> int_flag t" "fw_data t = fw_data s" "vmm_la57 t = vmm_la57 s" "unat (pmm_avl_page_count t) = ram_pages es" "pmm_ready t"
    using o u(2-4,7) int p(2) by (simp_all add: teq idt_data_def pagemap_lock_def fw_data_def)
  have "boot_free es \<subseteq> {..<ram_pages es}" using usable_page_ram by (auto simp: boot_free_def)
  then have "q + 64 \<le> ram_pages es" if "{q..<q + 64} \<subseteq> boot_free es" for q
    using subsetD [OF that, of "q + 63"] by auto
  then have "free_chunks t = {q. 64 dvd q \<and> {q..<q + 64} \<subseteq> boot_free es}" by (auto simp: free_chunks_def f(10) p(1) u(5))
  then have "12 \<le> card (free_chunks t)" using room by (simp add: boot_room_def)
  moreover have "slab_heap 0 t (\<lambda>_. []) {}" using f off sl by (simp add: slab_heap_def)
  ultimately have "slabs_up_to {i. usable_page es i} 0 t"
    using f(7) t(4) u(5,6) p(1) by (auto simp: slabs_up_to_def chunk_aligned_def boot_free_def)
  moreover have "mem t x = mem s x" if "\<not> usable_page es (page_of t x)" "x \<notin> V" for x
    using mem [of x] same [OF that(2)] bitmap_page_usable [OF ok] that(1) unfolding p by metis
  then have "boot_kept V 0 s off es t"
    using f(3,8,10) p(1,3,4) u(5) bm bitmap_page_usable [OF ok] by (auto simp: boot_kept_def)
  ultimately show ?thesis using u(1) t(1,2) f by (auto simp: bind_Ok)
qed

text \<open>After \<open>slab_init\<close> the terminals can be.\<close>

lemma console_early_kept:
  assumes w: "display_works env V owns room K FB" and e: "console_early owns l s" and f: "slab_frame s t"
    and mem: "\<And>x. x \<in> V \<Longrightarrow> mem t x = mem s x"
  shows "console_early owns l t"
proof -
  obtain bs j m where teq: "t = s\<lparr>pmm_last_used_index := j, slabs := bs, mem := m\<rparr>" using f by (auto simp: slab_frame_def)
  have "owns (ft_ctx (terms s ! 0)) {} s" using e by (simp add: console_early_def console_up_def)
  then have "owns (ft_ctx (terms s ! 0)) {} t" by (rule display_worksD(5) [OF w]) (use mem in \<open>simp_all add: teq\<close>)
  then show ?thesis using e by (simp add: console_early_def console_up_def term_lock_def teq)
qed

lemma boot_heap:
  assumes b: "kernel_bootable k s off es ex" and d: "display_ready env V owns room K l s off es" and sl: "length (slabs s) = 12"
    and bl: "console_blank s"
  shows "\<exists>t F. bind pmm_init (\<lambda>_. bind (flush_log env) (\<lambda>_. slab_init)) s = Ok ((), t) \<and> slab_heap 12 t F {}
    \<and> (\<forall>i < 12. one_chunk {i. usable_page es i} t i (F i)) \<and> console_early owns l t \<and> \<not> int_flag t
    \<and> memmap t = es \<and> boot t = boot s \<and> idt_data t = idt_data s \<and> pagemap_lock t = pagemap_lock s \<and> vmm_la57 t = vmm_la57 s
    \<and> boot_kept V 768 s off es t"
proof -
  obtain u where u: "bind pmm_init (\<lambda>_. flush_log env) s = Ok ((), u)" "slabs_up_to {i. usable_page es i} 0 u" "console_early owns l u"
    "memmap u = es" "boot u = boot s" "idt_data u = idt_data s" "pagemap_lock u = pagemap_lock s" "vmm_la57 u = vmm_la57 s"
    and kept: "boot_kept V 0 s off es u"
    using boot_pages [OF assms] by blast
  obtain t where t: "slab_init u = Ok ((), t)" "slabs_up_to {i. usable_page es i} 12 t" "slab_grown 12 u t" using slab_init_Ok [OF u(2)] by blast
  obtain F where F: "slab_heap 12 t F {}" "\<forall>i < 12. one_chunk {i. usable_page es i} t i (F i)" and int: "\<not> int_flag t"
    using t(2) by (auto simp: slabs_up_to_def)
  have fr: "slab_frame u t" and g: "free_pages t \<subseteq> free_pages u" "card (free_pages u) \<le> card (free_pages t) + 768"
    and mem: "\<And>x. page_of u x \<notin> free_pages u \<Longrightarrow> \<not> bitmap_byte u x \<Longrightarrow> mem t x = mem u x"
    using t(3) by (simp_all add: slab_grown_def)
  obtain bs j m where teq: "t = u\<lparr>pmm_last_used_index := j, slabs := bs, mem := m\<rparr>" using fr by (auto simp: slab_frame_def)
  have "boot_kept V (0 + 768) s off es t" by (rule boot_kept_step [OF kept g _ _ _ _ mem]) (simp_all add: teq fw_data_def)
  moreover have "console_early owns l t"
    by (rule console_early_kept [OF display_readyD(4) [OF d] u(3) fr]) (simp add: mem boot_screen [OF d kept])
  moreover have "memmap t = es" "boot t = boot s" "idt_data t = idt_data s" "pagemap_lock t = pagemap_lock s" "vmm_la57 t = vmm_la57 s"
    using u(4-8) by (simp_all add: teq idt_data_def pagemap_lock_def)
  moreover have "bind pmm_init (\<lambda>_. bind (flush_log env) (\<lambda>_. slab_init)) s = Ok ((), t)"
    using u(1) t(1) by (auto simp: bind_eq_Ok_iff)
  ultimately show ?thesis using F int by auto
qed

section \<open>The boot\<close>

text \<open>The first terminal stays in order while other pages are written.\<close>

lemma console_up_kept:
  assumes w: "display_works env V owns room K FB" and c: "console_up owns P s" and f: "hhdm t = hhdm s" "terms t = terms s"
    "term_init_done t = term_init_done s" and mem: "\<And>x. x \<in> V \<or> page_of s x \<in> P \<Longrightarrow> mem t x = mem s x"
  shows "console_up owns P t"
proof -
  have "owns (ft_ctx (terms s ! 0)) P s" using c by (simp add: console_up_def)
  then have "owns (ft_ctx (terms s ! 0)) P t" by (rule display_worksD(5) [OF w]) (use f mem in auto)
  then show ?thesis using c f by (simp add: console_up_def term_lock_def)
qed

lemma boot_terminals:
  assumes b: "kernel_bootable (screens l * K) s off es ex" and d: "display_ready env V owns room K l s off es" and sl: "length (slabs s) = 12"
    and bl: "console_blank s" and pl: "\<not> pagemap_lock s"
    and i: "length (idt s) = 256" "length (isr_handler_table s) = 256" "\<not> idt_lock s" "idt_free_vector s = 32"
  shows "\<exists>t1 t F P. bind pmm_init (\<lambda>_. bind (flush_log env) (\<lambda>_. slab_init)) s = Ok ((), t1)
    \<and> bind (term_init env False) (\<lambda>_. bind gdt_init (\<lambda>_. bind idt_init (\<lambda>_. isr_init))) t1 = Ok ((), t)
    \<and> slab_heap 12 t1 F {} \<and> (\<forall>i < 12. one_chunk {i. usable_page es i} t1 i (F i)) \<and> boot_kept V 768 s off es t1
    \<and> pmm_ready t \<and> free_pages t \<subseteq> free_pages t1 \<and> card (free_pages t1) \<le> card (free_pages t) + screens l * K
    \<and> P \<subseteq> free_pages t1 - free_pages t \<and> console_up owns P t \<and> \<not> printf_lock t \<and> \<not> int_flag t
    \<and> memmap t = es \<and> boot t = boot s \<and> \<not> pagemap_lock t \<and> vmm_la57 t = vmm_la57 s \<and> slabs t = slabs t1 \<and> slabs_addr t = slabs_addr t1
    \<and> hhdm t = hhdm t1 \<and> pmm_avl_page_count t = pmm_avl_page_count t1 \<and> pmm_bitmap t = pmm_bitmap t1 \<and> fw_data t = fw_data t1
    \<and> (\<forall>x. x \<notin> V \<and> page_of t1 x \<notin> free_pages t1 \<and> \<not> bitmap_byte t1 x \<longrightarrow> mem t x = mem t1 x)"
proof -
  note w = display_readyD(4) [OF d]
  from boot_heap [OF b d sl bl] obtain t1 F where t1: "bind pmm_init (\<lambda>_. bind (flush_log env) (\<lambda>_. slab_init)) s = Ok ((), t1)" "slab_heap 12 t1 F {}"
    "\<forall>i < 12. one_chunk {i. usable_page es i} t1 i (F i)" "console_early owns l t1" "\<not> int_flag t1" "memmap t1 = es" "boot t1 = boot s"
    "idt_data t1 = idt_data s" "pagemap_lock t1 = pagemap_lock s" "vmm_la57 t1 = vmm_la57 s" and kept: "boot_kept V 768 s off es t1" by blast
  have "room (screens l) (free_pages t1)" using display_readyD(7) [OF d] kept by (simp add: boot_kept_def)
  from term_init_normal [OF w boot_screen_apart [OF d kept] t1(4) display_readyD(2) [OF d] slab_heapD(1) [OF t1(2)] this] obtain t2 P where
    t2: "term_init env False t1 = Ok ((), t2)" "console_frame t1 t2" "console_up owns P t2" "pmm_ready t2" "P \<subseteq> free_pages t1 - free_pages t2"
      "free_pages t2 \<subseteq> free_pages t1" "card (free_pages t1) \<le> card (free_pages t2) + screens l * K"
    and mem: "\<forall>x. x \<notin> V \<and> page_of t1 x \<notin> free_pages t1 \<and> \<not> bitmap_byte t1 x \<longrightarrow> mem t2 x = mem t1 x" by blast
  have f: "idt_data t2 = idt_data s" "int_flag t2 = int_flag t1" "memmap t2 = es" "boot t2 = boot s" "\<not> pagemap_lock t2" "vmm_la57 t2 = vmm_la57 s"
    "slabs t2 = slabs t1" "slabs_addr t2 = slabs_addr t1" "hhdm t2 = hhdm t1" "pmm_avl_page_count t2 = pmm_avl_page_count t1"
    "pmm_bitmap t2 = pmm_bitmap t1" "fw_data t2 = fw_data t1" "printf_lock t2 = printf_lock t1"
    using t2(2) t1(6-10) pl by (auto simp: console_frame_def idt_data_def pagemap_lock_def fw_data_def)
  obtain t where t: "bind gdt_init (\<lambda>_. bind idt_init (\<lambda>_. isr_init)) t2 = Ok ((), t)" "mm_data t = mm_data t2"
    using boot_tables [of t2] f(1,2) t1(5) i by (auto simp: idt_data_def)
  have m: "int_flag t = int_flag t2" "memmap t = memmap t2" "boot t = boot t2" "pagemap_lock t = pagemap_lock t2" "vmm_la57 t = vmm_la57 t2"
    "slabs t = slabs t2" "slabs_addr t = slabs_addr t2" "hhdm t = hhdm t2" "pmm_avl_page_count t = pmm_avl_page_count t2"
    "pmm_bitmap t = pmm_bitmap t2" "fw_data t = fw_data t2" "printf_lock t = printf_lock t2" "mem t = mem t2" "terms t = terms t2"
    "term_init_done t = term_init_done t2" "vm_same t2 t"
    using t(2) by (simp_all add: mm_data_def pagemap_lock_def fw_data_def vm_same_def)
  have "console_up owns P t" by (rule console_up_quiet [OF w t2(3)]) (simp_all add: m)
  moreover have "\<not> printf_lock t" using t1(4) by (simp add: m f console_early_def)
  moreover have "bind (term_init env False) (\<lambda>_. bind gdt_init (\<lambda>_. bind idt_init (\<lambda>_. isr_init))) t1 = Ok ((), t)"
    using t2(1) t(1) by (simp add: bind_Ok)
  ultimately show ?thesis
    using t1(1,2,3,5) kept t2(4-7) mem f(2-12) m(1-11,13) vm_same_cong(3,4) [OF m(16)] by (intro exI [of _ t1] exI [of _ t] exI [of _ F] exI [of _ P]) simp
qed

lemma boot_paged:
  assumes b: "kernel_bootable (screens l * K) s off es ex" and d: "display_ready env V owns room K l s off es" and s: "s = kernel_image c li"
    and N: "N = card (boot_table_paths s off es ex)"
  shows "\<exists>t1 t F P T. bind pmm_init (\<lambda>_. bind (flush_log env) (\<lambda>_. slab_init)) s = Ok ((), t1)
    \<and> bind (term_init env False) (\<lambda>_. bind gdt_init (\<lambda>_. bind idt_init (\<lambda>_. bind isr_init (\<lambda>_. vmm_init)))) t1 = Ok ((), t)
    \<and> slab_heap 12 t1 F {} \<and> (\<forall>i < 12. one_chunk {i. usable_page es i} t1 i (F i)) \<and> boot_kept V 768 s off es t1
    \<and> pt_inv t T \<and> cr3 t = top_level (kernel_pagemap t) \<and> \<not> pagemap_lock t \<and> console_up owns P t \<and> \<not> printf_lock t \<and> \<not> int_flag t
    \<and> boot t = boot s \<and> hhdm t = hhdm t1 \<and> pmm_avl_page_count t = pmm_avl_page_count t1 \<and> slabs t = slabs t1 \<and> slabs_addr t = slabs_addr t1
    \<and> pmm_bitmap t = pmm_bitmap t1 \<and> fw_data t = fw_data t1
    \<and> free_pages t \<subseteq> free_pages t1 \<and> card (free_pages t1) \<le> card (free_pages t) + (1 + screens l * K + N)
    \<and> P \<subseteq> free_pages t1 \<and> P \<inter> ran T = {} \<and> ran T \<subseteq> free_pages t1
    \<and> translate t = fold (\<lambda>(v, p, f) tr a. if pt_path t a = pt_path t v then present (p OR f) else tr a) (boot_reqs s off es ex) (\<lambda>_. None)
    \<and> (\<forall>x. x \<notin> V \<and> page_of t1 x \<notin> free_pages t1 \<and> \<not> bitmap_byte t1 x \<longrightarrow> mem t x = mem t1 x)"
proof -
  note w = display_readyD(4) [OF d]
  have i: "length (slabs s) = 12" "console_blank s" "\<not> pagemap_lock s" "length (idt s) = 256" "length (isr_handler_table s) = 256" "\<not> idt_lock s"
    "idt_free_vector s = 32" by (simp_all add: s pagemap_lock_def console_blank_def kernel_image_def)
  from boot_terminals [OF b d i] obtain t1 t2 F P where
    run1: "bind pmm_init (\<lambda>_. bind (flush_log env) (\<lambda>_. slab_init)) s = Ok ((), t1)"
      "bind (term_init env False) (\<lambda>_. bind gdt_init (\<lambda>_. bind idt_init (\<lambda>_. isr_init))) t1 = Ok ((), t2)"
    and h: "slab_heap 12 t1 F {}" "\<forall>i < 12. one_chunk {i. usable_page es i} t1 i (F i)" and kept1: "boot_kept V 768 s off es t1"
    and t2: "pmm_ready t2" "free_pages t2 \<subseteq> free_pages t1" "card (free_pages t1) \<le> card (free_pages t2) + screens l * K"
      "P \<subseteq> free_pages t1 - free_pages t2" "console_up owns P t2" "\<not> printf_lock t2" "\<not> int_flag t2"
      "memmap t2 = es" "boot t2 = boot s" "\<not> pagemap_lock t2" "vmm_la57 t2 = vmm_la57 s" "slabs t2 = slabs t1" "slabs_addr t2 = slabs_addr t1"
      "hhdm t2 = hhdm t1" "pmm_avl_page_count t2 = pmm_avl_page_count t1" "pmm_bitmap t2 = pmm_bitmap t1" "fw_data t2 = fw_data t1"
    and mem1: "\<And>x. x \<notin> V \<Longrightarrow> page_of t1 x \<notin> free_pages t1 \<Longrightarrow> \<not> bitmap_byte t1 x \<Longrightarrow> mem t2 x = mem t1 x" by blast
  have pg: "page_of t2 = page_of t1" "bitmap_byte t2 = bitmap_byte t1" using t2(14-16) by (simp_all add: page_of_def bitmap_byte_def fun_eq_iff)
  have kept2: "boot_kept V (768 + screens l * K) s off es t2" by (rule boot_kept_step [OF kept1 t2(2,3,14-17) mem1])
  note vb = boot_kept_vmm [OF b d kept2 t2(1,9,8,10,11)]
  from vmm_init_Ok [OF vb(1)] obtain t3 T where t3: "vmm_init t2 = Ok ((), t3)" "pt_inv t3 T" "cr3 t3 = top_level (kernel_pagemap t3)"
    "\<not> pagemap_lock t3" "free_pages t3 \<subseteq> free_pages t2" "vmm_globals t3 = vmm_globals t2"
    "card (free_pages t2) \<le> card (free_pages t3) + (1 + N)" "ran T \<subseteq> free_pages t2"
    and tr: "translate t3 = fold (\<lambda>(v, p, f) tr a. if pt_path t3 a = pt_path t3 v then present (p OR f) else tr a)
      (boot_reqs s off es ex) (\<lambda>_. None)"
    and mem2: "\<And>x. page_of t2 x \<notin> free_pages t2 \<Longrightarrow> \<not> bitmap_byte t2 x \<Longrightarrow> mem t3 x = mem t2 x" unfolding vb(2,3) N by blast
  have g: "hhdm t3 = hhdm t1" "pmm_avl_page_count t3 = pmm_avl_page_count t1" "slabs t3 = slabs t1" "slabs_addr t3 = slabs_addr t1"
    "pmm_bitmap t3 = pmm_bitmap t1" "fw_data t3 = fw_data t1" "\<not> int_flag t3" "boot t3 = boot s" "\<not> printf_lock t3" "hhdm t3 = hhdm t2"
    "terms t3 = terms t2" "term_init_done t3 = term_init_done t2"
    using t3(6) t2 by (simp_all add: vmm_globals_def fw_data_def)
  have bm: "page_of t1 x \<notin> free_pages t1" if "bitmap_byte t1 x" for x using slab_heapD(1) [OF h(1)] that by (simp add: pmm_ready_def pmm_wf_def)
  have "page_of t2 x \<notin> free_pages t2" "\<not> bitmap_byte t2 x" if "x \<in> V \<or> page_of t2 x \<in> P" for x
    using that boot_screen(2,3) [OF d kept1, of x] bm [of x] t2(2,4) unfolding pg by auto
  then have up: "console_up owns P t3" by (intro console_up_kept [OF w t2(5) g(10-12) mem2])
  have mem: "\<forall>x. x \<notin> V \<and> page_of t1 x \<notin> free_pages t1 \<and> \<not> bitmap_byte t1 x \<longrightarrow> mem t3 x = mem t1 x"
  proof (intro allI impI, elim conjE)
    fix x assume x: "x \<notin> V" "page_of t1 x \<notin> free_pages t1" "\<not> bitmap_byte t1 x"
    have "page_of t1 x \<notin> free_pages t2" using x(2) t2(2) by auto
    then show "mem t3 x = mem t1 x" using mem1 [OF x] mem2 [of x] x(3) by (simp add: pg)
  qed
  have "bind (bind (term_init env False) (\<lambda>_. bind gdt_init (\<lambda>_. bind idt_init (\<lambda>_. isr_init)))) (\<lambda>_. vmm_init) t1 = Ok ((), t3)"
    using run1(2) t3(1) by (simp add: bind_Ok)
  then have run: "bind (term_init env False) (\<lambda>_. bind gdt_init (\<lambda>_. bind idt_init (\<lambda>_. bind isr_init (\<lambda>_. vmm_init)))) t1 = Ok ((), t3)"
    by (simp add: bind_assoc)
  have sep: "free_pages t3 \<subseteq> free_pages t1" "card (free_pages t1) \<le> card (free_pages t3) + (1 + screens l * K + N)"
    "P \<subseteq> free_pages t1" "P \<inter> ran T = {}" "ran T \<subseteq> free_pages t1"
    using t2(2-4) t3(5,7,8) by auto
  show ?thesis
    using run1(1) run h kept1 t3(2-4) up g(1-9) sep tr mem by (intro exI [of _ t1] exI [of _ t3] exI [of _ F] exI [of _ P] exI [of _ T]) (intro conjI)
qed

text \<open>With the messages of \<open>vmm_init\<close> printed as well.\<close>

lemma boot_memory_Ok:
  assumes b: "kernel_bootable (screens l * K) s off es ex" and d: "display_ready env V owns room K l s off es" and s: "s = kernel_image c li"
  shows "\<exists>t T P. boot_memory env s = Ok ((), t) \<and> pt_inv t T \<and> cr3 t = top_level (kernel_pagemap t) \<and> live_cells t {}
    \<and> \<not> pagemap_lock t \<and> boot t = boot s \<and> klog t = [] \<and> console_up owns P t
    \<and> (\<forall>a. translate t a =
        (case find (\<lambda>(v, p, f). pt_path t a = pt_path t v) (rev (boot_reqs s off es ex)) of
           None \<Rightarrow> None | Some (v, p, f) \<Rightarrow> present (p OR f)))
    \<and> boot_kept V (769 + screens l * K + card (boot_table_paths s off es ex)) s off es t \<and> ran T \<subseteq> boot_free es"
proof -
  let ?N = "card (boot_table_paths s off es ex)"
  from boot_paged [OF assms refl] obtain t1 t3 F P T where run1: "bind pmm_init (\<lambda>_. bind (flush_log env) (\<lambda>_. slab_init)) s = Ok ((), t1)"
      "bind (term_init env False) (\<lambda>_. bind gdt_init (\<lambda>_. bind idt_init (\<lambda>_. bind isr_init (\<lambda>_. vmm_init)))) t1 = Ok ((), t3)"
    and h: "slab_heap 12 t1 F {}" "\<forall>i < 12. one_chunk {i. usable_page es i} t1 i (F i)" and kept1: "boot_kept V 768 s off es t1"
    and t3: "pt_inv t3 T" "cr3 t3 = top_level (kernel_pagemap t3)" "\<not> pagemap_lock t3" "console_up owns P t3" "\<not> printf_lock t3" "\<not> int_flag t3"
      "boot t3 = boot s"
    and g: "hhdm t3 = hhdm t1" "pmm_avl_page_count t3 = pmm_avl_page_count t1" "slabs t3 = slabs t1" "slabs_addr t3 = slabs_addr t1"
      "pmm_bitmap t3 = pmm_bitmap t1" "fw_data t3 = fw_data t1"
    and fp: "free_pages t3 \<subseteq> free_pages t1" "card (free_pages t1) \<le> card (free_pages t3) + (1 + screens l * K + ?N)"
      "P \<subseteq> free_pages t1" "P \<inter> ran T = {}" "ran T \<subseteq> free_pages t1"
    and tr: "translate t3 = fold (\<lambda>(v, p, f) tr a. if pt_path t3 a = pt_path t3 v then present (p OR f) else tr a)
      (boot_reqs s off es ex) (\<lambda>_. None)"
    and mem3: "\<forall>x. x \<notin> V \<and> page_of t1 x \<notin> free_pages t1 \<and> \<not> bitmap_byte t1 x \<longrightarrow> mem t3 x = mem t1 x" by blast
  note scr = boot_screen [OF d kept1]
  have pg: "page_of t3 = page_of t1" "bitmap_byte t3 = bitmap_byte t1" using g by (simp_all add: page_of_def bitmap_byte_def fun_eq_iff)
  have "page_of t1 x \<notin> free_pages t1" if "bitmap_byte t1 x" for x using slab_heapD(1) [OF h(1)] that by (simp add: pmm_ready_def pmm_wf_def)
  then have sep: "\<And>x. x \<in> V \<Longrightarrow> page_of t3 x \<notin> ran T \<and> \<not> bitmap_byte t3 x" "\<And>x. bitmap_byte t3 x \<Longrightarrow> page_of t3 x \<notin> P"
    using scr fp(3,5) unfolding pg by blast+
  from flush_log_tables [OF display_readyD(4) [OF d] t3(4,5,1) sep(1) fp(4) sep(2)] obtain m where
    m: "flush_log env t3 = Ok ((), t3\<lparr>klog := [], mem := m\<rparr>)" "drawn V P t3 m"
    "console_up owns P (t3\<lparr>klog := [], mem := m\<rparr>)" "pt_inv (t3\<lparr>klog := [], mem := m\<rparr>) T" "translate (t3\<lparr>klog := [], mem := m\<rparr>) = translate t3"
    "free_pages (t3\<lparr>klog := [], mem := m\<rparr>) = free_pages t3" by blast
  let ?t = "t3\<lparr>klog := [], mem := m\<rparr>"
  have mem: "mem ?t x = mem t1 x" if "x \<notin> V" "page_of t1 x \<notin> free_pages t1" "\<not> bitmap_byte t1 x" for x
    using that mem3 m(2) fp(3) by (auto simp: drawn_def pg)
  have f: "free_pages ?t \<subseteq> free_pages t1" "card (free_pages t1) \<le> card (free_pages ?t) + (1 + screens l * K + ?N)" using fp(1,2) m(6) by simp_all
  have "boot_kept V (768 + (1 + screens l * K + ?N)) s off es ?t"
    by (rule boot_kept_step [OF kept1 f _ _ _ _ mem]) (use g in \<open>simp_all add: fw_data_def\<close>)
  then have kept: "boot_kept V (769 + screens l * K + ?N) s off es ?t" by (simp add: add.assoc)
  have "slab_heap 12 ?t F {}"
    by (rule slab_heap_tables [OF h pt_invD(1) [OF m(4)] f(1) _ _ _ _ _ mem]) (use g scr(1) in auto)
  then have live: "live_cells ?t {}" using t3(6) by (auto simp: live_cells_def)
  have "boot_memory env s = bind (bind pmm_init (\<lambda>_. bind (flush_log env) (\<lambda>_. slab_init)))
      (\<lambda>_. bind (bind (term_init env False) (\<lambda>_. bind gdt_init (\<lambda>_. bind idt_init (\<lambda>_. bind isr_init (\<lambda>_. vmm_init))))) (\<lambda>_. flush_log env)) s"
    by (simp add: boot_memory_def bind_assoc)
  then have "boot_memory env s = Ok ((), ?t)" using run1 m(1) by (simp add: bind_Ok)
  moreover have "ran T \<subseteq> boot_free es" using fp(5) kept1 by (auto simp: boot_kept_def)
  moreover have "pt_path ?t = pt_path t3" by (simp add: pt_path_def fun_eq_iff)
  then have "\<forall>a. translate ?t a = (case find (\<lambda>(v, p, f). pt_path ?t a = pt_path ?t v) (rev (boot_reqs s off es ex)) of
      None \<Rightarrow> None | Some (v, p, f) \<Rightarrow> present (p OR f))"
    unfolding m(5) tr by (auto simp: fold_requests)
  ultimately show ?thesis
    using m(3,4) live kept t3(2,3,7) by (intro exI [of _ ?t] exI [of _ T] exI [of _ P]) (simp add: pagemap_lock_def)
qed

section \<open>A machine that boots\<close>

text \<open>32 MiB of memory from 1 MiB on, the kernel's file, without program headers, below it, and one screen.\<close>

definition boot_entry :: memmap_entry where
  "boot_entry = \<lparr>me_base = 0x100000, me_length = 0x2000000, me_type = MEMMAP_USABLE\<rparr>"

definition boot_cpu :: cpu_state where
  "boot_cpu = blank_cpu\<lparr>boot := (boot blank_cpu)\<lparr>hhdm_response := Some 0xffff800000000000,
     memmap_response := Some [boot_entry], exec_addr_response := Some \<lparr>physical_base = 0, virtual_base = 0\<rparr>,
     executable_file := 0xffff800000005000, framebuffer_response := Some [0xffff80000000a000]\<rparr>\<rparr>"

definition boot_links :: link_info where
  "boot_links = \<lparr>slabs_link = 0x1000, gdt_link = 0x2000, idt_link = 0x3000, thunk_links = replicate 256 0\<rparr>"

abbreviation boot_machine :: kernel where
  "boot_machine \<equiv> kernel_image boot_cpu boot_links"

lemma boot_machine_fields:
  "hhdm_response (boot boot_cpu) = Some 0xffff800000000000" "memmap_response (boot boot_cpu) = Some [boot_entry]"
  "exec_addr_response (boot boot_cpu) = Some \<lparr>physical_base = 0, virtual_base = 0\<rparr>"
  "executable_file (boot boot_cpu) = 0xffff800000005000" "framebuffer_response (boot boot_cpu) = Some [0xffff80000000a000]"
  "paging_5lvl_response (boot boot_cpu) = None" "int_flag boot_cpu = False" "mem boot_cpu = (\<lambda>_. 0)"
  by (simp_all add: boot_cpu_def blank_cpu_def)

lemma boot_machine_free: "boot_free [boot_entry] = {257..<8448}" "ram_pages [boot_entry] = 8448"
  "usable_page [boot_entry] i \<longleftrightarrow> 256 \<le> i \<and> i < 8448"
  by (auto simp: boot_free_def boot_entry_def usable_page_def bitmap_page_def bitmap_entry_def bitmap_bytes_def is_ram_def)

lemma boot_machine_chunks: "12 \<le> card {q. 64 dvd q \<and> {q..<q + 64} \<subseteq> boot_free [boot_entry]}"
proof -
  let ?Q = "{q. 64 dvd q \<and> {q..<q + 64} \<subseteq> boot_free [boot_entry]}"
  have "q < 8448" if "q \<in> ?Q" for q using that by (auto simp: boot_machine_free)
  then have "finite ?Q" by (intro finite_subset [of ?Q "{..<8448}"]) auto
  moreover have "(\<lambda>k. 64 * k) ` {5..<17} \<subseteq> ?Q" by (auto simp: boot_machine_free)
  ultimately have "card ((\<lambda>k :: nat. 64 * k) ` {5..<17}) \<le> card ?Q" by (rule card_mono)
  then show ?thesis by (simp add: card_image inj_on_def)
qed

lemma boot_machine_pmm: "pmm_bootable boot_machine 0xffff800000000000 [boot_entry]" "bitmap_covers [boot_entry]"
  by (auto simp: pmm_bootable_def boot_machine_fields memmap_ok_def bitmap_entry_def bitmap_bytes_def is_ram_def
      boot_entry_def bitmap_covers_def)

text \<open>One table of the third level and seventeen of the second hold the whole direct map.\<close>

lemma unat_pml_index:
  assumes "k \<le> 55"
  shows "unat (pml_index k v) = unat v div 2 ^ k mod 512"
proof -
  have "unat (pml_index k v) = take_bit 9 (drop_bit k (unat v))"
    using assms unat_u64_less [of v] by (simp add: pml_index_eq unsigned_take_bit_eq unsigned_drop_bit_eq take_bit_nat_eq_self)
  then show ?thesis by (simp add: take_bit_eq_mod drop_bit_eq_div)
qed

lemma boot_machine_path:
  assumes "k < 8192" and "\<not> vmm_la57 s"
  shows "butlast (pt_path s (0x100000 + of_nat k * PAGE_SIZE + 0xffff800000000000)) = [256, 0, (256 + k) div 512]"
proof -
  define y where "y = (256 + k) * 4096"
  define w where "w = (0x100000 + of_nat k * PAGE_SIZE + 0xffff800000000000 :: u64)"
  have "w = of_nat (0xffff800000000000 + y)" by (simp add: w_def y_def algebra_simps)
  moreover have "unat (of_nat (0xffff800000000000 + y) :: u64) = 0xffff800000000000 + y"
    using assms(1) by (intro unat_of_nat_u64) (simp add: y_def)
  ultimately have v: "unat w = 0xffff800000000000 + y" by (simp only:)
  have "y < 2 ^ 30" using assms(1) by (simp add: y_def)
  then have "(0xffff800000000000 + y) div 2 ^ 39 mod 512 = 256" "(0xffff800000000000 + y) div 2 ^ 30 mod 512 = 0"
    "(0xffff800000000000 + y) div 2 ^ 21 mod 512 = y div 2 ^ 21 mod 512"
    using div_mult_self4 [of "2 ^ 39" "0x1ffff00" y] div_mult_self4 [of "2 ^ 30" "0x3fffe0000" y]
      div_mult_self4 [of "2 ^ 21" "0x7fffc000000" y] mod_mult_self4 [of 512 "0x3fffe0000" "y div 2 ^ 21"] by simp_all
  moreover have "y div 2 ^ 21 mod 512 = (256 + k) div 512"
    using assms(1) div_mult2_eq [of "(256 + k) * 4096" 4096 512] by (simp add: y_def)
  ultimately have "butlast (pt_path s w) = [256, 0, (256 + k) div 512]"
    using assms(2) by (simp add: pt_path_def pt_indices_def unat_pml_index v)
  then show ?thesis unfolding w_def .
qed

lemma boot_machine_reqs:
  "boot_reqs boot_machine 0xffff800000000000 [boot_entry] \<lparr>physical_base = 0, virtual_base = 0\<rparr> =
     map (\<lambda>k. (0x100000 + of_nat k * PAGE_SIZE + 0xffff800000000000, 0x100000 + of_nat k * PAGE_SIZE,
       VMM_PTE_PRESENT OR VMM_PTE_NOEXEC OR VMM_PTE_WRITABLE)) [0..<8192]"
proof -
  have "load16 (\<lambda>_. 0) (0xffff800000005000 + 56) = (0 :: u16)" by (simp add: numeral_eq_Suc)
  then have "kernel_reqs (\<lambda>_. 0) 0 0 0xffff800000005000 = []" by (simp add: kernel_reqs_def first_segments_def)
  then show ?thesis
    by (simp add: boot_reqs_def boot_machine_fields entry_reqs_def boot_entry_def ALIGN_UP_def ALIGN_DOWN_def DIV_ROUNDUP_def
        step_count_def Let_def del: upt_rec_numeral)
qed

lemma boot_machine_tables:
  "card (boot_table_paths boot_machine 0xffff800000000000 [boot_entry] \<lparr>physical_base = 0, virtual_base = 0\<rparr>) \<le> 256 + 19"
proof -
  let ?s = "paging_mode boot_machine" and ?r = "boot_reqs boot_machine 0xffff800000000000 [boot_entry] \<lparr>physical_base = 0, virtual_base = 0\<rparr>"
  let ?P = "{[256], [256, 0]} \<union> (\<lambda>j. [256, 0, j]) ` {..<17 :: nat}"
  have la: "\<not> vmm_la57 ?s" by (simp add: paging_mode_def boot_machine_fields)
  have "tables_along [] (butlast (pt_path ?s (0x100000 + of_nat k * PAGE_SIZE + 0xffff800000000000))) \<subseteq> ?P" if "k < 8192" for k
    using that unfolding boot_machine_path [OF that la] by auto
  then have "table_paths ?s ?r \<subseteq> ?P"
    unfolding boot_machine_reqs table_paths_def by (fastforce simp del: upt_rec_numeral)
  then have "boot_table_paths boot_machine 0xffff800000000000 [boot_entry] \<lparr>physical_base = 0, virtual_base = 0\<rparr> \<subseteq>
      (\<lambda>i. [i]) ` {256..<512} \<union> ?P" by (auto simp: boot_table_paths_def)
  then have "card (boot_table_paths boot_machine 0xffff800000000000 [boot_entry] \<lparr>physical_base = 0, virtual_base = 0\<rparr>) \<le>
      card ((\<lambda>i. [i]) ` {256..<512 :: nat} \<union> ?P)" by (intro card_mono) auto
  also have "\<dots> \<le> card ((\<lambda>i. [i]) ` {256..<512 :: nat}) + (card {[256], [256, 0 :: nat]} + card ((\<lambda>j. [256, 0, j]) ` {..<17 :: nat}))"
    by (rule order_trans [OF card_Un_le]) (intro add_left_mono card_Un_le)
  also have "\<dots> = 256 + 19" by (simp add: card_image inj_on_def)
  finally show ?thesis .
qed

lemma boot_machine_bootable:
  "kernel_bootable 1 boot_machine 0xffff800000000000 [boot_entry] \<lparr>physical_base = 0, virtual_base = 0\<rparr>"
proof -
  let ?file = "0xffff800000005000 :: u64"
  have num: "load16 (\<lambda>_. 0) (?file + 56) = (0 :: u16)" by (simp add: numeral_eq_Suc)
  have "\<not> usable_page [boot_entry] (unat (x - 0xffff800000000000) div 4096)" if "in_region ?file 64 x" for x
  proof -
    have x: "unat (x - ?file) < 64" using that by (simp add: in_region_def)
    have "unat (x - ?file + 0x5000) = unat (x - ?file) + unat (0x5000 :: u64)" using x by (intro unat_add_lem [THEN iffD1]) simp
    moreover have "x - ?file + 0x5000 = x - 0xffff800000000000" by simp
    ultimately have "unat (x - 0xffff800000000000) = unat (x - ?file) + 0x5000" by simp
    then have "unat (x - 0xffff800000000000) div 4096 < 256" using x by (intro less_mult_imp_div_less) simp
    then show ?thesis by (simp add: boot_machine_free(3))
  qed
  then have "boot_elf boot_machine 0xffff800000000000 [boot_entry]"
    using num by (simp add: boot_elf_def boot_machine_fields elf_byte_def)
  moreover have "boot_room 1 boot_machine 0xffff800000000000 [boot_entry] \<lparr>physical_base = 0, virtual_base = 0\<rparr>"
    using boot_machine_chunks boot_machine_tables by (simp add: boot_room_def boot_machine_free)
  moreover have "entries_fit [boot_entry]" by (simp add: entries_fit_def boot_entry_def ALIGN_UP_def DIV_ROUNDUP_def)
  ultimately show ?thesis
    using boot_machine_pmm by (simp add: kernel_bootable_def boot_machine_free boot_machine_fields del: ram_pages.simps)
qed

text \<open>A terminal that takes one page and shows the last character written in one byte of text memory, and
  cannot do without a context.\<close>

abbreviation screen_byte :: u64 where "screen_byte \<equiv> 0xffff8000000b8000"

definition screen :: display where
  "screen = \<lparr>flanterm_fb_init = (\<lambda>debug fb. if debug then return 0x9000 else bind (pmm_alloc 1) (\<lambda>_. return 0x9000)),
     flanterm_deinit = (\<lambda>_. return ()),
     flanterm_write = (\<lambda>ctx d. if ctx = 0 then fault ''null context'' else modify (\<lambda>s. s\<lparr>mem := (mem s)(screen_byte := last (0 # d))\<rparr>)),
     npf_format = (\<lambda>fmt _. map of_char fmt), debug_build = False\<rparr>"

abbreviation screen_owns :: owner where "screen_owns \<equiv> \<lambda>ctx P s. ctx = 0x9000"

abbreviation screen_room :: "nat \<Rightarrow> nat set \<Rightarrow> bool" where "screen_room \<equiv> \<lambda>n F. n \<le> card F"

lemma screen_opens: "opens screen {screen_byte} screen_owns screen_room 1 FB"
  unfolding opens_def
proof (intro ballI allI impI, elim conjE)
  fix fb s n assume s: "pmm_ready s" and n: "Suc n \<le> card (free_pages s)"
  then have "free_pages s \<noteq> {}" by auto
  from pmm_alloc_one [OF s this] obtain q t where t: "pmm_alloc 1 s = Ok (of_nat q * PAGE_SIZE, t)" "q \<in> free_pages s" "free_pages t = free_pages s - {q}"
    "pmm_ready t" "alloc_frame s t" "\<forall>x. page_of s x \<noteq> q \<and> \<not> bitmap_byte s x \<longrightarrow> mem t x = mem s x" by blast
  have "flanterm_fb_init screen False fb s = Ok (0x9000, t)" using t(1) by (simp add: screen_def bind_Ok run_basic)
  then show "\<exists>ctx P t. flanterm_fb_init screen False fb s = Ok (ctx, t) \<and> alloc_frame s t \<and> pmm_ready t \<and> P \<subseteq> free_pages s \<and> card P \<le> 1
      \<and> free_pages t = free_pages s - P \<and> n \<le> card (free_pages t)
      \<and> (\<forall>x. x \<notin> {screen_byte} \<and> page_of s x \<notin> P \<and> \<not> bitmap_byte s x \<longrightarrow> mem t x = mem s x)
      \<and> ctx = 0x9000 \<and> (\<forall>ctx' P'. ctx' = 0x9000 \<and> P' \<inter> free_pages s = {} \<longrightarrow> ctx' = 0x9000)"
    using t(2-) n by (intro exI [of _ "0x9000"] exI [of _ "{q}"] exI [of _ t]) (simp add: card_Diff_singleton)
qed

lemma screen_works: "display_works screen {screen_byte} screen_owns screen_room 1 FB"
proof -
  have "opens_early screen {screen_byte} screen_owns FB"
    unfolding opens_early_def by (intro ballI allI exI [of _ "0x9000"], rule_tac x = "mem s" in exI) (simp add: screen_def run_basic)
  moreover have "closes screen {screen_byte} screen_owns"
    unfolding closes_def by (intro allI impI, rule_tac x = "mem s" in exI) (simp add: screen_def run_basic)
  moreover have "writes screen {screen_byte} screen_owns"
    unfolding writes_def
    by (intro allI impI, rule_tac x = "(mem s)(screen_byte := last (0 # d))" in exI) (simp add: screen_def run_basic drawn_def)
  moreover have "stays {screen_byte} screen_owns" by (simp add: stays_def)
  ultimately show ?thesis using screen_opens by (simp add: display_works_def screen_def)
qed

lemma boot_machine_screen: "\<not> usable_page [boot_entry] (unat (screen_byte - 0xffff800000000000) div 4096)"
  "\<not> elf_byte (mem boot_machine) 0xffff800000005000 screen_byte"
proof -
  have "load16 (\<lambda>_. 0) (0xffff800000005000 + 56) = (0 :: u16)" by (simp add: numeral_eq_Suc)
  then show "\<not> elf_byte (mem boot_machine) 0xffff800000005000 screen_byte" by (simp add: elf_byte_def boot_machine_fields in_region_def)
qed (simp add: boot_machine_free(3))

lemma boot_machine_display:
  "display_ready screen {screen_byte} screen_owns screen_room 1 [0xffff80000000a000] boot_machine 0xffff800000000000 [boot_entry]"
  using boot_machine_screen screen_works by (simp add: display_ready_def boot_machine_fields boot_machine_free(1))

end
