(* ===== verification/Acpi_Tables.thy ===== *)
theory Acpi_Tables
  imports Vmm_Init
begin

text \<open>
  The search for a firmware table, \<open>acpi_find_sdt\<close> of \<open>kernel/src/acpi/acpi.c\<close>, over the root
  table in memory. \<open>struct rsdp\<close> has its revision at offset 15, the 32-bit root at 16 and the 64-bit
  one at 24; \<open>struct sdt\<close> its signature at 0 and its length at 4, and is 36 bytes long.
\<close>

section \<open>Definitions\<close>

definition sizeof_rsdp :: u64 where "sizeof_rsdp = 40"
definition sizeof_sdt :: u64 where "sizeof_sdt = 36"

definition ACPI_FLAGS :: u64 where
  "ACPI_FLAGS = VMM_PTE_PRESENT OR VMM_PTE_NOEXEC OR VMM_PTE_WRITABLE"

definition use_xsdt :: "bool kprog" where
  "use_xsdt = bind (gets rsdp) (\<lambda>r.
     bind (read8 (r + 15)) (\<lambda>revision.
     bind (read64 (r + 24)) (\<lambda>xsdt_addr.
     return (2 \<le> revision \<and> xsdt_addr \<noteq> 0))))"

text \<open>A signature is given as the four characters of a string literal; \<open>memcmp\<close> with it finds no
  difference exactly when the four bytes are these.\<close>

definition literal_bytes :: "string \<Rightarrow> u8 list" where
  "literal_bytes lit = map of_char lit"

definition sdt_signature :: "memory \<Rightarrow> u64 \<Rightarrow> u8 list" where
  "sdt_signature m p = map (\<lambda>i. m (p + of_nat i)) [0..<4]"

text \<open>The format \<open>%4s\<close> between single quotes.\<close>

definition quoted_4s :: string where
  "quoted_4s = [CHR 0x27] @ ''%4s'' @ [CHR 0x27]"

text \<open>The body of the loop: the address of an entry, the comparison and the report of a table found.\<close>

definition acpi_entry :: "u64 \<Rightarrow> u64 kprog" where
  "acpi_entry i =
     bind use_xsdt (\<lambda>x.
     bind (gets rsdt) (\<lambda>r.
     bind (gets hhdm) (\<lambda>off.
     if x then bind (read64 (r + 36 + i * 8)) (\<lambda>addr. return (addr + off))
     else bind (read32 (r + 36 + i * 4)) (\<lambda>addr. return (ucast addr + off)))))"

definition acpi_report :: "string \<Rightarrow> u64 \<Rightarrow> unit kprog" where
  "acpi_report signature sdt =
     bind (read32 (sdt + 4)) (\<lambda>len.
     bind (printf (''acpi: Found '' @ quoted_4s @ '' at %lx, length=%lu'') [PStr signature, PInt sdt, PInt (ucast len)]) (\<lambda>_.
     bind (read32 (sdt + 4)) (\<lambda>len.
     bind (gets hhdm) (\<lambda>off.
     vmm_map_span sdt (sdt - off) (ucast len) ACPI_FLAGS))))"

definition acpi_find_step :: "string \<Rightarrow> u64 \<times> u64 \<times> u64 option \<Rightarrow> (u64 \<times> u64 \<times> u64 option) kprog" where
  "acpi_find_step signature = (\<lambda>(i, index, found).
     bind (acpi_entry i) (\<lambda>sdt.
     bind (gets hhdm) (\<lambda>off.
     bind (vmm_map_span sdt (sdt - off) sizeof_sdt ACPI_FLAGS) (\<lambda>_.
     bind (gets (\<lambda>s. sdt_signature (mem s) sdt)) (\<lambda>sig.
     if sig \<noteq> literal_bytes signature then return (i + 1, index, None)
     else if 0 < index then return (i + 1, index - 1, None)
     else bind (acpi_report signature sdt) (\<lambda>_. return (i, index, Some sdt)))))))"

definition acpi_find_sdt :: "string \<Rightarrow> u64 \<Rightarrow> u64 kprog" where
  "acpi_find_sdt signature index =
     bind (gets rsdt) (\<lambda>r.
     bind (read32 (r + 4)) (\<lambda>len.
     bind use_xsdt (\<lambda>x.
     let entry_count = (ucast len - sizeof_sdt) div (if x then 8 else 4) in
     bind (whileM (\<lambda>(i, index, found) s. found = None \<and> i < entry_count) (acpi_find_step signature) (0, index, None))
       (\<lambda>(i, index, found). case found of
          Some sdt \<Rightarrow> return sdt
        | None \<Rightarrow> bind (printf (''acpi: Could not find '' @ quoted_4s) [PStr signature]) (\<lambda>_. return 0)))))"

lemma memcmp_literal:
  assumes "length lit = 4" and "\<forall>i < 4. m (q + of_nat i) = literal_bytes lit ! i"
  shows "memcmp_mem zf m p q 4 = 0 \<longleftrightarrow> sdt_signature m p = literal_bytes lit"
proof -
  have "sdt_signature m p = literal_bytes lit \<longleftrightarrow> (\<forall>i < 4. m (p + of_nat i) = literal_bytes lit ! i)"
    using assms(1) by (auto simp: list_eq_iff_nth_eq sdt_signature_def literal_bytes_def simp del: upt_rec_numeral)
  then show ?thesis using assms(2) memcmp_mem_zero_iff [of 4 zf m p q] by simp
qed

section \<open>The tables\<close>

definition xsdt :: "kernel \<Rightarrow> bool" where
  "xsdt s \<longleftrightarrow> 2 \<le> mem s (rsdp s + 15) \<and> load64 (mem s) (rsdp s + 24) \<noteq> 0"

definition rsdt_length :: "kernel \<Rightarrow> nat" where
  "rsdt_length s = unat (load32 (mem s) (rsdt s + 4))"

definition entry_size :: "kernel \<Rightarrow> nat" where
  "entry_size s = (if xsdt s then 8 else 4)"

definition sdt_count :: "kernel \<Rightarrow> nat" where
  "sdt_count s = (rsdt_length s - 36) div entry_size s"

definition sdt_at :: "kernel \<Rightarrow> nat \<Rightarrow> u64" where
  "sdt_at s i = (if xsdt s then load64 (mem s) (rsdt s + 36 + of_nat i * 8)
     else ucast (load32 (mem s) (rsdt s + 36 + of_nat i * 4))) + hhdm s"

definition sdt_tables :: "kernel \<Rightarrow> u64 list" where
  "sdt_tables s = map (sdt_at s) [0..<sdt_count s]"

definition sdt_length :: "kernel \<Rightarrow> u64 \<Rightarrow> u64" where
  "sdt_length s p = ucast (load32 (mem s) (p + 4))"

text \<open>The tables read are outside the page tables, the free pages and the bitmap, and do not reach the
  top of the address space.\<close>

definition acpi_byte :: "kernel \<Rightarrow> u64 \<Rightarrow> bool" where
  "acpi_byte s x \<longleftrightarrow> in_region (rsdp s) 40 x \<or> in_region (rsdt s) (rsdt_length s) x
     \<or> (\<exists>p \<in> set (sdt_tables s). in_region p 36 x)"

definition acpi_ok :: "kernel \<Rightarrow> tables \<Rightarrow> bool" where
  "acpi_ok s T \<longleftrightarrow> 36 \<le> rsdt_length s
     \<and> (\<forall>x. acpi_byte s x \<longrightarrow> page_of s x \<notin> ran T \<and> page_of s x \<notin> free_pages s \<and> \<not> bitmap_byte s x)
     \<and> (\<forall>p \<in> set (sdt_tables s). unat (p - hhdm s) + 36 + 8192 < 2 ^ 64
          \<and> unat (p - hhdm s) + unat (sdt_length s p) + 8192 < 2 ^ 64)"

lemma use_xsdt_eq: "use_xsdt s = Ok (xsdt s, s)"
  by (simp add: use_xsdt_def xsdt_def access_defs run_basic)

lemma acpi_entry_eq: "acpi_entry (of_nat i) s = Ok (sdt_at s i, s)"
  by (simp add: acpi_entry_def sdt_at_def bind_Ok [where f = use_xsdt, OF use_xsdt_eq] access_defs run_basic)

lemma vm_logged_state:
  assumes "vm_logged k s T t T' q"
  shows "rsdp t = rsdp s" "rsdt t = rsdt s" "hhdm t = hhdm s" "\<exists>i m. t = s\<lparr>pmm_last_used_index := i, mem := m, klog := klog t\<rparr>"
proof -
  obtain i m where e: "t\<lparr>klog := klog s\<rparr> = s\<lparr>pmm_last_used_index := i, mem := m\<rparr>"
    using assms by (auto simp: vm_logged_def vm_mapped_def alloc_frame_def)
  have "t = (t\<lparr>klog := klog s\<rparr>)\<lparr>klog := klog t\<rparr>" by simp
  also have "\<dots> = s\<lparr>pmm_last_used_index := i, mem := m, klog := klog t\<rparr>" unfolding e by simp
  finally have t: "t = s\<lparr>pmm_last_used_index := i, mem := m, klog := klog t\<rparr>" .
  then show "\<exists>i m. t = s\<lparr>pmm_last_used_index := i, mem := m, klog := klog t\<rparr>" by blast
  show "rsdp t = rsdp s" "rsdt t = rsdt s" "hhdm t = hhdm s" by (subst t, simp)+
qed

text \<open>What reading firmware tables does to the rest of the kernel: the page tables grow into free pages, and
  nothing else is written.\<close>

definition fw_step :: "kernel \<Rightarrow> tables \<Rightarrow> kernel \<Rightarrow> tables \<Rightarrow> bool" where
  "fw_step s T t T' \<longleftrightarrow> pt_inv t T' \<and> pagemap_lock t = pagemap_lock s \<and> hhdm t = hhdm s \<and> pmm_bitmap t = pmm_bitmap s
     \<and> pmm_avl_page_count t = pmm_avl_page_count s \<and> rsdp t = rsdp s \<and> rsdt t = rsdt s \<and> x2apic_mode t = x2apic_mode s
     \<and> device t = device s \<and> dev_trace t = dev_trace s \<and> free_pages t \<subseteq> free_pages s \<and> ran T' \<subseteq> ran T \<union> free_pages s
     \<and> vm_frame s T t"

lemma fw_step_pages: "fw_step s T t T' \<Longrightarrow> page_of t = page_of s" "fw_step s T t T' \<Longrightarrow> bitmap_byte t = bitmap_byte s"
  by (auto simp: fw_step_def page_of_def bitmap_byte_def fun_eq_iff)

lemma fw_step_refl: "pt_inv s T \<Longrightarrow> fw_step s T s T"
  by (simp add: fw_step_def vm_frame_def)

lemma fw_step_trans:
  assumes a: "fw_step s T t T'" and b: "fw_step t T' u T''"
  shows "fw_step s T u T''"
proof -
  have "vm_frame s T u"
    unfolding vm_frame_def
  proof (intro allI impI)
    fix x assume x: "page_of s x \<notin> ran T \<and> page_of s x \<notin> free_pages s \<and> \<not> bitmap_byte s x"
    then have "mem t x = mem s x" using a by (simp add: fw_step_def vm_frame_def)
    moreover have "mem u x = mem t x"
      using a b x fw_step_pages [OF a] by (auto simp: fw_step_def vm_frame_def)
    ultimately show "mem u x = mem s x" by simp
  qed
  then show ?thesis using a b by (auto simp: fw_step_def)
qed

lemma fw_step_same:
  assumes "vm_same t u" and "fw_step s T t T'" and "pagemap_lock u = pagemap_lock t" and "rsdp u = rsdp t" and "rsdt u = rsdt t"
    and "x2apic_mode u = x2apic_mode t" and "device u = device t" and "dev_trace u = dev_trace t"
  shows "fw_step s T u T'"
  using assms vm_same_cong [OF assms(1)] by (simp add: fw_step_def vm_frame_def vm_same_def)

lemma vm_logged_fw:
  assumes "vm_logged k s T t T' q"
  shows "fw_step s T t T'"
proof -
  obtain i m l where t: "t = s\<lparr>pmm_last_used_index := i, mem := m, klog := l\<rparr>" using vm_logged_state(4) [OF assms] by blast
  have "free_pages t \<subseteq> free_pages s" "ran T' \<subseteq> ran T \<union> free_pages s"
    using assms vm_same_cong(3) [OF vm_same_locks(3) [of t "klog s"]] by (auto simp: vm_logged_def vm_mapped_def)
  moreover have "pmm_bitmap t = pmm_bitmap s" "pmm_avl_page_count t = pmm_avl_page_count s" "x2apic_mode t = x2apic_mode s"
    "device t = device s" "dev_trace t = dev_trace s" unfolding t by simp_all
  ultimately show ?thesis
    using vm_logged_state [OF assms] vm_logged_fields(1,3,7) [OF assms] by (simp add: fw_step_def)
qed

lemma fw_step_rsdt: "fw_step s T t T' \<Longrightarrow> fw_step (s\<lparr>rsdt := r\<rparr>) T (t\<lparr>rsdt := r\<rparr>) T'"
proof -
  have c: "vm_same u (u\<lparr>rsdt := r\<rparr>)" for u by (simp add: vm_same_def)
  show "fw_step s T t T' \<Longrightarrow> fw_step (s\<lparr>rsdt := r\<rparr>) T (t\<lparr>rsdt := r\<rparr>) T'"
    using vm_same_cong [OF c [of s]] vm_same_cong [OF c [of t]] by (simp add: fw_step_def vm_frame_def pagemap_lock_def)
qed

lemma load_le_part:
  assumes "\<forall>x. in_region b k x \<longrightarrow> m' x = m x" and "unat off + n \<le> k" and "k \<le> 2 ^ 64"
  shows "load_le n m' (b + off) = load_le n m (b + off)"
  by (rule load_le_cong_region) (use assms in_region_sub [of b off n _ k] in auto)

text \<open>The same firmware tables in two states.\<close>

definition fw_agree :: "kernel \<Rightarrow> kernel \<Rightarrow> bool" where
  "fw_agree s t \<longleftrightarrow> 36 \<le> rsdt_length s \<and> rsdp t = rsdp s \<and> rsdt t = rsdt s \<and> hhdm t = hhdm s
     \<and> (\<forall>x. acpi_byte s x \<longrightarrow> mem t x = mem s x)"

lemma fw_step_agree: "acpi_ok s T \<Longrightarrow> fw_step s T t T' \<Longrightarrow> fw_agree s t"
  by (auto simp: fw_agree_def acpi_ok_def fw_step_def vm_frame_def)

lemma acpi_kept_agree:
  assumes "fw_agree s t"
  shows "xsdt t = xsdt s" "rsdt_length t = rsdt_length s" "sdt_count t = sdt_count s"
    and "i < sdt_count s \<Longrightarrow> sdt_at t i = sdt_at s i"
    and "p \<in> set (sdt_tables s) \<Longrightarrow> sdt_signature (mem t) p = sdt_signature (mem s) p"
    and "p \<in> set (sdt_tables s) \<Longrightarrow> sdt_length t p = sdt_length s p"
proof -
  have ok36: "36 \<le> rsdt_length s" and st: "rsdp t = rsdp s" "rsdt t = rsdt s" "hhdm t = hhdm s"
    and keep: "\<And>x. acpi_byte s x \<Longrightarrow> mem t x = mem s x"
    using assms by (simp_all add: fw_agree_def)
  have rsdp: "\<forall>x. in_region (rsdp s) 40 x \<longrightarrow> mem t x = mem s x" using keep by (simp add: acpi_byte_def)
  have L: "rsdt_length s < 2 ^ 32" unfolding rsdt_length_def using unsigned_less [of "load32 (mem s) (rsdt s + 4)", where ?'a = nat] by simp
  have rsdt: "\<forall>x. in_region (rsdt s) (rsdt_length s) x \<longrightarrow> mem t x = mem s x" using keep by (simp add: acpi_byte_def)
  have "mem t (rsdp s + 15) = mem s (rsdp s + 15)"
    by (rule keep) (simp add: acpi_byte_def in_region_def)
  moreover have "load64 (mem t) (rsdp s + 24) = load64 (mem s) (rsdp s + 24)"
    by (rule load_le_part [OF rsdp]) simp_all
  ultimately show x: "xsdt t = xsdt s" using st by (simp add: xsdt_def)
  have "load32 (mem t) (rsdt s + 4) = load32 (mem s) (rsdt s + 4)"
    by (rule load_le_part [OF rsdt]) (use ok36 L in simp_all)
  then show l: "rsdt_length t = rsdt_length s" using st by (simp add: rsdt_length_def)
  show "sdt_count t = sdt_count s" by (simp add: sdt_count_def entry_size_def x l)
  show "sdt_at t i = sdt_at s i" if i: "i < sdt_count s"
  proof -
    have "(i + 1) * entry_size s \<le> rsdt_length s - 36"
      using i unfolding sdt_count_def
      by (metis Suc_eq_plus1 Suc_leI div_times_less_eq_dividend le_trans mult_le_mono1)
    then have fit: "36 + i * entry_size s + entry_size s \<le> rsdt_length s" using ok36 by simp
    have u: "unat (36 + of_nat i * of_nat (entry_size s) :: u64) = 36 + i * entry_size s"
      using unat_of_nat_u64 [of "36 + i * entry_size s"] fit L by simp
    let ?off = "36 + of_nat i * of_nat (entry_size s)"
    have "load64 (mem t) (rsdt s + ?off) = load64 (mem s) (rsdt s + ?off)" if "xsdt s"
      by (rule load_le_part [OF rsdt]) (use u fit L that in \<open>simp_all add: entry_size_def\<close>)
    moreover have "load32 (mem t) (rsdt s + ?off) = load32 (mem s) (rsdt s + ?off)" if "\<not> xsdt s"
      by (rule load_le_part [OF rsdt]) (use u fit L that in \<open>simp_all add: entry_size_def\<close>)
    ultimately show ?thesis using st x by (auto simp: sdt_at_def entry_size_def add.assoc)
  qed
  show "sdt_signature (mem t) p = sdt_signature (mem s) p" if p: "p \<in> set (sdt_tables s)"
  proof -
    have "mem t (p + of_nat i) = mem s (p + of_nat i)" if "i < 4" for i
      using that p by (intro keep) (auto simp: acpi_byte_def in_region_offset intro!: bexI [of _ p])
    then show ?thesis by (auto simp: sdt_signature_def simp del: upt_rec_numeral)
  qed
  show "sdt_length t p = sdt_length s p" if p: "p \<in> set (sdt_tables s)"
  proof -
    have "load32 (mem t) (p + 4) = load32 (mem s) (p + 4)"
      by (rule load_le_part [of p 36]) (use p keep in \<open>auto simp: acpi_byte_def\<close>)
    then show ?thesis by (simp add: sdt_length_def)
  qed
qed

lemmas acpi_kept_fw = acpi_kept_agree [OF fw_step_agree]
lemmas acpi_kept = acpi_kept_fw [OF _ vm_logged_fw]

lemma acpi_same:
  assumes "fw_agree s t"
  shows "sdt_tables t = sdt_tables s" and "acpi_byte t = acpi_byte s"
proof -
  note k = acpi_kept_agree [OF assms]
  show tab: "sdt_tables t = sdt_tables s" using k(3,4) by (simp add: sdt_tables_def)
  show "acpi_byte t = acpi_byte s" using assms by (simp add: fw_agree_def acpi_byte_def fun_eq_iff k(2) tab)
qed

text \<open>The firmware tables are as good afterwards as before.\<close>

lemma acpi_ok_kept:
  assumes ok: "acpi_ok s T" and fw: "fw_step s T t T'"
  shows "acpi_ok t T'" and "sdt_tables t = sdt_tables s"
proof -
  note k = acpi_kept_fw [OF ok fw] and pg = fw_step_pages [OF fw] and same = acpi_same [OF fw_step_agree [OF ok fw]]
  have f: "hhdm t = hhdm s" "free_pages t \<subseteq> free_pages s" "ran T' \<subseteq> ran T \<union> free_pages s"
    using fw by (simp_all add: fw_step_def)
  show "sdt_tables t = sdt_tables s" by (fact same(1))
  show "acpi_ok t T'" using ok k(2,6) f(2,3) unfolding acpi_ok_def by (auto simp: f(1) pg same)
qed

section \<open>The search\<close>

fun nth_match :: "('a \<Rightarrow> bool) \<Rightarrow> 'a list \<Rightarrow> nat \<Rightarrow> 'a option" where
  "nth_match P [] n = None"
| "nth_match P (x # xs) n =
     (if P x then (case n of 0 \<Rightarrow> Some x | Suc m \<Rightarrow> nth_match P xs m) else nth_match P xs n)"

lemma nth_match_filter:
  "nth_match P xs n = (if n < length (filter P xs) then Some (filter P xs ! n) else None)"
  by (induction P xs n rule: nth_match.induct) (auto split: nat.splits)

definition sdt_cost :: "kernel \<Rightarrow> u64 \<Rightarrow> nat" where
  "sdt_cost s p = 4 * span_pages (p - hhdm s) (sdt_length s p)"

definition sdt_matches :: "kernel \<Rightarrow> string \<Rightarrow> u64 \<Rightarrow> bool" where
  "sdt_matches s signature p \<longleftrightarrow> sdt_signature (mem s) p = literal_bytes signature"

lemma vm_logged_mapped: "vm_mapped k s T t T' q \<Longrightarrow> vm_logged k s T t T' q"
proof -
  assume a: "vm_mapped k s T t T' q"
  then obtain i m where "t = s\<lparr>pmm_last_used_index := i, mem := m\<rparr>" by (auto simp: vm_mapped_def alloc_frame_def)
  then have "t\<lparr>klog := klog s\<rparr> = t" by simp
  with a show ?thesis by (simp add: vm_logged_def)
qed

lemma vm_logged_weaken: "vm_logged k s T t T' q \<Longrightarrow> k \<le> l \<Longrightarrow> vm_logged l s T t T' q"
  by (auto simp: vm_logged_def vm_mapped_def)

lemma vm_logged_klog: "pt_inv t T \<Longrightarrow> vm_logged 0 t T (t\<lparr>klog := l\<rparr>) T []"
  by (simp add: vm_logged_def vm_mapped_refl)

lemma span_pages_header: "span_pages p 36 \<le> 2"
proof -
  have "(unat p + 36 + 4095) div 4096 \<le> (unat p + 2 * 4096) div 4096" by (intro div_le_mono) simp
  then show ?thesis by (simp add: span_pages_def)
qed

text \<open>The bytes of a span are mapped, page by page.\<close>

definition span_mapped :: "u64 \<Rightarrow> u64 \<Rightarrow> u64 \<Rightarrow> u64 \<Rightarrow> kernel \<Rightarrow> bool" where
  "span_mapped virt phys len flags s \<longleftrightarrow> (\<forall>k < span_pages phys len.
     translate s (ALIGN_DOWN virt PAGE_SIZE + of_nat k * PAGE_SIZE) = present ((ALIGN_DOWN phys PAGE_SIZE + of_nat k * PAGE_SIZE) OR flags))"

lemma span_pages_le: "span_pages phys len \<le> unat len div 4096 + 2"
proof -
  have "unat phys < (unat phys div 4096 + 1) * 4096" "unat len < (unat len div 4096 + 1) * 4096"
    using dividend_less_div_times [of 4096 "unat phys"] dividend_less_div_times [of 4096 "unat len"] by simp_all
  then have "unat phys + unat len + 4095 < (unat phys div 4096 + unat len div 4096 + 3) * 4096" by simp
  then have "(unat phys + unat len + 4095) div 4096 < unat phys div 4096 + unat len div 4096 + 3"
    by (rule less_mult_imp_div_less)
  then show ?thesis by (simp add: span_pages_def)
qed

lemma span_logged:
  assumes v: "vm_logged k s T t T' q" and lk: "\<not> pagemap_lock s"
    and fit: "unat phys + unat len + 8192 < 2 ^ 64" "unat len < 2 ^ 32" and free: "k + 4 * span_pages phys len \<le> card (free_pages s)"
  shows "\<exists>u T''. vmm_map_span virt phys len flags t = Ok ((), u)
    \<and> vm_logged (k + 4 * span_pages phys len) s T u T'' (q @ vmm_span virt phys len flags) \<and> span_mapped virt phys len flags u"
proof -
  have "\<not> pagemap_lock t" "4 * span_pages phys len \<le> card (free_pages t)"
    using vm_logged_fields(3,4) [OF v] lk free by auto
  note ok = vmm_map_span_Ok [OF vm_logged_fields(1) [OF v] this(1) fit(1) this(2)]
  from ok(1) obtain u T'' where
    u: "vmm_map_span virt phys len flags t = Ok ((), u)" "vm_mapped (4 * span_pages phys len) t T' u T'' (vmm_span virt phys len flags)"
    by blast
  have al: "4096 dvd unat (ALIGN_DOWN virt PAGE_SIZE)" by (simp add: unat_ALIGN_DOWN)
  have "span_pages phys len \<le> 2 ^ 36" using span_pages_le [of phys len] fit(2) by simp
  from span_translate [OF u(2) [unfolded vmm_span_def] al ok(2) [symmetric] this] have "span_mapped virt phys len flags u"
    by (simp add: span_mapped_def)
  then show ?thesis using u(1) vm_logged_trans [OF v vm_logged_mapped [OF u(2)]] by blast
qed

lemma sdt_length_small: "unat (sdt_length s p) < 2 ^ 32"
proof -
  have "unat (load32 (mem s) (p + 4)) < 2 ^ 32" using unsigned_less [of "load32 (mem s) (p + 4)", where ?'a = nat] by simp
  then show ?thesis by (simp add: sdt_length_def unsigned_ucast_eq take_bit_nat_eq_self)
qed

lemma acpi_find_step_Ok:
  assumes ok: "acpi_ok s T" and v: "vm_logged k s T t T' q" and lk: "\<not> pagemap_lock s" and i: "i < sdt_count s"
    and p: "p = sdt_at s i" and hit: "hit \<longleftrightarrow> sdt_matches s sig p \<and> idx = 0"
    and free: "k + 8 + (if hit then sdt_cost s p else 0) \<le> card (free_pages s)"
  shows "\<exists>u T'' q'. acpi_find_step sig (of_nat i, idx, None) t =
      Ok (if hit then (of_nat i, idx, Some p)
          else (of_nat (i + 1), if sdt_matches s sig p then idx - 1 else idx, None), u)
    \<and> vm_logged (k + 8 + (if hit then sdt_cost s p else 0)) s T u T'' (q @ q')
    \<and> (hit \<longrightarrow> span_mapped p (p - hhdm s) (sdt_length s p) ACPI_FLAGS u)"
proof -
  have pin: "p \<in> set (sdt_tables s)" using i p by (simp add: sdt_tables_def)
  then have fit: "unat (p - hhdm s) + unat (36 :: u64) + 8192 < 2 ^ 64" "unat (p - hhdm s) + unat (sdt_length s p) + 8192 < 2 ^ 64"
    using ok by (auto simp: acpi_ok_def)
  note kt = acpi_kept [OF ok v] and st = vm_logged_state [OF v]
  have "4 * span_pages (p - hhdm s) 36 \<le> 8" using span_pages_header [of "p - hhdm s"] by simp
  then have "k + 4 * span_pages (p - hhdm s) 36 \<le> card (free_pages s)" using free by simp
  from span_logged [OF v lk fit(1) _ this, of p ACPI_FLAGS] obtain u T1 where
    u: "vmm_map_span p (p - hhdm s) 36 ACPI_FLAGS t = Ok ((), u)"
    "vm_logged (k + 4 * span_pages (p - hhdm s) 36) s T u T1 (q @ vmm_span p (p - hhdm s) 36 ACPI_FLAGS)" by auto
  have u8: "vm_logged (k + 8) s T u T1 (q @ vmm_span p (p - hhdm s) 36 ACPI_FLAGS)"
    by (rule vm_logged_weaken [OF u(2)]) (use \<open>4 * span_pages (p - hhdm s) 36 \<le> 8\<close> in simp)
  note ku = acpi_kept [OF ok u8]
  have start: "acpi_find_step sig (of_nat i, idx, None) t =
     (if \<not> sdt_matches s sig p then return (of_nat i + 1, idx, None)
      else if 0 < idx then return (of_nat i + 1, idx - 1, None)
      else bind (acpi_report sig p) (\<lambda>_. return (of_nat i, idx, Some p))) u"
    using kt(4) [OF i] st(3) u(1) ku(5) [OF pin] p
    by (simp add: acpi_find_step_def bind_Ok [where f = "acpi_entry _", OF acpi_entry_eq] sizeof_sdt_def bind_Ok sdt_matches_def)
  show ?thesis
  proof (cases hit)
    case False
    then have "acpi_find_step sig (of_nat i, idx, None) t =
        Ok ((of_nat (i + 1), if sdt_matches s sig p then idx - 1 else idx, None), u)"
      using hit start by (auto simp: run_basic word_neq_0_conv add.commute)
    then show ?thesis using False u8 by auto
  next
    case True
    then have m: "sdt_matches s sig p" "idx = 0" using hit by simp_all
    let ?w = "u\<lparr>klog := klog u @ [(''acpi: Found '' @ quoted_4s @ '' at %lx, length=%lu'', [PStr sig, PInt p, PInt (sdt_length s p)])]\<rparr>"
    have w: "vm_logged (k + 8) s T ?w T1 (q @ vmm_span p (p - hhdm s) 36 ACPI_FLAGS)"
      using vm_logged_trans [OF u8 vm_logged_klog [OF vm_logged_fields(1) [OF u8]]] by simp
    have "(k + 8) + 4 * span_pages (p - hhdm s) (sdt_length s p) \<le> card (free_pages s)"
      using free True by (simp add: sdt_cost_def)
    from span_logged [OF w lk fit(2) sdt_length_small this, of p ACPI_FLAGS] obtain z T2 where
      z: "vmm_map_span p (p - hhdm s) (sdt_length s p) ACPI_FLAGS ?w = Ok ((), z)"
      "vm_logged (k + 8 + 4 * span_pages (p - hhdm s) (sdt_length s p)) s T z T2
        ((q @ vmm_span p (p - hhdm s) 36 ACPI_FLAGS) @ vmm_span p (p - hhdm s) (sdt_length s p) ACPI_FLAGS)"
      "span_mapped p (p - hhdm s) (sdt_length s p) ACPI_FLAGS z" by blast
    have len: "ucast (load32 (mem u) (p + 4)) = sdt_length s p" using ku(6) [OF pin] by (simp add: sdt_length_def)
    have "acpi_report sig p u = Ok ((), z)"
      using z(1) vm_logged_state(3) [OF u8] by (simp add: acpi_report_def access_defs len del: append.simps)
    then have "acpi_find_step sig (of_nat i, idx, None) t = Ok ((of_nat i, idx, Some p), z)"
      by (subst start) (use m in \<open>simp add: bind_Ok run_basic\<close>)
    then show ?thesis using True z(2,3) by (auto simp: sdt_cost_def)
  qed
qed

text \<open>The cost of a result, in pages for tables.\<close>

definition found_cost :: "kernel \<Rightarrow> u64 option \<Rightarrow> nat" where
  "found_cost s r = (case r of Some p \<Rightarrow> sdt_cost s p | None \<Rightarrow> 0)"

definition found_mapped :: "kernel \<Rightarrow> u64 option \<Rightarrow> kernel \<Rightarrow> bool" where
  "found_mapped s r t \<longleftrightarrow> (\<forall>p. r = Some p \<longrightarrow> span_mapped p (p - hhdm s) (sdt_length s p) ACPI_FLAGS t)"

lemma acpi_find_loop:
  assumes ok: "acpi_ok s T" and lk: "\<not> pagemap_lock s" and v: "vm_logged (8 * i) s T t T' q" and i: "i \<le> sdt_count s"
    and r: "r = nth_match (sdt_matches s sig) (drop i (sdt_tables s)) (unat idx)"
    and free: "8 * sdt_count s + found_cost s r \<le> card (free_pages s)" and n: "n = of_nat (sdt_count s)" "sdt_count s < 2 ^ 64"
  shows "\<exists>j idx' u T'' q'. whileM (\<lambda>(i, index, found) s. found = None \<and> i < n) (acpi_find_step sig) (of_nat i, idx, None) t =
      Ok ((j, idx', r), u) \<and> vm_logged (8 * sdt_count s + found_cost s r) s T u T'' q' \<and> found_mapped s r u"
  using v i r free
proof (induction "sdt_count s - i" arbitrary: i idx t T' q)
  case 0
  then have i: "i = sdt_count s" and r: "r = None" by (simp_all add: sdt_tables_def)
  have "whileM (\<lambda>(i, index, found) s. found = None \<and> i < n) (acpi_find_step sig) (of_nat i, idx, None) t = Ok ((of_nat i, idx, None), t)"
    by (subst whileM_unfold) (simp add: i n)
  then show ?case using 0 r i by (auto simp: found_cost_def found_mapped_def)
next
  case (Suc m)
  then have lt: "i < sdt_count s" by simp
  let ?p = "sdt_at s i"
  have "drop i (sdt_tables s) = ?p # drop (Suc i) (sdt_tables s)"
    using lt by (simp add: Cons_nth_drop_Suc [symmetric] sdt_tables_def)
  then have r: "r = nth_match (sdt_matches s sig) (?p # drop (Suc i) (sdt_tables s)) (unat idx)" using Suc.prems(3) by simp
  define hit where "hit \<longleftrightarrow> sdt_matches s sig ?p \<and> idx = 0"
  have hr: "r = Some ?p" if hit using that r by (simp add: hit_def)
  have "8 * i + 8 + (if hit then sdt_cost s ?p else 0) \<le> card (free_pages s)"
    using Suc.prems(4) hr lt by (auto simp: found_cost_def split: option.splits)
  from acpi_find_step_Ok [OF ok Suc.prems(1) lk lt refl hit_def this] obtain u T'' q' where
    st: "acpi_find_step sig (of_nat i, idx, None) t = Ok (if hit then (of_nat i, idx, Some ?p)
          else (of_nat (i + 1), if sdt_matches s sig ?p then idx - 1 else idx, None), u)"
    and w: "vm_logged (8 * i + 8 + (if hit then sdt_cost s ?p else 0)) s T u T'' (q @ q')"
    and hm: "hit \<longrightarrow> span_mapped ?p (?p - hhdm s) (sdt_length s ?p) ACPI_FLAGS u" by blast
  have "(of_nat i :: u64) < n"
    using lt n by (simp add: word_less_nat_alt unat_of_nat_u64)
  then have unf: "whileM (\<lambda>(i, index, found) s. found = None \<and> i < n) (acpi_find_step sig) (of_nat i, idx, None) t =
     whileM (\<lambda>(i, index, found) s. found = None \<and> i < n) (acpi_find_step sig) (if hit then (of_nat i, idx, Some ?p)
          else (of_nat (i + 1), if sdt_matches s sig ?p then idx - 1 else idx, None)) u"
    by (subst whileM_unfold) (simp add: bind_Ok [where f = "acpi_find_step _ _", OF st])
  show ?case
  proof (cases hit)
    case True
    have "whileM (\<lambda>(i, index, found) s. found = None \<and> i < n) (acpi_find_step sig) (of_nat i, idx, Some ?p) u = Ok ((of_nat i, idx, Some ?p), u)"
      by (subst whileM_unfold) simp
    moreover have "vm_logged (8 * sdt_count s + found_cost s r) s T u T'' (q @ q')"
      by (rule vm_logged_weaken [OF w]) (use True hr lt in \<open>simp add: found_cost_def\<close>)
    ultimately show ?thesis using True unf hr hm by (auto simp: found_mapped_def)
  next
    case False
    let ?idx = "if sdt_matches s sig ?p then idx - 1 else idx"
    have "r = nth_match (sdt_matches s sig) (drop (Suc i) (sdt_tables s)) (unat ?idx)"
    proof (cases "sdt_matches s sig ?p")
      case True
      then have "idx \<noteq> 0" using False by (simp add: hit_def)
      then have "0 < unat idx" by (simp add: unat_gt_0)
      then have "unat idx = Suc (unat (idx - 1))" by (subst unat_sub) (simp_all add: word_le_nat_alt)
      then show ?thesis using True r by simp
    qed (simp add: r)
    moreover have "vm_logged (8 * Suc i) s T u T'' (q @ q')" using w False by (simp add: add.commute)
    ultimately show ?thesis
      using Suc.hyps(1) [of "Suc i" u T'' "q @ q'" ?idx] Suc.hyps(2) Suc.prems(4) lt unf False by simp
  qed
qed

text \<open>The table of an index among those with a signature.\<close>

definition found_sdt :: "kernel \<Rightarrow> string \<Rightarrow> nat \<Rightarrow> u64 option" where
  "found_sdt s sig n = (let ms = filter (sdt_matches s sig) (sdt_tables s) in if n < length ms then Some (ms ! n) else None)"

lemma acpi_find_sdt_Ok:
  assumes "pt_inv s T" and "\<not> pagemap_lock s" and "acpi_ok s T" and r: "r = found_sdt s sig (unat idx)"
    and "8 * sdt_count s + found_cost s r \<le> card (free_pages s)"
  shows "\<exists>t T' q. acpi_find_sdt sig idx s = Ok (case r of Some p \<Rightarrow> p | None \<Rightarrow> 0, t)
    \<and> vm_logged (8 * sdt_count s + found_cost s r) s T t T' q \<and> found_mapped s r t"
proof -
  let ?n = "(ucast (load32 (mem s) (rsdt s + 4)) - sizeof_sdt) div (if xsdt s then 8 else 4) :: u64"
  have L: "rsdt_length s < 2 ^ 32" "36 \<le> rsdt_length s"
    using unsigned_less [of "load32 (mem s) (rsdt s + 4)", where ?'a = nat] assms(3) by (simp_all add: rsdt_length_def acpi_ok_def)
  have "unat (ucast (load32 (mem s) (rsdt s + 4)) :: u64) = rsdt_length s"
    using L by (simp add: rsdt_length_def unsigned_ucast_eq take_bit_nat_eq_self)
  then have "unat (ucast (load32 (mem s) (rsdt s + 4)) - 36 :: u64) = rsdt_length s - 36"
    using L by (subst unat_sub) (simp_all add: word_le_nat_alt)
  then have un: "unat ?n = sdt_count s" by (simp add: sdt_count_def entry_size_def sizeof_sdt_def unat_div)
  then have n: "?n = of_nat (sdt_count s)" "sdt_count s < 2 ^ 64" using unat_u64_less [of ?n] by (simp_all add: word_unat_eq_iff unat_of_nat)
  have v0: "vm_logged (8 * 0) s T s T []" using vm_logged_klog [OF assms(1), of "klog s"] by simp
  have r': "r = nth_match (sdt_matches s sig) (drop 0 (sdt_tables s)) (unat idx)"
    by (simp add: r nth_match_filter found_sdt_def Let_def)
  from acpi_find_loop [OF assms(3,2) v0 _ r' assms(5) n] obtain j idx' u T' q where
    w: "whileM (\<lambda>(i, index, found) s. found = None \<and> i < ?n) (acpi_find_step sig) (0, idx, None) s = Ok ((j, idx', r), u)"
    and u: "vm_logged (8 * sdt_count s + found_cost s r) s T u T' q" and fm: "found_mapped s r u" by auto
  let ?l = "case r of Some p \<Rightarrow> klog u | None \<Rightarrow> klog u @ [(''acpi: Could not find '' @ quoted_4s, [PStr sig])]"
  let ?t = "u\<lparr>klog := ?l\<rparr>"
  have run: "acpi_find_sdt sig idx s = Ok (case r of Some p \<Rightarrow> p | None \<Rightarrow> 0, ?t)"
    using w by (auto simp: acpi_find_sdt_def access_defs bind_Ok [where f = use_xsdt, OF use_xsdt_eq] bind_Ok Let_def run_basic split: option.splits)
  have "vm_logged (8 * sdt_count s + found_cost s r + 0) s T ?t T' (q @ [])"
    by (rule vm_logged_trans [OF u vm_logged_klog [OF vm_logged_fields(1) [OF u]]])
  moreover have "found_mapped s r ?t"
    using fm vm_same_cong [OF vm_same_locks(3) [of u ?l]] by (simp add: found_mapped_def span_mapped_def)
  ultimately show ?thesis using run by auto
qed

lemma found_agree:
  assumes "fw_agree s t"
  shows "found_sdt t sig n = found_sdt s sig n" and "found_cost t (found_sdt s sig n) = found_cost s (found_sdt s sig n)"
    and "sdt_count t = sdt_count s"
proof -
  note k = acpi_kept_agree [OF assms] and o = acpi_same(1) [OF assms]
  have "filter (sdt_matches t sig) (sdt_tables s) = filter (sdt_matches s sig) (sdt_tables s)"
    using k(5) by (intro filter_cong) (simp_all add: sdt_matches_def)
  then show "found_sdt t sig n = found_sdt s sig n" by (simp add: found_sdt_def o)
  have "p \<in> set (sdt_tables s)" if "found_sdt s sig n = Some p" for p
    using that nth_mem by (fastforce simp: found_sdt_def Let_def split: if_splits)
  moreover have "hhdm t = hhdm s" using assms by (simp add: fw_agree_def)
  ultimately show "found_cost t (found_sdt s sig n) = found_cost s (found_sdt s sig n)"
    using k(6) by (auto simp: found_cost_def sdt_cost_def split: option.splits)
  show "sdt_count t = sdt_count s" by (fact k(3))
qed

lemmas found_kept = found_agree [OF fw_step_agree]

text \<open>C27: On a well-formed tree of page tables with enough free pages, and firmware tables outside them,
  \<open>acpi_find_sdt\<close> returns the table of the given index among those with the signature, in the order of
  the root table, with its whole length mapped in the direct map, or null when there are not so
  many; the tree stays well-formed and the firmware tables are unchanged.\<close>

theorem acpi_find_sdt_correct:
  assumes "pt_inv s T" and "\<not> pagemap_lock s" and "acpi_ok s T"
    and r: "r = (let ms = filter (sdt_matches s sig) (sdt_tables s) in if unat idx < length ms then Some (ms ! unat idx) else None)"
    and "8 * sdt_count s + found_cost s r \<le> card (free_pages s)"
  shows "\<exists>t T'. acpi_find_sdt sig idx s = Ok (case r of Some p \<Rightarrow> p | None \<Rightarrow> 0, t) \<and> pt_inv t T' \<and> \<not> pagemap_lock t
    \<and> found_mapped s r t \<and> (\<forall>x. acpi_byte s x \<longrightarrow> mem t x = mem s x)"
proof -
  have "r = found_sdt s sig (unat idx)" by (simp add: r found_sdt_def)
  from acpi_find_sdt_Ok [OF assms(1-3) this assms(5)] obtain t T' q where
    t: "acpi_find_sdt sig idx s = Ok (case r of Some p \<Rightarrow> p | None \<Rightarrow> 0, t)"
    "vm_logged (8 * sdt_count s + found_cost s r) s T t T' q" "found_mapped s r t" by blast
  have "mem t x = mem s x" if "acpi_byte s x" for x
    using vm_logged_fields(7) [OF t(2)] assms(3) that unfolding vm_frame_def acpi_ok_def by auto
  then show ?thesis using t vm_logged_fields(1,3) [OF t(2)] assms(2) by auto
qed

section \<open>A concrete machine\<close>

text \<open>A root table with two entries, tables with signatures \<open>APIC\<close> and \<open>HPET\<close>. The kind and the length of the
  first entry of the former are parameters; eight bytes after it is one of kind 1 and length 12.\<close>

lemma load32_bytes:
  "load32 m a = ucast (m a) OR push_bit 8 (ucast (m (a + 1)) OR push_bit 8 (ucast (m (a + 1 + 1)) OR push_bit 8 (ucast (m (a + 1 + 1 + 1)))))"
proof -
  have "load_le (Suc (Suc (Suc (Suc 0)))) m a = (ucast (m a) OR push_bit 8 (ucast (m (a + 1)) OR
      push_bit 8 (ucast (m (a + 1 + 1)) OR push_bit 8 (ucast (m (a + 1 + 1 + 1))))) :: u32)"
    by (simp only: load_le.simps push_bit_of_0 or.right_neutral)
  moreover have "(4 :: nat) = Suc (Suc (Suc (Suc 0)))" by simp
  ultimately show ?thesis by (simp only:)
qed

definition acpi_machine :: "u8 \<Rightarrow> u8 \<Rightarrow> kernel" where
  "acpi_machine ident len = vm_machine\<lparr>mem := (mem vm_machine)(0x501011 := 0x20, 0x501012 := 0x50, 0x502004 := 44, 0x502025 := 0x30, 0x502026 := 0x50, 0x502029 := 0x40, 0x50202a := 0x50,
     0x503000 := 0x41, 0x503001 := 0x50, 0x503002 := 0x49, 0x503003 := 0x43, 0x503004 := 64, 0x50302c := ident, 0x50302d := len, 0x503034 := 1, 0x503035 := 12,
     0x504000 := 0x48, 0x504001 := 0x50, 0x504002 := 0x45, 0x504003 := 0x54, 0x504004 := 56, 0x50402e := 0xd0, 0x50402f := 0xfe),
     device := \<lambda>_. 69841279 * 2 ^ 32, boot := (boot vm_machine)\<lparr>rsdp_response := Some 0x501000\<rparr>, rsdp := 0x501000, rsdt := 0x502000\<rparr>"

lemma acpi_machine_below: "unat x < 0x500000 \<Longrightarrow> mem (acpi_machine a b) x = mem vm_machine x"
  by (auto simp: acpi_machine_def)

lemma acpi_machine_same:
  "pmm_bitmap (acpi_machine a b) = 0x400000" "pmm_avl_page_count (acpi_machine a b) = 1024" "hhdm (acpi_machine a b) = 0"
  "pmm_last_used_index (acpi_machine a b) = 0" "\<not> pmm_lock (acpi_machine a b)" "\<not> pagemap_lock (acpi_machine a b)"
  "page_of (acpi_machine a b) = page_of vm_machine" "bitmap_byte (acpi_machine a b) = bitmap_byte vm_machine"
  using vm_machine_fields by (simp_all add: acpi_machine_def page_of_def bitmap_byte_def fun_eq_iff pagemap_lock_def)

lemma acpi_machine_free: "free_pages (acpi_machine a b) = {1..<1024}"
proof -
  have "bitmap_bit (mem (acpi_machine a b)) 0x400000 i = bitmap_bit (mem vm_machine) 0x400000 i" if "i < 1024" for i
  proof -
    have "unat (of_nat (i div 8) :: u64) = i div 8" using that by (intro unat_of_nat_u64) simp
    then have "unat (0x400000 + of_nat (i div 8) :: u64) = 0x400000 + i div 8"
      using that by (subst unat_add_lem [THEN iffD1]) simp_all
    then show ?thesis using that by (simp add: bitmap_bit_def acpi_machine_below)
  qed
  then have "free_pages (acpi_machine a b) = free_pages vm_machine"
    by (auto simp: free_pages_def page_free_def acpi_machine_same vm_machine_fields)
  then show ?thesis by (simp add: vm_machine_free)
qed

text \<open>After the root of the page tables is allocated, the firmware tables are still there.\<close>

lemma acpi_machine_root:
  obtains s r where "pt_inv s [[] \<mapsto> r]" "\<not> pagemap_lock s" "rsdp s = 0x501000" "rsdt s = 0x502000" "hhdm s = 0"
    "card (free_pages s) = 1022" "free_pages s \<subseteq> {..<1024}" "r < 1024" "\<forall>x. bitmap_byte s x \<longrightarrow> page_of s x = 1024"
    "\<forall>x. 1280 \<le> page_of s x \<longrightarrow> mem s x = mem (acpi_machine a b) x" "\<exists>i m k. s = (acpi_machine a b)\<lparr>pmm_last_used_index := i, mem := m, kernel_pagemap := k\<rparr>"
proof -
  have bm: "page_of (acpi_machine a b) x = 1024" if "bitmap_byte (acpi_machine a b) x" for x
    using that vm_machine_bitmap by (simp add: acpi_machine_same)
  then have "pmm_ready (acpi_machine a b)"
    by (auto simp: pmm_ready_def pmm_wf_def acpi_machine_same(1-6) acpi_machine_free)
  from root_table [OF this] obtain r t where t: "alloc_frame (acpi_machine a b) t" "r \<in> free_pages (acpi_machine a b)"
    "free_pages t = free_pages (acpi_machine a b) - {r}"
    "\<forall>x. page_of (acpi_machine a b) x \<notin> free_pages (acpi_machine a b) \<and> \<not> bitmap_byte (acpi_machine a b) x \<longrightarrow> mem t x = mem (acpi_machine a b) x"
    "pt_inv (t\<lparr>kernel_pagemap := (kernel_pagemap t)\<lparr>top_level := table_addr r\<rparr>\<rparr>) [[] \<mapsto> r]"
    by (auto simp: acpi_machine_same(1-6) acpi_machine_free)
  let ?s = "t\<lparr>kernel_pagemap := (kernel_pagemap t)\<lparr>top_level := table_addr r\<rparr>\<rparr>"
  note f = alloc_frame_fields [OF t(1)]
  have g: "rsdp ?s = 0x501000" "rsdt ?s = 0x502000" "hhdm ?s = 0" "\<not> pagemap_lock ?s"
    using t(1) acpi_machine_same(6) by (auto simp: alloc_frame_def acpi_machine_def pagemap_lock_def vm_machine_fields)
  have h: "page_of ?s = page_of (acpi_machine a b)" "bitmap_byte ?s = bitmap_byte (acpi_machine a b)" "free_pages ?s = free_pages t"
    using f by (auto simp: page_of_def bitmap_byte_def free_pages_def page_free_def fun_eq_iff)
  have r: "r \<in> {1..<1024}" using t(2) by (simp add: acpi_machine_free)
  then have "card ({1..<1024} - {r}) = 1022" by (subst card_Diff_singleton) simp_all
  then have c: "card (free_pages ?s) = 1022" "free_pages ?s \<subseteq> {..<1024}" unfolding h t(3) acpi_machine_free by auto
  have keep: "mem ?s x = mem (acpi_machine a b) x" if "1280 \<le> page_of ?s x" for x
    using t(4) [rule_format, of x] that bm [of x] unfolding h by (auto simp: acpi_machine_free)
  obtain i m where "t = (acpi_machine a b)\<lparr>pmm_last_used_index := i, mem := m\<rparr>" using t(1) by (auto simp: alloc_frame_def)
  then have "?s = (acpi_machine a b)\<lparr>pmm_last_used_index := i, mem := m, kernel_pagemap := (kernel_pagemap t)\<lparr>top_level := table_addr r\<rparr>\<rparr>" by simp
  then have "\<exists>i m k. ?s = (acpi_machine a b)\<lparr>pmm_last_used_index := i, mem := m, kernel_pagemap := k\<rparr>" by blast
  then show thesis by (intro that [OF t(5) g(4,1-3) c]) (use r h bm keep in auto)
qed

lemma near_page:
  assumes "in_region b n x" and "n \<le> 4096" and "hhdm s = 0" and "unat b = p * 4096" and "unat b + 4096 < 2 ^ 64"
  shows "page_of s x = p"
proof -
  have d: "unat (x - b) < 4096" using assms(1,2) by (simp add: in_region_def)
  then have "unat (x - b + b) = unat (x - b) + unat b" using assms(5) by (intro unat_add_lem [THEN iffD1]) simp
  then have "unat x = p * 4096 + unat (x - b)" using assms(4) by simp
  then show ?thesis using d assms(3) by (simp add: page_of_def)
qed

lemma load64_bytes:
  "load64 m a = ucast (load32 m a) OR push_bit 32 (ucast (load32 m (a + 4)))"
proof (rule bit_word_eqI)
  fix n assume n: "n < LENGTH(64)"
  show "bit (load64 m a) n = bit (ucast (load32 m a) OR push_bit 32 (ucast (load32 m (a + 4))) :: u64) n"
  proof (cases "n < 32")
    case True
    then show ?thesis by (simp add: bit_load_le bit_simps)
  next
    case False
    then obtain k where k: "n = k + 32" using le_Suc_ex [of 32 n] by (metis add.commute not_less)
    have e: "n div 8 = 4 + k div 8" "n mod 8 = k mod 8" unfolding k by presburger+
    show ?thesis using n by (simp add: bit_load_le bit_simps e) (simp add: k add.assoc)
  qed
qed

lemma acpi_machine_ok:
  obtains s r where "pt_inv s [[] \<mapsto> r]" "\<not> pagemap_lock s" "hhdm s = 0" "acpi_ok s [[] \<mapsto> r]"
    "sdt_tables s = [0x503000, 0x504000]" "sdt_count s = 2"
    "sdt_matches s ''APIC'' 0x503000" "\<not> sdt_matches s ''HPET'' 0x503000" "sdt_matches s ''HPET'' 0x504000"
    "sdt_length s 0x503000 = 64" "sdt_length s 0x504000 = 56" "card (free_pages s) = 1022" "\<exists>i m k. s = (acpi_machine a b)\<lparr>pmm_last_used_index := i, mem := m, kernel_pagemap := k\<rparr>"
    "\<forall>x. 1280 \<le> page_of s x \<longrightarrow> page_of s x \<noteq> r \<and> page_of s x \<notin> free_pages s \<and> \<not> bitmap_byte s x
       \<and> mem s x = mem (acpi_machine a b) x" "free_pages s \<subseteq> {..<1024}"
proof -
  obtain s r where s: "pt_inv s [[] \<mapsto> r]" "\<not> pagemap_lock s" "rsdp s = 0x501000" "rsdt s = 0x502000" "hhdm s = 0"
    "card (free_pages s) = 1022" "free_pages s \<subseteq> {..<1024}" "r < 1024" "\<forall>x. bitmap_byte s x \<longrightarrow> page_of s x = 1024"
    "\<forall>x. 1280 \<le> page_of s x \<longrightarrow> mem s x = mem (acpi_machine a b) x" "\<exists>i m k. s = (acpi_machine a b)\<lparr>pmm_last_used_index := i, mem := m, kernel_pagemap := k\<rparr>" by (rule acpi_machine_root) blast
  have m: "mem s x = mem (acpi_machine a b) x" if "0x500000 \<le> unat x" for x
    using s(10) that by (simp add: page_of_def s(5))
  note eval = load32_bytes m acpi_machine_def vm_machine_fields
  have x: "\<not> xsdt s" by (simp add: xsdt_def s(3) m acpi_machine_def vm_machine_fields)
  have "load32 (mem s) 0x502004 = 44" by (simp add: eval)
  then have l: "rsdt_length s = 44" by (simp add: rsdt_length_def s(4))
  have "load32 (mem s) 0x502024 = 0x503000" "load32 (mem s) 0x502028 = 0x504000" by (simp_all add: eval)
  then have tab: "sdt_tables s = [0x503000, 0x504000]" "sdt_count s = 2"
    by (simp_all add: sdt_tables_def sdt_count_def l entry_size_def x sdt_at_def s(4,5) upt_rec)
  have "load32 (mem s) 0x503004 = 64" "load32 (mem s) 0x504004 = 56" by (simp_all add: eval)
  then have len: "sdt_length s 0x503000 = 64" "sdt_length s 0x504000 = 56" by (simp_all add: sdt_length_def)
  have sig: "sdt_matches s ''APIC'' 0x503000" "\<not> sdt_matches s ''HPET'' 0x503000" "sdt_matches s ''HPET'' 0x504000"
    by (simp_all add: sdt_matches_def sdt_signature_def literal_bytes_def upt_rec m acpi_machine_def vm_machine_fields of_char_def)
  have pg: "page_of s x \<in> {1281, 1282, 1283, 1284}" if "acpi_byte s x" for x
    using that near_page [of "0x501000" 40 x s 1281] near_page [of "0x502000" 44 x s 1282]
      near_page [of "0x503000" 36 x s 1283] near_page [of "0x504000" 36 x s 1284]
    by (auto simp: acpi_byte_def s(3-5) l tab)
  have ok: "acpi_ok s [[] \<mapsto> r]"
    using pg s(7-9) by (fastforce simp: acpi_ok_def l tab s(5) len)
  have "page_of s x \<noteq> r \<and> page_of s x \<notin> free_pages s \<and> \<not> bitmap_byte s x \<and> mem s x = mem (acpi_machine a b) x"
    if "1280 \<le> page_of s x" for x
    using that s(7-10) by fastforce
  then show thesis by (intro that [OF s(1,2,5) ok tab sig len s(6,11) _ s(7)]) blast
qed

theorem acpi_find_sdt_correct_witness:
  "\<exists>s t. acpi_find_sdt ''HPET'' 0 s = Ok (0x504000, t) \<and> translate t 0x504000 = Some 0x8000000000504003"
proof -
  obtain s r where s: "pt_inv s [[] \<mapsto> r]" "\<not> pagemap_lock s" "hhdm s = 0" "acpi_ok s [[] \<mapsto> r]"
    "sdt_tables s = [0x503000, 0x504000]" "sdt_count s = 2" "sdt_matches s ''APIC'' 0x503000" "\<not> sdt_matches s ''HPET'' 0x503000"
    "sdt_matches s ''HPET'' 0x504000" "sdt_length s 0x503000 = 64" "sdt_length s 0x504000 = 56" "card (free_pages s) = 1022"
    by (rule acpi_machine_ok) blast
  have cost: "found_cost s (Some 0x504000) = 4" by (simp add: found_cost_def sdt_cost_def s(3,11) span_pages_def)
  obtain t where t: "acpi_find_sdt ''HPET'' 0 s = Ok (0x504000, t)" "found_mapped s (Some 0x504000) t"
    using acpi_find_sdt_correct [OF s(1,2,4) refl, of "''HPET''" 0] cost by (auto simp: s(5,6,8,9,12))
  then have "translate t 0x504000 = Some 0x8000000000504003"
    by (simp add: found_mapped_def span_mapped_def s(3,11) span_pages_def ALIGN_DOWN_def present_def ACPI_FLAGS_def
        VMM_PTE_PRESENT_def VMM_PTE_NOEXEC_def VMM_PTE_WRITABLE_def)
  with t(1) show ?thesis by blast
qed

end
