(* ===== verification/Alloc.thy ===== *)
theory Alloc
  imports Page_Source
begin

text \<open>
  The page-granular kernel heap, \<open>kernel/src/lib/alloc.c\<close>: every allocation is a block of pages
  from \<open>pmm_alloc\<close> whose first page holds \<open>struct alloc_metadata\<close> (the page count at offset 0,
  the size at offset 8) and whose remaining pages are the caller's.
\<close>

section \<open>Definitions\<close>

definition free :: "u64 \<Rightarrow> unit kprog" where
  "free ptr =
     (if ptr = 0 then return ()
      else
        let metadata = ptr - PAGE_SIZE in
        bind (gets hhdm) (\<lambda>h.
        bind (read64 metadata) (\<lambda>pages.
        pmm_free (metadata - h) (pages + 1))))"

definition alloc :: "u64 \<Rightarrow> u64 kprog" where
  "alloc sz =
     (let page_count = DIV_ROUNDUP sz PAGE_SIZE in
      bind (pmm_alloc (page_count + 1)) (\<lambda>phys_page.
      bind (gets (\<lambda>s. phys_page + hhdm s)) (\<lambda>metadata.
      bind (write64 metadata page_count) (\<lambda>_.
      bind (write64 (metadata + 8) sz) (\<lambda>_.
      bind (gets (\<lambda>s. phys_page + hhdm s + PAGE_SIZE)) (\<lambda>ret.
      return ret))))))"

definition realloc :: "u64 \<Rightarrow> u64 \<Rightarrow> u64 kprog" where
  "realloc ptr new_size =
     (if ptr = 0 then alloc new_size
      else
        let metadata = ptr - PAGE_SIZE in
        bind (read64 metadata) (\<lambda>pages.
        if pages = DIV_ROUNDUP new_size PAGE_SIZE then
          bind (write64 (metadata + 8) new_size) (\<lambda>_.
          return ptr)
        else
          bind (alloc new_size) (\<lambda>new_ptr.
          bind (read64 (metadata + 8)) (\<lambda>sz.
          bind (memcpy new_ptr ptr (MIN_u64 new_size sz)) (\<lambda>_.
          bind (free ptr) (\<lambda>_.
          return new_ptr))))))"

section \<open>Live allocations\<close>

text \<open>\<open>live_alloc s ptr n sz\<close>: \<open>ptr\<close> is an allocation of \<open>n\<close> data pages and \<open>sz\<close>
  bytes; its block (header page included) is page-aligned managed memory that is not free and
  holds no part of the page bitmap, and its header records \<open>n\<close> and \<open>sz\<close>.\<close>

definition alloc_block :: "kernel \<Rightarrow> u64 \<Rightarrow> u64 \<Rightarrow> nat set" where
  "alloc_block s ptr n = block_of (ptr - PAGE_SIZE - hhdm s) (n + 1)"

definition live_alloc :: "kernel \<Rightarrow> u64 \<Rightarrow> u64 \<Rightarrow> u64 \<Rightarrow> bool" where
  "live_alloc s ptr n sz \<longleftrightarrow>
     4096 dvd unat (ptr - PAGE_SIZE - hhdm s)
     \<and> unat (ptr - PAGE_SIZE - hhdm s) div 4096 + (unat n + 1) \<le> unat (pmm_avl_page_count s)
     \<and> alloc_block s ptr n \<inter> free_pages s = {}
     \<and> (\<forall>x. bitmap_byte s x \<longrightarrow> page_of s x \<notin> alloc_block s ptr n)
     \<and> load64 (mem s) (ptr - PAGE_SIZE) = n \<and> load64 (mem s) (ptr - PAGE_SIZE + 8) = sz
     \<and> unat sz \<le> 4096 * unat n"

lemma free_null: "free 0 s = Ok ((), s)"
  by (simp add: free_def run_basic)

lemma alloc_run:
  "alloc sz = bind (pmm_alloc (DIV_ROUNDUP sz PAGE_SIZE + 1)) (\<lambda>p s.
     Ok (p + hhdm s + PAGE_SIZE, s\<lparr>mem := store64
       (store64 (mem s) (p + hhdm s) (DIV_ROUNDUP sz PAGE_SIZE)) (p + hhdm s + 8) sz\<rparr>))"
  by (simp add: alloc_def Let_def access_defs fun_eq_iff bind_def run_basic
      split: outcome.splits prod.splits)

lemma page_count_bound:
  assumes "unat sz \<le> 2 ^ 64 - 4096"
  shows "unat (DIV_ROUNDUP sz PAGE_SIZE) = (unat sz + 4095) div 4096"
    and "unat (DIV_ROUNDUP sz PAGE_SIZE + 1) = unat (DIV_ROUNDUP sz PAGE_SIZE) + 1"
    and "unat sz \<le> 4096 * unat (DIV_ROUNDUP sz PAGE_SIZE)"
proof -
  show n: "unat (DIV_ROUNDUP sz PAGE_SIZE) = (unat sz + 4095) div 4096"
    using assms by (subst unat_DIV_ROUNDUP) simp_all
  then show "unat sz \<le> 4096 * unat (DIV_ROUNDUP sz PAGE_SIZE)" by simp
  show "unat (DIV_ROUNDUP sz PAGE_SIZE + 1) = unat (DIV_ROUNDUP sz PAGE_SIZE) + 1"
    using n assms by (subst unat_add_lem [THEN iffD1]) simp_all
qed

text \<open>Writing the header.\<close>

definition put_header :: "u64 \<Rightarrow> u64 \<Rightarrow> u64 \<Rightarrow> memory \<Rightarrow> memory" where
  "put_header hdr n sz m = store64 (store64 m hdr n) (hdr + 8) sz"

lemma load_put_header:
  "load64 (put_header hdr n sz m) hdr = n" "load64 (put_header hdr n sz m) (hdr + 8) = sz"
proof -
  have "disjoint_regions (hdr + 8) 8 hdr 8" by (simp add: disjoint_regions_def)
  then show "load64 (put_header hdr n sz m) hdr = n"
    by (simp add: put_header_def load_store_disjoint)
  show "load64 (put_header hdr n sz m) (hdr + 8) = sz" by (simp add: put_header_def)
qed

lemma put_header_outside:
  assumes "\<not> in_region hdr 16 x"
  shows "put_header hdr n sz m x = m x"
proof -
  have "\<not> in_region hdr 8 x" "\<not> in_region (hdr + 8) 8 x"
    using assms in_region_sub [of hdr 8 8 x 16] by (auto simp: in_region_def)
  then show ?thesis by (simp add: put_header_def store_le_outside)
qed

lemma header_in_block:
  assumes "4096 dvd unat p" and "unat p + 4096 * unat c \<le> 2 ^ 64" and "0 < unat c"
    and "in_region (p + hhdm s) 16 x"
  shows "page_of s x \<in> block_of p c"
proof -
  have "in_region (p + hhdm s) (4096 * unat c) x" using assms(3,4) by (simp add: in_region_def)
  then show ?thesis using region_block_of [OF assms(1,2)] by simp
qed

lemma alloc_Ok:
  assumes s: "pmm_ready s" and small: "unat sz \<le> 2 ^ 64 - 4096" and ok: "alloc sz s = Ok (ptr, t)"
    and n: "n = DIV_ROUNDUP sz PAGE_SIZE"
  shows "pmm_ready t" and "alloc_frame s t" and "live_alloc t ptr n sz"
    and "alloc_block s ptr n \<subseteq> free_pages s" and "free_pages t = free_pages s - alloc_block s ptr n"
    and "page_of s x \<in> alloc_block s ptr n \<Longrightarrow> \<not> in_region (ptr - PAGE_SIZE) 16 x \<Longrightarrow> mem t x = 0"
    and "page_of s x \<notin> alloc_block s ptr n \<Longrightarrow> \<not> bitmap_byte s x \<Longrightarrow> mem t x = mem s x"
proof -
  note n1 = page_count_bound [OF small, folded n]
  have c: "0 < unat (n + 1)" using n1(2) by simp
  obtain p u where p: "pmm_alloc (n + 1) s = Ok (p, u)" and ptr: "ptr = p + hhdm u + PAGE_SIZE"
    and t: "t = u\<lparr>mem := put_header (p + hhdm u) n sz (mem u)\<rparr>"
    using ok by (auto simp: alloc_run bind_eq_Ok_iff put_header_def n)
  note inv = pages.palloc_inv [OF s c p] and frame = pages.palloc_frame [OF s c p]
    and addr = pages.palloc_addr [OF s c p] and avail = pages.palloc_avail [OF s c p]
  note same = alloc_frame_fields [OF frame]
  have count: "pmm_avl_page_count u = pmm_avl_page_count s" using frame by (auto simp: alloc_frame_def)
  have al: "4096 dvd unat p" using addr by (meson dvd_triv_left dvd_trans mod_0_imp_dvd)
  have fits: "unat p + 4096 * unat (n + 1) \<le> 2 ^ 64" using addr by simp
  have hdr: "ptr - PAGE_SIZE = p + hhdm s" and blk: "alloc_block s ptr n = block_of p (n + 1)"
    by (simp_all add: ptr same alloc_block_def)
  have off: "page_of s x \<notin> block_of p (n + 1)" if "bitmap_byte s x" for x
    using that pages.own_avail [OF s that] avail by blast
  have out: "put_header (p + hhdm u) n sz (mem u) x = mem u x" if "page_of s x \<notin> block_of p (n + 1)" for x
    using that header_in_block [OF al fits c, of s x] same by (intro put_header_outside) auto
  note upd = pmm_mem_update [of u "put_header (p + hhdm u) n sz (mem u)", folded t]
  have free: "free_pages t = free_pages u" and "pmm_ready t"
    using upd inv off out same by simp_all
  then show "pmm_ready t" and "free_pages t = free_pages s - alloc_block s ptr n"
    and "alloc_block s ptr n \<subseteq> free_pages s"
    using avail blk by simp_all
  show "alloc_frame s t" unfolding t by (rule alloc_frame_mem_update [OF frame])
  note same_t = alloc_frame_fields [OF this]
  have "unat p div 4096 + unat n \<in> block_of p (n + 1)" using n1(2) by (simp add: block_of_def)
  then have "unat p div 4096 + unat n \<in> free_pages s" using avail by blast
  then have le: "unat p div 4096 + (unat n + 1) \<le> unat (pmm_avl_page_count t)"
    using count by (simp add: free_pages_def t)
  have "load64 (mem t) (p + hhdm s) = n" "load64 (mem t) (p + hhdm s + 8) = sz"
    using load_put_header by (simp_all add: t same)
  then show "live_alloc t ptr n sz"
    unfolding live_alloc_def using al le off avail free n1(3) hdr blk same_t
    by (auto simp: alloc_block_def)
  show "mem t x = 0" if "page_of s x \<in> alloc_block s ptr n" "\<not> in_region (ptr - PAGE_SIZE) 16 x"
    using that pages.palloc_zero [OF s c p, of x] hdr blk same put_header_outside [of "p + hhdm s" x n sz "mem u"]
    by (simp add: t)
  show "mem t x = mem s x" if "page_of s x \<notin> alloc_block s ptr n" "\<not> bitmap_byte s x"
    using that out [of x] pages.palloc_mem [OF s c p, of x] blk by (simp add: t)
qed

lemma live_alloc_block:
  assumes "pmm_ready s" and "live_alloc s ptr n sz" and "p = ptr - PAGE_SIZE - hhdm s"
  shows "unat (n + 1) = unat n + 1" and "4096 dvd unat p" and "unat p + 4096 * unat (n + 1) \<le> 2 ^ 64"
    and "unat p div 4096 + unat (n + 1) \<le> unat (pmm_avl_page_count s)"
    and "ptr - PAGE_SIZE = p + hhdm s" and "alloc_block s ptr n = block_of p (n + 1)"
proof -
  have bound: "unat p div 4096 + (unat n + 1) \<le> unat (pmm_avl_page_count s)"
    and small: "unat (pmm_avl_page_count s) < 4503599627370496" and al: "4096 dvd unat p"
    using assms pmm_wf_bound by (auto simp: live_alloc_def pmm_ready_def)
  show n: "unat (n + 1) = unat n + 1"
    using bound small by (subst unat_add_lem [THEN iffD1]) simp_all
  show "4096 dvd unat p" by (rule al)
  show "unat p + 4096 * unat (n + 1) \<le> 2 ^ 64"
    using n bound small al by (auto elim!: dvdE)
  show "unat p div 4096 + unat (n + 1) \<le> unat (pmm_avl_page_count s)" using n bound by simp
  show "ptr - PAGE_SIZE = p + hhdm s" "alloc_block s ptr n = block_of p (n + 1)"
    by (simp_all add: assms(3) alloc_block_def)
qed

text \<open>An allocation stays live while its block stays allocated and its bytes are kept.\<close>

lemma live_alloc_kept:
  assumes "pmm_ready s" and "live_alloc s ptr n sz" and "alloc_frame s t"
    and "\<And>x. in_region (ptr - PAGE_SIZE) 16 x \<Longrightarrow> mem t x = mem s x"
    and "alloc_block s ptr n \<inter> free_pages t = {}"
  shows "live_alloc t ptr n sz"
proof -
  note same = alloc_frame_fields [OF assms(3)]
  have count: "pmm_avl_page_count t = pmm_avl_page_count s"
    using assms(3) by (auto simp: alloc_frame_def)
  have "load64 (mem t) (ptr - PAGE_SIZE) = load64 (mem s) (ptr - PAGE_SIZE)"
    "load64 (mem t) (ptr - PAGE_SIZE + 8) = load64 (mem s) (ptr - PAGE_SIZE + 8)"
    using assms(4) in_region_sub [of "ptr - PAGE_SIZE" 8 8 _ 16]
    by (auto intro!: load_le_cong_region simp: in_region_def)
  then show ?thesis
    using assms(2,5) unfolding live_alloc_def alloc_block_def by (simp add: same count)
qed

lemma header_pages:
  assumes "pmm_ready s" and "live_alloc s ptr n sz" and "in_region (ptr - PAGE_SIZE) 16 x"
  shows "page_of s x \<in> alloc_block s ptr n"
  using header_in_block [of "ptr - PAGE_SIZE - hhdm s" "n + 1" s x] assms
    live_alloc_block [OF assms(1,2) refl] by simp

lemma data_pages:
  assumes "pmm_ready s" and "live_alloc s ptr n sz" and "in_region ptr (unat sz) x"
  shows "page_of s x \<in> alloc_block s ptr n" and "\<not> in_region (ptr - PAGE_SIZE) 16 x"
proof -
  note blk = live_alloc_block [OF assms(1,2) refl]
  have sz: "unat sz \<le> 4096 * unat n" using assms(2) by (simp add: live_alloc_def)
  have eq: "x - (ptr - PAGE_SIZE) = (x - ptr) + PAGE_SIZE" by simp
  have le: "4096 * unat (n + 1) \<le> 2 ^ 64" using blk(3) by simp
  have "unat (x - (ptr - PAGE_SIZE)) = unat (x - ptr) + 4096"
    unfolding eq using assms(3) sz blk(1) le
    by (subst unat_add_lem [THEN iffD1]) (simp_all add: in_region_def)
  then have "in_region (ptr - PAGE_SIZE) (4096 * unat (n + 1)) x \<and> \<not> in_region (ptr - PAGE_SIZE) 16 x"
    using assms(3) sz blk(1) by (simp add: in_region_def)
  then show "page_of s x \<in> alloc_block s ptr n" "\<not> in_region (ptr - PAGE_SIZE) 16 x"
    using region_block_of [OF blk(2,3), of s x] blk(5,6) by simp_all
qed

lemma free_live:
  assumes s: "pmm_ready s" and live: "live_alloc s ptr n sz" and "ptr \<noteq> 0"
  shows "\<exists>t. free ptr s = Ok ((), t) \<and> pmm_ready t \<and> alloc_frame s t
    \<and> free_pages t = free_pages s \<union> alloc_block s ptr n
    \<and> (\<forall>x. \<not> bitmap_byte s x \<and> page_of s x \<notin> alloc_block s ptr n \<longrightarrow> mem t x = mem s x)"
proof -
  let ?p = "ptr - PAGE_SIZE - hhdm s"
  note blk = live_alloc_block [OF s live refl]
  have "load64 (mem s) (ptr - PAGE_SIZE) = n" and off: "bitmap_byte s x \<Longrightarrow> page_of s x \<notin> block_of ?p (n + 1)" for x
    using live blk(6) by (simp_all add: live_alloc_def)
  then have "free ptr s = pmm_free ?p (n + 1) s"
    using assms(3) by (simp add: free_def access_defs Let_def)
  then show ?thesis
    using page_store.pfree_Ok [OF s, of ?p "n + 1"] blk off by (simp add: dvd_eq_mod_eq_0)
qed

text \<open>When the direct map of managed memory does not run over the top of the address space, no
  allocation is the null pointer.\<close>

definition direct_map_ok :: "kernel \<Rightarrow> bool" where
  "direct_map_ok s \<longleftrightarrow> unat (hhdm s) + 4096 * unat (pmm_avl_page_count s) < 2 ^ 64"

lemma live_alloc_nonnull:
  assumes "pmm_ready s" and "direct_map_ok s" and "live_alloc s ptr n sz"
  shows "ptr \<noteq> 0"
proof -
  let ?p = "ptr - PAGE_SIZE - hhdm s"
  note blk = live_alloc_block [OF assms(1,3) refl]
  have "unat ?p = unat ?p div 4096 * 4096" using blk(2) by simp
  moreover have "(unat ?p div 4096 + 1) * 4096 \<le> 4096 * unat (pmm_avl_page_count s)" using blk(1,4) by simp
  ultimately have le: "unat ?p + 4096 + unat (hhdm s) < 2 ^ 64" using assms(2) by (simp add: direct_map_ok_def)
  have "ptr = ?p + (PAGE_SIZE + hhdm s)" by simp
  also have "unat \<dots> = unat ?p + unat (PAGE_SIZE + hhdm s)"
    using le by (subst unat_add_lem [THEN iffD1])
      (simp_all add: unat_plus_if')
  also have "unat (PAGE_SIZE + hhdm s) = 4096 + unat (hhdm s)"
    using le by (subst unat_add_lem [THEN iffD1]) simp_all
  finally have "unat ptr \<noteq> 0" by simp
  then show ?thesis by auto
qed

section \<open>Resizing\<close>

lemma memcpy_disjoint:
  assumes "\<And>x. in_region d (unat k) x \<Longrightarrow> \<not> in_region a (unat k) x"
  shows "memcpy_mem m d a k = (\<lambda>x. if in_region d (unat k) x then m (a + (x - d)) else m x)"
proof (rule memcpy_mem_eq, rule ccontr)
  assume "\<not> (d = a \<or> unat k \<le> unat (d - a))"
  then have "in_region d (unat k) d \<and> in_region a (unat k) d"
    by (simp add: in_region_def)
  then show False using assms by blast
qed

lemma realloc_same_pages:
  assumes s: "pmm_ready s" and live: "live_alloc s ptr n sz" and "ptr \<noteq> 0"
    and "n = DIV_ROUNDUP new PAGE_SIZE" and small: "unat new \<le> 2 ^ 64 - 4096"
  shows "\<exists>t. realloc ptr new s = Ok (ptr, t) \<and> pmm_ready t \<and> alloc_frame s t \<and> live_alloc t ptr n new
    \<and> free_pages t = free_pages s
    \<and> (\<forall>x. \<not> in_region (ptr - PAGE_SIZE) 16 x \<longrightarrow> mem t x = mem s x)"
proof -
  let ?m = "store64 (mem s) (ptr - PAGE_SIZE + 8) new" and ?hdr = "ptr - PAGE_SIZE"
  have ld: "load64 (mem s) ?hdr = n" using live by (simp add: live_alloc_def)
  have run: "realloc ptr new s = Ok (ptr, s\<lparr>mem := ?m\<rparr>)"
    using assms(3) ld assms(4) by (simp add: realloc_def access_defs Let_def run_basic)
  have out: "?m x = mem s x" if "\<not> in_region ?hdr 16 x" for x
    using that in_region_sub [of ?hdr 8 8 x 16] by (intro store_le_outside) auto
  have bm: "?m x = mem s x" if "bitmap_byte s x" for x
    using that header_pages [OF s live, of x] live by (intro out) (auto simp: live_alloc_def)
  note upd = pmm_mem_update [of s ?m, OF bm]
  have "disjoint_regions (?hdr + 8) 8 ?hdr 8" by (simp add: disjoint_regions_def)
  then have "load64 ?m ?hdr = n" using ld by (simp add: load_store_disjoint)
  then have "live_alloc (s\<lparr>mem := ?m\<rparr>) ptr n new"
    using live upd page_count_bound(3) [OF small] assms(4)
    by (simp add: live_alloc_def alloc_block_def)
  moreover have "alloc_frame s (s\<lparr>mem := ?m\<rparr>)" by (rule alloc_frame_mem_update [OF alloc_frame_refl])
  ultimately show ?thesis using run out upd s by auto
qed

lemma realloc_copy:
  assumes u: "pmm_ready u" and old: "live_alloc u ptr n sz" and new: "live_alloc u ptr' n' new"
    and dis: "alloc_block u ptr n \<inter> alloc_block u ptr' n' = {}"
    and v: "v = u\<lparr>mem := memcpy_mem (mem u) ptr' ptr (MIN_u64 new sz)\<rparr>"
  shows "pmm_ready v" "free_pages v = free_pages u" "live_alloc v ptr n sz" "live_alloc v ptr' n' new"
    and "i < min (unat new) (unat sz) \<Longrightarrow> mem v (ptr' + of_nat i) = mem u (ptr + of_nat i)"
proof -
  let ?k = "MIN_u64 new sz"
  let ?m = "memcpy_mem (mem u) ptr' ptr ?k"
  have k: "unat ?k = min (unat new) (unat sz)" by (auto simp: MIN_u64_def word_less_nat_alt)
  have new_page: "page_of u x \<in> alloc_block u ptr' n'" "\<not> in_region (ptr' - PAGE_SIZE) 16 x"
    if "in_region ptr' (unat ?k) x" for x
    using that k data_pages [OF u new, of x] by (simp_all add: in_region_def)
  have old_page: "page_of u x \<in> alloc_block u ptr n" if "in_region ptr (unat ?k) x" for x
    using that k data_pages(1) [OF u old, of x] by (simp add: in_region_def)
  have cp: "?m = (\<lambda>x. if in_region ptr' (unat ?k) x then mem u (ptr + (x - ptr')) else mem u x)"
    by (rule memcpy_disjoint) (use new_page(1) old_page dis in blast)
  have keep: "?m x = mem u x" if "page_of u x \<notin> alloc_block u ptr' n' \<or> in_region (ptr' - PAGE_SIZE) 16 x" for x
    using that new_page unfolding cp by auto
  show r: "pmm_ready v" "free_pages v = free_pages u"
    using pmm_mem_update [of u ?m] keep new u by (auto simp: v live_alloc_def)
  have fr: "alloc_frame u v" unfolding v by (rule alloc_frame_mem_update [OF alloc_frame_refl])
  show "live_alloc v ptr n sz"
    by (rule live_alloc_kept [OF u old fr])
      (use header_pages [OF u old] keep dis old r in \<open>auto simp: v live_alloc_def\<close>)
  show "live_alloc v ptr' n' new"
    by (rule live_alloc_kept [OF u new fr]) (use keep new r in \<open>auto simp: v live_alloc_def\<close>)
  show "mem v (ptr' + of_nat i) = mem u (ptr + of_nat i)" if "i < min (unat new) (unat sz)"
    using that k unat_u64_less [of ?k] by (simp add: v cp in_region_offset)
qed

lemma realloc_move:
  assumes s: "pmm_ready s" and live: "live_alloc s ptr n sz" and ptr: "ptr \<noteq> 0"
    and n': "n' = DIV_ROUNDUP new PAGE_SIZE" and "n \<noteq> n'" and small: "unat new \<le> 2 ^ 64 - 4096"
    and ok: "alloc new s = Ok (ptr', u)"
  shows "\<exists>t. realloc ptr new s = Ok (ptr', t) \<and> pmm_ready t \<and> alloc_frame s t \<and> live_alloc t ptr' n' new
    \<and> alloc_block s ptr' n' \<subseteq> free_pages s
    \<and> free_pages t = (free_pages s - alloc_block s ptr' n') \<union> alloc_block s ptr n
    \<and> (\<forall>i < min (unat new) (unat sz). mem t (ptr' + of_nat i) = mem s (ptr + of_nat i))"
proof -
  note a = alloc_Ok [OF s small ok n']
  note same = alloc_frame_fields [OF a(2)]
  have blk_eq: "alloc_block u = alloc_block s" "alloc_block (u\<lparr>mem := m\<rparr>) = alloc_block s" for m
    by (simp_all add: alloc_block_def fun_eq_iff same)
  have dis: "alloc_block s ptr n \<inter> alloc_block s ptr' n' = {}"
    and bit: "bitmap_byte s x \<Longrightarrow> page_of s x \<notin> alloc_block s ptr n" for x
    using live a(4) by (auto simp: live_alloc_def)
  have old: "mem u x = mem s x" if "page_of s x \<in> alloc_block s ptr n" for x
    using that dis bit by (intro a(7)) auto
  have live_u: "live_alloc u ptr n sz"
    using a(5) header_pages [OF s live] old live
    by (intro live_alloc_kept [OF s live a(2)]) (auto simp: live_alloc_def)
  let ?v = "u\<lparr>mem := memcpy_mem (mem u) ptr' ptr (MIN_u64 new sz)\<rparr>"
  note v = realloc_copy [OF a(1) live_u a(3) dis [folded blk_eq(1)] refl]
  have live_bit: "bitmap_byte s x \<Longrightarrow> page_of s x \<notin> alloc_block s ptr' n'" for x
    using a(3) by (simp add: live_alloc_def same blk_eq)
  obtain t where t: "free ptr ?v = Ok ((), t)" "pmm_ready t" "alloc_frame ?v t"
    "free_pages t = free_pages ?v \<union> alloc_block s ptr n"
    and mem_t: "\<And>x. \<not> bitmap_byte s x \<Longrightarrow> page_of s x \<notin> alloc_block s ptr n \<Longrightarrow> mem t x = mem ?v x"
    using free_live [OF v(1,3) ptr] by (auto simp: blk_eq same)
  have new_t: "mem t x = mem ?v x" if "page_of s x \<in> alloc_block s ptr' n'" for x
    using that dis live_bit by (intro mem_t) auto
  have "live_alloc t ptr' n' new"
    by (rule live_alloc_kept [OF v(1,4) t(3)])
      (use header_pages [OF v(1,4)] new_t t(4) v(4) dis in \<open>auto simp: same blk_eq live_alloc_def\<close>)
  moreover have "realloc ptr new s = Ok (ptr', t)"
    using ptr assms(5) n' live live_u t(1) ok
    by (simp add: realloc_def access_defs Let_def bind_Ok live_alloc_def run_basic)
  moreover have "mem t (ptr' + of_nat i) = mem s (ptr + of_nat i)" if i: "i < min (unat new) (unat sz)" for i
  proof -
    have "page_of s (ptr' + of_nat i) \<in> alloc_block s ptr' n'" "page_of s (ptr + of_nat i) \<in> alloc_block s ptr n"
      using i data_pages(1) [OF a(1,3), of "ptr' + of_nat i"] data_pages(1) [OF s live, of "ptr + of_nat i"]
        unat_u64_less [of new] unat_u64_less [of sz]
      by (simp_all add: in_region_offset blk_eq same)
    then show ?thesis using new_t old v(5) [OF i] by simp
  qed
  moreover have "alloc_frame s t"
    by (rule alloc_frame_trans [OF alloc_frame_trans [OF a(2) alloc_frame_mem_update [OF alloc_frame_refl]] t(3)])
  ultimately show ?thesis using t(2,4) v(2) a(4,5) by blast
qed

section \<open>Properties\<close>

text \<open>An allocation keeps every live one, on other pages.\<close>

lemma alloc_keeps_live:
  assumes s: "pmm_ready s" and small: "unat sz \<le> 2 ^ 64 - 4096" and ok: "alloc sz s = Ok (ptr, t)"
    and n: "n = DIV_ROUNDUP sz PAGE_SIZE" and q: "live_alloc s q k z"
  shows "live_alloc t q k z \<and> alloc_block s q k \<inter> alloc_block s ptr n = {}
    \<and> (\<forall>x. in_region q (unat z) x \<longrightarrow> mem t x = mem s x)"
proof -
  note a = alloc_Ok [OF s small ok n]
  have dis: "alloc_block s q k \<inter> alloc_block s ptr n = {}"
    and bit: "bitmap_byte s x \<Longrightarrow> page_of s x \<notin> alloc_block s q k" for x
    using q a(4) by (auto simp: live_alloc_def)
  have keep: "mem t x = mem s x" if "page_of s x \<in> alloc_block s q k" for x
    using that dis bit by (intro a(7)) auto
  have "live_alloc t q k z"
    by (rule live_alloc_kept [OF s q a(2)])
      (use keep header_pages [OF s q] a(5) q in \<open>auto simp: live_alloc_def\<close>)
  then show ?thesis using dis keep data_pages(1) [OF s q] by blast
qed

lemma alloc_total:
  assumes "pmm_ready s" and "unat sz \<le> 2 ^ 64 - 4096"
    and "\<not> pmm_exhausted s (unat (DIV_ROUNDUP sz PAGE_SIZE) + 1)"
  shows "\<exists>ptr t. alloc sz s = Ok (ptr, t)"
  using pmm_alloc_cases [of s "DIV_ROUNDUP sz PAGE_SIZE + 1"] page_count_bound(2) [OF assms(2)] assms(1,3)
  by (auto simp: pmm_ready_def alloc_run bind_Ok)

text \<open>C18: When the page allocator can serve the request, \<open>alloc\<close> returns a live allocation of the
  requested size made of pages that were free, whose bytes are all zero; exactly these pages stop
  being free, and every allocation that was live stays live, on other pages, with its bytes
  unchanged.\<close>

theorem alloc_correct:
  assumes "pmm_ready s" and "unat sz \<le> 2 ^ 64 - 4096"
    and "\<not> pmm_exhausted s (unat (DIV_ROUNDUP sz PAGE_SIZE) + 1)"
  shows "\<exists>ptr t n. alloc sz s = Ok (ptr, t) \<and> pmm_ready t \<and> live_alloc t ptr n sz
    \<and> alloc_block s ptr n \<subseteq> free_pages s \<and> free_pages t = free_pages s - alloc_block s ptr n
    \<and> (\<forall>x. in_region ptr (unat sz) x \<longrightarrow> mem t x = 0)
    \<and> (\<forall>q k z. live_alloc s q k z \<longrightarrow> live_alloc t q k z
        \<and> alloc_block s q k \<inter> alloc_block s ptr n = {}
        \<and> (\<forall>x. in_region q (unat z) x \<longrightarrow> mem t x = mem s x))"
proof -
  define n where "n = DIV_ROUNDUP sz PAGE_SIZE"
  obtain ptr t where ok: "alloc sz s = Ok (ptr, t)" using alloc_total [OF assms] by blast
  note a = alloc_Ok [OF assms(1,2) ok n_def]
  note same = alloc_frame_fields [OF a(2)]
  have zero: "mem t x = 0" if "in_region ptr (unat sz) x" for x
    using data_pages [OF a(1,3) that] same by (intro a(6)) (simp_all add: alloc_block_def)
  then show ?thesis using ok a(1,3,4,5) alloc_keeps_live [OF assms(1,2) ok n_def] by blast
qed

theorem alloc_correct_witness:
  "\<exists>ptr t n. alloc 5000 eight_pages = Ok (ptr, t) \<and> live_alloc t ptr n 5000
     \<and> (\<forall>x. in_region ptr 5000 x \<longrightarrow> mem t x = 0)"
proof -
  have n: "unat (DIV_ROUNDUP 5000 PAGE_SIZE) = 2" using page_count_bound(1) [of 5000] by simp
  have "\<not> pmm_exhausted eight_pages (unat (DIV_ROUNDUP 5000 PAGE_SIZE) + 1)"
    unfolding n by (simp add: eight_pages_exhausted)
  from alloc_correct [OF eight_pages_ready _ this] show ?thesis by auto
qed

text \<open>C19: Freeing a live allocation makes its pages, header page included, free again, and changes no
  byte outside them but the page bitmap; every other live allocation on other pages stays live.\<close>

theorem free_correct:
  assumes "pmm_ready s" and "live_alloc s ptr n sz" and "ptr \<noteq> 0"
  shows "\<exists>t. free ptr s = Ok ((), t) \<and> pmm_ready t
    \<and> free_pages t = free_pages s \<union> alloc_block s ptr n
    \<and> (\<forall>q k z. live_alloc s q k z \<and> alloc_block s q k \<inter> alloc_block s ptr n = {} \<longrightarrow>
        live_alloc t q k z \<and> (\<forall>x. in_region q (unat z) x \<longrightarrow> mem t x = mem s x))"
proof -
  obtain t where t: "free ptr s = Ok ((), t)" "pmm_ready t" "alloc_frame s t"
    "free_pages t = free_pages s \<union> alloc_block s ptr n"
    and mem: "\<forall>x. \<not> bitmap_byte s x \<and> page_of s x \<notin> alloc_block s ptr n \<longrightarrow> mem t x = mem s x"
    using free_live [OF assms] by blast
  have "live_alloc t q k z \<and> (\<forall>x. in_region q (unat z) x \<longrightarrow> mem t x = mem s x)"
    if q: "live_alloc s q k z" and dis: "alloc_block s q k \<inter> alloc_block s ptr n = {}" for q k z
  proof -
    have keep: "mem t x = mem s x" if "page_of s x \<in> alloc_block s q k" for x
      using that q dis mem by (auto simp: live_alloc_def)
    have "live_alloc t q k z"
      by (rule live_alloc_kept [OF assms(1) q t(3)])
        (use keep header_pages [OF assms(1) q] t(4) q dis in \<open>auto simp: live_alloc_def\<close>)
    then show ?thesis using keep data_pages(1) [OF assms(1) q] by blast
  qed
  then show ?thesis using t by blast
qed

lemma eight_pages_alloc:
  assumes "unat sz \<le> 7 * 4096"
  shows "\<exists>ptr t n. alloc sz eight_pages = Ok (ptr, t) \<and> pmm_ready t \<and> live_alloc t ptr n sz
    \<and> ptr \<noteq> 0 \<and> n = DIV_ROUNDUP sz PAGE_SIZE"
proof -
  have small: "unat sz \<le> 2 ^ 64 - 4096" using assms by simp
  have n: "unat (DIV_ROUNDUP sz PAGE_SIZE) \<le> 7"
    using page_count_bound(1) [OF small] assms by simp
  obtain ptr t where ok: "alloc sz eight_pages = Ok (ptr, t)"
    using alloc_total [OF eight_pages_ready small] n eight_pages_exhausted by auto
  note a = alloc_Ok [OF eight_pages_ready small ok refl]
  have h: "hhdm t = 0" using alloc_frame_fields(2) [OF a(2)] by (simp add: eight_pages_def blank_kernel_def)
  have "ptr \<noteq> 0"
  proof
    assume "ptr = 0"
    then have "unat (0 - PAGE_SIZE :: u64) div 4096 + 1 \<le> unat (pmm_avl_page_count t)"
      using a(3) h by (simp add: live_alloc_def)
    then show False using pmm_wf_bound [of t] a(1) by (simp add: pmm_ready_def)
  qed
  then show ?thesis using ok a(1,3) by blast
qed

theorem free_correct_witness:
  "\<exists>ptr t u n. alloc 100 eight_pages = Ok (ptr, t) \<and> free ptr t = Ok ((), u)
     \<and> free_pages u = free_pages t \<union> alloc_block t ptr n"
proof -
  obtain ptr t n where a: "alloc 100 eight_pages = Ok (ptr, t)" "pmm_ready t" "live_alloc t ptr n 100" "ptr \<noteq> 0"
    using eight_pages_alloc [of 100] by auto
  show ?thesis using free_correct [OF a(2-4)] a(1) by blast
qed

lemma realloc_live:
  assumes "pmm_ready s" and "live_alloc s ptr n sz" and "ptr \<noteq> 0" and "unat new \<le> 2 ^ 64 - 4096"
    and "n = DIV_ROUNDUP new PAGE_SIZE \<or> \<not> pmm_exhausted s (unat (DIV_ROUNDUP new PAGE_SIZE) + 1)"
  shows "\<exists>ptr' t. realloc ptr new s = Ok (ptr', t) \<and> pmm_ready t \<and> alloc_frame s t
    \<and> live_alloc t ptr' (DIV_ROUNDUP new PAGE_SIZE) new
    \<and> (\<forall>i < min (unat new) (unat sz). mem t (ptr' + of_nat i) = mem s (ptr + of_nat i))
    \<and> (n \<noteq> DIV_ROUNDUP new PAGE_SIZE \<longrightarrow> alloc_block s ptr n \<subseteq> free_pages t)"
proof (cases "n = DIV_ROUNDUP new PAGE_SIZE")
  case True
  obtain t where t: "realloc ptr new s = Ok (ptr, t)" "pmm_ready t" "alloc_frame s t" "live_alloc t ptr n new"
    and mem: "\<forall>x. \<not> in_region (ptr - PAGE_SIZE) 16 x \<longrightarrow> mem t x = mem s x"
    using realloc_same_pages [OF assms(1-3) True assms(4)] by blast
  have "mem t (ptr + of_nat i) = mem s (ptr + of_nat i)" if "i < unat sz" for i
  proof -
    have "in_region ptr (unat sz) (ptr + of_nat i)"
      using that unat_u64_less [of sz] by (simp add: in_region_offset)
    from data_pages(2) [OF assms(1,2) this] show ?thesis using mem by blast
  qed
  then show ?thesis using t True by auto
next
  case False
  obtain ptr' u where "alloc new s = Ok (ptr', u)" using alloc_total [OF assms(1,4)] assms(5) False by blast
  from realloc_move [OF assms(1-3) refl False assms(4) this] show ?thesis using False by blast
qed

text \<open>C20: Resizing a live allocation, when the page allocator can serve it, returns a live allocation of
  the new size whose first bytes, up to the smaller of the two sizes, are the old ones; when the
  number of pages changes the old pages are free afterwards.\<close>

theorem realloc_correct:
  assumes "pmm_ready s" and "live_alloc s ptr n sz" and "ptr \<noteq> 0" and "unat new \<le> 2 ^ 64 - 4096"
    and "n = DIV_ROUNDUP new PAGE_SIZE \<or> \<not> pmm_exhausted s (unat (DIV_ROUNDUP new PAGE_SIZE) + 1)"
  shows "\<exists>ptr' t. realloc ptr new s = Ok (ptr', t) \<and> pmm_ready t \<and> alloc_frame s t
    \<and> live_alloc t ptr' (DIV_ROUNDUP new PAGE_SIZE) new
    \<and> (\<forall>i < min (unat new) (unat sz). mem t (ptr' + of_nat i) = mem s (ptr + of_nat i))
    \<and> (n \<noteq> DIV_ROUNDUP new PAGE_SIZE \<longrightarrow> alloc_block s ptr n \<subseteq> free_pages t)"
  using realloc_live [OF assms] .

lemma eight_pages_pick: "0 < c \<Longrightarrow> c \<le> 8 \<Longrightarrow> pmm_pick eight_pages c b \<Longrightarrow> b = 0"
  by (fastforce simp: pmm_pick_def Let_def eight_pages_count first_run_def no_run_def aligned_run_def
      eight_pages_free)

lemma eight_pages_second:
  assumes "alloc 100 eight_pages = Ok (ptr, t)"
  shows "\<not> pmm_exhausted t 3"
proof -
  have n: "DIV_ROUNDUP 100 PAGE_SIZE + 1 = (2 :: u64)" by (simp add: DIV_ROUNDUP_def)
  from assms obtain p u where p: "pmm_alloc 2 eight_pages = Ok (p, u)"
    and t: "pmm_last_used_index t = pmm_last_used_index u" "pmm_avl_page_count t = pmm_avl_page_count u"
    by (auto simp: alloc_run n bind_eq_Ok_iff)
  from pmm_alloc_OkD [OF eight_pages_ready _ p] obtain b where b: "pmm_pick eight_pages 2 b"
    "p = of_nat b * PAGE_SIZE" "u = fill_block 0 b 2 (pmm_take b 2 eight_pages)" by auto
  have b0: "b = 0" using eight_pages_pick [of 2 b] b(1) by simp
  have idx: "unat (pmm_last_used_index t) = 2" "unat (pmm_avl_page_count t) = 8"
    using t b(3) b0 eight_pages_count by simp_all
  note a = alloc_Ok [OF eight_pages_ready _ assms refl]
  have "ptr = p + hhdm eight_pages + PAGE_SIZE"
    using assms p b(3) by (simp add: alloc_run n bind_Ok)
  then have "alloc_block eight_pages ptr (DIV_ROUNDUP 100 PAGE_SIZE) = {0..<2}"
    using n b(2) b0 by (auto simp: alloc_block_def block_of_def)
  then have free: "page_free t i" if "2 \<le> i" "i < 8" for i
    using a(5) that by (auto simp: free_pages_def idx eight_pages_free eight_pages_count)
  have "aligned_run (page_free t) 3 3" using free by (simp add: aligned_run_def)
  then show ?thesis by (auto simp: pmm_exhausted_def Let_def idx no_run_def intro!: exI [of _ 3])
qed

theorem realloc_correct_witness:
  "\<exists>ptr t n. alloc 100 eight_pages = Ok (ptr, t) \<and> live_alloc t ptr n 100
     \<and> (\<exists>ptr' u. realloc ptr 5000 t = Ok (ptr', u) \<and> live_alloc u ptr' 2 5000
       \<and> (\<forall>i < 100. mem u (ptr' + of_nat i) = mem t (ptr + of_nat i))
       \<and> alloc_block t ptr n \<subseteq> free_pages u)"
proof -
  obtain ptr t n where a: "alloc 100 eight_pages = Ok (ptr, t)" "pmm_ready t" "live_alloc t ptr n 100" "ptr \<noteq> 0"
    "n = DIV_ROUNDUP 100 PAGE_SIZE"
    using eight_pages_alloc [of 100] by auto
  have two: "DIV_ROUNDUP 5000 PAGE_SIZE = (2 :: u64)" and one: "n = 1"
    by (simp_all add: DIV_ROUNDUP_def a(5))
  show ?thesis
    using realloc_correct [OF a(2-4), of 5000] eight_pages_second [OF a(1)] a(1,3)
    by (auto simp: two one)
qed

text \<open>For the 4095 largest sizes the page count wraps to zero: \<open>alloc\<close> takes a single page,
  returns the address after it, and records a size of almost \<open>2 ^ 64\<close> bytes for a block with no
  data page.\<close>

theorem alloc_size_wraps:
  assumes "2 ^ 64 - 4095 \<le> unat sz"
  shows "DIV_ROUNDUP sz PAGE_SIZE = 0 \<and> alloc sz = bind (pmm_alloc 1) (\<lambda>p s.
     Ok (p + hhdm s + PAGE_SIZE,
       s\<lparr>mem := store64 (store64 (mem s) (p + hhdm s) 0) (p + hhdm s + 8) sz\<rparr>))"
proof -
  have "unat (sz + (PAGE_SIZE - 1)) < 4096"
    using assms unat_u64_less [of sz] by (simp add: unat_plus_if')
  then have "unat (DIV_ROUNDUP sz PAGE_SIZE) = 0" by (simp add: DIV_ROUNDUP_def unat_div)
  then have "DIV_ROUNDUP sz PAGE_SIZE = 0" by (simp add: word_unat_eq_iff)
  then show ?thesis by (simp add: alloc_run)
qed

theorem alloc_size_wraps_witness:
  "alloc 0xffffffffffffffff = bind (pmm_alloc 1) (\<lambda>p s. Ok (p + hhdm s + PAGE_SIZE,
     s\<lparr>mem := store64 (store64 (mem s) (p + hhdm s) 0) (p + hhdm s + 8) 0xffffffffffffffff\<rparr>))"
  using alloc_size_wraps [of "0xffffffffffffffff"] by simp

end
