(* ===== verification/Vector.thy ===== *)
theory Vector
  imports Alloc
begin

text \<open>
  Growable arrays, the macros of \<open>kernel/src/lib/vector.k.h\<close>, for the element type every vector
  of the kernel has, a pointer. A vector is its struct; the elements are in the heap block at
  \<open>vec_data\<close>. Each macro is a program that returns the updated struct.
\<close>

section \<open>Definitions\<close>

definition VECTOR_INITIALISER :: vec where
  "VECTOR_INITIALISER = empty_vec"

abbreviation VECTOR_INVALID_INDEX :: u64 where "VECTOR_INVALID_INDEX \<equiv> - 1"

definition VECTOR_ENSURE_LENGTH :: "vec \<Rightarrow> u64 \<Rightarrow> vec kprog" where
  "VECTOR_ENSURE_LENGTH v len =
     (if vec_capacity v \<le> len then
        let v = v\<lparr>vec_capacity := (if vec_capacity v = 0 then 8 else vec_capacity v * 2)\<rparr> in
        bind (realloc (vec_data v) (vec_capacity v * 8)) (\<lambda>data.
        return (v\<lparr>vec_data := data\<rparr>))
      else return v)"

definition VECTOR_PUSH_BACK :: "vec \<Rightarrow> u64 \<Rightarrow> (vec \<times> u64) kprog" where
  "VECTOR_PUSH_BACK v val =
     bind (VECTOR_ENSURE_LENGTH v (vec_length v)) (\<lambda>v.
     bind (write64 (vec_data v + vec_length v * 8) val) (\<lambda>_.
     let v = v\<lparr>vec_length := vec_length v + 1\<rparr> in
     return (v, vec_length v - 1)))"

definition VECTOR_INSERT :: "vec \<Rightarrow> u64 \<Rightarrow> u64 \<Rightarrow> vec kprog" where
  "VECTOR_INSERT v index val =
     bind (VECTOR_ENSURE_LENGTH v (vec_length v)) (\<lambda>v.
     bind (whileM (\<lambda>i s. index < i) (\<lambda>i.
         bind (read64 (vec_data v + (i - 1) * 8)) (\<lambda>x.
         bind (write64 (vec_data v + i * 8) x) (\<lambda>_.
         return (i - 1)))) (vec_length v)) (\<lambda>_.
     let v = v\<lparr>vec_length := vec_length v + 1\<rparr> in
     bind (write64 (vec_data v + index * 8) val) (\<lambda>_.
     return v)))"

definition VECTOR_PUSH_FRONT :: "vec \<Rightarrow> u64 \<Rightarrow> vec kprog" where
  "VECTOR_PUSH_FRONT v val = VECTOR_INSERT v 0 val"

definition VECTOR_REMOVE :: "vec \<Rightarrow> u64 \<Rightarrow> vec kprog" where
  "VECTOR_REMOVE v idx =
     bind (for_range idx (vec_length v - 1) (\<lambda>i.
       bind (read64 (vec_data v + (i + 1) * 8)) (\<lambda>x.
       write64 (vec_data v + i * 8) x))) (\<lambda>_.
     return (v\<lparr>vec_length := vec_length v - 1\<rparr>))"

definition VECTOR_ITEM :: "vec \<Rightarrow> u64 \<Rightarrow> u64 kprog" where
  "VECTOR_ITEM v idx =
     (if idx < vec_length v then read64 (vec_data v + idx * 8) else return VECTOR_INVALID_INDEX)"

definition VECTOR_FIND :: "vec \<Rightarrow> u64 \<Rightarrow> u64 kprog" where
  "VECTOR_FIND v val =
     bind (whileM (\<lambda>(i, result) s. i < vec_length v \<and> result = VECTOR_INVALID_INDEX)
       (\<lambda>(i, result).
         bind (read64 (vec_data v + i * 8)) (\<lambda>x.
         if x = val then return (i, i) else return (i + 1, result)))
       (0, VECTOR_INVALID_INDEX)) (\<lambda>(i, result). return result)"

definition VECTOR_REMOVE_BY_VALUE :: "vec \<Rightarrow> u64 \<Rightarrow> vec kprog" where
  "VECTOR_REMOVE_BY_VALUE v val = bind (VECTOR_FIND v val) (VECTOR_REMOVE v)"

definition VECTOR_FOR_EACH :: "vec \<Rightarrow> (u64 \<Rightarrow> unit kprog) \<Rightarrow> unit kprog" where
  "VECTOR_FOR_EACH v body = for_range 0 (vec_length v) (\<lambda>i. body (vec_data v + i * 8))"

section \<open>Contents and invariant\<close>

text \<open>\<open>vec_list s v\<close> are the elements; \<open>vec_wf s v\<close>: no room and no elements, or the data is a
  live allocation of exactly the capacity, with the elements within it.\<close>

definition vec_list :: "kernel \<Rightarrow> vec \<Rightarrow> u64 list" where
  "vec_list s v = word_array (mem s) (vec_data v) (unat (vec_length v))"

definition vec_wf :: "kernel \<Rightarrow> vec \<Rightarrow> bool" where
  "vec_wf s v \<longleftrightarrow>
     vec_data v = 0 \<and> vec_length v = 0 \<and> vec_capacity v = 0
     \<or> (\<exists>n. live_alloc s (vec_data v) n (vec_capacity v * 8))
       \<and> vec_length v \<le> vec_capacity v \<and> 0 < vec_capacity v \<and> 8 * unat (vec_capacity v) < 2 ^ 64"

lemma vec_wf_initialiser: "vec_wf s VECTOR_INITIALISER" "vec_list s VECTOR_INITIALISER = []"
  by (simp_all add: vec_wf_def vec_list_def VECTOR_INITIALISER_def empty_vec_def word_array_def)

section \<open>Growing\<close>

text \<open>\<open>vec_room s v\<close>: there is room for one more element, or the heap can serve the larger block.\<close>

definition vec_grown :: "vec \<Rightarrow> u64" where
  "vec_grown v = (if vec_capacity v = 0 then 8 else vec_capacity v * 2)"

definition vec_room :: "kernel \<Rightarrow> vec \<Rightarrow> bool" where
  "vec_room s v \<longleftrightarrow> unat (vec_capacity v) < 2 ^ 59
     \<and> (vec_length v < vec_capacity v
       \<or> \<not> pmm_exhausted s (unat (DIV_ROUNDUP (vec_grown v * 8) PAGE_SIZE) + 1))"

lemma vec_grown_bounds:
  assumes "unat (vec_capacity v) < 2 ^ 59"
  shows "unat (vec_grown v) = (if vec_capacity v = 0 then 8 else unat (vec_capacity v) * 2)"
    and "unat (vec_grown v * 8) = unat (vec_grown v) * 8" and "8 * unat (vec_grown v) \<le> 2 ^ 63"
proof -
  have double: "unat (vec_capacity v * 2) = unat (vec_capacity v) * 2"
    using assms by (subst unat_mult_lem [THEN iffD1]) simp_all
  then show g: "unat (vec_grown v) = (if vec_capacity v = 0 then 8 else unat (vec_capacity v) * 2)"
    by (simp add: vec_grown_def)
  show le: "8 * unat (vec_grown v) \<le> 2 ^ 63" using assms g by (simp split: if_splits)
  then show "unat (vec_grown v * 8) = unat (vec_grown v) * 8"
    by (subst unat_mult_lem [THEN iffD1]) simp_all
qed

lemma VECTOR_ENSURE_LENGTH_grow:
  "vec_capacity v \<le> vec_length v \<Longrightarrow> VECTOR_ENSURE_LENGTH v (vec_length v) =
     bind (realloc (vec_data v) (vec_grown v * 8)) (\<lambda>d. return (v\<lparr>vec_capacity := vec_grown v, vec_data := d\<rparr>))"
  by (simp add: VECTOR_ENSURE_LENGTH_def vec_grown_def Let_def)

lemma direct_map_frame: "alloc_frame s t \<Longrightarrow> direct_map_ok t = direct_map_ok s"
  by (auto simp: alloc_frame_def direct_map_ok_def)

lemma VECTOR_ENSURE_LENGTH_Ok:
  assumes s: "pmm_ready s" "direct_map_ok s" and wf: "vec_wf s v" and room: "vec_room s v"
  shows "\<exists>v' t. VECTOR_ENSURE_LENGTH v (vec_length v) s = Ok (v', t) \<and> pmm_ready t \<and> alloc_frame s t
    \<and> vec_wf t v' \<and> vec_length v' = vec_length v \<and> vec_length v' < vec_capacity v'
    \<and> vec_list t v' = vec_list s v"
proof (cases "vec_length v < vec_capacity v")
  case True
  then show ?thesis
    using s wf by (auto simp: VECTOR_ENSURE_LENGTH_def run_basic alloc_frame_refl)
next
  case full: False
  have cap: "unat (vec_capacity v) < 2 ^ 59"
    and heap: "\<not> pmm_exhausted s (unat (DIV_ROUNDUP (vec_grown v * 8) PAGE_SIZE) + 1)"
    using room full by (auto simp: vec_room_def)
  note g = vec_grown_bounds [OF cap]
  let ?sz = "vec_grown v * 8"
  have small: "unat ?sz \<le> 2 ^ 64 - 4096" using g by simp
  have pos: "0 < vec_grown v" using g(1) by (auto simp: word_less_nat_alt unat_gt_0 split: if_splits)
  have eff: "VECTOR_ENSURE_LENGTH v (vec_length v) =
      bind (realloc (vec_data v) ?sz) (\<lambda>d. return (v\<lparr>vec_capacity := vec_grown v, vec_data := d\<rparr>))"
    using full by (intro VECTOR_ENSURE_LENGTH_grow) simp
  show ?thesis
  proof (cases "vec_capacity v = 0")
    case True
    then have v: "vec_data v = 0" "vec_length v = 0" using wf by (auto simp: vec_wf_def)
    obtain d t where ok: "alloc ?sz s = Ok (d, t)" using alloc_total [OF s(1) small heap] by blast
    note a = alloc_Ok [OF s(1) small ok refl]
    have "VECTOR_ENSURE_LENGTH v (vec_length v) s = Ok (v\<lparr>vec_capacity := vec_grown v, vec_data := d\<rparr>, t)"
      using eff ok v by (simp add: realloc_def bind_Ok run_basic)
    then show ?thesis using a(1-3) v pos g
      by (auto simp: vec_wf_def vec_list_def word_array_def)
  next
    case False
    then obtain n where live: "live_alloc s (vec_data v) n (vec_capacity v * 8)"
      and le: "vec_length v \<le> vec_capacity v" and lt: "8 * unat (vec_capacity v) < 2 ^ 64"
      using wf by (auto simp: vec_wf_def)
    note nz = live_alloc_nonnull [OF s live]
    obtain d t where ok: "realloc (vec_data v) ?sz s = Ok (d, t)" and t: "pmm_ready t" "alloc_frame s t"
      "live_alloc t d (DIV_ROUNDUP ?sz PAGE_SIZE) ?sz"
      and bytes: "\<And>i. i < min (unat ?sz) (unat (vec_capacity v * 8)) \<Longrightarrow>
        mem t (d + of_nat i) = mem s (vec_data v + of_nat i)"
      using realloc_live [OF s(1) live nz small] heap by blast
    have old: "unat (vec_capacity v * 8) = unat (vec_capacity v) * 8"
      using lt by (subst unat_mult_lem [THEN iffD1]) simp_all
    have "word_array (mem t) d (unat (vec_length v)) = word_array (mem s) (vec_data v) (unat (vec_length v))"
      using le g False old by (intro word_array_move bytes) (simp add: word_le_nat_alt)
    moreover have "vec_length v < vec_grown v"
      using le g(1) False unat_eq_0 [of "vec_capacity v"] by (auto simp: word_le_nat_alt word_less_nat_alt)
    moreover have "VECTOR_ENSURE_LENGTH v (vec_length v) s =
        Ok (v\<lparr>vec_capacity := vec_grown v, vec_data := d\<rparr>, t)"
      using eff ok by (simp add: bind_Ok run_basic)
    ultimately show ?thesis using t pos g by (auto simp: vec_wf_def vec_list_def)
  qed
qed

section \<open>Writing elements\<close>

lemma vec_wf_live:
  assumes "vec_wf s v" and "0 < unat (vec_capacity v)"
  obtains n where "live_alloc s (vec_data v) n (vec_capacity v * 8)" "vec_length v \<le> vec_capacity v"
    "8 * unat (vec_capacity v) < 2 ^ 64" "unat (vec_capacity v * 8) = 8 * unat (vec_capacity v)"
proof -
  obtain n where n: "live_alloc s (vec_data v) n (vec_capacity v * 8)" "vec_length v \<le> vec_capacity v"
    and lt: "8 * unat (vec_capacity v) < 2 ^ 64"
    using assms by (auto simp: vec_wf_def)
  moreover have "unat (vec_capacity v * 8) = 8 * unat (vec_capacity v)"
    using lt by (subst unat_mult_lem [THEN iffD1]) simp_all
  ultimately show thesis by (rule that)
qed

text \<open>A change of memory inside the data block keeps the vector and the heap intact.\<close>

lemma vec_data_update:
  assumes "pmm_ready s" and wf: "vec_wf s v" and pos: "0 < unat (vec_capacity v)"
    and out: "\<And>x. \<not> in_region (vec_data v) (8 * unat (vec_capacity v)) x \<Longrightarrow> m x = mem s x"
  shows "pmm_ready (s\<lparr>mem := m\<rparr>)" and "vec_wf (s\<lparr>mem := m\<rparr>) v" and "alloc_frame s (s\<lparr>mem := m\<rparr>)"
proof -
  obtain n where live: "live_alloc s (vec_data v) n (vec_capacity v * 8)"
    and sz: "unat (vec_capacity v * 8) = 8 * unat (vec_capacity v)" by (rule vec_wf_live [OF wf pos])
  note pg = data_pages [OF assms(1) live, unfolded sz]
  have "m x = mem s x" if "bitmap_byte s x" for x
    using that pg(1) [of x] live by (intro out) (auto simp: live_alloc_def)
  note upd = pmm_mem_update [of s m, OF this]
  show "pmm_ready (s\<lparr>mem := m\<rparr>)" using upd assms(1) by simp
  show frame: "alloc_frame s (s\<lparr>mem := m\<rparr>)" by (rule alloc_frame_mem_update [OF alloc_frame_refl])
  have "live_alloc (s\<lparr>mem := m\<rparr>) (vec_data v) n (vec_capacity v * 8)"
    by (rule live_alloc_kept [OF assms(1) live frame])
      (use out pg(2) upd live in \<open>auto simp: live_alloc_def\<close>)
  then show "vec_wf (s\<lparr>mem := m\<rparr>) v" using wf pos by (auto simp: vec_wf_def)
qed

lemma vec_length_update:
  assumes "vec_wf s v" and "0 < unat (vec_capacity v)" and "unat k \<le> unat (vec_capacity v)"
  shows "vec_wf s (v\<lparr>vec_length := k\<rparr>)"
  using assms by (auto simp: vec_wf_def word_le_nat_alt)

lemma vec_list_take:
  "unat k \<le> n \<Longrightarrow> vec_list s (v\<lparr>vec_length := k\<rparr>) = take (unat k) (word_array (mem s) (vec_data v) n)"
  by (simp add: vec_list_def word_array_def take_map)

text \<open>Appending, once there is room.\<close>

lemma VECTOR_PUSH_BACK_store:
  assumes e: "VECTOR_ENSURE_LENGTH v (vec_length v) s = Ok (w, u)" "pmm_ready u" "vec_wf u w"
    "vec_length w = vec_length v" "vec_length w < vec_capacity w"
  obtains m where "VECTOR_PUSH_BACK v val s = Ok ((w\<lparr>vec_length := vec_length w + 1\<rparr>, vec_length v), u\<lparr>mem := m\<rparr>)"
    and "\<forall>x. \<not> in_region (vec_data w) (8 * unat (vec_capacity w)) x \<longrightarrow> m x = mem u x"
    and "vec_list (u\<lparr>mem := m\<rparr>) (w\<lparr>vec_length := vec_length w + 1\<rparr>) = vec_list u w @ [val]"
    and "unat (vec_length w + 1) \<le> unat (vec_capacity w)"
proof -
  let ?n = "unat (vec_length w)" and ?c = "unat (vec_capacity w)"
  have lt: "?n < ?c" using e(5) by (simp add: word_less_nat_alt)
  then have pos: "0 < ?c" by simp
  obtain k where c8: "8 * ?c < 2 ^ 64" by (rule vec_wf_live [OF e(3) pos])
  let ?m = "store64 (mem u) (vec_data w + of_nat ?n * 8) val"
  let ?w = "w\<lparr>vec_length := vec_length w + 1\<rparr>"
  have arr: "word_array ?m (vec_data w) ?c = (word_array (mem u) (vec_data w) ?c)[?n := val]"
    using lt c8 by (intro word_array_store) simp_all
  have out: "?m x = mem u x" if "\<not> in_region (vec_data w) (8 * ?c) x" for x
    using that lt c8 by (intro store64_outside_array) simp_all
  have n1: "unat (vec_length w + 1) = ?n + 1"
    using lt c8 by (subst unat_add_lem [THEN iffD1]) simp_all
  have "vec_list (u\<lparr>mem := ?m\<rparr>) ?w = take (?n + 1) (word_array ?m (vec_data w) ?c)"
    using vec_list_take [of "vec_length w + 1" ?c "u\<lparr>mem := ?m\<rparr>" w] n1 lt by simp
  also have "\<dots> = take ?n (word_array (mem u) (vec_data w) ?c) @ [val]"
    unfolding arr using lt by (simp add: take_Suc_conv_app_nth)
  also have "take ?n (word_array (mem u) (vec_data w) ?c) = vec_list u w"
    using lt by (simp add: vec_list_def word_array_def take_map)
  finally have list: "vec_list (u\<lparr>mem := ?m\<rparr>) ?w = vec_list u w @ [val]" .
  have "VECTOR_PUSH_BACK v val s = Ok ((?w, vec_length v), u\<lparr>mem := ?m\<rparr>)"
    using e(1,4) by (simp add: VECTOR_PUSH_BACK_def bind_Ok access_defs run_basic Let_def)
  from that [OF this _ list] show thesis using out n1 lt by simp
qed

lemma VECTOR_PUSH_BACK_Ok:
  assumes s: "pmm_ready s" "direct_map_ok s" and wf: "vec_wf s v" and room: "vec_room s v"
  shows "\<exists>v' t. VECTOR_PUSH_BACK v val s = Ok ((v', vec_length v), t) \<and> pmm_ready t \<and> alloc_frame s t
    \<and> vec_wf t v' \<and> vec_list t v' = vec_list s v @ [val]"
proof -
  obtain w u where e: "VECTOR_ENSURE_LENGTH v (vec_length v) s = Ok (w, u)" "pmm_ready u" "alloc_frame s u"
    "vec_wf u w" "vec_length w = vec_length v" "vec_length w < vec_capacity w" "vec_list u w = vec_list s v"
    using VECTOR_ENSURE_LENGTH_Ok [OF assms] by blast
  obtain m where m: "VECTOR_PUSH_BACK v val s = Ok ((w\<lparr>vec_length := vec_length w + 1\<rparr>, vec_length v), u\<lparr>mem := m\<rparr>)"
    "\<forall>x. \<not> in_region (vec_data w) (8 * unat (vec_capacity w)) x \<longrightarrow> m x = mem u x"
    "vec_list (u\<lparr>mem := m\<rparr>) (w\<lparr>vec_length := vec_length w + 1\<rparr>) = vec_list u w @ [val]"
    "unat (vec_length w + 1) \<le> unat (vec_capacity w)" by (rule VECTOR_PUSH_BACK_store [OF e(1,2,4-6)])
  have pos: "0 < unat (vec_capacity w)" using e(6) by (simp add: word_less_nat_alt)
  note upd = vec_data_update [OF e(2,4) pos m(2) [rule_format]]
  show ?thesis using m(1,3) upd vec_length_update [OF upd(2) pos m(4)] alloc_frame_trans [OF e(3)] e(7) by auto
qed

section \<open>Moving elements\<close>

text \<open>\<open>moves_to s d n t xs\<close>: from \<open>s\<close> to \<open>t\<close> only the \<open>n\<close> words from \<open>d\<close> changed, to
  \<open>xs\<close>.\<close>

definition moves_to :: "kernel \<Rightarrow> u64 \<Rightarrow> nat \<Rightarrow> kernel \<Rightarrow> u64 list \<Rightarrow> bool" where
  "moves_to s d n t xs \<longleftrightarrow> (\<exists>m. t = s\<lparr>mem := m\<rparr> \<and> word_array m d n = xs
     \<and> (\<forall>x. \<not> in_region d (8 * n) x \<longrightarrow> m x = mem s x))"

lemma moves_to_refl: "moves_to s d n s (word_array (mem s) d n)"
  unfolding moves_to_def by (rule exI [of _ "mem s"]) simp

lemma moves_to_store:
  assumes "moves_to s d n t xs" and "i < n" and "8 * n \<le> 2 ^ 64" and "p = d + of_nat i * 8"
  shows "moves_to s d n (t\<lparr>mem := store64 (mem t) p v\<rparr>) (xs[i := v])"
proof -
  obtain m where m: "t = s\<lparr>mem := m\<rparr>" "word_array m d n = xs"
    "\<And>x. \<not> in_region d (8 * n) x \<Longrightarrow> m x = mem s x"
    using assms(1) by (auto simp: moves_to_def)
  show ?thesis
    unfolding moves_to_def
    by (rule exI [of _ "store64 m p v"])
      (use m assms word_array_store [OF assms(2,3), of m d v] store64_outside_array [OF assms(2,3), of d _ m v]
        in simp)
qed

lemma moves_to_nth: "moves_to s d n t xs \<Longrightarrow> i < n \<Longrightarrow> load64 (mem t) (d + of_nat i * 8) = xs ! i"
  by (auto simp: moves_to_def)

lemma moves_to_array: "moves_to s d n t xs \<Longrightarrow> word_array (mem t) d n = xs"
  by (auto simp: moves_to_def)

lemma moves_to_trans: "moves_to s d n t xs \<Longrightarrow> moves_to t d n u ys \<Longrightarrow> moves_to s d n u ys"
  by (auto simp: moves_to_def)

lemma moves_to_length: "moves_to s d n t xs \<Longrightarrow> length xs = n"
  by (auto simp: moves_to_def)

lemma shift_down_nth:
  assumes "k < length xs" and "j < length xs"
  shows "fold (\<lambda>i xs. xs[i := xs ! Suc i]) [a..<k] xs ! j =
    (if a \<le> j \<and> j < k then xs ! Suc j else xs ! j)
    \<and> length (fold (\<lambda>i xs. xs[i := xs ! Suc i]) [a..<k] xs) = length xs"
  using assms
proof (induction k arbitrary: j)
  case (Suc k)
  have len: "length (fold (\<lambda>i xs. xs[i := xs ! Suc i]) [a..<k] xs) = length xs"
    using Suc.IH [of j] Suc.prems by simp
  show ?case
  proof (cases "a \<le> k")
    case True
    then show ?thesis
      using Suc.IH [of j] Suc.IH [of "Suc k"] Suc.prems len by (auto simp: nth_list_update less_Suc_eq)
  next
    case False
    then show ?thesis by auto
  qed
qed simp

lemma remove_loop:
  assumes "8 * n < 2 ^ 64" and "k < n"
  shows "\<exists>t. foreach (\<lambda>i. bind (read64 (d + (i + 1) * 8)) (\<lambda>x. write64 (d + i * 8) x))
      (map of_nat [a..<k]) s = Ok ((), t)
    \<and> moves_to s d n t (fold (\<lambda>i xs. xs[i := xs ! Suc i]) [a..<k] (word_array (mem s) d n))"
  using assms(2)
proof (induction k)
  case 0
  then show ?case by (simp add: run_basic moves_to_refl)
next
  case (Suc k)
  show ?case
  proof (cases "a \<le> k")
    case True
    let ?b = "\<lambda>i. bind (read64 (d + (i + 1) * 8)) (\<lambda>x. write64 (d + i * 8) x)"
    let ?xs = "fold (\<lambda>i xs. xs[i := xs ! Suc i]) [a..<k] (word_array (mem s) d n)"
    obtain t where t: "foreach ?b (map of_nat [a..<k]) s = Ok ((), t)" and mv: "moves_to s d n t ?xs"
      using Suc by auto
    have "load64 (mem t) (d + (of_nat k + 1) * 8) = ?xs ! Suc k"
      using moves_to_nth [OF mv, of "Suc k"] Suc.prems by (simp add: add.commute)
    then have "?b (of_nat k) t = Ok ((), t\<lparr>mem := store64 (mem t) (d + of_nat k * 8) (?xs ! Suc k)\<rparr>)"
      by (simp add: access_defs run_basic)
    moreover have "foreach ?b (map of_nat [a..<Suc k]) s = foreach ?b [of_nat k] t"
      using True t by (simp add: foreach_append bind_Ok)
    moreover have "moves_to s d n (t\<lparr>mem := store64 (mem t) (d + of_nat k * 8) (?xs ! Suc k)\<rparr>)
        (?xs[k := ?xs ! Suc k])"
      using Suc.prems assms(1) by (intro moves_to_store [OF mv]) simp_all
    ultimately show ?thesis using True by (simp add: bind_Ok run_basic)
  next
    case False
    then show ?thesis by (simp add: run_basic moves_to_refl)
  qed
qed

lemma insert_loop:
  assumes "8 * n < 2 ^ 64" and "i < n"
  shows "\<exists>t j. whileM (\<lambda>i s. index < i) (\<lambda>i. bind (read64 (d + (i - 1) * 8)) (\<lambda>x.
        bind (write64 (d + i * 8) x) (\<lambda>_. return (i - 1)))) (of_nat i) s = Ok (j, t)
    \<and> (\<exists>ys. moves_to s d n t ys \<and> (\<forall>k < n. ys ! k =
        (if unat index < k \<and> k \<le> i then word_array (mem s) d n ! (k - 1) else word_array (mem s) d n ! k)))"
  using assms(2)
proof (induction i arbitrary: s)
  case 0
  then show ?case by (subst whileM_unfold) (auto intro: moves_to_refl)
next
  case (Suc i)
  let ?b = "\<lambda>i. bind (read64 (d + (i - 1) * 8)) (\<lambda>x. bind (write64 (d + i * 8) x) (\<lambda>_. return (i - 1)))"
  let ?xs = "word_array (mem s) d n"
  have u: "unat (of_nat (Suc i) :: u64) = Suc i" using Suc.prems assms(1) by (intro unat_of_nat_u64) simp
  show ?case
  proof (cases "unat index < Suc i")
    case True
    let ?t = "s\<lparr>mem := store64 (mem s) (d + of_nat (Suc i) * 8) (?xs ! i)\<rparr>"
    have step: "?b (of_nat (Suc i)) s = Ok (of_nat i, ?t)"
      using Suc.prems by (simp add: access_defs run_basic)
    have mv: "moves_to s d n ?t (?xs[Suc i := ?xs ! i])"
      using Suc.prems assms(1) by (intro moves_to_store [OF moves_to_refl]) simp_all
    note arr = moves_to_array [OF mv]
    obtain t j ys where ih: "whileM (\<lambda>i s. index < i) ?b (of_nat i) ?t = Ok (j, t)" "moves_to ?t d n t ys"
      "\<forall>k < n. ys ! k = (if unat index < k \<and> k \<le> i then (?xs[Suc i := ?xs ! i]) ! (k - 1)
        else (?xs[Suc i := ?xs ! i]) ! k)"
      using Suc.IH [of ?t] Suc.prems unfolding arr by auto
    have cond: "index < of_nat (Suc i)" unfolding word_less_nat_alt u by (rule True)
    have "whileM (\<lambda>i s. index < i) ?b (of_nat (Suc i)) s = Ok (j, t)"
      using cond step ih(1) by (subst whileM_unfold) (simp only: if_True bind_Ok)
    moreover have "moves_to s d n t ys" by (rule moves_to_trans [OF mv ih(2)])
    moreover have "ys ! k = (if unat index < k \<and> k \<le> Suc i then ?xs ! (k - 1) else ?xs ! k)" if "k < n" for k
      using ih(3) that True by (cases "k = Suc i") (auto simp: nth_list_update)
    ultimately show ?thesis by blast
  next
    case False
    then have "\<not> index < of_nat (Suc i)" using u by (simp add: word_less_nat_alt del: of_nat_Suc)
    then show ?thesis using False
      by (subst whileM_unfold) (auto simp del: of_nat_Suc intro!: exI [of _ ?xs] moves_to_refl)
  qed
qed

section \<open>Inserting, removing and finding\<close>

lemma moves_to_vec:
  assumes "pmm_ready s" and "vec_wf s v" and "0 < unat (vec_capacity v)"
    and "moves_to s (vec_data v) (unat (vec_capacity v)) t xs"
  shows "pmm_ready t" and "vec_wf t v" and "alloc_frame s t"
  using vec_data_update [OF assms(1-3)] assms(4) by (auto simp: moves_to_def)

lemma vec_list_array: "unat (vec_length v) \<le> n \<Longrightarrow>
    vec_list s v = take (unat (vec_length v)) (word_array (mem s) (vec_data v) n)"
  by (simp add: vec_list_def word_array_def take_map)

text \<open>The two shifts, on lists.\<close>

lemma insert_list:
  assumes "i \<le> n" and "n < length xs" and "length ys = length xs"
    and ys: "\<And>k. k < length xs \<Longrightarrow> ys ! k = (if i < k \<and> k \<le> n then xs ! (k - 1) else xs ! k)"
  shows "take (n + 1) (ys[i := v]) = take i (take n xs) @ v # drop i (take n xs)"
proof (rule nth_equalityI)
  fix j assume "j < length (take (n + 1) (ys[i := v]))"
  then have j: "j \<le> n" by simp
  consider "j < i" | "j = i" | "i < j" by linarith
  then show "take (n + 1) (ys[i := v]) ! j = (take i (take n xs) @ v # drop i (take n xs)) ! j"
  proof cases
    case 3
    then have "(take i (take n xs) @ v # drop i (take n xs)) ! j = xs ! (j - 1)"
      using j assms by (simp add: nth_append nth_Cons' min_def)
    then show ?thesis using 3 j assms by simp
  qed (use j assms in \<open>auto simp: nth_append\<close>)
qed (use assms in simp)

lemma remove_list:
  assumes "0 < n" and "n \<le> length xs" and "length ys = length xs"
    and ys: "\<And>k. k < length xs \<Longrightarrow> ys ! k = (if i \<le> k \<and> k < n - 1 then xs ! Suc k else xs ! k)"
  shows "take (n - 1) ys = (if i < n then take i (take n xs) @ drop (i + 1) (take n xs)
    else butlast (take n xs))"
proof (rule nth_equalityI)
  show len: "length (take (n - 1) ys) = length (if i < n then take i (take n xs) @ drop (i + 1) (take n xs)
      else butlast (take n xs))"
    using assms(1-3) by auto
  fix j assume "j < length (take (n - 1) ys)"
  then have j: "j < n - 1" by simp
  then have "take (n - 1) ys ! j = (if i \<le> j then xs ! Suc j else xs ! j)" using assms by simp
  moreover have "butlast (take n xs) ! j = xs ! j" using j assms(2) by (simp add: nth_butlast)
  moreover have "(take i (take n xs) @ drop (i + 1) (take n xs)) ! j = (if i \<le> j then xs ! Suc j else xs ! j)"
    if "i < n" using that j assms(2) by (auto simp: nth_append min_def)
  ultimately show "take (n - 1) ys ! j =
      (if i < n then take i (take n xs) @ drop (i + 1) (take n xs) else butlast (take n xs)) ! j"
    using j by auto
qed

lemma VECTOR_INSERT_Ok:
  assumes s: "pmm_ready s" "direct_map_ok s" and wf: "vec_wf s v" and room: "vec_room s v"
    and idx: "unat index \<le> unat (vec_length v)"
  shows "\<exists>v' t. VECTOR_INSERT v index val s = Ok (v', t) \<and> pmm_ready t \<and> alloc_frame s t \<and> vec_wf t v'
    \<and> vec_list t v' = take (unat index) (vec_list s v) @ val # drop (unat index) (vec_list s v)"
proof -
  obtain w u where e: "VECTOR_ENSURE_LENGTH v (vec_length v) s = Ok (w, u)" "pmm_ready u" "alloc_frame s u"
    "vec_wf u w" "vec_length w = vec_length v" "vec_length w < vec_capacity w" "vec_list u w = vec_list s v"
    using VECTOR_ENSURE_LENGTH_Ok [OF s wf room] by blast
  let ?n = "unat (vec_length w)" and ?c = "unat (vec_capacity w)" and ?i = "unat index"
  let ?d = "vec_data w" and ?xs = "word_array (mem u) (vec_data w) (unat (vec_capacity w))"
  have lt: "?n < ?c" using e(6) by (simp add: word_less_nat_alt)
  then have pos: "0 < ?c" by simp
  obtain k where c8: "8 * ?c < 2 ^ 64" by (rule vec_wf_live [OF e(4) pos])
  obtain t j ys where lp: "whileM (\<lambda>i s. index < i) (\<lambda>i. bind (read64 (?d + (i - 1) * 8)) (\<lambda>x.
        bind (write64 (?d + i * 8) x) (\<lambda>_. return (i - 1)))) (vec_length w) u = Ok (j, t)"
    and mv: "moves_to u ?d ?c t ys"
    and ys: "\<And>k. k < ?c \<Longrightarrow> ys ! k = (if ?i < k \<and> k \<le> ?n then ?xs ! (k - 1) else ?xs ! k)"
    using insert_loop [OF c8 lt, of index ?d u] by auto
  let ?m = "store64 (mem t) (?d + index * 8) val" and ?w = "w\<lparr>vec_length := vec_length w + 1\<rparr>"
  have mv': "moves_to u ?d ?c (t\<lparr>mem := ?m\<rparr>) (ys[?i := val])"
    using idx e(5) lt c8 by (intro moves_to_store [OF mv]) simp_all
  note upd = moves_to_vec [OF e(2,4) pos mv']
  have n1: "unat (vec_length w + 1) = ?n + 1"
    using lt c8 by (subst unat_add_lem [THEN iffD1]) simp_all
  have len: "length ys = ?c" by (rule moves_to_length [OF mv])
  have "vec_list (t\<lparr>mem := ?m\<rparr>) ?w = take (?n + 1) (ys[?i := val])"
    using vec_list_take [of "vec_length w + 1" ?c "t\<lparr>mem := ?m\<rparr>" w] n1 lt moves_to_array [OF mv'] by simp
  also have "\<dots> = take ?i (take ?n ?xs) @ val # drop ?i (take ?n ?xs)"
    using lt idx e(5) ys len by (intro insert_list) simp_all
  also have "take ?n ?xs = vec_list s v" using lt e(7) vec_list_array [of w ?c u] by simp
  finally have "vec_list (t\<lparr>mem := ?m\<rparr>) ?w =
      take ?i (vec_list s v) @ val # drop ?i (vec_list s v)" .
  moreover have "VECTOR_INSERT v index val s = Ok (?w, t\<lparr>mem := ?m\<rparr>)"
    using e(1) lp by (simp add: VECTOR_INSERT_def bind_Ok access_defs run_basic Let_def)
  moreover have "vec_wf (t\<lparr>mem := ?m\<rparr>) ?w" using vec_length_update [OF upd(2) pos] n1 lt by simp
  ultimately show ?thesis using upd alloc_frame_trans [OF e(3)] by blast
qed

lemma VECTOR_REMOVE_Ok:
  assumes s: "pmm_ready s" and wf: "vec_wf s v" and len: "0 < unat (vec_length v)"
  shows "\<exists>v' t. VECTOR_REMOVE v idx s = Ok (v', t) \<and> pmm_ready t \<and> alloc_frame s t \<and> vec_wf t v'
    \<and> vec_list t v' = (if unat idx < unat (vec_length v)
        then take (unat idx) (vec_list s v) @ drop (unat idx + 1) (vec_list s v)
        else butlast (vec_list s v))"
proof -
  let ?n = "unat (vec_length v)" and ?c = "unat (vec_capacity v)" and ?i = "unat idx" and ?d = "vec_data v"
  have le: "?n \<le> ?c" using wf len by (auto simp: vec_wf_def word_le_nat_alt)
  then have pos: "0 < ?c" using len by simp
  obtain k where c8: "8 * ?c < 2 ^ 64" by (rule vec_wf_live [OF wf pos])
  have n1: "unat (vec_length v - 1) = ?n - 1" using len by (simp add: unat_minus_one unat_gt_0)
  let ?xs = "word_array (mem s) ?d ?c"
  let ?ys = "fold (\<lambda>i xs. xs[i := xs ! Suc i]) [?i..<?n - 1] ?xs"
  have "?n - 1 < ?c" using le len by simp
  from remove_loop [OF c8 this, of ?d ?i s] obtain t where
    lp: "for_range idx (vec_length v - 1) (\<lambda>i. bind (read64 (?d + (i + 1) * 8)) (\<lambda>x. write64 (?d + i * 8) x)) s = Ok ((), t)"
    and mv: "moves_to s ?d ?c t ?ys" by (auto simp: for_range_foreach n1)
  note upd = moves_to_vec [OF s wf pos mv]
  have ys: "?ys ! j = (if ?i \<le> j \<and> j < ?n - 1 then ?xs ! Suc j else ?xs ! j)" if "j < ?c" for j
    using shift_down_nth [of "?n - 1" ?xs j ?i] le len that by simp
  let ?v = "v\<lparr>vec_length := vec_length v - 1\<rparr>"
  have "vec_list t ?v = take (?n - 1) ?ys"
    using vec_list_take [of "vec_length v - 1" ?c t v] n1 le moves_to_array [OF mv] by simp
  also have "\<dots> = (if ?i < ?n then take ?i (take ?n ?xs) @ drop (?i + 1) (take ?n ?xs) else butlast (take ?n ?xs))"
    using le len ys moves_to_length [OF mv] by (intro remove_list) simp_all
  also have "take ?n ?xs = vec_list s v" using le vec_list_array [of v ?c s] by simp
  finally have "vec_list t ?v = (if ?i < ?n then take ?i (vec_list s v) @ drop (?i + 1) (vec_list s v)
      else butlast (vec_list s v))" .
  moreover have "VECTOR_REMOVE v idx s = Ok (?v, t)"
    using lp by (simp add: VECTOR_REMOVE_def bind_Ok run_basic)
  moreover have "vec_wf t ?v" using vec_length_update [OF upd(2) pos] n1 le by simp
  ultimately show ?thesis using upd by blast
qed

lemma unat_invalid_index: "unat VECTOR_INVALID_INDEX = 18446744073709551615"
  by (simp add: unsigned_minus_1_eq_mask mask_eq_exp_minus_1)

lemma VECTOR_FIND_Ok:
  assumes "xs = vec_list s v"
  shows "\<exists>r. VECTOR_FIND v val s = Ok (r, s) \<and>
    (if val \<in> set xs then unat r < length xs \<and> xs ! unat r = val \<and> (\<forall>j < unat r. xs ! j \<noteq> val)
     else r = VECTOR_INVALID_INDEX)"
proof -
  let ?n = "unat (vec_length v)"
  let ?I = "\<lambda>(i, r) t. t = s \<and> unat i \<le> ?n \<and> (\<forall>j < unat i. xs ! j \<noteq> val)
    \<and> (r = VECTOR_INVALID_INDEX \<or> r = i \<and> unat i < ?n \<and> xs ! unat i = val)"
  have len: "length xs = ?n" and nth: "unat i < ?n \<Longrightarrow> xs ! unat i = load64 (mem s) (vec_data v + i * 8)" for i
    by (simp_all add: assms vec_list_def)
  have suc: "unat (i + 1) = unat i + 1" if "unat i < ?n" for i :: u64
    using that unat_u64_less [of "vec_length v"] by (subst unat_add_lem [THEN iffD1]) simp_all
  let ?b = "\<lambda>(i, result) (s :: kernel). i < vec_length v \<and> result = VECTOR_INVALID_INDEX"
  let ?c = "\<lambda>(i, result). bind (read64 (vec_data v + i * 8)) (\<lambda>x.
     if x = val then return (i, i) else return (i + 1, result))"
  let ?M = "\<lambda>(i, r) (t :: kernel). if r = VECTOR_INVALID_INDEX then Suc ?n - unat i else 0"
  have "wp (whileM ?b ?c (0, VECTOR_INVALID_INDEX)) (\<lambda>l t. ?I l t \<and> \<not> ?b l t) s"
  proof (rule wp_whileM [where I = ?I and M = ?M])
    fix l :: "u64 \<times> u64" and t
    assume "?I l t" and "?b l t"
    then obtain i where l: "l = (i, VECTOR_INVALID_INDEX)" "t = s" "unat i < ?n" "\<forall>j < unat i. xs ! j \<noteq> val"
      by (auto simp: word_less_nat_alt split: prod.splits)
    have inv: "i \<noteq> VECTOR_INVALID_INDEX"
      using l(3) unat_u64_less [of "vec_length v"] by (auto simp: unat_invalid_index)
    show "wp (?c l) (\<lambda>l' s'. ?I l' s' \<and> ?M l' s' < ?M l t) t"
      using l inv nth [OF l(3)] suc [OF l(3)]
      by (auto simp: access_defs wp_def run_basic less_Suc_eq)
  qed (auto split: prod.splits)
  then obtain i r where w: "whileM ?b ?c (0, VECTOR_INVALID_INDEX) s = Ok ((i, r), s)" and I: "?I (i, r) s"
    and e: "\<not> (i < vec_length v \<and> r = VECTOR_INVALID_INDEX)"
    by (auto simp: wp_Ok_iff)
  have "VECTOR_FIND v val s = Ok (r, s)"
    using w by (simp add: VECTOR_FIND_def bind_Ok run_basic)
  moreover have "val \<in> set xs \<longleftrightarrow> r \<noteq> VECTOR_INVALID_INDEX"
    using I e len by (auto simp: in_set_conv_nth word_less_nat_alt)
  ultimately show ?thesis using I len by auto
qed

lemma remove1_first:
  "i < length xs \<Longrightarrow> xs ! i = a \<Longrightarrow> \<forall>j < i. xs ! j \<noteq> a \<Longrightarrow> remove1 a xs = take i xs @ drop (i + 1) xs"
proof (induction xs arbitrary: i)
  case (Cons b xs)
  show ?case
  proof (cases i)
    case 0
    then show ?thesis using Cons.prems by simp
  next
    case (Suc k)
    then have "b \<noteq> a" "\<forall>j < k. xs ! j \<noteq> a" using Cons.prems by auto
    then show ?thesis using Suc Cons.IH [of k] Cons.prems by simp
  qed
qed simp

lemma VECTOR_REMOVE_BY_VALUE_Ok:
  assumes "pmm_ready s" and "vec_wf s v" and "vec_list s v \<noteq> []"
  shows "\<exists>v' t. VECTOR_REMOVE_BY_VALUE v val s = Ok (v', t) \<and> pmm_ready t \<and> vec_wf t v'
    \<and> vec_list t v' = (if val \<in> set (vec_list s v) then remove1 val (vec_list s v)
        else butlast (vec_list s v))"
proof -
  let ?xs = "vec_list s v"
  have len: "length ?xs = unat (vec_length v)" by (simp add: vec_list_def)
  then have pos: "0 < unat (vec_length v)" using assms(3) by (cases ?xs) auto
  obtain r where r: "VECTOR_FIND v val s = Ok (r, s)" and
    fnd: "if val \<in> set ?xs then unat r < length ?xs \<and> ?xs ! unat r = val \<and> (\<forall>j < unat r. ?xs ! j \<noteq> val)
      else r = VECTOR_INVALID_INDEX"
    using VECTOR_FIND_Ok [OF refl] by blast
  have "unat r < unat (vec_length v) \<longleftrightarrow> val \<in> set ?xs"
    using fnd len unat_u64_less [of "vec_length v"] by (auto simp: unat_invalid_index split: if_splits)
  then show ?thesis
    using VECTOR_REMOVE_Ok [OF assms(1,2) pos, of r] r fnd remove1_first [of "unat r" ?xs val]
    by (auto simp: VECTOR_REMOVE_BY_VALUE_def bind_Ok)
qed

section \<open>Properties\<close>

text \<open>C21: Pushing an element appends it, whether or not the vector has to grow: the new vector is well
  formed, holds the old elements followed by the new one, and the value of the macro is the new
  element's index.\<close>

theorem vector_push_back_refines:
  assumes "pmm_ready s" and "direct_map_ok s" and "vec_wf s v" and "vec_room s v"
  shows "\<exists>v' t. VECTOR_PUSH_BACK v val s = Ok ((v', vec_length v), t) \<and> pmm_ready t \<and> vec_wf t v'
    \<and> vec_list t v' = vec_list s v @ [val]"
  using VECTOR_PUSH_BACK_Ok [OF assms] by blast

lemma eight_pages_vec:
  "direct_map_ok eight_pages" "vec_room eight_pages VECTOR_INITIALISER"
proof -
  show "direct_map_ok eight_pages"
    by (simp add: direct_map_ok_def eight_pages_def blank_kernel_def)
  have "DIV_ROUNDUP 64 PAGE_SIZE = (1 :: u64)" by (simp add: DIV_ROUNDUP_def)
  then show "vec_room eight_pages VECTOR_INITIALISER"
    by (simp add: vec_room_def VECTOR_INITIALISER_def empty_vec_def vec_grown_def eight_pages_exhausted)
qed

theorem vector_push_back_refines_witness:
  "\<exists>v t. VECTOR_PUSH_BACK VECTOR_INITIALISER 7 eight_pages = Ok ((v, 0), t) \<and> vec_list t v = [7]"
  using vector_push_back_refines [OF eight_pages_ready eight_pages_vec(1) vec_wf_initialiser(1) eight_pages_vec(2), of 7]
  by (auto simp: vec_wf_initialiser(2)) (simp add: VECTOR_INITIALISER_def empty_vec_def)

text \<open>Inserting at an index up to the length moves the later elements up by one and changes no other
  element.\<close>

theorem vector_insert_refines:
  assumes "pmm_ready s" and "direct_map_ok s" and "vec_wf s v" and "vec_room s v"
    and "unat index \<le> length (vec_list s v)"
  shows "\<exists>v' t. VECTOR_INSERT v index val s = Ok (v', t) \<and> pmm_ready t \<and> vec_wf t v'
    \<and> vec_list t v' = take (unat index) (vec_list s v) @ val # drop (unat index) (vec_list s v)"
  using VECTOR_INSERT_Ok [OF assms(1-4), of index val] assms(5) by (auto simp: vec_list_def)

theorem vector_insert_refines_witness:
  "\<exists>v t. VECTOR_INSERT VECTOR_INITIALISER 0 9 eight_pages = Ok (v, t) \<and> vec_list t v = [9]"
  using vector_insert_refines [OF eight_pages_ready eight_pages_vec(1) vec_wf_initialiser(1) eight_pages_vec(2), of 0 9]
  by (auto simp: vec_wf_initialiser(2))

text \<open>Removing an index within a vector deletes exactly that element.\<close>

theorem vector_remove_refines:
  assumes "pmm_ready s" and "vec_wf s v" and "unat idx < length (vec_list s v)"
  shows "\<exists>v' t. VECTOR_REMOVE v idx s = Ok (v', t) \<and> pmm_ready t \<and> vec_wf t v'
    \<and> vec_list t v' = take (unat idx) (vec_list s v) @ drop (unat idx + 1) (vec_list s v)"
  using VECTOR_REMOVE_Ok [OF assms(1,2), of idx] assms(3) by (auto simp: vec_list_def)

lemma one_element:
  "\<exists>v t. VECTOR_PUSH_BACK VECTOR_INITIALISER val eight_pages = Ok ((v, 0), t) \<and> pmm_ready t \<and> vec_wf t v
     \<and> vec_list t v = [val]"
  using VECTOR_PUSH_BACK_Ok [OF eight_pages_ready eight_pages_vec(1) vec_wf_initialiser(1) eight_pages_vec(2), of val]
  by (auto simp: vec_wf_initialiser(2)) (auto simp: VECTOR_INITIALISER_def empty_vec_def)

theorem vector_remove_refines_witness:
  "\<exists>v t v' u. VECTOR_PUSH_BACK VECTOR_INITIALISER 5 eight_pages = Ok ((v, 0), t)
     \<and> VECTOR_REMOVE v 0 t = Ok (v', u) \<and> vec_list u v' = []"
proof -
  obtain v t where v: "VECTOR_PUSH_BACK VECTOR_INITIALISER 5 eight_pages = Ok ((v, 0), t)" "pmm_ready t"
    "vec_wf t v" "vec_list t v = [5]" using one_element by blast
  show ?thesis using vector_remove_refines [OF v(2,3), of 0] v(1,4) by auto
qed

text \<open>C22: Removing by value deletes the first occurrence of a value that is there; a value that is not
  there removes the last element of the vector instead of nothing.\<close>

theorem vector_remove_by_value:
  assumes "pmm_ready s" and "vec_wf s v" and "vec_list s v \<noteq> []"
  shows "\<exists>v' t. VECTOR_REMOVE_BY_VALUE v val s = Ok (v', t) \<and> pmm_ready t \<and> vec_wf t v'
    \<and> vec_list t v' = (if val \<in> set (vec_list s v) then remove1 val (vec_list s v)
        else butlast (vec_list s v))"
  using VECTOR_REMOVE_BY_VALUE_Ok [OF assms] .

theorem vector_remove_by_value_witness:
  "\<exists>v t v' u. VECTOR_PUSH_BACK VECTOR_INITIALISER 5 eight_pages = Ok ((v, 0), t) \<and> vec_list t v = [5]
     \<and> VECTOR_REMOVE_BY_VALUE v 6 t = Ok (v', u) \<and> vec_list u v' = []"
proof -
  obtain v t where v: "VECTOR_PUSH_BACK VECTOR_INITIALISER 5 eight_pages = Ok ((v, 0), t)" "pmm_ready t"
    "vec_wf t v" "vec_list t v = [5]" using one_element by blast
  show ?thesis using vector_remove_by_value [OF v(2,3), of 6] v(1,4) by auto
qed

end
