(* ===== verification/Vector_Page.thy ===== *)
theory Vector_Page
  imports Vector
begin

text \<open>
  Vectors of up to 512 elements: their data fits one page, so that a vector takes a pair of pages once
  (the header and the data) and grows within it. Appending to such a vector changes nothing but its own
  pages and the page bitmap, which is what keeps several vectors beside each other.
\<close>

section \<open>Pairs of free pages\<close>

definition even_pairs :: "nat set \<Rightarrow> nat set" where
  "even_pairs F = {q. even q \<and> {q, q + 1} \<subseteq> F}"

abbreviation free_pairs :: "kernel \<Rightarrow> nat set" where
  "free_pairs s \<equiv> even_pairs (free_pages s)"

lemma even_pairs_sub: "even_pairs F \<subseteq> F"
  by (auto simp: even_pairs_def)

lemma finite_free_pairs: "finite (free_pairs s)"
  by (rule finite_subset [OF even_pairs_sub finite_free_pages])

text \<open>At most one pair lies across the rotating index.\<close>

lemma free_pair_found:
  assumes "2 \<le> card (free_pairs s)"
  shows "\<not> pmm_exhausted s 2"
proof -
  let ?l = "unat (pmm_last_used_index s)"
  have "1 \<le> card (free_pairs s - {?l - 1})" using assms diff_card_le_card_Diff [of "{?l - 1}" "free_pairs s"] by simp
  then obtain q where q: "q \<in> free_pairs s" "q \<noteq> ?l - 1" by (metis Diff_iff card.empty equals0I insertCI not_one_le_zero)
  have run: "aligned_run (page_free s) 2 q" "q + 2 \<le> unat (pmm_avl_page_count s)"
    using q(1) by (auto simp: even_pairs_def aligned_run_def free_pages_def less_Suc_eq le_Suc_eq)
  have "?l \<le> q \<or> q + 2 \<le> ?l" using q(2) by linarith
  then show ?thesis using run by (auto simp: pmm_exhausted_def no_run_def Let_def)
qed

text \<open>Taking a pair leaves the others; a page that is taken spoils at most one pair.\<close>

lemma even_pairs_take:
  assumes "even q" and "finite A"
  shows "card (even_pairs A) \<le> card (even_pairs (A - {q, q + 1})) + 1"
proof -
  have "p \<in> even_pairs (A - {q, q + 1})" if p: "p \<in> even_pairs A" "p \<noteq> q" for p
  proof -
    have "even p" using p(1) by (simp add: even_pairs_def)
    then have "p + 1 \<noteq> q" "p \<noteq> q + 1" using assms(1) by auto
    then show ?thesis using p by (simp add: even_pairs_def)
  qed
  then have "even_pairs A \<subseteq> insert q (even_pairs (A - {q, q + 1}))" by blast
  moreover have fin: "finite (even_pairs (A - {q, q + 1}))" by (rule finite_subset [OF even_pairs_sub]) (simp add: assms(2))
  ultimately have "card (even_pairs A) \<le> card (insert q (even_pairs (A - {q, q + 1})))" by (intro card_mono) simp_all
  also have "\<dots> \<le> card (even_pairs (A - {q, q + 1})) + 1" using card_insert_if [OF fin, of q] by (simp split: if_splits)
  finally show ?thesis .
qed

lemma even_pairs_shrink:
  assumes "finite A" and sub: "B \<subseteq> A" and "card A \<le> card B + k"
  shows "card (even_pairs A) \<le> card (even_pairs B) + k"
proof -
  have fB: "finite B" using assms(1,2) by (rule finite_subset [rotated])
  have "p \<in> even_pairs B \<union> (\<lambda>i. i div 2 * 2) ` (A - B)" if p: "p \<in> even_pairs A" for p
  proof -
    have even: "even p" "p \<in> A" "p + 1 \<in> A" using p by (auto simp: even_pairs_def)
    then have "p = p div 2 * 2" "p = (p + 1) div 2 * 2" by auto
    then have "p \<in> (\<lambda>i. i div 2 * 2) ` (A - B)" if "p \<notin> B \<or> p + 1 \<notin> B"
      using even(2,3) that by blast
    then show ?thesis using even(1) by (auto simp: even_pairs_def)
  qed
  then have "even_pairs A \<subseteq> even_pairs B \<union> (\<lambda>i. i div 2 * 2) ` (A - B)" by blast
  then have "card (even_pairs A) \<le> card (even_pairs B \<union> (\<lambda>i. i div 2 * 2) ` (A - B))"
    by (intro card_mono) (simp_all add: assms(1) finite_subset [OF even_pairs_sub fB])
  also have "\<dots> \<le> card (even_pairs B) + card ((\<lambda>i. i div 2 * 2) ` (A - B))" by (rule card_Un_le)
  also have "card ((\<lambda>i. i div 2 * 2) ` (A - B)) \<le> card (A - B)" by (intro card_image_le) (simp add: assms(1))
  also have "card (A - B) \<le> k" using assms fB by (simp add: card_Diff_subset)
  finally show ?thesis by simp
qed

lemma one_page: "0 < unat sz \<Longrightarrow> unat sz \<le> 4096 \<Longrightarrow> DIV_ROUNDUP sz PAGE_SIZE = 1"
proof -
  assume a: "0 < unat sz" "unat sz \<le> 4096"
  then have "unat (DIV_ROUNDUP sz PAGE_SIZE) = (unat sz + 4095) div 4096" by (intro page_count_bound(1)) simp
  also have "\<dots> = 1" using a by simp
  finally show ?thesis by (simp add: word_unat_eq_iff)
qed

lemma alloc_pair:
  assumes s: "pmm_ready s" and sz: "0 < unat sz" "unat sz \<le> 4096" and ok: "alloc sz s = Ok (ptr, t)"
  obtains q where "even q" "alloc_block s ptr 1 = {q, q + 1}"
proof -
  obtain p u where p: "pmm_alloc 2 s = Ok (p, u)" "ptr = p + hhdm u + PAGE_SIZE"
    using ok one_page [OF sz] by (auto simp: alloc_run bind_eq_Ok_iff)
  have "hhdm u = hhdm s" using alloc_frame_fields(2) [OF pages.palloc_frame [OF s _ p(1)]] by simp
  then have b: "alloc_block s ptr 1 = block_of p 2" using p(2) by (simp add: alloc_block_def)
  have "unat p mod 8192 = 0" using pages.palloc_addr [OF s _ p(1)] by simp
  then have "even (unat p div 4096)" by (auto elim!: dvdE simp: mod_eq_0_iff_dvd)
  moreover have "block_of p 2 = {unat p div 4096, unat p div 4096 + 1}" by (auto simp: block_of_def)
  ultimately show thesis using that b by simp
qed

section \<open>Vectors in one page\<close>

definition page_capacity :: "u64 \<Rightarrow> bool" where
  "page_capacity c \<longleftrightarrow> unat c \<in> {8, 16, 32, 64, 128, 256, 512}"

lemma page_capacity_bounds:
  assumes "page_capacity c"
  shows "unat (c * 8) = 8 * unat c" and "8 \<le> unat c" and "unat c \<le> 512" and "c \<noteq> 0"
    and "unat c < 512 \<Longrightarrow> page_capacity (c * 2) \<and> unat (c * 2) = 2 * unat c"
proof -
  show b: "8 \<le> unat c" "unat c \<le> 512" using assms by (auto simp: page_capacity_def)
  then show "unat (c * 8) = 8 * unat c" by (subst unat_mult_lem [THEN iffD1]) simp_all
  show "c \<noteq> 0" using b(1) by auto
  have "unat (c * 2) = 2 * unat c" using b(2) by (subst unat_mult_lem [THEN iffD1]) simp_all
  then show "page_capacity (c * 2) \<and> unat (c * 2) = 2 * unat c" if "unat c < 512"
    using that assms by (auto simp: page_capacity_def)
qed

definition page_vec :: "kernel \<Rightarrow> vec \<Rightarrow> u64 list \<Rightarrow> bool" where
  "page_vec s v xs \<longleftrightarrow> v = VECTOR_INITIALISER \<and> xs = []
     \<or> live_alloc s (vec_data v) 1 (vec_capacity v * 8) \<and> vec_list s v = xs \<and> vec_length v \<le> vec_capacity v
       \<and> page_capacity (vec_capacity v)"

definition vec_pages :: "kernel \<Rightarrow> vec \<Rightarrow> nat set" where
  "vec_pages s v = (if vec_capacity v = 0 then {} else alloc_block s (vec_data v) 1)"

text \<open>What appending to \<open>v\<close>, which became \<open>w\<close>, did to the state.\<close>

definition vec_appended :: "kernel \<Rightarrow> vec \<Rightarrow> kernel \<Rightarrow> vec \<Rightarrow> bool" where
  "vec_appended s v t w \<longleftrightarrow> alloc_frame s t \<and> vec_capacity w \<noteq> 0 \<and> vec_pages s w \<subseteq> vec_pages s v \<union> free_pages s
     \<and> free_pages t = free_pages s - vec_pages s w
     \<and> card (free_pairs s) \<le> card (free_pairs t) + (if vec_capacity v = 0 then 1 else 0)
     \<and> (\<forall>x. \<not> bitmap_byte s x \<and> page_of s x \<notin> vec_pages s w \<longrightarrow> mem t x = mem s x)"

lemma page_vec_cases:
  assumes "page_vec s v xs"
  obtains (fresh) "v = VECTOR_INITIALISER" "vec_capacity v = 0" "xs = []"
  | (live) "live_alloc s (vec_data v) 1 (vec_capacity v * 8)" "vec_list s v = xs" "vec_length v \<le> vec_capacity v"
      "page_capacity (vec_capacity v)" "vec_capacity v \<noteq> 0" "unat (vec_capacity v * 8) = 8 * unat (vec_capacity v)"
proof -
  show thesis
  proof (cases "v = VECTOR_INITIALISER \<and> xs = []")
    case True
    then show ?thesis by (intro fresh) (simp_all add: VECTOR_INITIALISER_def empty_vec_def)
  next
    case False
    then show ?thesis using assms page_capacity_bounds [of "vec_capacity v"] by (intro live) (auto simp: page_vec_def)
  qed
qed

lemma page_vec_length:
  assumes "page_vec s v xs"
  shows "unat (vec_length v) = length xs" and "vec_list s v = xs" and "vec_wf s v"
proof -
  show l: "vec_list s v = xs" using assms vec_wf_initialiser(2) by (cases rule: page_vec_cases) auto
  then have "length (vec_list s v) = length xs" by simp
  then show "unat (vec_length v) = length xs" by (simp add: vec_list_def)
  show "vec_wf s v" using assms vec_wf_initialiser(1)
  proof (cases rule: page_vec_cases)
    case live
    then have "8 * unat (vec_capacity v) < 2 ^ 64" using page_capacity_bounds(3) [OF live(4)] by simp
    then show ?thesis using live(1,3,5) by (auto simp: vec_wf_def word_gt_0)
  qed simp
qed

lemma vec_pages_frame: "alloc_frame s t \<Longrightarrow> vec_pages t v = vec_pages s v"
  using alloc_frame_fields(2) by (simp add: vec_pages_def alloc_block_def)

lemma vec_pages_busy:
  assumes "page_vec s v xs"
  shows "vec_pages s v \<inter> free_pages s = {}" and "bitmap_byte s x \<Longrightarrow> page_of s x \<notin> vec_pages s v"
  using assms by (cases rule: page_vec_cases; auto simp: vec_pages_def live_alloc_def)+

lemma page_vec_mem:
  assumes "mem t = mem s" and "hhdm t = hhdm s" and "pmm_avl_page_count t = pmm_avl_page_count s"
    and "free_pages t = free_pages s" and "page_of t = page_of s" and "bitmap_byte t = bitmap_byte s"
  shows "page_vec t = page_vec s" and "vec_pages t = vec_pages s"
  using assms by (auto simp: page_vec_def vec_pages_def live_alloc_def alloc_block_def vec_list_def intro!: ext)

text \<open>A vector whose pages stay busy and unchanged stays as it is.\<close>

lemma page_vec_kept:
  assumes s: "pmm_ready s" and v: "page_vec s v xs" and fr: "alloc_frame s t" and busy: "vec_pages s v \<inter> free_pages t = {}"
    and mem: "\<And>x. page_of s x \<in> vec_pages s v \<Longrightarrow> mem t x = mem s x"
  shows "page_vec t v xs"
  using v
proof (cases rule: page_vec_cases)
  case fresh
  then show ?thesis by (simp add: page_vec_def)
next
  case live
  have pg: "vec_pages s v = alloc_block s (vec_data v) 1" using live(5) by (simp add: vec_pages_def)
  have "live_alloc t (vec_data v) 1 (vec_capacity v * 8)"
    by (rule live_alloc_kept [OF s live(1) fr]) (use header_pages [OF s live(1)] mem busy in \<open>auto simp: pg\<close>)
  moreover have "word_array (mem t) (vec_data v) (unat (vec_length v)) = word_array (mem s) (vec_data v) (unat (vec_length v))"
  proof (rule word_array_cong)
    fix x assume "in_region (vec_data v) (8 * unat (vec_length v)) x"
    then have "in_region (vec_data v) (unat (vec_capacity v * 8)) x"
      using live(3,6) by (simp add: in_region_def word_le_nat_alt)
    from data_pages(1) [OF s live(1) this] show "mem t x = mem s x" by (intro mem) (simp add: pg)
  qed (use live(3) page_capacity_bounds(3) [OF live(4)] in \<open>auto simp: word_le_nat_alt\<close>)
  ultimately show ?thesis using live(2-4) by (simp add: page_vec_def vec_list_def)
qed

section \<open>Appending\<close>

lemma vec_appended_refl:
  assumes "page_vec s v xs" and "vec_capacity v \<noteq> 0"
  shows "vec_appended s v s v"
  using vec_pages_busy(1) [OF assms(1)] assms(2) by (auto simp: vec_appended_def alloc_frame_refl)

lemma page_vec_first:
  assumes s: "pmm_ready s" and pair: "2 \<le> card (free_pairs s)" and v: "v = VECTOR_INITIALISER"
  shows "\<exists>w t. VECTOR_ENSURE_LENGTH v (vec_length v) s = Ok (w, t) \<and> pmm_ready t \<and> page_vec t w []
    \<and> vec_length w = 0 \<and> vec_capacity w = 8 \<and> vec_appended s v t w"
proof -
  have one: "DIV_ROUNDUP 64 PAGE_SIZE = 1" by (rule one_page) simp_all
  have "\<not> pmm_exhausted s (unat (DIV_ROUNDUP 64 PAGE_SIZE) + 1)" using free_pair_found [OF pair] unfolding one by (simp add: numeral_2_eq_2)
  then obtain d t where ok: "alloc 64 s = Ok (d, t)" using alloc_total [OF s, of 64] by auto
  obtain q where q: "even q" "alloc_block s d 1 = {q, q + 1}" by (rule alloc_pair [OF s _ _ ok]) simp_all
  have small: "unat (64 :: u64) \<le> 2 ^ 64 - 4096" by simp
  note a = alloc_Ok [OF s small ok one [symmetric]]
  let ?w = "\<lparr>vec_data = d, vec_length = 0, vec_capacity = 8\<rparr> :: vec"
  have "VECTOR_ENSURE_LENGTH v (vec_length v) s = Ok (?w, t)"
    using ok v by (simp add: VECTOR_ENSURE_LENGTH_def VECTOR_INITIALISER_def empty_vec_def realloc_def bind_Ok run_basic Let_def)
  moreover have "page_vec t ?w []" using a(3) by (simp add: page_vec_def vec_list_def word_array_def page_capacity_def)
  moreover have "vec_appended s v t ?w"
    using a(2,4,5,7) even_pairs_take [OF q(1) finite_free_pages [of s]] q(2) v
    by (simp add: vec_appended_def vec_pages_def VECTOR_INITIALISER_def empty_vec_def)
  ultimately show ?thesis using a(1) by auto
qed

lemma page_vec_double:
  assumes s: "pmm_ready s" "direct_map_ok s" and v: "page_vec s v xs" "vec_capacity v \<noteq> 0"
    and full: "vec_capacity v \<le> vec_length v" and room: "length xs < 512"
  shows "\<exists>w t. VECTOR_ENSURE_LENGTH v (vec_length v) s = Ok (w, t) \<and> pmm_ready t \<and> page_vec t w xs
    \<and> vec_length w = vec_length v \<and> vec_length w < vec_capacity w \<and> vec_appended s v t w"
proof -
  have live: "live_alloc s (vec_data v) 1 (vec_capacity v * 8)" "page_capacity (vec_capacity v)" "vec_length v \<le> vec_capacity v"
    using v by (auto elim: page_vec_cases)
  note len = page_vec_length [OF v(1)]
  let ?w = "v\<lparr>vec_capacity := vec_capacity v * 2\<rparr>" and ?sz = "vec_capacity v * 2 * 8"
  have lt: "unat (vec_capacity v) < 512" using full len(1) room by (simp add: word_le_nat_alt)
  note c = page_capacity_bounds(5) [OF live(2) lt]
  have sz: "unat ?sz = 8 * unat (vec_capacity v * 2)" by (rule page_capacity_bounds(1)) (use c in blast)
  have one: "DIV_ROUNDUP ?sz PAGE_SIZE = 1" by (rule one_page) (use sz c page_capacity_bounds(2,3) [of "vec_capacity v * 2"] in simp_all)
  have small: "unat ?sz \<le> 2 ^ 64 - 4096" using sz c lt by simp
  obtain t where t: "realloc (vec_data v) ?sz s = Ok (vec_data v, t)" "pmm_ready t" "alloc_frame s t"
    "live_alloc t (vec_data v) 1 ?sz" "free_pages t = free_pages s"
    and mem: "\<forall>x. \<not> in_region (vec_data v - PAGE_SIZE) 16 x \<longrightarrow> mem t x = mem s x"
    using realloc_same_pages [OF s(1) live(1) live_alloc_nonnull [OF s live(1)] one [symmetric] small] by blast
  have "VECTOR_ENSURE_LENGTH v (vec_length v) s = Ok (?w, t)"
    using VECTOR_ENSURE_LENGTH_grow [OF full] v(2) t(1) by (simp add: vec_grown_def bind_Ok run_basic)
  moreover have "vec_list t ?w = vec_list s v"
  proof -
    have "mem t x = mem s x" if "in_region (vec_data v) (8 * unat (vec_length v)) x" for x
    proof -
      have "in_region (vec_data v) (unat (vec_capacity v * 8)) x"
        using that live(3) page_capacity_bounds(1) [OF live(2)] by (simp add: in_region_def word_le_nat_alt)
      then show ?thesis using mem data_pages(2) [OF s(1) live(1)] by blast
    qed
    then show ?thesis unfolding vec_list_def by (simp, intro word_array_cong) (use len(1) room in simp_all)
  qed
  then have "page_vec t ?w xs" using t(4) c len(2) full live(3) lt by (simp add: page_vec_def word_le_nat_alt)
  moreover have "vec_appended s v t ?w"
    using t(3,5) mem header_pages [OF s(1) live(1)] vec_pages_busy(1) [OF v(1)] v(2) page_capacity_bounds(4) [of "vec_capacity v * 2"] c
    by (auto simp: vec_appended_def vec_pages_def)
  ultimately show ?thesis using t(2) c full live(3) lt page_capacity_bounds(2) [OF live(2)]
    by (intro exI [of _ ?w] exI [of _ t]) (auto simp: word_less_nat_alt word_le_nat_alt)
qed

text \<open>\<open>VECTOR_PUSH_BACK\<close> on a vector in one page.\<close>

lemma page_vec_push:
  assumes s: "pmm_ready s" "direct_map_ok s" and v: "page_vec s v xs" and room: "length xs < 512"
    and pair: "vec_capacity v = 0 \<Longrightarrow> 2 \<le> card (free_pairs s)"
  shows "\<exists>w t. VECTOR_PUSH_BACK v val s = Ok ((w, vec_length v), t) \<and> pmm_ready t \<and> page_vec t w (xs @ [val])
    \<and> vec_appended s v t w"
proof -
  have "\<exists>w t. VECTOR_ENSURE_LENGTH v (vec_length v) s = Ok (w, t) \<and> pmm_ready t \<and> page_vec t w xs
    \<and> vec_length w = vec_length v \<and> vec_length w < vec_capacity w \<and> vec_appended s v t w"
    using v
  proof (cases rule: page_vec_cases)
    case fresh
    then show ?thesis using page_vec_first [OF s(1) pair fresh(1)] by (auto simp: VECTOR_INITIALISER_def empty_vec_def)
  next
    case live
    show ?thesis
    proof (cases "vec_length v < vec_capacity v")
      case True
      then show ?thesis using s v vec_appended_refl [OF v live(5)] by (auto simp: VECTOR_ENSURE_LENGTH_def run_basic)
    next
      case False
      then show ?thesis using page_vec_double [OF s v live(5) _ room] by simp
    qed
  qed
  then obtain w u where e: "VECTOR_ENSURE_LENGTH v (vec_length v) s = Ok (w, u)" "pmm_ready u" "page_vec u w xs"
    "vec_length w = vec_length v" "vec_length w < vec_capacity w" "vec_appended s v u w" by blast
  have w: "live_alloc u (vec_data w) 1 (vec_capacity w * 8)" "page_capacity (vec_capacity w)" "vec_capacity w \<noteq> 0"
    "unat (vec_capacity w * 8) = 8 * unat (vec_capacity w)"
    using e(3,6) by (auto elim: page_vec_cases simp: vec_appended_def)
  let ?w = "w\<lparr>vec_length := vec_length w + 1\<rparr>"
  obtain m where m: "VECTOR_PUSH_BACK v val s = Ok ((?w, vec_length v), u\<lparr>mem := m\<rparr>)"
    "\<forall>x. \<not> in_region (vec_data w) (8 * unat (vec_capacity w)) x \<longrightarrow> m x = mem u x"
    "vec_list (u\<lparr>mem := m\<rparr>) ?w = vec_list u w @ [val]"
    "unat (vec_length w + 1) \<le> unat (vec_capacity w)"
    by (rule VECTOR_PUSH_BACK_store [OF e(1,2) page_vec_length(3) [OF e(3)] e(4,5)])
  have pg: "vec_pages s w = alloc_block u (vec_data w) 1" "alloc_frame s u"
    using w(3) e(6) alloc_frame_fields(2) [of s u] by (auto simp: vec_pages_def alloc_block_def vec_appended_def)
  note d = data_pages [OF e(2) w(1), unfolded w(4)]
  have out: "m x = mem u x" if "page_of u x \<notin> vec_pages s w" for x using m(2) d(1) that unfolding pg by blast
  have bm: "m x = mem u x" if "bitmap_byte u x" for x using out vec_pages_busy(2) [OF e(3) that] vec_pages_frame [OF pg(2)] by auto
  note upd = pmm_mem_update [of u m, OF bm] and fr = alloc_frame_mem_update [OF alloc_frame_refl, of u m]
  have "live_alloc (u\<lparr>mem := m\<rparr>) (vec_data w) 1 (vec_capacity w * 8)"
    by (rule live_alloc_kept [OF e(2) w(1) fr]) (use m(2) d(2) w(1) upd in \<open>auto simp: live_alloc_def\<close>)
  then have "page_vec (u\<lparr>mem := m\<rparr>) ?w (xs @ [val])"
    using m(3,4) page_vec_length(2) [OF e(3)] w(2) by (simp add: page_vec_def word_le_nat_alt)
  moreover have "vec_appended s v (u\<lparr>mem := m\<rparr>) ?w"
    using e(6) upd(1) out alloc_frame_mem_update [OF pg(2), of m] alloc_frame_fields(1) [OF pg(2)]
    by (auto simp: vec_appended_def vec_pages_def)
  ultimately show ?thesis using m(1) upd(2) e(2) by blast
qed

section \<open>Several vectors\<close>

text \<open>\<open>vec_family P n s K g f\<close>: for each \<open>k\<close> in \<open>K\<close> the vector \<open>g k\<close> holds \<open>f k\<close>. The vectors have pages of their
  own, there is a pair of free pages for each one that has none yet and \<open>n\<close> more, and the bytes \<open>P\<close> are in no page
  that appending may change.\<close>

definition vec_family :: "(u64 \<Rightarrow> bool) \<Rightarrow> nat \<Rightarrow> kernel \<Rightarrow> 'k set \<Rightarrow> ('k \<Rightarrow> vec) \<Rightarrow> ('k \<Rightarrow> u64 list) \<Rightarrow> bool" where
  "vec_family P n s K g f \<longleftrightarrow> finite K \<and> (\<forall>k \<in> K. page_vec s (g k) (f k))
     \<and> (\<forall>i \<in> K. \<forall>j \<in> K. i \<noteq> j \<longrightarrow> vec_pages s (g i) \<inter> vec_pages s (g j) = {})
     \<and> card {k \<in> K. vec_capacity (g k) = 0} + n \<le> card (free_pairs s)
     \<and> (\<forall>x. P x \<longrightarrow> \<not> bitmap_byte s x \<and> page_of s x \<notin> free_pages s \<and> (\<forall>k \<in> K. page_of s x \<notin> vec_pages s (g k)))"

lemma vec_family_pages:
  assumes "vec_family P n s K g f" and "k \<in> K" and "vec_pages s w \<subseteq> vec_pages s (g k) \<union> free_pages s"
  shows "P x \<Longrightarrow> page_of s x \<notin> vec_pages s w" and "j \<in> K \<Longrightarrow> j \<noteq> k \<Longrightarrow> vec_pages s (g j) \<inter> vec_pages s w = {}"
  using assms vec_pages_busy(1) [of s "g j" "f j"] unfolding vec_family_def by blast+

lemma vec_family_room:
  assumes "vec_family P n s K g f" and "k \<in> K" and "0 < n" and "vec_capacity (g k) = 0"
  shows "0 < card {j \<in> K. vec_capacity (g j) = 0}" and "2 \<le> card (free_pairs s)"
proof -
  have fin: "finite {j \<in> K. vec_capacity (g j) = 0}" using assms(1) by (simp add: vec_family_def)
  then show pos: "0 < card {j \<in> K. vec_capacity (g j) = 0}" using assms(2,4) by (auto simp: card_gt_0_iff)
  then show "2 \<le> card (free_pairs s)" using assms(1,3) by (simp add: vec_family_def)
qed

lemma vec_family_push:
  assumes s: "pmm_ready s" "direct_map_ok s" and fam: "vec_family P n s K g f" and k: "k \<in> K" and n: "0 < n" and room: "length (f k) < 512"
  shows "\<exists>w u. VECTOR_PUSH_BACK (g k) h s = Ok ((w, vec_length (g k)), u) \<and> pmm_ready u \<and> alloc_frame s u \<and> free_pages u \<subseteq> free_pages s
    \<and> vec_family P n u K (g(k := w)) (f(k := f k @ [h])) \<and> (\<forall>x. P x \<longrightarrow> mem u x = mem s x)"
proof -
  let ?E = "\<lambda>g. {j \<in> K. vec_capacity (g j) = (0 :: u64)}"
  have vecs: "j \<in> K \<Longrightarrow> page_vec s (g j) (f j)" and pairs: "card (?E g) + n \<le> card (free_pairs s)" "finite (?E g)" for j
    using fam by (simp_all add: vec_family_def)
  from page_vec_push [OF s vecs [OF k] room vec_family_room(2) [OF fam k n]] obtain w u where
    w: "VECTOR_PUSH_BACK (g k) h s = Ok ((w, vec_length (g k)), u)" "pmm_ready u" "page_vec u w (f k @ [h])" "vec_appended s (g k) u w" by blast
  have a: "alloc_frame s u" "vec_pages s w \<subseteq> vec_pages s (g k) \<union> free_pages s" "free_pages u = free_pages s - vec_pages s w"
    "card (free_pairs s) \<le> card (free_pairs u) + (if vec_capacity (g k) = 0 then 1 else 0)" "vec_capacity w \<noteq> 0"
    "\<And>x. \<not> bitmap_byte s x \<Longrightarrow> page_of s x \<notin> vec_pages s w \<Longrightarrow> mem u x = mem s x"
    using w(4) by (auto simp: vec_appended_def)
  note pg = vec_family_pages [OF fam k a(2)] and fr = alloc_frame_fields [OF a(1)] vec_pages_frame [OF a(1)]
  have keep: "mem u x = mem s x" if "P x" for x using fam pg(1) that by (intro a(6)) (auto simp: vec_family_def)
  have other: "page_vec u (g j) (f j)" if j: "j \<in> K" "j \<noteq> k" for j
    by (rule page_vec_kept [OF s(1) vecs [OF j(1)] a(1)]) (use a(3,6) vec_pages_busy [OF vecs [OF j(1)]] pg(2) [OF j] in blast)+
  have e: "?E (g(k := w)) = ?E g - {k}" using a(5) by auto
  have "card (?E (g(k := w))) + n \<le> card (free_pairs u)"
    unfolding e using pairs a(4) vec_family_room(1) [OF fam k n] k by (cases "vec_capacity (g k) = 0") auto
  moreover have "\<forall>i \<in> K. \<forall>j \<in> K. i \<noteq> j \<longrightarrow> vec_pages u ((g(k := w)) i) \<inter> vec_pages u ((g(k := w)) j) = {}"
    using fam pg(2) by (auto simp: fr vec_family_def)
  moreover have "\<not> bitmap_byte u x \<and> page_of u x \<notin> free_pages u \<and> (\<forall>j \<in> K. page_of u x \<notin> vec_pages u ((g(k := w)) j))" if "P x" for x
    using fam that pg(1) [OF that] a(3) by (auto simp: fr vec_family_def)
  moreover have "\<forall>j \<in> K. page_vec u ((g(k := w)) j) ((f(k := f k @ [h])) j)" using other w(3) by simp
  ultimately have "vec_family P n u K (g(k := w)) (f(k := f k @ [h]))" using fam by (simp add: vec_family_def)
  then show ?thesis using w(1,2) a(1,3) keep by blast
qed

end
