(* ===== verification/Madt.thy ===== *)
theory Madt
  imports Acpi_Tables Vector_Page
begin

text \<open>
  The interrupt controller table, \<open>kernel/src/acpi/madt.c\<close>: a list of entries of varying length,
  each collected, by its kind, in one of five vectors.
\<close>

section \<open>Definitions\<close>

definition sizeof_madt :: u64 where "sizeof_madt = 44"

definition push_header :: "(kernel \<Rightarrow> vec) \<Rightarrow> ((vec \<Rightarrow> vec) \<Rightarrow> kernel \<Rightarrow> kernel) \<Rightarrow> u64 \<Rightarrow> unit kprog" where
  "push_header get upd header =
     bind (gets get) (\<lambda>v.
     bind (VECTOR_PUSH_BACK v header) (\<lambda>(v', i).
     modify (upd (\<lambda>_. v'))))"

definition madt_collect :: "u8 \<Rightarrow> u64 \<Rightarrow> unit kprog" where
  "madt_collect ident header =
     (if ident = 0 then push_header madt_lapics madt_lapics_update header
      else if ident = 9 then
        bind (gets x2apic_mode) (\<lambda>x2.
        if x2 then push_header madt_x2apics madt_x2apics_update header else return ())
      else if ident = 1 then
        bind (gets madt_io_apics) (\<lambda>v.
        bind (printf ''madt: Found IO APIC #%lu'' [PInt (vec_length v)]) (\<lambda>_.
        push_header madt_io_apics madt_io_apics_update header))
      else if ident = 2 then
        bind (gets madt_isos) (\<lambda>v.
        bind (printf ''madt: Found ISO #%lu'' [PInt (vec_length v)]) (\<lambda>_.
        push_header madt_isos madt_isos_update header))
      else if ident = 4 then push_header madt_nmis madt_nmis_update header
      else return ())"

definition madt_step :: "u64 \<Rightarrow> u64 \<Rightarrow> u64 kprog" where
  "madt_step madt offset =
     (let header = madt + sizeof_madt + offset in
      bind (read8 header) (\<lambda>ident.
      bind (madt_collect ident header) (\<lambda>_.
      bind (read8 (header + 1)) (\<lambda>len.
      return (offset + ucast len)))))"

definition madt_init :: "unit kprog" where
  "madt_init =
     bind (acpi_find_sdt ''APIC'' 0) (\<lambda>madt.
     if madt = 0 then panic ''System does not have an MADT''
     else
       bind (whileM (\<lambda>offset s. \<not> ucast (load32 (mem s) (madt + 4)) \<le> offset + sizeof_madt) (madt_step madt) 0) (\<lambda>_.
       return ()))"

section \<open>Walking the entries\<close>

definition madt_length :: "kernel \<Rightarrow> u64 \<Rightarrow> u64" where
  "madt_length s madt = ucast (load32 (mem s) (madt + 4))"

abbreviation madt_walk :: "u64 \<Rightarrow> u64 \<Rightarrow> u64 kprog" where
  "madt_walk madt \<equiv> whileM (\<lambda>offset s. \<not> ucast (load32 (mem s) (madt + 4)) \<le> offset + sizeof_madt) (madt_step madt)"

text \<open>Kinds that are not collected.\<close>

definition ignored :: "kernel \<Rightarrow> u8 \<Rightarrow> bool" where
  "ignored s ident \<longleftrightarrow> ident \<notin> {0, 1, 2, 4, 9} \<or> ident = 9 \<and> \<not> x2apic_mode s"

lemma madt_collect_ignored: "ignored s ident \<Longrightarrow> madt_collect ident header s = Ok ((), s)"
  by (auto simp: ignored_def madt_collect_def run_basic)

lemma madt_step_ignored:
  assumes "ignored s (mem s (madt + 44 + off))"
  shows "madt_step madt off s = Ok (off + ucast (mem s (madt + 44 + off + 1)), s)"
  using madt_collect_ignored [OF assms, of "madt + 44 + off"]
  by (simp add: madt_step_def sizeof_madt_def access_defs bind_Ok Let_def run_basic)

section \<open>Collecting the entries\<close>

text \<open>The five vectors by the kind of entry they hold.\<close>

definition madt_kinds :: "u8 set" where
  "madt_kinds = {0, 1, 2, 4, 9}"

definition madt_vec :: "u8 \<Rightarrow> kernel \<Rightarrow> vec" where
  "madt_vec k s = (if k = 0 then madt_lapics s else if k = 9 then madt_x2apics s else if k = 1 then madt_io_apics s
     else if k = 2 then madt_isos s else madt_nmis s)"

definition madt_vec_update :: "u8 \<Rightarrow> (vec \<Rightarrow> vec) \<Rightarrow> kernel \<Rightarrow> kernel" where
  "madt_vec_update k = (if k = 0 then madt_lapics_update else if k = 9 then madt_x2apics_update else if k = 1 then madt_io_apics_update
     else if k = 2 then madt_isos_update else madt_nmis_update)"

lemma madt_vec_get_update:
  assumes "j \<in> madt_kinds" and "k \<in> madt_kinds"
  shows "madt_vec j (madt_vec_update k (\<lambda>_. w) s) = (if j = k then w else madt_vec j s)"
  using assms by (auto simp: madt_kinds_def madt_vec_def madt_vec_update_def)

lemma madt_vec_same:
  "vm_same s (madt_vec_update k f s)" "pagemap_lock (madt_vec_update k f s) = pagemap_lock s"
  "x2apic_mode (madt_vec_update k f s) = x2apic_mode s" "madt_vec k (s\<lparr>klog := l\<rparr>) = madt_vec k s"
  by (simp_all add: madt_vec_update_def madt_vec_def vm_same_def pagemap_lock_def)

lemma madt_collect_kind:
  assumes "\<not> ignored s k"
  obtains l where "madt_collect k h s = push_header (madt_vec k) (madt_vec_update k) h (s\<lparr>klog := l\<rparr>)"
proof (cases "k = 1 \<or> k = 2")
  case True
  then show thesis
    using that by (auto simp: madt_collect_def madt_vec_def [abs_def] madt_vec_update_def [abs_def] run_basic)
next
  case False
  then have "madt_collect k h s = push_header (madt_vec k) (madt_vec_update k) h (s\<lparr>klog := klog s\<rparr>)"
    using assms by (auto simp: ignored_def madt_collect_def madt_vec_def [abs_def] madt_vec_update_def [abs_def] run_basic)
  then show thesis by (rule that)
qed

text \<open>\<open>madt_state n T P s f\<close>: the page tables \<open>T\<close> are in place, the vector of each kind \<open>k\<close> holds \<open>f k\<close>, and
  collecting another entry keeps the bytes \<open>P\<close>, those of the page tables among them.\<close>

definition madt_state :: "nat \<Rightarrow> tables \<Rightarrow> (u64 \<Rightarrow> bool) \<Rightarrow> kernel \<Rightarrow> (u8 \<Rightarrow> u64 list) \<Rightarrow> bool" where
  "madt_state n T P s f \<longleftrightarrow> pt_inv s T \<and> \<not> pagemap_lock s \<and> direct_map_ok s
     \<and> vec_family P n s madt_kinds (\<lambda>k. madt_vec k s) f \<and> (\<forall>x. page_of s x \<in> ran T \<longrightarrow> P x)"

lemma vec_family_same:
  assumes "vm_same s t"
  shows "vec_family P n t K g f = vec_family P n s K g f" and "direct_map_ok t = direct_map_ok s"
  using page_vec_mem [of t s] vm_same_cong(1-3) [OF assms] assms by (auto simp: vm_same_def direct_map_ok_def vec_family_def)

lemma vec_family_cong: "(\<And>k. k \<in> K \<Longrightarrow> g k = g' k) \<Longrightarrow> vec_family P n s K g f = vec_family P n s K g' f"
proof -
  assume g: "\<And>k. k \<in> K \<Longrightarrow> g k = g' k"
  then have "{k \<in> K. vec_capacity (g k) = 0} = {k \<in> K. vec_capacity (g' k) = 0}" by auto
  then show ?thesis using g by (simp add: vec_family_def)
qed

lemma madt_state_klog: "madt_state n T P (s\<lparr>klog := l\<rparr>) f = madt_state n T P s f"
  using vm_same_cong [OF vm_same_locks(3) [of s l]]
  by (simp add: madt_state_def madt_vec_same pagemap_lock_def vec_family_same [OF vm_same_locks(3)])

text \<open>What collecting an entry leaves alone.\<close>

definition collects :: "(u64 \<Rightarrow> bool) \<Rightarrow> kernel \<Rightarrow> kernel \<Rightarrow> bool" where
  "collects P s t \<longleftrightarrow> (\<forall>x. P x \<longrightarrow> mem t x = mem s x) \<and> x2apic_mode t = x2apic_mode s \<and> hhdm t = hhdm s \<and> pmm_bitmap t = pmm_bitmap s
     \<and> pmm_avl_page_count t = pmm_avl_page_count s \<and> rsdp t = rsdp s \<and> rsdt t = rsdt s \<and> device t = device s
     \<and> dev_trace t = dev_trace s \<and> pagemap_lock t = pagemap_lock s \<and> free_pages t \<subseteq> free_pages s"

lemma collects_trans: "collects P s t \<Longrightarrow> collects P t u \<Longrightarrow> collects P s u"
  by (auto simp: collects_def)

lemma collects_klog: "collects P (s\<lparr>klog := l\<rparr>) t = collects P s t"
  using vm_same_cong(3) [OF vm_same_locks(3) [of s l]] by (simp add: collects_def pagemap_lock_def)

lemma collects_append:
  assumes "alloc_frame s u" and "free_pages u \<subseteq> free_pages s" and "\<forall>x. P x \<longrightarrow> mem u x = mem s x"
  shows "collects P s (madt_vec_update k f u)"
proof -
  obtain i m where u: "u = s\<lparr>pmm_last_used_index := i, mem := m\<rparr>" using assms(1) by (auto simp: alloc_frame_def)
  show ?thesis
    using assms(2,3) vm_same_cong(3) [OF madt_vec_same(1) [of u k f]]
    by (simp add: collects_def) (simp add: u madt_vec_update_def pagemap_lock_def)
qed

lemma madt_push:
  assumes st: "madt_state n T P s f" and n: "0 < n" and k: "k \<in> madt_kinds" and room: "length (f k) < 512"
  shows "\<exists>t. push_header (madt_vec k) (madt_vec_update k) h s = Ok ((), t) \<and> madt_state n T P t (f(k := f k @ [h]))
    \<and> collects P s t"
proof -
  let ?g = "\<lambda>k. madt_vec k s"
  have s: "pt_inv s T" "direct_map_ok s" "\<not> pagemap_lock s" "vec_family P n s madt_kinds ?g f"
    and tab: "page_of s x \<in> ran T \<Longrightarrow> P x" for x
    using st by (auto simp: madt_state_def)
  from vec_family_push [OF pt_invD(1) [OF s(1)] s(2,4) k n room, of h] obtain w u where
    w: "VECTOR_PUSH_BACK (madt_vec k s) h s = Ok ((w, vec_length (madt_vec k s)), u)" "pmm_ready u" "alloc_frame s u"
    "free_pages u \<subseteq> free_pages s" "vec_family P n u madt_kinds (?g(k := w)) (f(k := f k @ [h]))" "\<forall>x. P x \<longrightarrow> mem u x = mem s x" by blast
  have inv: "pt_inv u T" by (rule pt_inv_frame(1) [OF s(1) w(3,2,4)]) (use w(6) tab in blast)
  have g: "madt_vec j u = madt_vec j s" "pagemap_lock u = pagemap_lock s" "madt_vec j u = madt_vec j s" for j
    using w(3) by (auto simp: alloc_frame_def madt_vec_def pagemap_lock_def)
  let ?t = "madt_vec_update k (\<lambda>_. w) u"
  have run: "push_header (madt_vec k) (madt_vec_update k) h s = Ok ((), ?t)"
    using w(1) by (simp add: push_header_def bind_Ok run_basic)
  have sm: "vm_same u ?t" "pagemap_lock ?t = pagemap_lock s" using g madt_vec_same by auto
  note c = vm_same_cong [OF sm(1)] vec_family_same [OF sm(1)]
  have "vec_family P n ?t madt_kinds (\<lambda>j. madt_vec j ?t) (f(k := f k @ [h])) = vec_family P n u madt_kinds (?g(k := w)) (f(k := f k @ [h]))"
    unfolding c(7) by (rule vec_family_cong) (simp add: madt_vec_get_update [OF _ k] g)
  then have "madt_state n T P ?t (f(k := f k @ [h]))"
    using inv c(1,5,8) alloc_frame_fields(1) [OF w(3)] sm(2) s(2,3) tab w(5) direct_map_frame [OF w(3)] by (simp add: madt_state_def)
  then show ?thesis using run collects_append [OF w(3,4,6)] by blast
qed

lemma madt_collect_Ok:
  assumes st: "madt_state n T P s f" and n: "0 < n" and room: "k \<in> madt_kinds \<Longrightarrow> length (f k) < 512"
  shows "\<exists>t. madt_collect k h s = Ok ((), t) \<and> madt_state n T P t (\<lambda>j. f j @ (if j = k \<and> \<not> ignored s k then [h] else []))
    \<and> collects P s t"
proof (cases "ignored s k")
  case True
  then show ?thesis using madt_collect_ignored [OF True] st by (simp add: collects_def)
next
  case False
  then have k: "k \<in> madt_kinds" by (auto simp: ignored_def madt_kinds_def)
  obtain l where l: "madt_collect k h s = push_header (madt_vec k) (madt_vec_update k) h (s\<lparr>klog := l\<rparr>)"
    by (rule madt_collect_kind [OF False])
  have "f(k := f k @ [h]) = (\<lambda>j. f j @ (if j = k \<and> \<not> ignored s k then [h] else []))" using False by auto
  then show ?thesis using madt_push [of n T P "s\<lparr>klog := l\<rparr>" f k h] madt_state_klog collects_klog st n k room l by auto
qed

section \<open>The whole table\<close>

text \<open>\<open>madt_layout m a n es\<close>: the \<open>n\<close> bytes from \<open>a\<close> are filled by entries at the addresses \<open>es\<close>, each at
  least as long as its two-byte header.\<close>

fun madt_layout :: "memory \<Rightarrow> u64 \<Rightarrow> nat \<Rightarrow> u64 list \<Rightarrow> bool" where
  "madt_layout m a n [] \<longleftrightarrow> n = 0"
| "madt_layout m a n (e # es) \<longleftrightarrow> e = a \<and> 2 \<le> unat (m (a + 1)) \<and> unat (m (a + 1)) \<le> n
     \<and> madt_layout m (a + ucast (m (a + 1))) (n - unat (m (a + 1))) es"

definition madt_entries :: "memory \<Rightarrow> u8 \<Rightarrow> u64 list \<Rightarrow> u64 list" where
  "madt_entries m k es = filter (\<lambda>e. m e = k) es"

lemma madt_layout_kept:
  assumes "madt_layout m a n es" and same: "\<forall>x. in_region b L x \<longrightarrow> m' x = m x" and "unat (a - b) + n \<le> L" and L: "L < 2 ^ 32"
  shows "madt_layout m' a n es" and "madt_entries m' k es = madt_entries m k es"
proof -
  have "madt_layout m' a n es \<and> madt_entries m' k es = madt_entries m k es"
    using assms(1,3)
  proof (induction es arbitrary: a n)
    case (Cons e es)
    have lay: "e = a" "2 \<le> unat (m (a + 1))" "unat (m (a + 1)) \<le> n" "madt_layout m (a + ucast (m (a + 1))) (n - unat (m (a + 1))) es"
      using Cons.prems(1) by simp_all
    have u: "unat (a + w - b) = unat (a - b) + unat w" if "unat w \<le> n" for w
    proof -
      have "a + w - b = (a - b) + w" by simp
      then show ?thesis using that Cons.prems(2) L by (simp only:) (intro unat_add_lem [THEN iffD1], simp)
    qed
    have "in_region b L a" "in_region b L (a + 1)" using Cons.prems(2) lay(2,3) u [of 1] by (simp_all add: in_region_def)
    then have m: "m' a = m a" "m' (a + 1) = m (a + 1)" using same by simp_all
    have "unat (ucast (m (a + 1)) :: u64) = unat (m (a + 1))" using unsigned_less [of "m (a + 1)", where ?'a = nat]
      by (simp add: unsigned_ucast_eq take_bit_nat_eq_self)
    then have "unat (a + ucast (m (a + 1)) - b) + (n - unat (m (a + 1))) \<le> L"
      using u [of "ucast (m (a + 1))"] lay(3) Cons.prems(2) by simp
    from Cons.IH [OF lay(4) this] show ?case using lay m by (simp add: madt_entries_def)
  qed (simp add: madt_entries_def)
  then show "madt_layout m' a n es" "madt_entries m' k es = madt_entries m k es" by simp_all
qed

text \<open>One entry, whose header lies at offset \<open>off\<close>.\<close>

lemma madt_step_Ok:
  assumes st: "madt_state n T P s f" and n: "0 < n" and P: "P (madt + 44 + off)" "P (madt + 44 + off + 1)" and k: "k = mem s (madt + 44 + off)"
    and room: "k \<in> madt_kinds \<Longrightarrow> length (f k) < 512"
  shows "\<exists>t. madt_step madt off s = Ok (off + ucast (mem s (madt + 44 + off + 1)), t)
    \<and> madt_state n T P t (\<lambda>j. f j @ (if j = k \<and> \<not> ignored s k then [madt + 44 + off] else []))
    \<and> collects P s t"
proof -
  obtain t where t: "madt_collect k (madt + 44 + off) s = Ok ((), t)"
    "madt_state n T P t (\<lambda>j. f j @ (if j = k \<and> \<not> ignored s k then [madt + 44 + off] else []))"
    "collects P s t"
    using madt_collect_Ok [OF st n room] by blast
  have "madt_step madt off s = Ok (off + ucast (mem s (madt + 44 + off + 1)), t)"
    using t(1,3) P(2) k by (simp add: collects_def madt_step_def sizeof_madt_def access_defs bind_Ok Let_def run_basic)
  then show ?thesis using t by blast
qed

lemma offset_in_table:
  assumes "unat off + 44 + n \<le> L" and "L < 2 ^ 32" and "0 < n"
  shows "in_region madt L (madt + 44 + off)" and "1 < n \<Longrightarrow> in_region madt L (madt + 44 + off + 1)"
    and "unat (off + 44) = unat off + 44"
proof -
  have u: "unat (44 + off) = unat off + 44" "1 < n \<Longrightarrow> unat (44 + off + 1) = unat off + 45"
    using assms by (simp_all add: unat_word_ariths)
  show "unat (off + 44) = unat off + 44" using u(1) by (simp add: add.commute)
  show "in_region madt L (madt + 44 + off)" using u(1) assms by (simp add: in_region_def)
  have eq: "madt + 44 + off + 1 - madt = 44 + off + 1" by simp
  show "in_region madt L (madt + 44 + off + 1)" if "1 < n" unfolding in_region_def eq using u(2) assms that by simp
qed

lemma madt_walk_Ok:
  assumes "madt_state n T P s f" and "madt_layout m (madt + 44 + off) (L - (unat off + 44)) es" and "unat off + 44 \<le> L"
    and L: "L = unat (ucast (load32 m (madt + 4)) :: u64)" "L < 2 ^ 32" and P: "\<forall>x. in_region madt L x \<longrightarrow> P x"
    and "\<forall>x. in_region madt L x \<longrightarrow> mem s x = m x" and "\<forall>k \<in> madt_kinds. length (f k) + length (madt_entries m k es) \<le> 512" and n: "0 < n"
  shows "\<exists>off' t. madt_walk madt off s = Ok (off', t) \<and> collects P s t
    \<and> madt_state n T P t (\<lambda>k. f k @ (if ignored s k then [] else madt_entries m k es))"
  using assms(1-3,7,8)
proof (induction es arbitrary: s f off)
  case (Cons e es)
  let ?h = "madt + 44 + off" and ?n = "L - (unat off + 44)"
  let ?k = "m ?h" and ?len = "m (?h + 1)" and ?off = "off + ucast (m (?h + 1))"
  have lay: "e = ?h" "2 \<le> unat ?len" "unat ?len \<le> ?n" "madt_layout m (?h + ucast ?len) (?n - unat ?len) es" using Cons.prems(2) by auto
  have "unat off + 44 + ?n \<le> L" "0 < ?n" "1 < ?n" using Cons.prems(3) lay(2,3) by simp_all
  note o = offset_in_table(1) [OF this(1) L(2) this(2), of madt] offset_in_table(2) [OF this(1) L(2) this(2,3), of madt] offset_in_table(3) [OF this(1) L(2) this(2)]
  have P': "P ?h" "P (?h + 1)" using P o by blast+
  have "load32 (mem s) (madt + 4) = load32 m (madt + 4)"
    by (rule load_le_part [of madt L]) (use P Cons.prems(4) L(2) lay(2,3) in auto)
  then have go: "\<not> ucast (load32 (mem s) (madt + 4)) \<le> off + sizeof_madt"
    using L o(3) lay(2,3) by (simp add: word_le_nat_alt sizeof_madt_def)
  have room: "?k \<in> madt_kinds \<Longrightarrow> length (f ?k) < 512" using Cons.prems(5) lay(1) by (fastforce simp: madt_entries_def)
  let ?f = "\<lambda>j. f j @ (if j = ?k \<and> \<not> ignored s ?k then [?h] else [])"
  obtain t where t: "madt_step madt off s = Ok (?off, t)" "madt_state n T P t ?f" "collects P s t"
    using madt_step_Ok [OF Cons.prems(1) n P' refl] room Cons.prems(4) P o by auto
  have ign: "ignored t = ignored s" and tm: "\<forall>x. in_region madt L x \<longrightarrow> mem t x = m x"
    using t(3) P Cons.prems(4) by (auto simp: collects_def ignored_def fun_eq_iff)
  have uoff: "unat ?off = unat off + unat ?len"
    using lay(2,3) L(2) by (subst unat_add_lem [THEN iffD1]) (simp_all add: unsigned_ucast_eq take_bit_nat_eq_self)
  have "length (?f k) + length (madt_entries m k es) \<le> length (f k) + length (madt_entries m k (e # es))" for k
    using lay(1) by (simp add: madt_entries_def)
  then have "\<forall>k \<in> madt_kinds. length (?f k) + length (madt_entries m k es) \<le> 512" using Cons.prems(5) le_trans by blast
  moreover have "madt_layout m (madt + 44 + ?off) (L - (unat ?off + 44)) es" "unat ?off + 44 \<le> L"
    using lay(2-4) uoff by (simp_all add: add.assoc add.commute add.left_commute)
  ultimately obtain off' u where u: "madt_walk madt ?off t = Ok (off', u)"
    "collects P t u" "madt_state n T P u (\<lambda>k. ?f k @ (if ignored s k then [] else madt_entries m k es))"
    using Cons.IH [OF t(2) _ _ tm, of ?off, unfolded ign] by blast
  have "(\<lambda>k. ?f k @ (if ignored s k then [] else madt_entries m k es)) = (\<lambda>k. f k @ (if ignored s k then [] else madt_entries m k (e # es)))"
    using lay(1) by (auto simp: madt_entries_def)
  then show ?case using u t(1) go collects_trans [OF t(3) u(2)] by (subst whileM_unfold) (auto simp: bind_Ok)
next
  case Nil
  then have "L = unat off + 44" by simp
  then have "unat (off + 44) = L" using L(2) by (subst unat_add_lem [THEN iffD1]) simp_all
  moreover have "load32 (mem s) (madt + 4) = load32 m (madt + 4)"
    by (rule load_le_part [of madt L]) (use P Nil L(2) in auto)
  ultimately have "ucast (load32 (mem s) (madt + 4)) \<le> off + sizeof_madt"
    using L by (simp add: word_le_nat_alt sizeof_madt_def)
  moreover have "(\<lambda>k. f k @ (if ignored s k then [] else madt_entries m k [])) = f" by (auto simp: madt_entries_def)
  ultimately show ?case using Nil by (subst whileM_unfold) (auto simp: collects_def)
qed

text \<open>A machine with an interrupt controller table at \<open>p\<close> with the entries \<open>es\<close>, no more than 512 of a kind:
  page tables and firmware tables in place, empty vectors, and pairs of free pages for the page tables, the vectors
  and \<open>n\<close> more.\<close>

definition madt_table :: "kernel \<Rightarrow> tables \<Rightarrow> u64 \<Rightarrow> u64 list \<Rightarrow> bool" where
  "madt_table s T p es \<longleftrightarrow> found_sdt s ''APIC'' 0 = Some p \<and> p \<noteq> 0 \<and> 44 \<le> madt_length s p
     \<and> madt_layout (mem s) (p + 44) (unat (madt_length s p) - 44) es
     \<and> (\<forall>k \<in> madt_kinds. length (madt_entries (mem s) k es) \<le> 512)
     \<and> (\<forall>x. in_region p (unat (madt_length s p)) x \<longrightarrow> page_of s x \<notin> ran T \<and> page_of s x \<notin> free_pages s \<and> \<not> bitmap_byte s x)"

definition madt_present :: "nat \<Rightarrow> kernel \<Rightarrow> tables \<Rightarrow> u64 \<Rightarrow> u64 list \<Rightarrow> bool" where
  "madt_present n s T p es \<longleftrightarrow> pt_inv s T \<and> \<not> pagemap_lock s \<and> direct_map_ok s \<and> acpi_ok s T \<and> madt_table s T p es
     \<and> (\<forall>k \<in> madt_kinds. madt_vec k s = VECTOR_INITIALISER) \<and> 0 < n
     \<and> 8 * sdt_count s + found_cost s (Some p) + 5 + n \<le> card (free_pairs s)"

text \<open>After the table is found, no vector will touch a byte in a page that is in use.\<close>

lemma madt_found:
  assumes pr: "madt_present n s T p es" and P: "P = (\<lambda>x. page_of s x \<notin> free_pages t \<and> \<not> bitmap_byte s x)"
    and v: "vm_logged (8 * sdt_count s + found_cost s (Some p)) s T t T' q"
  shows "madt_state n T' P t (\<lambda>_. [])"
proof -
  let ?k = "8 * sdt_count s + found_cost s (Some p)"
  note f = vm_logged_fields [OF v] and fw = vm_logged_fw [OF v]
  obtain i m l where t: "t = s\<lparr>pmm_last_used_index := i, mem := m, klog := l\<rparr>" using vm_logged_state(4) [OF v] by blast
  have free: "free_pages t \<subseteq> free_pages s" using fw by (simp add: fw_step_def)
  have g: "page_of t = page_of s" "bitmap_byte t = bitmap_byte s" "madt_vec k t = madt_vec k s" "direct_map_ok t = direct_map_ok s" for k
    unfolding t by (auto simp: page_of_def bitmap_byte_def madt_vec_def direct_map_ok_def fun_eq_iff)
  have d: "\<not> pagemap_lock s" "direct_map_ok s" "?k + 5 + n \<le> card (free_pairs s)" "\<forall>k \<in> madt_kinds. madt_vec k s = VECTOR_INITIALISER"
    using pr by (auto simp: madt_present_def)
  have own: "P x" if x: "page_of s x \<in> ran T'" for x
  proof -
    have o: "own_page t (page_of t x)" using x pt_invD(6) [OF f(1)] g(1) by (auto simp: ran_def)
    then show ?thesis using g by (auto simp: own_page_def P)
  qed
  have "card {k \<in> madt_kinds. vec_capacity (madt_vec k t) = 0} \<le> card madt_kinds" by (rule card_mono) (auto simp: madt_kinds_def)
  also have "\<dots> \<le> 5" by (simp add: madt_kinds_def)
  finally have "card {k \<in> madt_kinds. vec_capacity (madt_vec k t) = 0} + n \<le> card (free_pairs t)"
    using even_pairs_shrink [OF finite_free_pages free f(4)] d(3) by simp
  then have "vec_family P n t madt_kinds (\<lambda>k. madt_vec k t) (\<lambda>_. [])"
    using d(4) by (auto simp: vec_family_def madt_kinds_def g page_vec_def vec_pages_def VECTOR_INITIALISER_def empty_vec_def P)
  then show "madt_state n T' P t (\<lambda>_. [])" using f(1,3) d(1,2) g own by (simp add: madt_state_def)
qed

text \<open>The vectors hold what \<open>f\<close> says, outside the pages of the page tables, with \<open>n\<close> pairs of pages still free.\<close>

definition madt_done :: "nat \<Rightarrow> kernel \<Rightarrow> tables \<Rightarrow> (u8 \<Rightarrow> u64 list) \<Rightarrow> bool" where
  "madt_done n s T f \<longleftrightarrow> direct_map_ok s \<and> n \<le> card (free_pairs s)
     \<and> (\<forall>k \<in> madt_kinds. page_vec s (madt_vec k s) (f k) \<and> vec_pages s (madt_vec k s) \<inter> ran T = {})"

definition madt_lists :: "kernel \<Rightarrow> u64 list \<Rightarrow> u8 \<Rightarrow> u64 list" where
  "madt_lists s es k = (if ignored s k then [] else madt_entries (mem s) k es)"

lemma madt_state_done:
  assumes "madt_state n T P s f"
  shows "madt_done n s T f"
proof -
  have inv: "pt_inv s T" and fam: "vec_family P n s madt_kinds (\<lambda>k. madt_vec k s) f" and P: "page_of s x \<in> ran T \<Longrightarrow> P x" for x
    using assms by (auto simp: madt_state_def)
  have "p \<notin> vec_pages s (madt_vec k s)" if p: "p \<in> ran T" and k: "k \<in> madt_kinds" for p k
  proof -
    have "own_page s p" using p pt_invD(6) [OF inv] by (auto simp: ran_def)
    then have "p < 2 ^ 52" using pmm_wf_bound [of s] pt_invD(1) [OF inv] by (simp add: own_page_def pmm_ready_def)
    then have "page_of s (hhdm s + of_nat p * PAGE_SIZE) = p" using unat_page_addr [of p] by (simp add: page_of_def)
    then show ?thesis using P fam p k unfolding vec_family_def by metis
  qed
  then show ?thesis using assms by (auto simp: madt_done_def madt_state_def vec_family_def)
qed

lemma madt_init_Ok:
  assumes pr: "madt_present n s T p es"
  shows "\<exists>t T'. madt_init s = Ok ((), t) \<and> fw_step s T t T' \<and> madt_done n t T' (madt_lists s es)"
proof -
  let ?L = "unat (madt_length s p)" and ?r = "8 * sdt_count s + found_cost s (Some p)"
  have d: "pt_inv s T" "\<not> pagemap_lock s" "acpi_ok s T" "Some p = found_sdt s ''APIC'' (unat 0)" "p \<noteq> 0" "44 \<le> ?L"
    "madt_layout (mem s) (p + 44) (?L - 44) es" "\<forall>k \<in> madt_kinds. length (madt_entries (mem s) k es) \<le> 512" "?r + 5 + n \<le> card (free_pairs s)" "0 < n"
    and safe: "in_region p ?L x \<Longrightarrow> page_of s x \<notin> ran T \<and> page_of s x \<notin> free_pages s \<and> \<not> bitmap_byte s x" for x
    using pr by (auto simp: madt_present_def madt_table_def word_le_nat_alt)
  have "?r \<le> card (free_pages s)" using d(9) card_mono [OF finite_free_pages even_pairs_sub, of s] by simp
  from acpi_find_sdt_Ok [OF d(1-4) this] obtain u T' q where
    u: "acpi_find_sdt ''APIC'' 0 s = Ok (p, u)" "vm_logged ?r s T u T' q" by auto
  note fw = vm_logged_fw [OF u(2)]
  have fwd: "free_pages u \<subseteq> free_pages s" "vm_frame s T u" "x2apic_mode u = x2apic_mode s" using fw by (simp_all add: fw_step_def)
  define P where "P = (\<lambda>x. page_of s x \<notin> free_pages u \<and> \<not> bitmap_byte s x)"
  have P: "\<forall>x. in_region p ?L x \<longrightarrow> P x" "\<forall>x. in_region p ?L x \<longrightarrow> mem u x = mem s x"
    using safe fwd unfolding P_def vm_frame_def by blast+
  have L: "?L = unat (ucast (load32 (mem s) (p + 4)) :: u64)" "?L < 2 ^ 32"
    using sdt_length_small [of s p] by (simp_all add: madt_length_def sdt_length_def)
  have ign: "ignored u = ignored s" by (simp add: ignored_def fwd(3) fun_eq_iff)
  have lay: "madt_layout (mem s) (p + 44 + 0) (?L - (unat (0 :: u64) + 44)) es" "unat (0 :: u64) + 44 \<le> ?L" using d(6,7) by simp_all
  have room: "\<forall>k \<in> madt_kinds. length ([] :: u64 list) + length (madt_entries (mem s) k es) \<le> 512" using d(8) by simp
  from madt_walk_Ok [OF madt_found [OF pr P_def u(2)] lay L P room d(10)] obtain off t where
    t: "madt_walk p 0 u = Ok (off, t)" "collects P u t" "madt_state n T' P t (madt_lists s es)"
    unfolding ign madt_lists_def [abs_def] by auto
  have "vm_frame u T' t" using t(2) unfolding vm_frame_def fw_step_pages [OF fw] P_def collects_def by blast
  then have "fw_step u T' t T'" using t(2,3) by (simp add: fw_step_def collects_def madt_state_def)
  moreover have "madt_init s = Ok ((), t)" using u(1) t(1) d(5) by (simp add: madt_init_def bind_Ok run_basic)
  ultimately show ?thesis using fw_step_trans [OF fw] madt_state_done [OF t(3)] by blast
qed

lemma madt_done_lists:
  assumes "\<forall>k \<in> madt_kinds. page_vec t (madt_vec k t) (madt_lists s es k)"
  shows "vec_list t (madt_lapics t) = madt_entries (mem s) 0 es" "vec_list t (madt_io_apics t) = madt_entries (mem s) 1 es"
    "vec_list t (madt_isos t) = madt_entries (mem s) 2 es" "vec_list t (madt_nmis t) = madt_entries (mem s) 4 es"
    "vec_list t (madt_x2apics t) = (if x2apic_mode s then madt_entries (mem s) 9 es else [])"
    "\<forall>k \<in> madt_kinds. vec_wf t (madt_vec k t)"
proof -
  have v: "page_vec t (madt_vec k t) (madt_lists s es k)" if "k \<in> madt_kinds" for k using assms that by simp
  note l = page_vec_length(2) [OF v]
  show "vec_list t (madt_lapics t) = madt_entries (mem s) 0 es" "vec_list t (madt_io_apics t) = madt_entries (mem s) 1 es"
    "vec_list t (madt_isos t) = madt_entries (mem s) 2 es" "vec_list t (madt_nmis t) = madt_entries (mem s) 4 es"
    "vec_list t (madt_x2apics t) = (if x2apic_mode s then madt_entries (mem s) 9 es else [])"
    using l [of 0] l [of 1] l [of 2] l [of 4] l [of 9] by (simp_all add: madt_kinds_def madt_vec_def ignored_def madt_lists_def)
  show "\<forall>k \<in> madt_kinds. vec_wf t (madt_vec k t)" using page_vec_length(3) [OF v] by blast
qed

text \<open>Reading other firmware tables before or after changes neither the table nor the vectors.\<close>

lemma madt_table_kept:
  assumes ok: "acpi_ok s T" and fw: "fw_step s T t T'" and tab: "madt_table s T p es"
  shows "madt_table t T' p es" and "madt_entries (mem t) k es = madt_entries (mem s) k es"
proof -
  let ?L = "unat (madt_length s p)"
  have d: "found_sdt s ''APIC'' 0 = Some p" "p \<noteq> 0" "44 \<le> ?L" "madt_layout (mem s) (p + 44) (?L - 44) es"
    "\<forall>k \<in> madt_kinds. length (madt_entries (mem s) k es) \<le> 512"
    and safe: "\<forall>x. in_region p ?L x \<longrightarrow> page_of s x \<notin> ran T \<and> page_of s x \<notin> free_pages s \<and> \<not> bitmap_byte s x"
    using tab by (auto simp: madt_table_def word_le_nat_alt)
  have f: "free_pages t \<subseteq> free_pages s" "ran T' \<subseteq> ran T \<union> free_pages s" and same: "\<forall>x. in_region p ?L x \<longrightarrow> mem t x = mem s x"
    using fw safe by (auto simp: fw_step_def vm_frame_def)
  have L: "?L < 2 ^ 32" using sdt_length_small [of s p] by (simp add: madt_length_def sdt_length_def)
  have "load32 (mem t) (p + 4) = load32 (mem s) (p + 4)" by (rule load_le_part [OF same]) (use d(3) L in simp_all)
  then have len: "madt_length t p = madt_length s p" by (simp add: madt_length_def)
  have "p + 44 - p = 44" by simp
  then have u: "unat (p + 44 - p) + (?L - 44) \<le> ?L" using d(3) by (simp only: unat_numeral) simp
  note k = madt_layout_kept [OF d(4) same u] and L
  have "page_of t x \<notin> ran T' \<and> page_of t x \<notin> free_pages t \<and> \<not> bitmap_byte t x" if "in_region p ?L x" for x
    using safe that f unfolding fw_step_pages [OF fw] by blast
  moreover have "madt_entries (mem t) k es = madt_entries (mem s) k es" for k using k L by simp
  ultimately show "madt_table t T' p es" "madt_entries (mem t) k es = madt_entries (mem s) k es"
    using tab k L len by (simp_all add: madt_table_def found_kept(1) [OF ok fw])
qed

lemma page_vec_fw:
  assumes s: "pmm_ready s" and v: "page_vec s v xs" and fw: "fw_step s T t T'" and out: "vec_pages s v \<inter> ran T = {}"
  shows "page_vec t v xs" and "vec_pages t v = vec_pages s v"
proof -
  let ?u = "s\<lparr>pmm_last_used_index := pmm_last_used_index t, mem := mem t\<rparr>"
  have f: "hhdm t = hhdm s" "pmm_bitmap t = pmm_bitmap s" "pmm_avl_page_count t = pmm_avl_page_count s" "free_pages t \<subseteq> free_pages s" "vm_frame s T t"
    using fw by (simp_all add: fw_step_def)
  have fr: "alloc_frame s ?u" unfolding alloc_frame_def by blast
  have fp: "free_pages t = free_pages ?u" by (simp add: free_pages_def page_free_def f)
  note c = page_vec_mem [of t ?u, OF _ _ _ fp] and pg = fw_step_pages [OF fw] alloc_frame_fields [OF fr]
  note busy = vec_pages_busy [OF v]
  have "page_vec ?u v xs"
  proof (rule page_vec_kept [OF s v fr])
    show "vec_pages s v \<inter> free_pages ?u = {}" using busy(1) f(4) fp by blast
    show "mem ?u x = mem s x" if "page_of s x \<in> vec_pages s v" for x
      using that out busy f(5) unfolding vm_frame_def by (simp, blast)
  qed
  then show "page_vec t v xs" using c pg f by simp
  show "vec_pages t v = vec_pages s v" using c(2) pg f vec_pages_frame [OF fr] by simp
qed

text \<open>C26: On a machine with a well-formed interrupt controller table \<open>madt_init\<close> returns, and the five
  vectors hold, in the order of the table, the addresses of the entries of their kinds (those of kind 9 only in
  x2APIC mode); each is a well-formed vector, the table is unchanged and the page tables are intact.\<close>

theorem madt_init_correct:
  assumes "madt_present n s T p es"
  shows "\<exists>t T'. madt_init s = Ok ((), t) \<and> pt_inv t T' \<and> \<not> pagemap_lock t
    \<and> vec_list t (madt_lapics t) = madt_entries (mem s) 0 es
    \<and> vec_list t (madt_x2apics t) = (if x2apic_mode s then madt_entries (mem s) 9 es else [])
    \<and> vec_list t (madt_io_apics t) = madt_entries (mem s) 1 es
    \<and> vec_list t (madt_isos t) = madt_entries (mem s) 2 es
    \<and> vec_list t (madt_nmis t) = madt_entries (mem s) 4 es
    \<and> (\<forall>k \<in> madt_kinds. vec_wf t (madt_vec k t))
    \<and> (\<forall>x. in_region p (unat (madt_length s p)) x \<longrightarrow> mem t x = mem s x)"
proof -
  obtain t T' where t: "madt_init s = Ok ((), t)" "fw_step s T t T'" "madt_done n t T' (madt_lists s es)"
    using madt_init_Ok [OF assms] by blast
  have "\<forall>x. in_region p (unat (madt_length s p)) x \<longrightarrow> mem t x = mem s x" "pt_inv t T'" "\<not> pagemap_lock t"
    using t(2) assms by (auto simp: madt_present_def madt_table_def fw_step_def vm_frame_def)
  moreover have "\<forall>k \<in> madt_kinds. page_vec t (madt_vec k t) (madt_lists s es k)" using t(3) by (simp add: madt_done_def)
  ultimately show ?thesis using t(1) madt_done_lists [of t s es] by blast
qed

text \<open>A table with an entry for a processor and one for an interrupt controller.\<close>

lemma acpi_machine_madt:
  obtains s r where "pt_inv s [[] \<mapsto> r]" "\<not> pagemap_lock s" "hhdm s = 0" "acpi_ok s [[] \<mapsto> r]" "madt_table s [[] \<mapsto> r] 0x503000 [0x50302c, 0x503034]"
    "\<forall>k \<in> madt_kinds. madt_vec k s = VECTOR_INITIALISER" "direct_map_ok s" "510 \<le> card (free_pairs s)"
    "sdt_count s = 2" "found_cost s (Some 0x503000) = 4" "sdt_length s 0x504000 = 56" "found_sdt s ''HPET'' 0 = Some 0x504000" "found_sdt s ''FACP'' 0 = None"
    "madt_entries (mem s) 0 [0x50302c, 0x503034] = [0x50302c]" "madt_entries (mem s) 1 [0x50302c, 0x503034] = [0x503034]"
    "madt_entries (mem s) 4 [0x50302c, 0x503034] = []"
    "\<forall>x. 1280 \<le> page_of s x \<longrightarrow> page_of s x \<noteq> r \<and> page_of s x \<notin> free_pages s \<and> \<not> bitmap_byte s x \<and> mem s x = mem (acpi_machine 0 8) x"
    "\<exists>i m k. s = (acpi_machine 0 8)\<lparr>pmm_last_used_index := i, mem := m, kernel_pagemap := k\<rparr>"
proof -
  let ?m = "acpi_machine 0 8" and ?es = "[0x50302c, 0x503034] :: u64 list"
  obtain s r where s: "pt_inv s [[] \<mapsto> r]" "\<not> pagemap_lock s" "hhdm s = 0" "acpi_ok s [[] \<mapsto> r]"
    "sdt_tables s = [0x503000, 0x504000]" "sdt_count s = 2" "sdt_matches s ''APIC'' 0x503000" "\<not> sdt_matches s ''HPET'' 0x503000" "sdt_matches s ''HPET'' 0x504000"
    "sdt_length s 0x503000 = 64" "sdt_length s 0x504000 = 56" "card (free_pages s) = 1022" "free_pages s \<subseteq> {..<1024}"
    and out: "\<forall>x. 1280 \<le> page_of s x \<longrightarrow> page_of s x \<noteq> r \<and> page_of s x \<notin> free_pages s \<and> \<not> bitmap_byte s x \<and> mem s x = mem ?m x"
    and ex: "\<exists>i m k. s = ?m\<lparr>pmm_last_used_index := i, mem := m, kernel_pagemap := k\<rparr>"
    by (rule acpi_machine_ok [of 0 8]) blast
  have m: "mem s x = mem ?m x" if "0x500000 \<le> unat x" for x using out that by (simp add: page_of_def s(3))
  then have b: "mem s 0x50302c = 0" "mem s 0x50302d = 8" "mem s 0x503034 = 1" "mem s 0x503035 = 12"
    by (simp_all add: acpi_machine_def vm_machine_fields)
  have len: "madt_length s 0x503000 = 64" using s(10) by (simp add: madt_length_def sdt_length_def)
  have "even_pairs {..<1024} = (\<lambda>i. 2 * i) ` {..<512}" by (auto simp: even_pairs_def elim!: evenE)
  then have "card (even_pairs {..<1024}) = 512" by (simp add: card_image inj_on_def)
  then have pairs: "510 \<le> card (free_pairs s)" using even_pairs_shrink [OF _ s(13), of 2] s(12) by simp
  have cost: "found_cost s (Some 0x503000) = 4" by (simp add: found_cost_def sdt_cost_def s(3,10) span_pages_def)
  have "literal_bytes ''FACP'' \<noteq> literal_bytes ''APIC''" "literal_bytes ''FACP'' \<noteq> literal_bytes ''HPET''" by (simp_all add: literal_bytes_def of_char_def)
  then have found: "found_sdt s ''APIC'' 0 = Some 0x503000" "found_sdt s ''HPET'' 0 = Some 0x504000" "found_sdt s ''FACP'' 0 = None"
    using s(7-9) by (auto simp: found_sdt_def s(5) sdt_matches_def)
  have init: "direct_map_ok s" "\<forall>k \<in> madt_kinds. madt_vec k s = VECTOR_INITIALISER"
    using ex by (auto simp: direct_map_ok_def madt_vec_def madt_kinds_def VECTOR_INITIALISER_def acpi_machine_def vm_machine_def blank_kernel_def kernel_image_def)
  have safe: "page_of s x \<notin> ran [[] \<mapsto> r] \<and> page_of s x \<notin> free_pages s \<and> \<not> bitmap_byte s x" if "in_region 0x503000 64 x" for x
  proof -
    have "1280 \<le> page_of s x" using near_page [OF that _ s(3), of 1283] by simp
    then show ?thesis using out by auto
  qed
  have ents: "madt_entries (mem s) 0 ?es = [0x50302c]" "madt_entries (mem s) 1 ?es = [0x503034]" "madt_entries (mem s) 4 ?es = []"
    by (simp_all add: madt_entries_def b)
  have "length (madt_entries (mem s) k ?es) \<le> 512" for k by (simp add: madt_entries_def)
  then have "madt_table s [[] \<mapsto> r] 0x503000 ?es" using found(1) safe b by (simp add: madt_table_def len)
  from that [OF s(1-4) this init(2,1) pairs s(6) cost s(11) found(2,3) ents out ex] show thesis .
qed

theorem madt_init_correct_witness:
  "\<exists>s T t. madt_present 1 s T 0x503000 [0x50302c, 0x503034] \<and> madt_init s = Ok ((), t)
     \<and> vec_list t (madt_lapics t) = [0x50302c] \<and> vec_list t (madt_io_apics t) = [0x503034] \<and> vec_list t (madt_nmis t) = []"
proof -
  let ?es = "[0x50302c, 0x503034] :: u64 list"
  obtain s r where s: "pt_inv s [[] \<mapsto> r]" "\<not> pagemap_lock s" "acpi_ok s [[] \<mapsto> r]" "madt_table s [[] \<mapsto> r] 0x503000 ?es"
    "\<forall>k \<in> madt_kinds. madt_vec k s = VECTOR_INITIALISER" "direct_map_ok s" "510 \<le> card (free_pairs s)"
    "sdt_count s = 2" "found_cost s (Some 0x503000) = 4"
    and ents: "madt_entries (mem s) 0 ?es = [0x50302c]" "madt_entries (mem s) 1 ?es = [0x503034]" "madt_entries (mem s) 4 ?es = []"
    by (rule acpi_machine_madt) blast
  have pr: "madt_present 1 s [[] \<mapsto> r] 0x503000 ?es" using s by (simp add: madt_present_def)
  then show ?thesis using madt_init_correct [OF pr] ents by auto
qed

text \<open>\<open>madt_visits madt t off u\<close>: the walk that starts at the first entry in state \<open>t\<close> comes to the entry at the
  offset \<open>off\<close>, in state \<open>u\<close>.\<close>

inductive madt_visits :: "u64 \<Rightarrow> kernel \<Rightarrow> u64 \<Rightarrow> kernel \<Rightarrow> bool" for madt :: u64 and t :: kernel where
  first: "madt_visits madt t 0 t"
| following: "madt_visits madt t off u \<Longrightarrow> off + sizeof_madt < madt_length u madt \<Longrightarrow> madt_step madt off u = Ok (off', u')
    \<Longrightarrow> madt_visits madt t off' u'"

lemma madt_walk_visits: "madt_visits madt t off u \<Longrightarrow> madt_walk madt 0 t = madt_walk madt off u"
proof (induction rule: madt_visits.induct)
  case (following off u off' u')
  then show ?case by (simp add: whileM_unfold [of _ _ off] bind_Ok madt_length_def not_le)
qed simp

text \<open>C40: Where the walk comes to an entry of length zero whose kind is not collected (kinds other than 0, 1, 2, 4 and,
  in the mode with wide identifiers, 9), all progress stops: the offset does not change, and \<open>madt_init\<close> never returns.\<close>

theorem madt_zero_entry_diverges:
  assumes "acpi_find_sdt ''APIC'' 0 s = Ok (madt, t)" and "madt \<noteq> 0" and visits: "madt_visits madt t off u"
    and inside: "off + 44 < madt_length u madt"
    and "ignored u (mem u (madt + 44 + off))" and "mem u (madt + 44 + off + 1) = 0"
  shows "madt_init s = Diverge"
proof -
  have "madt_step madt off u = Ok (off, u)"
    using madt_step_ignored [OF assms(5)] assms(6) by simp
  then have "madt_walk madt off u = Diverge"
    using inside by (intro whileM_stuck) (simp_all add: sizeof_madt_def madt_length_def)
  then have "madt_walk madt 0 t = Diverge" by (simp add: madt_walk_visits [OF visits])
  then show ?thesis
    using assms(1,2) by (simp add: madt_init_def bind_Ok [where f = "acpi_find_sdt _ _"] bind_Diverge)
qed

theorem madt_zero_entry_diverges_witness:
  "\<exists>s T. pt_inv s T \<and> sdt_tables s = [0x503000, 0x504000] \<and> madt_init s = Diverge"
proof -
  obtain s r where s: "pt_inv s [[] \<mapsto> r]" "\<not> pagemap_lock s" "hhdm s = 0" "acpi_ok s [[] \<mapsto> r]"
    "sdt_tables s = [0x503000, 0x504000]" "sdt_count s = 2" "sdt_matches s ''APIC'' 0x503000"
    "sdt_length s 0x503000 = 64" "card (free_pages s) = 1022"
    and out: "\<forall>x. 1280 \<le> page_of s x \<longrightarrow> page_of s x \<noteq> r \<and> page_of s x \<notin> free_pages s \<and> \<not> bitmap_byte s x
       \<and> mem s x = mem (acpi_machine 3 0) x" by (rule acpi_machine_ok [of 3 0]) blast
  have cost: "found_cost s (Some 0x503000) = 4" by (simp add: found_cost_def sdt_cost_def s(3,8) span_pages_def)
  have f: "found_sdt s ''APIC'' (unat 0) = Some 0x503000" using s(7) by (simp add: found_sdt_def s(5))
  obtain t T' q where t: "acpi_find_sdt ''APIC'' 0 s = Ok (0x503000, t)" "vm_logged 20 s [[] \<mapsto> r] t T' q"
    using acpi_find_sdt_Ok [OF s(1,2,4) f [symmetric]] cost by (auto simp: s(6,9))
  have "mem t x = mem (acpi_machine 3 0) x" if "0x500000 \<le> unat x" for x
  proof -
    have "1280 \<le> page_of s x" using that by (simp add: page_of_def s(3))
    from out [rule_format, OF this] show ?thesis
      using vm_logged_fields(7) [OF t(2), unfolded vm_frame_def, rule_format, of x] by simp
  qed
  then have m: "mem t 0x50302c = 3" "mem t 0x50302d = 0" by (simp_all add: acpi_machine_def vm_machine_fields)
  have "madt_length t 0x503000 = 64"
    using acpi_kept(6) [OF s(4) t(2), of "0x503000"] s(5,8) by (simp add: madt_length_def sdt_length_def)
  then have "madt_init s = Diverge"
    using madt_zero_entry_diverges [OF t(1) _ madt_visits.first] m by (simp add: ignored_def)
  then show ?thesis using s by blast
qed

end
