(* ===== verification/Hpet.thy ===== *)
theory Hpet
  imports Acpi_Tables Cpu
begin

text \<open>
  The event timer, \<open>kernel/src/sys/hpet.c\<close>. Its firmware table has the address of the registers at
  offset 44; in \<open>struct hpet\<close> the capabilities are at offset 0, the configuration at 16 and the main
  counter at 240. The registers are accessed as a device.
\<close>

section \<open>Definitions\<close>

definition sizeof_hpet :: u64 where "sizeof_hpet = 256"

definition hpet_read_counter :: "u64 kprog" where
  "hpet_read_counter = bind (gets hpet) (\<lambda>h. dev_read (MmioRead 8 (h + 240)))"

definition hpet_init :: "unit kprog" where
  "hpet_init =
     bind (acpi_find_sdt ''HPET'' 0) (\<lambda>hpet_table.
     if hpet_table = 0 then panic ''HPET ACPI table not found''
     else
       bind (read64 (hpet_table + 44)) (\<lambda>address.
       bind (modify (\<lambda>s. s\<lparr>hpet := address + hhdm s\<rparr>)) (\<lambda>_.
       bind (gets hpet) (\<lambda>h.
       bind (gets hhdm) (\<lambda>off.
       bind (vmm_map_span h (h - off) sizeof_hpet ACPI_FLAGS) (\<lambda>_.
       bind (dev_read (MmioRead 8 h)) (\<lambda>tmp.
       let counter_clk_period = drop_bit 32 tmp in
       if counter_clk_period = 0 then fault ''division by zero''
       else
         bind (modify (\<lambda>s. s\<lparr>hpet_frequency := 1000000000000000 div counter_clk_period\<rparr>)) (\<lambda>_.
         bind (gets hpet_frequency) (\<lambda>f.
         bind (printf ''hpet: Detected frequency of %llu Hz'' [PInt f]) (\<lambda>_.
         bind (dev_write (MmioWrite 8 (h + 240) 0)) (\<lambda>_.
         bind (printf ''hpet: Enabling'' []) (\<lambda>_.
         bind (dev_read (MmioRead 8 (h + 16))) (\<lambda>tmp.
         let tmp = tmp OR 1 in
         dev_write (MmioWrite 8 (h + 16) tmp))))))))))))))"

section \<open>Initialisation\<close>

definition hpet_address :: "kernel \<Rightarrow> u64 \<Rightarrow> u64" where
  "hpet_address s p = load64 (mem s) (p + 44)"

lemma femto_frequency:
  assumes "drop_bit 32 (tmp :: u64) \<noteq> 0"
  shows "232830 \<le> unat (1000000000000000 div drop_bit 32 tmp)"
proof -
  have "unat (drop_bit 32 tmp) < 2 ^ 32"
    using unat_u64_less [of tmp] by (simp add: unat_drop_bit_eq drop_bit_eq_div unat_div)
  moreover have "0 < unat (drop_bit 32 tmp)" using assms by (simp add: unat_gt_0)
  ultimately have "(1000000000000000 :: nat) div 2 ^ 32 \<le> 1000000000000000 div unat (drop_bit 32 tmp)"
    by (intro div_le_mono2) simp_all
  then show ?thesis by (simp add: unat_div)
qed

text \<open>The machine has the table, with its address field outside the page tables and free pages, and
  enough free pages to map the tables and the registers; the timer gives a period.\<close>

definition hpet_table :: "kernel \<Rightarrow> tables \<Rightarrow> u64 \<Rightarrow> bool" where
  "hpet_table s T p \<longleftrightarrow> found_sdt s ''HPET'' 0 = Some p \<and> p \<noteq> 0
     \<and> (\<forall>x. in_region p 52 x \<longrightarrow> page_of s x \<notin> ran T \<and> page_of s x \<notin> free_pages s \<and> \<not> bitmap_byte s x)
     \<and> unat (hpet_address s p) + 256 + 8192 < 2 ^ 64
     \<and> drop_bit 32 (device s (dev_trace s @ [MmioRead 8 (hpet_address s p + hhdm s)])) \<noteq> 0"

definition hpet_present :: "kernel \<Rightarrow> tables \<Rightarrow> u64 \<Rightarrow> bool" where
  "hpet_present s T p \<longleftrightarrow> pt_inv s T \<and> \<not> pagemap_lock s \<and> acpi_ok s T \<and> hpet_table s T p
     \<and> 8 * sdt_count s + sdt_cost s p + 8 \<le> card (free_pages s)"

lemma hpet_table_kept:
  assumes "acpi_ok s T" and fw: "fw_step s T t T'" and tab: "hpet_table s T p"
  shows "hpet_table t T' p" and "hpet_address t p = hpet_address s p"
proof -
  have safe: "\<forall>x. in_region p 52 x \<longrightarrow> page_of s x \<notin> ran T \<and> page_of s x \<notin> free_pages s \<and> \<not> bitmap_byte s x"
    using tab by (simp add: hpet_table_def)
  have f: "hhdm t = hhdm s" "device t = device s" "dev_trace t = dev_trace s" "free_pages t \<subseteq> free_pages s"
    "ran T' \<subseteq> ran T \<union> free_pages s" "vm_frame s T t"
    using fw by (simp_all add: fw_step_def)
  show a: "hpet_address t p = hpet_address s p"
    unfolding hpet_address_def by (rule load_le_part [of p 52]) (use f(6) safe in \<open>auto simp: vm_frame_def\<close>)
  have "page_of t x \<notin> ran T' \<and> page_of t x \<notin> free_pages t \<and> \<not> bitmap_byte t x" if "in_region p 52 x" for x
    using safe that f(4,5) unfolding fw_step_pages [OF fw] by blast
  then show "hpet_table t T' p" using tab by (simp add: hpet_table_def found_kept(1) [OF assms(1) fw] a f(1-3))
qed

lemma span_pages_256: "span_pages p 256 \<le> 2"
proof -
  have "(unat p + 256 + 4095) div 4096 \<le> (unat p + 2 * 4096) div 4096" by (intro div_le_mono) simp
  then show ?thesis by (simp add: span_pages_def)
qed

text \<open>The global of this file is no part of the page tables.\<close>

lemma vm_same_hpet: "vm_same s (s\<lparr>hpet := h\<rparr>)" by (simp add: vm_same_def)

lemma acpi_found_fields:
  assumes "vm_logged k s T t T' q"
  shows "device t = device s" "dev_trace t = dev_trace s" "hhdm t = hhdm s" "pagemap_lock t = pagemap_lock s"
proof -
  obtain i m where t: "t = s\<lparr>pmm_last_used_index := i, mem := m, klog := klog t\<rparr>" using vm_logged_state(4) [OF assms] by blast
  show "device t = device s" "dev_trace t = dev_trace s" "hhdm t = hhdm s" "pagemap_lock t = pagemap_lock s"
    by (subst t, simp add: pagemap_lock_def)+
qed

lemma hpet_init_Ok:
  assumes "hpet_present s T p" and h: "h = hpet_address s p + hhdm s"
    and d: "d = drop_bit 32 (device s (dev_trace s @ [MmioRead 8 h]))"
  shows "\<exists>t T' cfg. hpet_init s = Ok ((), t) \<and> fw_step s T (t\<lparr>dev_trace := dev_trace s\<rparr>) T' \<and> hpet t = h
    \<and> (\<exists>i m l tr f. t = s\<lparr>pmm_last_used_index := i, mem := m, klog := l, dev_trace := tr, hpet := h, hpet_frequency := f\<rparr>)
    \<and> span_mapped h (h - hhdm s) 256 ACPI_FLAGS t
    \<and> dev_trace t = dev_trace s @ [MmioRead 8 h, MmioWrite 8 (h + 240) 0, MmioRead 8 (h + 16), MmioWrite 8 (h + 16) (cfg OR 1)]
    \<and> unat (hpet_frequency t) = 10 ^ 15 div unat d \<and> 232830 \<le> unat (hpet_frequency t)"
proof -
  let ?a = "hpet_address s p"
  have pr: "pt_inv s T" "\<not> pagemap_lock s" "acpi_ok s T" "found_sdt s ''HPET'' 0 = Some p" "p \<noteq> 0"
    "\<forall>x. in_region p 52 x \<longrightarrow> page_of s x \<notin> ran T \<and> page_of s x \<notin> free_pages s \<and> \<not> bitmap_byte s x"
    "unat ?a + 256 + 8192 < 2 ^ 64" "8 * sdt_count s + sdt_cost s p + 8 \<le> card (free_pages s)" "d \<noteq> 0"
    using assms by (simp_all add: hpet_present_def hpet_table_def)
  have "8 * sdt_count s + found_cost s (Some p) \<le> card (free_pages s)" using pr(8) by (simp add: found_cost_def)
  from acpi_find_sdt_Ok [OF pr(1-3), of "Some p" "''HPET''" 0, OF _ this] obtain t T1 q where
    t: "acpi_find_sdt ''HPET'' 0 s = Ok (p, t)" "vm_logged (8 * sdt_count s + sdt_cost s p) s T t T1 q"
    using pr(4) by (auto simp: found_cost_def)
  note tf = acpi_found_fields [OF t(2)]
  have "load64 (mem t) (p + 44) = load64 (mem s) (p + 44)"
    by (rule load_le_part [of p 52]) (use vm_logged_fields(7) [OF t(2)] pr(6) in \<open>auto simp: vm_frame_def\<close>)
  then have a: "load64 (mem t) (p + 44) = ?a" by (simp add: hpet_address_def)
  let ?u = "t\<lparr>hpet := h\<rparr>"
  note cu = vm_same_cong [OF vm_same_hpet [of t h]]
  have u: "pt_inv ?u T1" "\<not> pagemap_lock ?u" "8 \<le> card (free_pages ?u)"
    using vm_logged_fields(1,3,4) [OF t(2)] pr(2,8) by (auto simp: cu pagemap_lock_def)
  have sp: "4 * span_pages ?a 256 \<le> card (free_pages ?u)" using u(3) span_pages_256 [of ?a] by simp
  have v0: "vm_logged 0 ?u T1 ?u T1 []" using vm_logged_klog [OF u(1), of "klog ?u"] by simp
  from span_logged [OF v0 u(2), of ?a 256 h ACPI_FLAGS] pr(7) sp obtain v T2 where
    v: "vmm_map_span h ?a 256 ACPI_FLAGS ?u = Ok ((), v)" "vm_logged (4 * span_pages ?a 256) ?u T1 v T2 (vmm_span h ?a 256 ACPI_FLAGS)"
      "span_mapped h ?a 256 ACPI_FLAGS v" by auto
  note vf = acpi_found_fields [OF v(2)]
  obtain i m l where e: "t = s\<lparr>pmm_last_used_index := i, mem := m, klog := l\<rparr>" using vm_logged_state(4) [OF t(2)] by blast
  obtain i' m' l' where e': "v = ?u\<lparr>pmm_last_used_index := i', mem := m', klog := l'\<rparr>" using vm_logged_state(4) [OF v(2)] by blast
  have vh: "hpet v = h" by (simp add: e')
  have dev: "device v = device s" "dev_trace v = dev_trace s" using vf(1,2) tf(1,2) by simp_all
  have "\<exists>cfg l. hpet_init s = Ok ((), v\<lparr>hpet_frequency := 1000000000000000 div d, klog := l,
      dev_trace := dev_trace s @ [MmioRead 8 h, MmioWrite 8 (h + 240) 0, MmioRead 8 (h + 16), MmioWrite 8 (h + 16) (cfg OR 1)]\<rparr>)"
    using t(1) a v(1) pr(5,9) dev tf(3) h d
    by (simp add: hpet_init_def bind_Ok [where f = "acpi_find_sdt _ _", OF t(1)] access_defs bind_Ok [where f = "vmm_map_span _ _ _ _"]
        sizeof_hpet_def Let_def dev_write_eq)
      blast
  then obtain cfg l where run: "hpet_init s = Ok ((), v\<lparr>hpet_frequency := 1000000000000000 div d, klog := l,
      dev_trace := dev_trace s @ [MmioRead 8 h, MmioWrite 8 (h + 240) 0, MmioRead 8 (h + 16), MmioWrite 8 (h + 16) (cfg OR 1)]\<rparr>)"
    (is "_ = Ok ((), ?t)") by blast
  have same: "vm_same v ?t" by (simp add: vm_same_def)
  note c = vm_same_cong [OF same]
  have "fw_step s T ?u T1" by (rule fw_step_same [OF vm_same_hpet vm_logged_fw [OF t(2)]]) (simp_all add: pagemap_lock_def)
  then have fw: "fw_step s T v T2" using fw_step_trans vm_logged_fw [OF v(2)] by blast
  have "fw_step s T (?t\<lparr>dev_trace := dev_trace s\<rparr>) T2"
    by (rule fw_step_same [OF _ fw]) (simp_all add: vm_same_def pagemap_lock_def dev(2))
  moreover have "?t = s\<lparr>pmm_last_used_index := i', mem := m', klog := klog ?t, dev_trace := dev_trace ?t, hpet := h, hpet_frequency := hpet_frequency ?t\<rparr>"
    by (simp add: e' e)
  then have "\<exists>i m l tr f. ?t = s\<lparr>pmm_last_used_index := i, mem := m, klog := l, dev_trace := tr, hpet := h, hpet_frequency := f\<rparr>" by blast
  moreover have "span_mapped h (h - hhdm s) 256 ACPI_FLAGS ?t" using v(3) c h by (simp add: span_mapped_def)
  moreover have "unat (hpet_frequency ?t) = 10 ^ 15 div unat d" by (simp add: unat_div)
  moreover have "232830 \<le> unat (hpet_frequency ?t)" using femto_frequency pr(9) d by simp
  ultimately show ?thesis using run vh by (intro exI [of _ ?t] exI [of _ T2] exI [of _ cfg]) simp
qed

text \<open>With the timer's table present, \<open>hpet_init\<close> returns with the registers mapped in the direct map
  and the counter set to zero before it is enabled; the frequency is the one of the period, in
  femtoseconds, that the timer reports, and at least 232830 Hz, so that no later division by it
  faults.\<close>

theorem hpet_init_correct:
  assumes "hpet_present s T p" and h: "h = hpet_address s p + hhdm s"
    and d: "d = drop_bit 32 (device s (dev_trace s @ [MmioRead 8 h]))"
  shows "\<exists>t T' cfg. hpet_init s = Ok ((), t) \<and> pt_inv t T' \<and> \<not> pagemap_lock t \<and> hpet t = h
    \<and> span_mapped h (h - hhdm s) 256 ACPI_FLAGS t
    \<and> dev_trace t = dev_trace s @ [MmioRead 8 h, MmioWrite 8 (h + 240) 0, MmioRead 8 (h + 16), MmioWrite 8 (h + 16) (cfg OR 1)]
    \<and> unat (hpet_frequency t) = 10 ^ 15 div unat d \<and> 232830 \<le> unat (hpet_frequency t)"
proof -
  obtain t T' cfg where t: "hpet_init s = Ok ((), t)" "fw_step s T (t\<lparr>dev_trace := dev_trace s\<rparr>) T'" "hpet t = h"
    "span_mapped h (h - hhdm s) 256 ACPI_FLAGS t"
    "dev_trace t = dev_trace s @ [MmioRead 8 h, MmioWrite 8 (h + 240) 0, MmioRead 8 (h + 16), MmioWrite 8 (h + 16) (cfg OR 1)]"
    "unat (hpet_frequency t) = 10 ^ 15 div unat d" "232830 \<le> unat (hpet_frequency t)"
    using hpet_init_Ok [OF assms] by blast
  have "vm_same t (t\<lparr>dev_trace := dev_trace s\<rparr>)" by (simp add: vm_same_def)
  from vm_same_cong(5) [OF this] have "pt_inv t T'" "\<not> pagemap_lock t"
    using t(2) assms(1) by (auto simp: fw_step_def hpet_present_def pagemap_lock_def)
  then show ?thesis using t by blast
qed

theorem hpet_init_correct_witness:
  "\<exists>s t. hpet_init s = Ok ((), t) \<and> hpet t = 0xfed00000 \<and> unat (hpet_frequency t) = 14318179"
proof -
  obtain s r where s: "pt_inv s [[] \<mapsto> r]" "\<not> pagemap_lock s" "hhdm s = 0" "acpi_ok s [[] \<mapsto> r]"
    "sdt_tables s = [0x503000, 0x504000]" "sdt_count s = 2" "sdt_matches s ''APIC'' 0x503000" "\<not> sdt_matches s ''HPET'' 0x503000"
    "sdt_matches s ''HPET'' 0x504000" "sdt_length s 0x503000 = 64" "sdt_length s 0x504000 = 56" "card (free_pages s) = 1022"
    "\<exists>i m k. s = (acpi_machine 0 8)\<lparr>pmm_last_used_index := i, mem := m, kernel_pagemap := k\<rparr>"
    and out: "\<forall>x. 1280 \<le> page_of s x \<longrightarrow> page_of s x \<noteq> r \<and> page_of s x \<notin> free_pages s \<and> \<not> bitmap_byte s x
       \<and> mem s x = mem (acpi_machine 0 8) x" by (rule acpi_machine_ok [of 0 8]) blast
  have m: "mem s x = mem (acpi_machine 0 8) x" if "0x500000 \<le> unat x" for x
    using out that by (simp add: page_of_def s(3))
  have a: "hpet_address s 0x504000 = 0xfed00000"
    by (simp add: hpet_address_def load64_bytes load32_bytes m acpi_machine_def vm_machine_fields)
  have d: "drop_bit 32 (device s tr) = 69841279" for tr using s(13) by (auto simp: acpi_machine_def)
  have "page_of s x \<noteq> r \<and> page_of s x \<notin> free_pages s \<and> \<not> bitmap_byte s x" if "in_region 0x504000 52 x" for x
    using near_page [OF that, of s 1284] s(3) out [rule_format, of x] by simp
  then have "hpet_present s [[] \<mapsto> r] 0x504000"
    using s a d by (auto simp: hpet_present_def hpet_table_def found_sdt_def sdt_cost_def span_pages_def)
  from hpet_init_correct [OF this refl refl] show ?thesis by (auto simp: a d s(3))
qed

end
