(* ===== verification/Uacpi.thy ===== *)
theory Uacpi
  imports Hpet Slab_Props
begin

text \<open>
  What the kernel offers to the ACPI library, the functions \<open>uacpi_kernel_*\<close> of
  \<open>kernel/src/acpi/acpi.c\<close>. A result stored through a pointer argument is part of the value
  returned. Statuses are the two the kernel returns.
\<close>

section \<open>Definitions\<close>

datatype uacpi_status = UACPI_STATUS_OK | UACPI_STATUS_UNIMPLEMENTED

record uacpi_pci_address =
  pci_segment :: u16
  pci_bus :: u8
  pci_device :: u8
  pci_function :: u8

definition uacpi_kernel_get_rsdp :: "(uacpi_status \<times> u64) kprog" where
  "uacpi_kernel_get_rsdp = bind (gets (\<lambda>s. rsdp s - hhdm s)) (\<lambda>a. return (UACPI_STATUS_OK, a))"

definition uacpi_kernel_pci_device_open :: "uacpi_pci_address \<Rightarrow> (uacpi_status \<times> u64) kprog" where
  "uacpi_kernel_pci_device_open address =
     (let dev = push_bit 32 (ucast (pci_segment address)) OR push_bit 16 (ucast (pci_bus address))
        OR push_bit 8 (ucast (pci_device address)) OR ucast (pci_function address) in
      return (UACPI_STATUS_OK, dev))"

definition uacpi_kernel_pci_device_close :: "u64 \<Rightarrow> unit kprog" where
  "uacpi_kernel_pci_device_close handle = return ()"

definition uacpi_kernel_pci_read :: "u64 \<Rightarrow> u64 \<Rightarrow> u8 \<Rightarrow> uacpi_status kprog" where
  "uacpi_kernel_pci_read dev offset byte_width = return UACPI_STATUS_UNIMPLEMENTED"

definition uacpi_kernel_pci_write :: "u64 \<Rightarrow> u64 \<Rightarrow> u8 \<Rightarrow> u64 \<Rightarrow> uacpi_status kprog" where
  "uacpi_kernel_pci_write dev offset byte_width val = return UACPI_STATUS_UNIMPLEMENTED"

definition uacpi_kernel_free :: "u64 \<Rightarrow> unit kprog" where
  "uacpi_kernel_free addr = slab_free addr"

definition uacpi_kernel_alloc :: "u64 \<Rightarrow> u64 kprog" where
  "uacpi_kernel_alloc sz = slab_alloc sz"

definition uacpi_kernel_map :: "u64 \<Rightarrow> u64 \<Rightarrow> u64 kprog" where
  "uacpi_kernel_map addr len =
     bind (gets hhdm) (\<lambda>off.
     bind (vmm_map_span (addr + off) addr len ACPI_FLAGS) (\<lambda>_.
     bind (gets hhdm) (\<lambda>off. return (addr + off))))"

definition uacpi_kernel_unmap :: "u64 \<Rightarrow> u64 \<Rightarrow> unit kprog" where
  "uacpi_kernel_unmap addr len = return ()"

definition uacpi_kernel_io_map :: "u64 \<Rightarrow> u64 \<Rightarrow> (uacpi_status \<times> u64) kprog" where
  "uacpi_kernel_io_map base len = return (UACPI_STATUS_OK, base)"

definition uacpi_kernel_io_unmap :: "u64 \<Rightarrow> unit kprog" where
  "uacpi_kernel_io_unmap handle = return ()"

definition uacpi_kernel_io_read :: "u64 \<Rightarrow> u64 \<Rightarrow> u8 \<Rightarrow> (uacpi_status \<times> u64) kprog" where
  "uacpi_kernel_io_read handle offset byte_width =
     (if byte_width = 1 then bind (inb (ucast (handle + offset))) (\<lambda>v. return (UACPI_STATUS_OK, ucast v))
      else if byte_width = 2 then bind (inw (ucast (handle + offset))) (\<lambda>v. return (UACPI_STATUS_OK, ucast v))
      else if byte_width = 4 then bind (ind (ucast (handle + offset))) (\<lambda>v. return (UACPI_STATUS_OK, ucast v))
      else panic ''uACPI I/O read of width %u'')"

definition uacpi_kernel_io_write :: "u64 \<Rightarrow> u64 \<Rightarrow> u8 \<Rightarrow> u64 \<Rightarrow> uacpi_status kprog" where
  "uacpi_kernel_io_write handle offset byte_width val =
     (if byte_width = 1 then bind (outb (ucast (handle + offset)) (ucast val)) (\<lambda>_. return UACPI_STATUS_OK)
      else if byte_width = 2 then bind (outw (ucast (handle + offset)) (ucast val)) (\<lambda>_. return UACPI_STATUS_OK)
      else if byte_width = 4 then bind (outd (ucast (handle + offset)) (ucast val)) (\<lambda>_. return UACPI_STATUS_OK)
      else panic ''uACPI I/O write of width %u'')"

definition uacpi_kernel_log :: "u32 \<Rightarrow> string \<Rightarrow> unit kprog" where
  "uacpi_kernel_log level str = printf ''uACPI: %s'' [PStr str]"

definition uacpi_kernel_get_nanoseconds_since_boot :: "u64 kprog" where
  "uacpi_kernel_get_nanoseconds_since_boot =
     bind hpet_read_counter (\<lambda>c.
     bind (gets hpet_frequency) (\<lambda>f.
     if f = 0 then fault ''division by zero'' else return (c * (1000000000 div f))))"

definition uacpi_kernel_stall :: "u8 \<Rightarrow> unit kprog" where
  "uacpi_kernel_stall usec = return ()"

definition uacpi_kernel_sleep :: "u64 \<Rightarrow> unit kprog" where
  "uacpi_kernel_sleep msec = return ()"

definition uacpi_kernel_create_mutex :: "u64 kprog" where
  "uacpi_kernel_create_mutex = slab_alloc 1"

definition uacpi_kernel_free_mutex :: "u64 \<Rightarrow> unit kprog" where
  "uacpi_kernel_free_mutex handle = slab_free handle"

definition uacpi_kernel_create_event :: "u64 kprog" where
  "uacpi_kernel_create_event = return 0"

definition uacpi_kernel_free_event :: "u64 \<Rightarrow> unit kprog" where
  "uacpi_kernel_free_event handle = return ()"

definition uacpi_kernel_get_thread_id :: "u64 kprog" where
  "uacpi_kernel_get_thread_id = return 0"

definition uacpi_kernel_acquire_mutex :: "u64 \<Rightarrow> u16 \<Rightarrow> uacpi_status kprog" where
  "uacpi_kernel_acquire_mutex handle timeout = return UACPI_STATUS_OK"

definition uacpi_kernel_release_mutex :: "u64 \<Rightarrow> unit kprog" where
  "uacpi_kernel_release_mutex handle = return ()"

definition uacpi_kernel_wait_for_event :: "u64 \<Rightarrow> u16 \<Rightarrow> bool kprog" where
  "uacpi_kernel_wait_for_event handle timeout = return False"

definition uacpi_kernel_signal_event :: "u64 \<Rightarrow> unit kprog" where
  "uacpi_kernel_signal_event handle = return ()"

definition uacpi_kernel_reset_event :: "u64 \<Rightarrow> unit kprog" where
  "uacpi_kernel_reset_event handle = return ()"

definition uacpi_kernel_handle_firmware_request :: "u64 \<Rightarrow> uacpi_status kprog" where
  "uacpi_kernel_handle_firmware_request req = return UACPI_STATUS_UNIMPLEMENTED"

definition uacpi_kernel_install_interrupt_handler :: "u32 \<Rightarrow> u64 \<Rightarrow> u64 \<Rightarrow> uacpi_status kprog" where
  "uacpi_kernel_install_interrupt_handler irq handler ctx = return UACPI_STATUS_OK"

definition uacpi_kernel_uninstall_interrupt_handler :: "u64 \<Rightarrow> u64 \<Rightarrow> uacpi_status kprog" where
  "uacpi_kernel_uninstall_interrupt_handler handler irq_handle = return UACPI_STATUS_OK"

definition uacpi_kernel_create_spinlock :: "u64 kprog" where
  "uacpi_kernel_create_spinlock =
     bind (slab_alloc 1) (\<lambda>lock'.
     bind (write8 lock' 0) (\<lambda>_.
     return lock'))"

definition uacpi_kernel_free_spinlock :: "u64 \<Rightarrow> unit kprog" where
  "uacpi_kernel_free_spinlock lock' = slab_free lock'"

definition uacpi_kernel_lock_spinlock :: "u64 \<Rightarrow> bool kprog" where
  "uacpi_kernel_lock_spinlock lock' =
     bind (interrupt_toggle False) (\<lambda>old_int_state.
     bind (spinlock_acquire (mem_lock lock') (mem_lock_update lock')) (\<lambda>_.
     return old_int_state))"

definition uacpi_kernel_unlock_spinlock :: "u64 \<Rightarrow> bool \<Rightarrow> unit kprog" where
  "uacpi_kernel_unlock_spinlock lock' old_int_state =
     bind (spinlock_release (mem_lock_update lock')) (\<lambda>_.
     bind (interrupt_toggle old_int_state) (\<lambda>_.
     return ()))"

definition uacpi_kernel_schedule_work :: "u32 \<Rightarrow> u64 \<Rightarrow> u64 \<Rightarrow> uacpi_status kprog" where
  "uacpi_kernel_schedule_work work_type handler ctx = return UACPI_STATUS_UNIMPLEMENTED"

definition uacpi_kernel_wait_for_work_completion :: "uacpi_status kprog" where
  "uacpi_kernel_wait_for_work_completion = return UACPI_STATUS_UNIMPLEMENTED"

section \<open>Spinlocks for the library\<close>

text \<open>C33: A spinlock created for the library is a fresh cell that is free and overlaps no other. Whether interrupts
  are on or off when it is locked, locking turns them off and gives the flag that was set before, unlocking with that flag
  restores the state exactly, interrupts included, and locking it twice never returns.\<close>

theorem uacpi_spinlock_lifecycle:
  assumes "live_cells s L" and "slab_can s 1"
  shows "\<exists>p t. uacpi_kernel_create_spinlock s = Ok (p, t) \<and> p \<noteq> 0 \<and> live_cells t (insert (slab_class 1, p) L)
    \<and> (\<forall>i c x. (i, c) \<in> L \<and> in_region c (cell_size i) x \<longrightarrow> mem t x = mem s x) \<and> \<not> mem_lock p t
    \<and> (\<forall>b. \<exists>u. uacpi_kernel_lock_spinlock p (t\<lparr>int_flag := b\<rparr>) = Ok (b, u) \<and> mem_lock p u \<and> \<not> int_flag u
         \<and> uacpi_kernel_unlock_spinlock p b u = Ok ((), t\<lparr>int_flag := b\<rparr>) \<and> uacpi_kernel_lock_spinlock p u = Diverge)"
proof -
  from slab_alloc_Ok [OF assms] obtain p w where
    w: "slab_alloc 1 s = Ok (p, w)" "live_cells w (insert (slab_class 1, p) L)" "(slab_class 1, p) \<notin> L" "p \<noteq> 0" "kept L s w" by blast
  have room: "0 < cell_size (slab_class 1)" using slab_class_room(2) [of 1] by simp
  let ?t = "w\<lparr>mem := (mem w)(p := 0)\<rparr>"
  have out: "((mem w)(p := 0)) x = mem w x" if "\<not> in_region p (cell_size (slab_class 1)) x" for x
    using that room by (auto simp: in_region_def)
  note use = slab_store.use_object [OF w(2) insertI1 out]
  have run: "uacpi_kernel_create_spinlock s = Ok (p, ?t)"
    using w(1) by (simp add: uacpi_kernel_create_spinlock_def bind_Ok write8_def run_basic)
  have keep: "mem ?t x = mem s x" if "(i, c) \<in> L" "in_region c (cell_size i) x" for i c x
    using that w(3,5) use(2) unfolding kept_def same_objects_def by fastforce
  have free: "\<not> mem_lock p ?t" by (simp add: mem_lock_defs)
  let ?u = "mem_lock_update p (\<lambda>_. True) (?t\<lparr>int_flag := False\<rparr>)"
  have "uacpi_kernel_lock_spinlock p (?t\<lparr>int_flag := b\<rparr>) = Ok (b, ?u)" for b
    using free by (simp add: uacpi_kernel_lock_spinlock_def bind_spinlock_acquire meml.get_int_flag run_basic)
  moreover have held: "mem_lock p ?u" "\<not> int_flag ?u" by (simp_all add: mem_lock_defs)
  moreover have "uacpi_kernel_unlock_spinlock p b ?u = Ok ((), ?t\<lparr>int_flag := b\<rparr>)" for b
  proof -
    have "mem_lock_update p (\<lambda>_. False) ?u = ?t\<lparr>int_flag := False\<rparr>" by (simp add: mem_lock_defs)
    then show ?thesis by (simp add: uacpi_kernel_unlock_spinlock_def run_basic)
  qed
  moreover have "uacpi_kernel_lock_spinlock p ?u = Diverge"
  proof -
    have "mem_lock p (?u\<lparr>int_flag := False\<rparr>)" using held(1) by (simp add: meml.get_int_flag)
    then show ?thesis by (simp add: uacpi_kernel_lock_spinlock_def bind_Diverge spinlock_acquire_held)
  qed
  ultimately show ?thesis using run w(4) use(1) keep free by blast
qed

theorem uacpi_spinlock_lifecycle_witness:
  "\<exists>s p t u. slab_init roomy = Ok ((), s) \<and> uacpi_kernel_create_spinlock s = Ok (p, t) \<and> \<not> mem_lock p t
     \<and> uacpi_kernel_lock_spinlock p (t\<lparr>int_flag := True\<rparr>) = Ok (True, u) \<and> \<not> int_flag u"
proof -
  obtain s where s: "slab_init roomy = Ok ((), s)" "live_cells s {}" "slab_can s 1" by (rule roomy_init) simp
  show ?thesis using uacpi_spinlock_lifecycle [OF s(2,3)] s(1) by blast
qed

section \<open>Time\<close>

text \<open>For a counter value whose product with a second's nanoseconds fits in 64 bits, and a frequency of
  at most 1 GHz, the time returned is at most the time elapsed and at least half of it; above 1 GHz
  the clock stands still at zero, and before the timer is set up there is a division fault.\<close>

theorem uacpi_nanoseconds_bounds:
  assumes c: "c = device s (dev_trace s @ [MmioRead 8 (hpet s + 240)])" and f: "f = hpet_frequency s"
    and fit: "unat c * 1000000000 < 2 ^ 64"
  shows "(f = 0 \<longrightarrow> uacpi_kernel_get_nanoseconds_since_boot s = Fault ''division by zero'')
    \<and> (f \<noteq> 0 \<longrightarrow> (\<exists>ns t. uacpi_kernel_get_nanoseconds_since_boot s = Ok (ns, t)
         \<and> unat ns * unat f \<le> unat c * 1000000000
         \<and> (f \<le> 1000000000 \<longrightarrow> unat c * 1000000000 \<le> 2 * (unat ns * unat f)) \<and> (1000000000 < f \<longrightarrow> ns = 0)))"
proof (intro conjI impI)
  assume "f = 0"
  then show "uacpi_kernel_get_nanoseconds_since_boot s = Fault ''division by zero''"
    using f by (simp add: uacpi_kernel_get_nanoseconds_since_boot_def hpet_read_counter_def bind_assoc run_basic)
next
  assume nz: "f \<noteq> 0"
  let ?q = "1000000000 div f" and ?Q = "1000000000 div unat f"
  have uq: "unat ?q = ?Q" by (simp add: unat_div)
  have Q: "?Q * unat f \<le> 1000000000" "?Q \<le> 1000000000" by simp_all
  have "unat c * ?Q \<le> unat c * 1000000000" using Q(2) by (rule mult_le_mono2)
  then have "unat c * ?Q < 2 ^ 64" using fit by (rule le_less_trans)
  then have u: "unat (c * ?q) = unat c * ?Q" using uq by (subst unat_mult_lem [THEN iffD1]) simp_all
  have run: "\<exists>t. uacpi_kernel_get_nanoseconds_since_boot s = Ok (c * ?q, t)"
    using nz c f by (simp add: uacpi_kernel_get_nanoseconds_since_boot_def hpet_read_counter_def bind_assoc run_basic)
  have "unat c * (?Q * unat f) \<le> unat c * 1000000000" using Q(1) by (rule mult_le_mono2)
  then have le: "unat (c * ?q) * unat f \<le> unat c * 1000000000" by (simp only: u mult.assoc)
  have half: "unat c * 1000000000 \<le> 2 * (unat (c * ?q) * unat f)" if "f \<le> 1000000000"
  proof -
    have F: "unat f \<le> 1000000000" "0 < unat f" using that nz by (simp_all add: word_le_nat_alt unat_gt_0)
    then have "1 \<le> ?Q" using div_le_mono [of "unat f" 1000000000 "unat f"] by simp
    then have "1 * unat f \<le> ?Q * unat f" by (rule mult_le_mono1)
    then have "1000000000 \<le> 2 * (?Q * unat f)" using dividend_less_div_times [OF F(2), of 1000000000] by linarith
    then have "unat c * 1000000000 \<le> unat c * (2 * (?Q * unat f))" by (rule mult_le_mono2)
    then show ?thesis by (simp only: u mult.assoc mult.left_commute)
  qed
  have "c * ?q = 0" if "1000000000 < f"
  proof -
    have "?q = 0" using that by (simp add: word_unat_eq_iff uq word_less_nat_alt)
    then show ?thesis by simp
  qed
  then show "\<exists>ns t. uacpi_kernel_get_nanoseconds_since_boot s = Ok (ns, t)
         \<and> unat ns * unat f \<le> unat c * 1000000000
         \<and> (f \<le> 1000000000 \<longrightarrow> unat c * 1000000000 \<le> 2 * (unat ns * unat f)) \<and> (1000000000 < f \<longrightarrow> ns = 0)"
    using run le half by blast
qed

theorem uacpi_nanoseconds_bounds_witness:
  "\<exists>ns t. uacpi_kernel_get_nanoseconds_since_boot (blank_kernel\<lparr>device := \<lambda>_. 1000, hpet_frequency := 14318180\<rparr>) = Ok (ns, t)
     \<and> unat ns * 14318180 \<le> 1000000000000"
  using uacpi_nanoseconds_bounds [of 1000 "blank_kernel\<lparr>device := \<lambda>_. 1000, hpet_frequency := 14318180\<rparr>" 14318180] by fastforce

end
