(* ===== verification/Acpi.thy ===== *)
theory Acpi
  imports Madt Uacpi
begin

text \<open>
  The initialisation of the firmware tables, \<open>acpi_init\<close> of \<open>kernel/src/acpi/acpi.c\<close>. The three
  functions of the ACPI library that it calls are parameters; the theorem is about everything up to the
  first call of them.
\<close>

section \<open>Definitions\<close>

definition acpi_set_rsdt :: "unit kprog" where
  "acpi_set_rsdt =
     bind use_xsdt (\<lambda>x.
     bind (gets rsdp) (\<lambda>r.
     if x then bind (read64 (r + 24)) (\<lambda>a. modify (\<lambda>s. s\<lparr>rsdt := a + hhdm s\<rparr>))
     else bind (read32 (r + 16)) (\<lambda>a. modify (\<lambda>s. s\<lparr>rsdt := ucast a + hhdm s\<rparr>))))"

definition acpi_check_fadt :: "unit kprog" where
  "acpi_check_fadt =
     bind (acpi_find_sdt ''FACP'' 0) (\<lambda>fadt.
     bind (if fadt \<noteq> 0 then bind (read32 (fadt + 4)) (\<lambda>len. return (116 \<le> len)) else return False) (\<lambda>long_enough.
     if long_enough then
       bind (read32 (fadt + 28 * 4)) (\<lambda>fadt_flags.
       if fadt_flags AND push_bit 20 1 \<noteq> 0 then panic ''HW reduced ACPI systems not supported'' else return ())
     else return ()))"

definition acpi_map_rsdt :: "unit kprog" where
  "acpi_map_rsdt =
     bind (gets rsdp) (\<lambda>r.
     bind (read8 (r + 15)) (\<lambda>revision.
     bind (printf ''acpi: Revision: %lu'' [PInt (ucast revision)]) (\<lambda>_.
     bind use_xsdt (\<lambda>x.
     bind (printf ''acpi: Uses XSDT? %s'' [PStr (if x then ''true'' else ''false'')]) (\<lambda>_.
     bind (gets rsdt) (\<lambda>t.
     bind (printf ''acpi: RSDT at %lx'' [PInt t]) (\<lambda>_.
     bind (gets hhdm) (\<lambda>off.
     bind (vmm_map_span t (t - off) sizeof_sdt ACPI_FLAGS) (\<lambda>_.
     bind (read32 (t + 4)) (\<lambda>len.
     bind (printf ''acpi: RSDT size: %lx'' [PInt (ucast len)]) (\<lambda>_.
     bind (read32 (t + 4)) (\<lambda>len.
     vmm_map_span t (t - off) (ucast len) ACPI_FLAGS))))))))))))"

definition acpi_init :: "(u64 \<Rightarrow> u32 kprog) \<Rightarrow> u32 kprog \<Rightarrow> (u32 \<Rightarrow> string) \<Rightarrow> unit kprog" where
  "acpi_init uacpi_initialize uacpi_namespace_load uacpi_status_to_string =
     bind (gets (\<lambda>s. rsdp_response (boot s))) (\<lambda>rsdp_resp.
     case rsdp_resp of
       None \<Rightarrow> panic ''ACPI is not supported on this machine''
     | Some address \<Rightarrow>
         if address = 0 then panic ''ACPI is not supported on this machine''
         else
           bind (modify (\<lambda>s. s\<lparr>rsdp := address + hhdm s\<rparr>)) (\<lambda>_.
           bind (gets rsdp) (\<lambda>r.
           bind (gets hhdm) (\<lambda>off.
           bind (vmm_map_span r (r - off) sizeof_rsdp ACPI_FLAGS) (\<lambda>_.
           bind acpi_set_rsdt (\<lambda>_.
           bind acpi_map_rsdt (\<lambda>_.
           bind acpi_check_fadt (\<lambda>_.
           bind madt_init (\<lambda>_.
           bind hpet_init (\<lambda>_.
           bind (uacpi_initialize 0) (\<lambda>status.
           bind (printf ''%s'' [PStr (uacpi_status_to_string status)]) (\<lambda>_.
           bind uacpi_namespace_load (\<lambda>status.
           printf ''%s'' [PStr (uacpi_status_to_string status)])))))))))))))"

section \<open>Steps that read firmware tables\<close>

text \<open>\<open>fw_pre k s T t T'\<close>: such steps, that took at most \<open>k\<close> pages.\<close>

definition fw_pre :: "nat \<Rightarrow> kernel \<Rightarrow> tables \<Rightarrow> kernel \<Rightarrow> tables \<Rightarrow> bool" where
  "fw_pre k s T t T' \<longleftrightarrow> fw_step s T t T' \<and> card (free_pages s) \<le> card (free_pages t) + k \<and> (\<forall>j. madt_vec j t = madt_vec j s)"

lemma fw_pre_refl: "pt_inv s T \<Longrightarrow> fw_pre 0 s T s T"
  by (simp add: fw_pre_def fw_step_refl)

lemma fw_pre_trans: "fw_pre k s T t T' \<Longrightarrow> fw_pre l t T' u T'' \<Longrightarrow> fw_pre (k + l) s T u T''"
  unfolding fw_pre_def using fw_step_trans by fastforce

lemma fw_pre_logged:
  assumes "vm_logged k s T t T' q"
  shows "fw_pre k s T t T'"
proof -
  obtain i m l where "t = s\<lparr>pmm_last_used_index := i, mem := m, klog := l\<rparr>" using vm_logged_state(4) [OF assms] by blast
  then have "madt_vec j t = madt_vec j s" for j by (simp add: madt_vec_def)
  then show ?thesis using vm_logged_fw [OF assms] vm_logged_fields(4) [OF assms] by (simp add: fw_pre_def)
qed

lemma fw_pre_klog: "fw_pre k s T t T' \<Longrightarrow> fw_pre k s T (t\<lparr>klog := l\<rparr>) T'"
  using fw_step_same [OF vm_same_locks(3) [of t l]] vm_same_cong(3) [OF vm_same_locks(3) [of t l]]
  by (simp add: fw_pre_def madt_vec_same pagemap_lock_def)

lemma fw_pre_rsdt: "fw_pre k s T t T' \<Longrightarrow> fw_pre k (s\<lparr>rsdt := r\<rparr>) T (t\<lparr>rsdt := r\<rparr>) T'"
proof -
  have c: "vm_same u (u\<lparr>rsdt := r\<rparr>)" "madt_vec j (u\<lparr>rsdt := r\<rparr>) = madt_vec j u" for u j by (simp_all add: vm_same_def madt_vec_def)
  show "fw_pre k s T t T' \<Longrightarrow> fw_pre k (s\<lparr>rsdt := r\<rparr>) T (t\<lparr>rsdt := r\<rparr>) T'"
    using fw_step_rsdt vm_same_cong(3) [OF c(1) [of s]] vm_same_cong(3) [OF c(1) [of t]] by (simp add: fw_pre_def c(2))
qed

lemma fw_span:
  assumes pre: "fw_pre k s T t T'" and lk: "\<not> pagemap_lock s" and fit: "unat phys + unat len + 8192 < 2 ^ 64" "unat len < 2 ^ 32"
    and free: "k + 4 * span_pages phys len \<le> card (free_pages s)"
  shows "\<exists>u T''. vmm_map_span virt phys len flags t = Ok ((), u) \<and> fw_pre (k + 4 * span_pages phys len) s T u T''"
proof -
  have t: "pt_inv t T'" "\<not> pagemap_lock t" "4 * span_pages phys len \<le> card (free_pages t)"
    using pre lk free by (auto simp: fw_pre_def fw_step_def)
  have "vm_logged 0 t T' t T' []" using vm_logged_klog [OF t(1), of "klog t"] by simp
  from span_logged [OF this t(2) fit, of virt flags] t(3) obtain u T'' where u: "vmm_map_span virt phys len flags t = Ok ((), u)"
    "vm_logged (4 * span_pages phys len) t T' u T'' (vmm_span virt phys len flags)" by auto
  show ?thesis using u(1) fw_pre_trans [OF pre fw_pre_logged [OF u(2)]] by blast
qed

section \<open>The root table\<close>

text \<open>The two globals of the file, once they are set.\<close>

definition acpi_start :: "kernel \<Rightarrow> u64 \<Rightarrow> kernel" where
  "acpi_start s a = (let u = s\<lparr>rsdp := a + hhdm s\<rparr> in
     u\<lparr>rsdt := (if xsdt u then load64 (mem u) (rsdp u + 24) else ucast (load32 (mem u) (rsdp u + 16))) + hhdm u\<rparr>)"

lemma acpi_set_rsdt_Ok:
  assumes pre: "fw_pre k (s\<lparr>rsdp := a + hhdm s\<rparr>) T t T'" and ok: "acpi_ok (acpi_start s a) T" and r: "r = rsdt (acpi_start s a)"
  shows "acpi_set_rsdt t = Ok ((), t\<lparr>rsdt := r\<rparr>)" and "fw_pre k (acpi_start s a) T (t\<lparr>rsdt := r\<rparr>) T'"
proof -
  let ?p = "a + hhdm s"
  have st: "acpi_start s a = s\<lparr>rsdp := ?p, rsdt := r\<rparr>" by (simp add: r acpi_start_def Let_def)
  show pre': "fw_pre k (acpi_start s a) T (t\<lparr>rsdt := r\<rparr>) T'" using fw_pre_rsdt [OF pre, of r] by (simp add: st)
  then have fw: "fw_step (acpi_start s a) T (t\<lparr>rsdt := r\<rparr>) T'" by (simp add: fw_pre_def)
  then have keep: "\<forall>x. in_region ?p 40 x \<longrightarrow> mem t x = mem s x"
    using ok by (auto simp: fw_step_def vm_frame_def acpi_ok_def acpi_byte_def st)
  have "load64 (mem t) (?p + 24) = load64 (mem s) (?p + 24)" "load32 (mem t) (?p + 16) = load32 (mem s) (?p + 16)"
    by (rule load_le_part [OF keep]; simp)+
  moreover have "xsdt t = xsdt (s\<lparr>rsdp := ?p\<rparr>)" "rsdp t = ?p" "hhdm t = hhdm s"
    using acpi_kept_fw(1) [OF ok fw] fw by (simp_all add: xsdt_def st fw_step_def)
  ultimately show "acpi_set_rsdt t = Ok ((), t\<lparr>rsdt := r\<rparr>)"
    by (simp add: acpi_set_rsdt_def bind_Ok [where f = use_xsdt, OF use_xsdt_eq] access_defs r acpi_start_def Let_def run_basic)
qed

lemma acpi_map_rsdt_Ok:
  assumes pre: "fw_pre k s T t T'" and lk: "\<not> pagemap_lock s" and ok: "acpi_ok s T"
    and p: "p = rsdt s - hhdm s" and len: "len = sdt_length s (rsdt s)"
    and fit: "unat p + 36 + 8192 < 2 ^ 64" "unat p + unat len + 8192 < 2 ^ 64"
    and free: "k + 8 + 4 * span_pages p len \<le> card (free_pages s)"
  shows "\<exists>u T''. acpi_map_rsdt t = Ok ((), u) \<and> fw_pre (k + 8 + 4 * span_pages p len) s T u T''"
proof -
  have t: "rsdt t = rsdt s" "hhdm t = hhdm s" using pre by (simp_all add: fw_pre_def fw_step_def)
  let ?t = "t\<lparr>klog := klog t @ [(''acpi: Revision: %lu'', [PInt (ucast (mem t (rsdp t + 15)))]),
    (''acpi: Uses XSDT? %s'', [PStr (if xsdt t then ''true'' else ''false'')]), (''acpi: RSDT at %lx'', [PInt (rsdt s)])]\<rparr>"
  have hdr: "4 * span_pages p 36 \<le> 8" using span_pages_header [of p] by simp
  have small: "unat p + unat (36 :: u64) + 8192 < 2 ^ 64" "unat (36 :: u64) < 2 ^ 32" "k + 4 * span_pages p 36 \<le> card (free_pages s)"
    using fit(1) free hdr by simp_all
  from fw_span [OF fw_pre_klog [OF pre] lk small] obtain u T1 where
    u: "vmm_map_span (rsdt s) p 36 ACPI_FLAGS ?t = Ok ((), u)" "fw_pre (k + 4 * span_pages p 36) s T u T1" by blast
  have pre8: "fw_pre (k + 8) s T u T1" using u(2) hdr by (auto simp: fw_pre_def)
  then have "rsdt_length u = rsdt_length s" "rsdt u = rsdt s" using acpi_kept_fw(2) [OF ok, of u T1] by (simp_all add: fw_pre_def fw_step_def)
  then have "load32 (mem u) (rsdt s + 4) = load32 (mem s) (rsdt s + 4)" by (simp add: rsdt_length_def word_unat_eq_iff)
  then have l: "ucast (load32 (mem u) (rsdt s + 4)) = len" by (simp add: len sdt_length_def)
  let ?u = "u\<lparr>klog := klog u @ [(''acpi: RSDT size: %lx'', [PInt len])]\<rparr>"
  have "unat len < 2 ^ 32" unfolding len by (rule sdt_length_small)
  from fw_span [OF fw_pre_klog [OF pre8] lk fit(2) this free] obtain v T2 where
    v: "vmm_map_span (rsdt s) p len ACPI_FLAGS ?u = Ok ((), v)" "fw_pre (k + 8 + 4 * span_pages p len) s T v T2" by blast
  have "acpi_map_rsdt t = Ok ((), v)"
    using u(1) v(1) by (simp add: acpi_map_rsdt_def access_defs bind_Ok [where f = use_xsdt, OF use_xsdt_eq] t p [symmetric] sizeof_sdt_def
        bind_Ok [where f = "vmm_map_span _ _ _ _"] l xsdt_def)
  then show ?thesis using v(2) by blast
qed

section \<open>The fixed description table\<close>

definition hw_reduced :: "kernel \<Rightarrow> bool" where
  "hw_reduced s \<longleftrightarrow> (case found_sdt s ''FACP'' 0 of None \<Rightarrow> False
     | Some f \<Rightarrow> f \<noteq> 0 \<and> 116 \<le> load32 (mem s) (f + 4) \<and> load32 (mem s) (f + 112) AND push_bit 20 1 \<noteq> 0)"

definition fadt_safe :: "kernel \<Rightarrow> tables \<Rightarrow> bool" where
  "fadt_safe s T \<longleftrightarrow> (\<forall>f x. found_sdt s ''FACP'' 0 = Some f \<and> in_region f (unat (sdt_length s f)) x \<longrightarrow>
     page_of s x \<notin> ran T \<and> page_of s x \<notin> free_pages s \<and> \<not> bitmap_byte s x)"

lemma fadt_agree:
  assumes ag: "fw_agree s t" and f: "found_sdt s ''FACP'' 0 = Some f" and same: "\<forall>x. in_region f (unat (sdt_length s f)) x \<longrightarrow> mem t x = mem s x"
  shows "load32 (mem t) (f + 4) = load32 (mem s) (f + 4)"
    and "116 \<le> load32 (mem s) (f + 4) \<Longrightarrow> load32 (mem t) (f + 112) = load32 (mem s) (f + 112)"
proof -
  have "f \<in> set (sdt_tables s)" using f nth_mem by (fastforce simp: found_sdt_def Let_def split: if_splits)
  from acpi_kept_agree(6) [OF ag this] have e: "(ucast (load32 (mem t) (f + 4)) :: u64) = ucast (load32 (mem s) (f + 4))"
    by (simp add: sdt_length_def)
  have up: "unat (ucast w :: u64) = unat w" for w :: u32
    using unsigned_less [of w, where ?'a = nat] by (simp add: unsigned_ucast_eq take_bit_nat_eq_self)
  show "load32 (mem t) (f + 4) = load32 (mem s) (f + 4)" using arg_cong [OF e, of unat] by (simp add: up word_unat_eq_iff)
  let ?L = "unat (sdt_length s f)"
  have L: "?L = unat (load32 (mem s) (f + 4))" "?L < 2 ^ 32" using sdt_length_small [of s f] by (simp_all add: sdt_length_def up)
  show "load32 (mem t) (f + 112) = load32 (mem s) (f + 112)" if "116 \<le> load32 (mem s) (f + 4)"
    by (rule load_le_part [OF same]) (use that L in \<open>simp_all add: word_le_nat_alt\<close>)
qed

lemma acpi_check_fadt_Ok:
  assumes pre: "fw_pre k s T t T'" and lk: "\<not> pagemap_lock s" and ok: "acpi_ok s T" and safe: "fadt_safe s T"
    and c: "c = 8 * sdt_count s + found_cost s (found_sdt s ''FACP'' 0)" and free: "k + c \<le> card (free_pages s)"
  shows "hw_reduced s \<Longrightarrow> acpi_check_fadt t = Panic ''HW reduced ACPI systems not supported''"
    and "\<not> hw_reduced s \<Longrightarrow> \<exists>u T''. acpi_check_fadt t = Ok ((), u) \<and> fw_pre (k + c) s T u T''"
proof -
  let ?r = "found_sdt s ''FACP'' 0"
  have fw: "fw_step s T t T'" and t: "pt_inv t T'" "\<not> pagemap_lock t" "c \<le> card (free_pages t)"
    using pre lk free by (auto simp: fw_pre_def fw_step_def)
  note kept = found_kept(1,2) [OF ok fw, where sig = "''FACP''" and n = 0] found_kept(3) [OF ok fw]
  have "?r = found_sdt t ''FACP'' (unat 0)" using kept(1) by simp
  from acpi_find_sdt_Ok [OF t(1,2) acpi_ok_kept(1) [OF ok fw] this] obtain u T'' q where
    u: "acpi_find_sdt ''FACP'' 0 t = Ok (case ?r of Some p \<Rightarrow> p | None \<Rightarrow> 0, u)" "vm_logged c t T' u T'' q"
    using t(3) kept by (auto simp: c)
  have pre': "fw_pre (k + c) s T u T''" by (rule fw_pre_trans [OF pre fw_pre_logged [OF u(2)]])
  then have fw': "fw_step s T u T''" by (simp add: fw_pre_def)
  have run: "acpi_check_fadt t = (if hw_reduced s then Panic ''HW reduced ACPI systems not supported'' else Ok ((), u))"
  proof (cases ?r)
    case None
    then show ?thesis using u(1) by (simp add: acpi_check_fadt_def hw_reduced_def bind_Ok run_basic)
  next
    case (Some f)
    have "\<forall>x. in_region f (unat (sdt_length s f)) x \<longrightarrow> mem u x = mem s x"
      using safe Some fw' by (auto simp: fadt_safe_def fw_step_def vm_frame_def)
    note b = fadt_agree [OF fw_step_agree [OF ok fw'] Some this]
    show ?thesis using u(1) Some b
      by (auto simp: acpi_check_fadt_def hw_reduced_def bind_Ok [where f = "acpi_find_sdt _ _"] bind_assoc access_defs panic_def run_basic)
  qed
  show "hw_reduced s \<Longrightarrow> acpi_check_fadt t = Panic ''HW reduced ACPI systems not supported''" using run by simp
  show "\<not> hw_reduced s \<Longrightarrow> \<exists>u T''. acpi_check_fadt t = Ok ((), u) \<and> fw_pre (k + c) s T u T''" using run pre' by auto
qed

section \<open>All of it\<close>

text \<open>A machine whose bootloader gives the address \<open>a\<close> of the root structure: page tables in place, firmware
  tables outside them and outside free memory, the two tables the kernel cannot do without at \<open>p\<close> and
  \<open>h\<close>, empty vectors, and pairs of free pages for page tables and vectors.\<close>

definition acpi_cost :: "kernel \<Rightarrow> u64 \<Rightarrow> u64 \<Rightarrow> nat" where
  "acpi_cost s p h = 8 + (8 + 4 * span_pages (rsdt s - hhdm s) (sdt_length s (rsdt s)))
     + (8 * sdt_count s + found_cost s (found_sdt s ''FACP'' 0)) + (8 * sdt_count s + found_cost s (Some p) + 5)
     + (8 * sdt_count s + sdt_cost s h + 8)"

definition acpi_ready :: "kernel \<Rightarrow> tables \<Rightarrow> u64 \<Rightarrow> u64 \<Rightarrow> u64 list \<Rightarrow> u64 \<Rightarrow> bool" where
  "acpi_ready s T a p es h \<longleftrightarrow> rsdp_response (boot s) = Some a \<and> a \<noteq> 0 \<and> pt_inv s T \<and> \<not> pagemap_lock s \<and> direct_map_ok s
     \<and> (\<forall>k \<in> madt_kinds. madt_vec k s = VECTOR_INITIALISER) \<and> unat a + 40 + 8192 < 2 ^ 64
     \<and> (let s = acpi_start s a in acpi_ok s T \<and> fadt_safe s T \<and> madt_table s T p es \<and> hpet_table s T h
          \<and> unat (rsdt s - hhdm s) + 36 + 8192 < 2 ^ 64
          \<and> unat (rsdt s - hhdm s) + unat (sdt_length s (rsdt s)) + 8192 < 2 ^ 64
          \<and> acpi_cost s p h \<le> card (free_pairs s))"

definition acpi_rest :: "(u64 \<Rightarrow> u32 kprog) \<Rightarrow> u32 kprog \<Rightarrow> (u32 \<Rightarrow> string) \<Rightarrow> unit kprog" where
  "acpi_rest uacpi_initialize uacpi_namespace_load uacpi_status_to_string =
     bind (uacpi_initialize 0) (\<lambda>status.
     bind (printf ''%s'' [PStr (uacpi_status_to_string status)]) (\<lambda>_.
     bind uacpi_namespace_load (\<lambda>status.
     printf ''%s'' [PStr (uacpi_status_to_string status)])))"

text \<open>Up to the fixed description table.\<close>

lemma acpi_tables_mapped:
  assumes rd: "acpi_ready s T a p es h" and s0: "s0 = acpi_start s a"
  obtains k t T' where "acpi_init ui unl str s = bind acpi_check_fadt (\<lambda>_. bind madt_init (\<lambda>_. bind hpet_init (\<lambda>_. acpi_rest ui unl str))) t"
    "fw_pre k s0 T t T'" "k = 8 + (8 + 4 * span_pages (rsdt s0 - hhdm s0) (sdt_length s0 (rsdt s0)))"
proof -
  let ?s = "s\<lparr>rsdp := a + hhdm s\<rparr>" and ?len = "sdt_length s0 (rsdt s0)"
  have d: "rsdp_response (boot s) = Some a" "a \<noteq> 0" "pt_inv s T" "\<not> pagemap_lock s" "unat a + unat (40 :: u64) + 8192 < 2 ^ 64" "acpi_ok s0 T"
    "unat (rsdt s0 - hhdm s0) + 36 + 8192 < 2 ^ 64" "unat (rsdt s0 - hhdm s0) + unat ?len + 8192 < 2 ^ 64" "acpi_cost s0 p h \<le> card (free_pairs s0)"
    using rd s0 by (simp_all add: acpi_ready_def Let_def)
  have room: "acpi_cost s0 p h \<le> card (free_pages s0)" using d(9) card_mono [OF finite_free_pages even_pairs_sub, of s0] by simp
  have c: "vm_same s ?s" "vm_same s s0" by (simp_all add: vm_same_def s0 acpi_start_def Let_def)
  have free: "free_pages ?s = free_pages s0" using vm_same_cong(3) [OF c(1)] vm_same_cong(3) [OF c(2)] by simp
  have inv: "pt_inv ?s T" "\<not> pagemap_lock ?s" "\<not> pagemap_lock s0"
    using d(3,4) vm_same_cong(5) [OF c(1)] by (simp_all add: pagemap_lock_def s0 acpi_start_def Let_def)
  have "(unat a + 40 + 4095) div 4096 \<le> (unat a + 2 * 4096) div 4096" by (intro div_le_mono) simp
  then have sp: "4 * span_pages a 40 \<le> 8" by (simp add: span_pages_def)
  have "0 + 4 * span_pages a 40 \<le> card (free_pages ?s)" unfolding free using sp room by (simp add: acpi_cost_def)
  from fw_span [OF fw_pre_refl [OF inv(1)] inv(2) d(5) _ this, of "a + hhdm s" ACPI_FLAGS] obtain t T1 where
    t: "vmm_map_span (a + hhdm s) a 40 ACPI_FLAGS ?s = Ok ((), t)" "fw_pre (4 * span_pages a 40) ?s T t T1" by auto
  have "fw_pre 8 ?s T t T1" using t(2) sp by (auto simp: fw_pre_def)
  note r = acpi_set_rsdt_Ok [OF this d(6) [unfolded s0] refl, folded s0]
  have "8 + 8 + 4 * span_pages (rsdt s0 - hhdm s0) ?len \<le> card (free_pages s0)" using room by (simp add: acpi_cost_def)
  from acpi_map_rsdt_Ok [OF r(2) inv(3) d(6) refl refl d(7,8) this] obtain u T2 where
    u: "acpi_map_rsdt (t\<lparr>rsdt := rsdt s0\<rparr>) = Ok ((), u)" "fw_pre (8 + 8 + 4 * span_pages (rsdt s0 - hhdm s0) ?len) s0 T u T2" by blast
  have "acpi_init ui unl str s = bind acpi_check_fadt (\<lambda>_. bind madt_init (\<lambda>_. bind hpet_init (\<lambda>_. acpi_rest ui unl str))) u"
    using d(1,2) t(1) r(1) u(1) by (simp add: acpi_init_def acpi_rest_def sizeof_rsdp_def bind_Ok run_basic)
  from that [OF this, of _ T2] u(2) show thesis by (simp add: add.assoc)
qed

text \<open>The two tables the kernel cannot do without.\<close>

lemma acpi_devices_Ok:
  assumes pre: "fw_pre k s T t T'" and lk: "\<not> pagemap_lock s" "direct_map_ok s" and ok: "acpi_ok s T"
    and tabs: "madt_table s T p es" "hpet_table s T h" and vecs: "\<forall>j \<in> madt_kinds. madt_vec j s = VECTOR_INITIALISER"
    and free: "k + (8 * sdt_count s + found_cost s (Some p) + 5) + (8 * sdt_count s + sdt_cost s h + 8) \<le> card (free_pairs s)"
    and r: "r = hpet_address s h + hhdm s" and d: "d = drop_bit 32 (device s (dev_trace s @ [MmioRead 8 r]))"
  shows "\<exists>u T''. bind madt_init (\<lambda>_. hpet_init) t = Ok ((), u) \<and> pt_inv u T'' \<and> \<not> pagemap_lock u
    \<and> (\<forall>j \<in> madt_kinds. page_vec u (madt_vec j u) (madt_lists s es j))
    \<and> hpet u = r \<and> span_mapped r (r - hhdm s) 256 ACPI_FLAGS u \<and> unat (hpet_frequency u) = 10 ^ 15 div unat d"
proof -
  let ?n = "8 * sdt_count s + sdt_cost s h + 8"
  have fw: "fw_step s T t T'" and t: "pt_inv t T'" "\<not> pagemap_lock t" "direct_map_ok t" "\<forall>j \<in> madt_kinds. madt_vec j t = VECTOR_INITIALISER"
    "free_pages t \<subseteq> free_pages s" "card (free_pages s) \<le> card (free_pages t) + k"
    using pre lk vecs by (auto simp: fw_pre_def fw_step_def direct_map_ok_def)
  have fs: "found_sdt s ''APIC'' 0 = Some p" "found_sdt s ''HPET'' 0 = Some h" using tabs by (simp_all add: madt_table_def hpet_table_def)
  note ft = found_kept(2) [OF ok fw, where sig = "''APIC''" and n = 0, unfolded fs] found_kept(3) [OF ok fw]
  have "madt_present ?n t T' p es"
    using t acpi_ok_kept(1) [OF ok fw] madt_table_kept(1) [OF ok fw tabs(1)] ft even_pairs_shrink [OF finite_free_pages t(5,6)] free
    by (simp add: madt_present_def)
  from madt_init_Ok [OF this] obtain u T1 where
    u: "madt_init t = Ok ((), u)" "fw_step t T' u T1" "madt_done ?n u T1 (madt_lists t es)" by blast
  have fu: "fw_step s T u T1" by (rule fw_step_trans [OF fw u(2)])
  then have inv: "pt_inv u T1" "\<not> pagemap_lock u" "hhdm u = hhdm s" "device u = device s" "dev_trace u = dev_trace s"
    using lk(1) by (simp_all add: fw_step_def)
  have lists: "madt_lists t es = madt_lists s es"
    using fw madt_table_kept(2) [OF ok fw tabs(1)] by (auto simp: madt_lists_def ignored_def fw_step_def fun_eq_iff)
  note fk = found_kept(2) [OF ok fu, where sig = "''HPET''" and n = 0, unfolded fs] found_kept(3) [OF ok fu]
  have "?n \<le> card (free_pages u)" using u(3) card_mono [OF finite_free_pages even_pairs_sub, of u] by (simp add: madt_done_def)
  then have hp: "hpet_present u T1 h"
    using inv acpi_ok_kept(1) [OF ok fu] hpet_table_kept(1) [OF ok fu tabs(2)] fk by (simp add: hpet_present_def found_cost_def)
  from hpet_init_Ok [OF this refl refl] obtain v T2 where
    v: "hpet_init u = Ok ((), v)" "fw_step u T1 (v\<lparr>dev_trace := dev_trace u\<rparr>) T2" "hpet v = r" "span_mapped r (r - hhdm s) 256 ACPI_FLAGS v"
    "unat (hpet_frequency v) = 10 ^ 15 div unat d" and ex: "\<exists>i m l tr f. v = u\<lparr>pmm_last_used_index := i, mem := m, klog := l, dev_trace := tr, hpet := r, hpet_frequency := f\<rparr>"
    unfolding hpet_table_kept(2) [OF ok fu tabs(2)] inv(3-5) r [symmetric] d [symmetric] by blast
  let ?v = "v\<lparr>dev_trace := dev_trace u\<rparr>"
  have same: "vm_same ?v v" by (simp add: vm_same_def)
  have mv: "madt_vec j v = madt_vec j u" for j using ex by (auto simp: madt_vec_def)
  have "page_vec v (madt_vec j v) (madt_lists s es j)" if "j \<in> madt_kinds" for j
  proof -
    have "page_vec u (madt_vec j u) (madt_lists s es j)" "vec_pages u (madt_vec j u) \<inter> ran T1 = {}"
      using u(3) that lists by (simp_all add: madt_done_def)
    from page_vec_fw(1) [OF pt_invD(1) [OF inv(1)] this(1) v(2) this(2)] show ?thesis
      using page_vec_mem(1) [of v ?v] vm_same_cong(1-3) [OF same] mv by simp
  qed
  moreover have "pt_inv v T2" "\<not> pagemap_lock v"
    using v(2) inv(2) vm_same_cong(5) [OF same] by (auto simp: fw_step_def pagemap_lock_def)
  ultimately show ?thesis using u(1) v(1,3-5) by (auto simp: bind_Ok)
qed

text \<open>C25: On such a machine \<open>acpi_init\<close> panics when the fixed description table says that the hardware is
  reduced. Otherwise it gets as far as the ACPI library, whatever that does, in a state where the page
  tables are well-formed, the five vectors hold the entries of the interrupt controller table by kind and in
  order, and the event timer is mapped and its frequency known.\<close>

theorem acpi_init_correct:
  assumes rd: "acpi_ready s T a p es h" and s0: "s0 = acpi_start s a"
    and r: "r = hpet_address s0 h + hhdm s0" and d: "d = drop_bit 32 (device s0 (dev_trace s0 @ [MmioRead 8 r]))"
  shows "if hw_reduced s0 then acpi_init ui unl str s = Panic ''HW reduced ACPI systems not supported''
    else \<exists>t T'. acpi_init ui unl str s = acpi_rest ui unl str t \<and> pt_inv t T' \<and> \<not> pagemap_lock t
      \<and> vec_list t (madt_lapics t) = madt_entries (mem s0) 0 es
      \<and> vec_list t (madt_x2apics t) = (if x2apic_mode s0 then madt_entries (mem s0) 9 es else [])
      \<and> vec_list t (madt_io_apics t) = madt_entries (mem s0) 1 es
      \<and> vec_list t (madt_isos t) = madt_entries (mem s0) 2 es
      \<and> vec_list t (madt_nmis t) = madt_entries (mem s0) 4 es
      \<and> (\<forall>k \<in> madt_kinds. vec_wf t (madt_vec k t))
      \<and> hpet t = r \<and> span_mapped r (r - hhdm s0) 256 ACPI_FLAGS t \<and> unat (hpet_frequency t) = 10 ^ 15 div unat d"
proof -
  obtain k t T1 where t: "acpi_init ui unl str s = bind acpi_check_fadt (\<lambda>_. bind madt_init (\<lambda>_. bind hpet_init (\<lambda>_. acpi_rest ui unl str))) t"
    "fw_pre k s0 T t T1" "k = 8 + (8 + 4 * span_pages (rsdt s0 - hhdm s0) (sdt_length s0 (rsdt s0)))"
    by (rule acpi_tables_mapped [OF rd s0])
  have st: "s0 = s\<lparr>rsdp := rsdp s0, rsdt := rsdt s0\<rparr>" by (simp add: s0 acpi_start_def Let_def)
  have f: "pagemap_lock s0 = pagemap_lock s" "direct_map_ok s0 = direct_map_ok s" "madt_vec j s0 = madt_vec j s" for j
    by (subst st, simp add: pagemap_lock_def direct_map_ok_def madt_vec_def)+
  let ?c = "8 * sdt_count s0 + found_cost s0 (found_sdt s0 ''FACP'' 0)"
  have g: "\<not> pagemap_lock s0" "direct_map_ok s0" "acpi_ok s0 T" "fadt_safe s0 T" "madt_table s0 T p es" "hpet_table s0 T h"
    "\<forall>j \<in> madt_kinds. madt_vec j s0 = VECTOR_INITIALISER"
    and free: "k + ?c + (8 * sdt_count s0 + found_cost s0 (Some p) + 5) + (8 * sdt_count s0 + sdt_cost s0 h + 8) \<le> card (free_pairs s0)"
    using rd s0 f t(3) by (simp_all add: acpi_ready_def Let_def acpi_cost_def)
  have room: "k + ?c \<le> card (free_pages s0)" using free card_mono [OF finite_free_pages even_pairs_sub, of s0] by simp
  note chk = acpi_check_fadt_Ok [OF t(2) g(1,3,4) refl room]
  show ?thesis
  proof (cases "hw_reduced s0")
    case True
    then show ?thesis using t(1) chk(1) by (simp add: bind_Panic)
  next
    case False
    then obtain u T2 where u: "acpi_check_fadt t = Ok ((), u)" "fw_pre (k + ?c) s0 T u T2" using chk(2) by blast
    from acpi_devices_Ok [OF u(2) g(1,2,3,5,6,7) free r d] obtain v T3 where
      v: "bind madt_init (\<lambda>_. hpet_init) u = Ok ((), v)" "pt_inv v T3" "\<not> pagemap_lock v"
      "\<forall>j \<in> madt_kinds. page_vec v (madt_vec j v) (madt_lists s0 es j)"
      "hpet v = r" "span_mapped r (r - hhdm s0) 256 ACPI_FLAGS v" "unat (hpet_frequency v) = 10 ^ 15 div unat d" by blast
    have "acpi_init ui unl str s = bind (bind madt_init (\<lambda>_. hpet_init)) (\<lambda>_. acpi_rest ui unl str) u"
      using t(1) u(1) by (simp add: bind_Ok bind_assoc)
    then have "acpi_init ui unl str s = acpi_rest ui unl str v" using v(1) by (simp add: bind_Ok)
    then show ?thesis using False v(2,3,5-7) madt_done_lists [OF v(4)] by auto
  qed
qed

text \<open>The machine of \<open>Madt\<close>, whose bootloader gives its root structure.\<close>

theorem acpi_init_correct_witness:
  "\<exists>s t. acpi_init (\<lambda>_. return 0) (return 0) (\<lambda>_. ''ok'') s = Ok ((), t)
     \<and> vec_list t (madt_lapics t) = [0x50302c] \<and> vec_list t (madt_io_apics t) = [0x503034] \<and> unat (hpet_frequency t) = 14318179"
proof -
  let ?es = "[0x50302c, 0x503034] :: u64 list" and ?i = "acpi_init (\<lambda>_. return 0) (return 0) (\<lambda>_. ''ok'')"
  obtain s r where s: "pt_inv s [[] \<mapsto> r]" "\<not> pagemap_lock s" "hhdm s = 0" "acpi_ok s [[] \<mapsto> r]" "madt_table s [[] \<mapsto> r] 0x503000 ?es"
    "\<forall>k \<in> madt_kinds. madt_vec k s = VECTOR_INITIALISER" "direct_map_ok s" "510 \<le> card (free_pairs s)"
    "sdt_count s = 2" "found_cost s (Some 0x503000) = 4" "sdt_length s 0x504000 = 56" "found_sdt s ''HPET'' 0 = Some 0x504000" "found_sdt s ''FACP'' 0 = None"
    and ents: "madt_entries (mem s) 0 ?es = [0x50302c]" "madt_entries (mem s) 1 ?es = [0x503034]"
    and out: "\<forall>x. 1280 \<le> page_of s x \<longrightarrow> page_of s x \<noteq> r \<and> page_of s x \<notin> free_pages s \<and> \<not> bitmap_byte s x \<and> mem s x = mem (acpi_machine 0 8) x"
    and ex: "\<exists>i m k. s = (acpi_machine 0 8)\<lparr>pmm_last_used_index := i, mem := m, kernel_pagemap := k\<rparr>"
    by (rule acpi_machine_madt) blast
  have m: "mem s x = mem (acpi_machine 0 8) x" if "0x500000 \<le> unat x" for x using out that by (simp add: page_of_def s(3))
  note eval = load64_bytes load32_bytes m acpi_machine_def vm_machine_fields
  have g: "rsdp s = 0x501000" "rsdt s = 0x502000" "rsdp_response (boot s) = Some 0x501000" "device s tr = 69841279 * 2 ^ 32" for tr
    using ex by (auto simp: acpi_machine_def)
  have x: "\<not> xsdt s" "load32 (mem s) 0x501010 = 0x502000" by (simp_all add: xsdt_def g eval)
  have e: "s\<lparr>rsdp := 0x501000\<rparr> = s" "s\<lparr>rsdt := 0x502000\<rparr> = s" using g(1,2) by simp_all
  have st: "acpi_start s 0x501000 = s" by (simp add: acpi_start_def Let_def s(3) e g x)
  have a: "hpet_address s 0x504000 = 0xfed00000" by (simp add: hpet_address_def eval)
  have "page_of s x \<noteq> r \<and> page_of s x \<notin> free_pages s \<and> \<not> bitmap_byte s x" if "in_region 0x504000 52 x" for x
    using near_page [OF that, of s 1284] s(3) out [rule_format, of x] by simp
  then have hp: "hpet_table s [[] \<mapsto> r] 0x504000" by (simp add: hpet_table_def s(3,12) a g(4))
  have len: "sdt_length s 0x502000 = 44" by (simp add: sdt_length_def eval)
  have "acpi_cost s 0x503000 0x504000 = 89" by (simp add: acpi_cost_def s(3,9-11,13) g len found_cost_def [of s None] sdt_cost_def span_pages_def)
  then have rd: "acpi_ready s [[] \<mapsto> r] 0x501000 0x503000 ?es 0x504000"
    using s(1,2,4-8) hp by (simp add: acpi_ready_def st Let_def g s(3) len fadt_safe_def s(13))
  have "\<not> hw_reduced s" by (simp add: hw_reduced_def s(13))
  with acpi_init_correct [OF rd st [symmetric] refl refl, of "\<lambda>_. return 0" "return 0" "\<lambda>_. ''ok''"] obtain t where
    t: "?i s = acpi_rest (\<lambda>_. return 0) (return 0) (\<lambda>_. ''ok'') t" "vec_list t (madt_lapics t) = [0x50302c]" "vec_list t (madt_io_apics t) = [0x503034]"
    "unat (hpet_frequency t) = 14318179" using ents by (auto simp: g(4))
  let ?t = "t\<lparr>klog := klog t @ [(''%s'', [PStr ''ok'']), (''%s'', [PStr ''ok''])]\<rparr>"
  have "?i s = Ok ((), ?t)" unfolding t(1) by (simp add: acpi_rest_def run_basic printf_def)
  then show ?thesis using t(2-4) by (intro exI [of _ s] exI [of _ ?t]) (simp add: vec_list_def)
qed

end
