(* ===== verification/Boot_Acpi.thy ===== *)
theory Boot_Acpi
  imports Boot Acpi
begin

text \<open>
  From the boot to the ACPI library: firmware tables that lie in memory the bootloader does not report as
  usable are still there when the kernel's own page tables are loaded, and \<open>acpi_init\<close> finds them.
\<close>

section \<open>Firmware tables in the loaded image\<close>

definition fw_byte :: "kernel \<Rightarrow> u64 \<Rightarrow> u64 \<Rightarrow> u64 \<Rightarrow> bool" where
  "fw_byte s p h x \<longleftrightarrow> acpi_byte s x \<or> in_region p (unat (madt_length s p)) x \<or> in_region h 52 x
     \<or> (\<exists>f. found_sdt s ''FACP'' 0 = Some f \<and> in_region f (unat (sdt_length s f)) x)"

text \<open>The two tables the kernel cannot do without are at \<open>p\<close>, with the entries \<open>ents\<close>, and at \<open>h\<close>; no table
  is in usable memory or in the display's \<open>V\<close>. There are no page tables of the kernel's own and no free pages yet.\<close>

definition firmware_ok :: "u64 set \<Rightarrow> kernel \<Rightarrow> memmap_entry list \<Rightarrow> u64 \<Rightarrow> u64 list \<Rightarrow> u64 \<Rightarrow> bool" where
  "firmware_ok V s es p ents h \<longleftrightarrow> acpi_ok s Map.empty \<and> madt_table s Map.empty p ents \<and> hpet_table s Map.empty h
     \<and> unat (rsdt s - hhdm s) + 36 + 8192 < 2 ^ 64
     \<and> unat (rsdt s - hhdm s) + unat (sdt_length s (rsdt s)) + 8192 < 2 ^ 64
     \<and> (\<forall>x. fw_byte s p h x \<longrightarrow> \<not> usable_page es (page_of s x) \<and> x \<notin> V)"

text \<open>A later state with the same tables, in which only usable pages are free or hold page tables or the page
  bitmap.\<close>

definition fw_carried :: "u64 set \<Rightarrow> kernel \<Rightarrow> memmap_entry list \<Rightarrow> kernel \<Rightarrow> tables \<Rightarrow> bool" where
  "fw_carried V s es t T \<longleftrightarrow> rsdp t = rsdp s \<and> rsdt t = rsdt s \<and> hhdm t = hhdm s \<and> device t = device s \<and> dev_trace t = dev_trace s
     \<and> (\<forall>x. \<not> usable_page es (page_of s x) \<and> x \<notin> V \<longrightarrow> mem t x = mem s x) \<and> free_pages t \<subseteq> boot_free es \<and> ran T \<subseteq> boot_free es
     \<and> (\<forall>x. bitmap_byte t x \<longrightarrow> usable_page es (page_of s x))"

lemma firmware_safe:
  assumes "firmware_ok V s es p ents h" and c: "fw_carried V s es t T" and "fw_byte s p h x"
  shows "mem t x = mem s x" and "page_of t x \<notin> ran T \<and> page_of t x \<notin> free_pages t \<and> \<not> bitmap_byte t x"
proof -
  have n: "\<not> usable_page es (page_of s x)" "x \<notin> V" using assms by (simp_all add: firmware_ok_def)
  then show "mem t x = mem s x" using c by (simp add: fw_carried_def)
  have "page_of t = page_of s" using c by (simp add: fw_carried_def page_of_def fun_eq_iff)
  then show "page_of t x \<notin> ran T \<and> page_of t x \<notin> free_pages t \<and> \<not> bitmap_byte t x"
    using n c by (auto simp: fw_carried_def boot_free_def)
qed

lemma firmware_agree:
  assumes ok: "firmware_ok V s es p ents h" and c: "fw_carried V s es t T"
  shows "fw_agree s t"
  using firmware_safe(1) [OF assms] ok c by (auto simp: fw_agree_def fw_byte_def firmware_ok_def fw_carried_def acpi_ok_def)

lemma firmware_acpi:
  assumes ok: "firmware_ok V s es p ents h" and c: "fw_carried V s es t T"
  shows "acpi_ok t T" and "fadt_safe t T" and "hw_reduced t = hw_reduced s"
proof -
  note ag = firmware_agree [OF assms] and safe = firmware_safe [OF assms]
  note k = acpi_kept_agree [OF ag] and same = acpi_same [OF ag] and fd = found_agree(1) [OF ag]
  have hh: "hhdm t = hhdm s" using c by (simp add: fw_carried_def)
  have a: "acpi_ok s Map.empty" using ok by (simp add: firmware_ok_def)
  then show "acpi_ok t T" using k(2,6) safe(2) unfolding acpi_ok_def by (auto simp: hh same fw_byte_def)
  have len: "sdt_length t f = sdt_length s f" if "found_sdt s ''FACP'' 0 = Some f" for f
    using that nth_mem by (intro k(6)) (fastforce simp: found_sdt_def Let_def split: if_splits)
  then show "fadt_safe t T" using safe(2) fd by (auto simp: fadt_safe_def fw_byte_def)
  have "load32 (mem t) (f + 4) = load32 (mem s) (f + 4)"
    "116 \<le> load32 (mem s) (f + 4) \<Longrightarrow> load32 (mem t) (f + 112) = load32 (mem s) (f + 112)"
    if f: "found_sdt s ''FACP'' 0 = Some f" for f
    using fadt_agree [OF ag f] safe(1) f by (auto simp: fw_byte_def)
  then show "hw_reduced t = hw_reduced s" by (auto simp: hw_reduced_def fd split: option.splits)
qed

lemma firmware_tables:
  assumes ok: "firmware_ok V s es p ents h" and c: "fw_carried V s es t T"
  shows "madt_table t T p ents" and "madt_entries (mem t) k ents = madt_entries (mem s) k ents" and "hpet_table t T h"
    and "hpet_address t h = hpet_address s h" and "acpi_cost t p h = acpi_cost s p h"
    and "sdt_length t (rsdt s) = sdt_length s (rsdt s)"
proof -
  let ?L = "unat (madt_length s p)"
  note ag = firmware_agree [OF assms] and safe = firmware_safe [OF assms]
  note k = acpi_kept_agree [OF ag] and fd = found_agree [OF ag]
  have tab: "madt_table s Map.empty p ents" "hpet_table s Map.empty h" using ok by (simp_all add: firmware_ok_def)
  have f: "hhdm t = hhdm s" "device t = device s" "dev_trace t = dev_trace s" "rsdt t = rsdt s" using c by (simp_all add: fw_carried_def)
  have same: "\<forall>x. in_region p ?L x \<longrightarrow> mem t x = mem s x" "\<forall>x. in_region h 52 x \<longrightarrow> mem t x = mem s x"
    using safe(1) by (simp_all add: fw_byte_def)
  have L: "44 \<le> ?L" "?L < 2 ^ 32" using tab(1) sdt_length_small [of s p] by (simp_all add: madt_table_def word_le_nat_alt madt_length_def sdt_length_def)
  have "load32 (mem t) (p + 4) = load32 (mem s) (p + 4)" by (rule load_le_part [OF same(1)]) (use L in simp_all)
  then have len: "madt_length t p = madt_length s p" by (simp add: madt_length_def)
  have "p + 44 - p = 44" by simp
  then have u: "unat (p + 44 - p) + (?L - 44) \<le> ?L" using L(1) by (simp only: unat_numeral) simp
  have "madt_layout (mem s) (p + 44) (?L - 44) ents" using tab(1) by (simp add: madt_table_def)
  note lay = madt_layout_kept [OF this same(1) u L(2)]
  show "madt_entries (mem t) k ents = madt_entries (mem s) k ents" by (rule lay(2))
  show "madt_table t T p ents" using tab(1) safe(2) by (simp add: madt_table_def fd(1) len lay fw_byte_def)
  show a: "hpet_address t h = hpet_address s h" unfolding hpet_address_def by (rule load_le_part [OF same(2)]) simp_all
  show "hpet_table t T h" using tab(2) safe(2) by (simp add: hpet_table_def fd(1) f a fw_byte_def)
  have fs: "found_sdt s ''APIC'' 0 = Some p" "found_sdt s ''HPET'' 0 = Some h" using tab by (simp_all add: madt_table_def hpet_table_def)
  have "found_cost t (Some p) = found_cost s (Some p)" "found_cost t (Some h) = found_cost s (Some h)"
    using fd(2) [of "''APIC''" 0] fd(2) [of "''HPET''" 0] fs by simp_all
  moreover have "load32 (mem t) (rsdt s + 4) = load32 (mem s) (rsdt s + 4)" using k(2) f(4) by (simp add: rsdt_length_def word_unat_eq_iff)
  then show "sdt_length t (rsdt s) = sdt_length s (rsdt s)" by (simp add: sdt_length_def)
  ultimately show "acpi_cost t p h = acpi_cost s p h"
    using fd(2) [of "''FACP''" 0] by (simp add: acpi_cost_def f fd(1,3) found_cost_def)
qed

section \<open>After the boot\<close>

lemma acpi_start_fields:
  "rsdp (acpi_start s a) = a + hhdm s" "hhdm (acpi_start s a) = hhdm s" "mem (acpi_start s a) = mem s"
  "device (acpi_start s a) = device s" "dev_trace (acpi_start s a) = dev_trace s" "page_of (acpi_start s a) = page_of s"
  "bitmap_byte (acpi_start s a) = bitmap_byte s" "free_pages (acpi_start s a) = free_pages s"
  "x2apic_mode (acpi_start s a) = x2apic_mode s"
  by (simp_all add: acpi_start_def Let_def page_of_def bitmap_byte_def free_pages_def page_free_def fun_eq_iff)

lemma acpi_start_root:
  assumes "hhdm t = hhdm s" and "\<forall>x. in_region (a + hhdm s) 40 x \<longrightarrow> mem t x = mem s x"
  shows "rsdt (acpi_start t a) = rsdt (acpi_start s a)"
proof -
  let ?p = "a + hhdm s"
  have "load64 (mem t) (?p + 24) = load64 (mem s) (?p + 24)" "load32 (mem t) (?p + 16) = load32 (mem s) (?p + 16)"
    by (rule load_le_part [OF assms(2)]; simp)+
  moreover have "mem t (?p + 15) = mem s (?p + 15)" using assms(2) by (simp add: in_region_def)
  ultimately show ?thesis using assms(1) by (simp add: acpi_start_def Let_def xsdt_def)
qed

text \<open>The boot keeps the firmware tables in place and leaves enough free pages for \<open>acpi_init\<close>.\<close>

lemma boot_acpi_ready:
  assumes i: "i = kernel_image c l" and kept: "boot_kept V K i off es t" and t: "pt_inv t T" "\<not> pagemap_lock t" "ran T \<subseteq> boot_free es" "boot t = boot i"
    and a: "rsdp_response (boot i) = Some a" "a \<noteq> 0" "unat a + 40 + 8192 < 2 ^ 64" and dm: "unat off + 4096 * ram_pages es < 2 ^ 64"
    and s0: "s0 = acpi_start (i\<lparr>hhdm := off, x2apic_mode := x\<rparr>) a" and fw: "firmware_ok V s0 es p ents h"
    and room: "acpi_cost s0 p h + K \<le> card (even_pairs (boot_free es))"
  shows "fw_carried V s0 es (acpi_start (t\<lparr>x2apic_mode := x\<rparr>) a) T" and "acpi_ready (t\<lparr>x2apic_mode := x\<rparr>) T a p ents h"
proof -
  let ?t = "t\<lparr>x2apic_mode := x\<rparr>"
  let ?r = "acpi_start ?t a"
  have vs: "vm_same t ?t" by (simp add: vm_same_def)
  note c = vm_same_cong [OF vs]
  have k: "hhdm t = off" "unat (pmm_avl_page_count t) = ram_pages es" "fw_data t = fw_data i" "free_pages t \<subseteq> boot_free es"
    "card (boot_free es) \<le> card (free_pages t) + K" "\<forall>x. bitmap_byte t x \<longrightarrow> usable_page es (page_of t x)"
    and mem: "\<forall>x. \<not> usable_page es (page_of t x) \<and> x \<notin> V \<longrightarrow> mem t x = mem i x"
    using kept by (simp_all add: boot_kept_def)
  note f0 = acpi_start_fields [of ?t a] and g0 = acpi_start_fields [of "i\<lparr>hhdm := off, x2apic_mode := x\<rparr>" a, folded s0]
  have pg: "page_of s0 = page_of t" using g0(2) k(1) by (simp add: page_of_def fun_eq_iff)
  have "\<not> usable_page es (page_of t y) \<and> y \<notin> V" if "in_region (a + off) 40 y" for y
    using fw that g0(1) unfolding pg [symmetric] by (simp add: firmware_ok_def fw_byte_def acpi_byte_def)
  then have "rsdt ?r = rsdt s0" unfolding s0 using mem k(1) by (intro acpi_start_root) simp_all
  then show carried: "fw_carried V s0 es ?r T"
    using k mem t(3) by (simp add: fw_carried_def f0 g0(1-5) pg c fw_data_def)
  have "madt_vec j ?t = VECTOR_INITIALISER" for j
    using k(3) by (simp add: madt_vec_def fw_data_def i kernel_image_def VECTOR_INITIALISER_def)
  moreover have "boot_free es \<subseteq> {..<ram_pages es}" using usable_page_ram by (auto simp: boot_free_def)
  then have fin: "finite (boot_free es)" by (rule finite_subset) simp
  have "acpi_cost ?r p h \<le> card (free_pairs ?r)"
    using even_pairs_shrink [OF fin k(4,5)] room firmware_tables(5) [OF fw carried] by (simp add: f0 c)
  moreover have "pt_inv ?t T" "\<not> pagemap_lock ?t" "direct_map_ok ?t" using t(1,2) c dm k(1,2) by (simp_all add: pagemap_lock_def direct_map_ok_def)
  moreover have "rsdt ?r = rsdt s0" "hhdm ?r = hhdm s0" using carried by (simp_all add: fw_carried_def)
  ultimately show "acpi_ready ?t T a p ents h"
    using a t(4) fw firmware_acpi(1,2) [OF fw carried] firmware_tables(1,3,6) [OF fw carried]
    by (simp add: acpi_ready_def Let_def firmware_ok_def)
qed

section \<open>A machine with firmware tables\<close>

text \<open>The machine of \<open>Boot\<close> with firmware tables below 1 MiB: the root structure at \<open>0x6000\<close>, the root
  table at \<open>0x7000\<close>, an interrupt controller table with two entries at \<open>0x8000\<close> and the event timer's at
  \<open>0x9000\<close>.\<close>

abbreviation fw_hhdm :: u64 where "fw_hhdm \<equiv> 0xffff800000000000"

definition fw_mem :: memory where
  "fw_mem = (\<lambda>_. 0)(0xffff800000006011 := 0x70, 0xffff800000007004 := 44, 0xffff800000007025 := 0x80, 0xffff800000007029 := 0x90,
     0xffff800000008000 := 0x41, 0xffff800000008001 := 0x50, 0xffff800000008002 := 0x49, 0xffff800000008003 := 0x43, 0xffff800000008004 := 64,
     0xffff80000000802d := 8, 0xffff800000008034 := 1, 0xffff800000008035 := 12,
     0xffff800000009000 := 0x48, 0xffff800000009001 := 0x50, 0xffff800000009002 := 0x45, 0xffff800000009003 := 0x54, 0xffff800000009004 := 56,
     0xffff80000000902e := 0xd0, 0xffff80000000902f := 0xfe)"

definition fw_response :: mp_response where
  "fw_response = \<lparr>bsp_lapic_id = 0, mp_x2apic = False, mp_cpus = []\<rparr>"

definition fw_cpu :: cpu_state where
  "fw_cpu = boot_cpu\<lparr>mem := fw_mem, device := \<lambda>_. 69841279 * 2 ^ 32,
     boot := (boot boot_cpu)\<lparr>rsdp_response := Some 0x6000, mp_boot_response := Some fw_response\<rparr>\<rparr>"

abbreviation fw_machine :: kernel where "fw_machine \<equiv> kernel_image fw_cpu boot_links"

lemma fw_mem_elf:
  assumes "elf_byte (mem boot_machine) 0xffff800000005000 x"
  shows "fw_mem x = 0"
proof -
  have "load16 (\<lambda>_. 0) (0xffff800000005000 + 56) = (0 :: u16)" by (simp add: numeral_eq_Suc)
  then have "in_region 0xffff800000005000 64 x" using assms by (simp add: elf_byte_def boot_machine_fields)
  then have u: "unat (x - 0xffff800000005000) < 64" by (simp add: in_region_def)
  show ?thesis unfolding fw_mem_def using u by auto
qed

lemma fw_machine_bootable:
  "kernel_bootable 1 fw_machine fw_hhdm [boot_entry] \<lparr>physical_base = 0, virtual_base = 0\<rparr>"
  "boot_table_paths fw_machine fw_hhdm [boot_entry] \<lparr>physical_base = 0, virtual_base = 0\<rparr> =
     boot_table_paths boot_machine fw_hhdm [boot_entry] \<lparr>physical_base = 0, virtual_base = 0\<rparr>"
proof -
  let ?ex = "\<lparr>physical_base = 0, virtual_base = 0\<rparr>" and ?file = "0xffff800000005000 :: u64"
  have m: "\<forall>x. elf_byte (mem boot_machine) ?file x \<longrightarrow> mem fw_machine x = mem boot_machine x"
    using fw_mem_elf by (simp add: fw_cpu_def boot_machine_fields)
  note e = elf_same [OF m] and el = elf_loads [OF m]
  have b: "hhdm_response (boot fw_cpu) = hhdm_response (boot boot_cpu)" "memmap_response (boot fw_cpu) = memmap_response (boot boot_cpu)"
    "exec_addr_response (boot fw_cpu) = exec_addr_response (boot boot_cpu)" "executable_file (boot fw_cpu) = executable_file (boot boot_cpu)"
    "framebuffer_response (boot fw_cpu) = framebuffer_response (boot boot_cpu)" "paging_5lvl_response (boot fw_cpu) = paging_5lvl_response (boot boot_cpu)"
    "int_flag fw_cpu = int_flag boot_cpu"
    by (simp_all add: fw_cpu_def)
  have f: "executable_file (boot boot_cpu) = ?file" by (simp add: boot_machine_fields)
  have r: "boot_reqs fw_machine fw_hhdm [boot_entry] ?ex = boot_reqs boot_machine fw_hhdm [boot_entry] ?ex"
    using e(3) by (simp add: boot_reqs_def b f)
  have "table_paths (paging_mode fw_machine) = table_paths (paging_mode boot_machine)"
    by (rule table_paths_mode) (simp add: paging_mode_def b)
  then show t: "boot_table_paths fw_machine fw_hhdm [boot_entry] ?ex = boot_table_paths boot_machine fw_hhdm [boot_entry] ?ex"
    by (simp add: boot_table_paths_def r)
  have "boot_elf fw_machine fw_hhdm [boot_entry] = boot_elf boot_machine fw_hhdm [boot_entry]"
    using el(3,5,6) e(1,2) by (simp add: boot_elf_def b f cong: conj_cong)
  moreover have "boot_room 1 fw_machine fw_hhdm [boot_entry] ?ex = boot_room 1 boot_machine fw_hhdm [boot_entry] ?ex" by (simp add: boot_room_def t)
  moreover have "pmm_bootable fw_machine fw_hhdm [boot_entry] = pmm_bootable boot_machine fw_hhdm [boot_entry]" by (simp add: pmm_bootable_def b)
  ultimately show "kernel_bootable 1 fw_machine fw_hhdm [boot_entry] ?ex"
    using boot_machine_bootable by (simp add: kernel_bootable_def b del: ram_pages.simps)
qed

lemma fw_machine_display:
  "display_ready screen {screen_byte} screen_owns screen_room 1 [0xffff80000000a000] fw_machine fw_hhdm [boot_entry]"
proof -
  have m: "\<forall>x. elf_byte (mem boot_machine) 0xffff800000005000 x \<longrightarrow> mem fw_machine x = mem boot_machine x"
    using fw_mem_elf by (simp add: fw_cpu_def boot_machine_fields)
  have "\<not> elf_byte (mem fw_machine) 0xffff800000005000 screen_byte"
    using boot_machine_screen(2) elf_same [OF m] by simp
  moreover have "framebuffer_response (boot fw_machine) = Some [0xffff80000000a000]" "executable_file (boot fw_machine) = 0xffff800000005000"
    by (simp_all add: fw_cpu_def boot_machine_fields)
  ultimately show ?thesis using boot_machine_screen(1) screen_works by (simp add: display_ready_def boot_machine_free(1))
qed

text \<open>The tables as the kernel will see them.\<close>

definition fw_start :: kernel where
  "fw_start = acpi_start (fw_machine\<lparr>hhdm := fw_hhdm, x2apic_mode := False\<rparr>) 0x6000"

lemma fw_start_fields:
  "mem fw_start = fw_mem" "hhdm fw_start = fw_hhdm" "rsdp fw_start = 0xffff800000006000" "rsdt fw_start = 0xffff800000007000"
  "free_pages fw_start = {}" "\<not> bitmap_byte fw_start x" "device fw_start tr = 69841279 * 2 ^ 32" "\<not> x2apic_mode fw_start" "\<not> xsdt fw_start"
proof -
  let ?u = "fw_machine\<lparr>hhdm := fw_hhdm, x2apic_mode := False, rsdp := 0xffff800000006000\<rparr>"
  have x: "\<not> xsdt ?u" by (simp add: xsdt_def fw_cpu_def fw_mem_def)
  have "load32 fw_mem 0xffff800000006010 = 0x7000" by (simp add: load32_bytes fw_mem_def)
  then show "mem fw_start = fw_mem" "hhdm fw_start = fw_hhdm" and p: "rsdp fw_start = 0xffff800000006000" and "rsdt fw_start = 0xffff800000007000"
    "device fw_start tr = 69841279 * 2 ^ 32" "\<not> x2apic_mode fw_start"
    using x by (simp_all add: fw_start_def acpi_start_def Let_def fw_cpu_def)
  then show "\<not> xsdt fw_start" by (simp add: xsdt_def fw_mem_def)
  show "free_pages fw_start = {}" "\<not> bitmap_byte fw_start x"
    unfolding fw_start_def acpi_start_fields by (simp_all add: free_pages_def bitmap_byte_def)
qed

lemma fw_low_page:
  assumes "in_region (fw_hhdm + of_nat q * 4096) n x" and "n \<le> 4096" and "q < 256"
  shows "\<not> usable_page [boot_entry] (page_of fw_start x)"
proof -
  let ?b = "of_nat q * 4096 :: u64"
  have b: "unat ?b = q * 4096" using unat_of_nat_u64 [of "q * 4096"] assms(3) by simp
  have eq: "x - fw_hhdm = (x - (fw_hhdm + ?b)) + ?b" by simp
  have "unat (x - fw_hhdm) = unat (x - (fw_hhdm + ?b)) + q * 4096"
    unfolding eq using assms b by (subst unat_add_lem [THEN iffD1]) (simp_all add: in_region_def)
  then have "unat (x - fw_hhdm) < (q + 1) * 4096" using assms(1,2) by (simp add: in_region_def)
  then have "unat (x - fw_hhdm) div 4096 < 256" using less_mult_imp_div_less assms(3) by fastforce
  then show ?thesis by (simp add: boot_machine_free(3) page_of_def fw_start_fields)
qed

lemma fw_start_tables:
  "rsdt_length fw_start = 44" "sdt_count fw_start = 2" "sdt_tables fw_start = [0xffff800000008000, 0xffff800000009000]"
  "sdt_length fw_start 0xffff800000008000 = 64" "sdt_length fw_start 0xffff800000009000 = 56" "sdt_length fw_start 0xffff800000007000 = 44"
  "found_sdt fw_start ''APIC'' 0 = Some 0xffff800000008000" "found_sdt fw_start ''HPET'' 0 = Some 0xffff800000009000"
  "found_sdt fw_start ''FACP'' 0 = None" "hpet_address fw_start 0xffff800000009000 = 0xfed00000"
proof -
  note eval = load64_bytes load32_bytes fw_mem_def
  have "load32 fw_mem 0xffff800000007004 = 44" by (simp add: eval)
  then show l: "rsdt_length fw_start = 44" "sdt_length fw_start 0xffff800000007000 = 44" by (simp_all add: rsdt_length_def sdt_length_def fw_start_fields)
  have "load32 fw_mem 0xffff800000007024 = 0x8000" "load32 fw_mem 0xffff800000007028 = 0x9000" by (simp_all add: eval)
  then show tab: "sdt_tables fw_start = [0xffff800000008000, 0xffff800000009000]" and c: "sdt_count fw_start = 2"
    by (simp_all add: sdt_tables_def sdt_count_def l entry_size_def fw_start_fields sdt_at_def upt_rec)
  have "load32 fw_mem 0xffff800000008004 = 64" "load32 fw_mem 0xffff800000009004 = 56" by (simp_all add: eval)
  then show "sdt_length fw_start 0xffff800000008000 = 64" "sdt_length fw_start 0xffff800000009000 = 56" by (simp_all add: sdt_length_def fw_start_fields)
  have "sdt_signature fw_mem 0xffff800000008000 = literal_bytes ''APIC''" "sdt_signature fw_mem 0xffff800000009000 = literal_bytes ''HPET''"
    by (simp_all add: sdt_signature_def literal_bytes_def upt_rec fw_mem_def of_char_def)
  moreover have "literal_bytes ''APIC'' \<noteq> literal_bytes ''HPET''" "literal_bytes ''FACP'' \<noteq> literal_bytes ''APIC''" "literal_bytes ''FACP'' \<noteq> literal_bytes ''HPET''"
    by (simp_all add: literal_bytes_def of_char_def)
  ultimately show "found_sdt fw_start ''APIC'' 0 = Some 0xffff800000008000" "found_sdt fw_start ''HPET'' 0 = Some 0xffff800000009000"
    "found_sdt fw_start ''FACP'' 0 = None"
    by (auto simp: found_sdt_def tab sdt_matches_def fw_start_fields)
  show "hpet_address fw_start 0xffff800000009000 = 0xfed00000" by (simp add: hpet_address_def eval fw_start_fields)
qed

lemma fw_start_ok:
  "firmware_ok {screen_byte} fw_start [boot_entry] 0xffff800000008000 [0xffff80000000802c, 0xffff800000008034] 0xffff800000009000"
  "acpi_cost fw_start 0xffff800000008000 0xffff800000009000 = 89"
proof -
  let ?es = "[0xffff80000000802c, 0xffff800000008034] :: u64 list"
  have len: "madt_length fw_start 0xffff800000008000 = 64" using fw_start_tables(4) by (simp add: madt_length_def sdt_length_def)
  have "\<not> usable_page [boot_entry] (page_of fw_start x)" if "fw_byte fw_start 0xffff800000008000 0xffff800000009000 x" for x
    using that fw_low_page [of 6 40 x] fw_low_page [of 7 44 x] fw_low_page [of 8 36 x] fw_low_page [of 9 36 x] fw_low_page [of 8 64 x] fw_low_page [of 9 52 x]
    by (auto simp: fw_byte_def acpi_byte_def fw_start_fields fw_start_tables len)
  moreover have "\<not> fw_byte fw_start 0xffff800000008000 0xffff800000009000 screen_byte"
    by (auto simp: fw_byte_def acpi_byte_def fw_start_fields fw_start_tables len in_region_def)
  moreover have "acpi_ok fw_start Map.empty"
    by (simp add: acpi_ok_def fw_start_fields fw_start_tables)
  moreover have "length (madt_entries fw_mem k ?es) \<le> 512" for k by (simp add: madt_entries_def)
  then have "madt_table fw_start Map.empty 0xffff800000008000 ?es"
    by (simp add: madt_table_def fw_start_fields fw_start_tables len) (simp add: fw_mem_def)
  moreover have "hpet_table fw_start Map.empty 0xffff800000009000" by (simp add: hpet_table_def fw_start_fields fw_start_tables)
  ultimately show "firmware_ok {screen_byte} fw_start [boot_entry] 0xffff800000008000 ?es 0xffff800000009000"
    by (auto simp: firmware_ok_def fw_start_fields fw_start_tables)
  show "acpi_cost fw_start 0xffff800000008000 0xffff800000009000 = 89"
    by (simp add: acpi_cost_def fw_start_fields fw_start_tables found_cost_def sdt_cost_def span_pages_def)
qed

lemma fw_pairs: "1200 \<le> card (even_pairs (boot_free [boot_entry]))"
proof -
  have "(\<lambda>i. 2 * i) ` {200..<1400} \<subseteq> even_pairs (boot_free [boot_entry])" by (auto simp: even_pairs_def boot_machine_free)
  moreover have "finite (even_pairs (boot_free [boot_entry]))" by (rule finite_subset [OF even_pairs_sub]) (simp add: boot_machine_free)
  ultimately have "card ((\<lambda>i :: nat. 2 * i) ` {200..<1400}) \<le> card (even_pairs (boot_free [boot_entry]))" by (intro card_mono)
  then show ?thesis by (simp add: card_image inj_on_def)
qed

end
