(* ===== verification/Pit.thy ===== *)
theory Pit
  imports Cpu
begin

text \<open>
  The interval timer, \<open>kernel/src/sys/pit.c\<close>: reading its count, setting its reload value and
  choosing the reload value for a frequency.
\<close>

section \<open>Definitions\<close>

definition PIT_DIVIDEND :: u64 where "PIT_DIVIDEND = 1193182"

definition pit_get_current_count :: "u16 kprog" where
  "pit_get_current_count =
     bind (outb 0x43 0) (\<lambda>_.
     bind (inb 0x40) (\<lambda>lo.
     bind (inb 0x40) (\<lambda>hi.
     return (push_bit 8 (ucast hi) OR ucast lo))))"

definition pit_set_reload_value :: "u16 \<Rightarrow> unit kprog" where
  "pit_set_reload_value new_count =
     bind (outb 0x43 0x34) (\<lambda>_.
     bind (outb 0x40 (ucast new_count)) (\<lambda>_.
     outb 0x40 (ucast (drop_bit 8 new_count))))"

definition pit_set_frequency :: "u64 \<Rightarrow> unit kprog" where
  "pit_set_frequency frequency =
     (if frequency = 0 then fault ''division by zero''
      else
        let new_divisor = PIT_DIVIDEND div frequency;
            new_divisor = (if frequency div 2 < PIT_DIVIDEND mod frequency then new_divisor + 1 else new_divisor)
        in pit_set_reload_value (ucast new_divisor))"

section \<open>The reload value\<close>

text \<open>The reload value a sequence of port writes leaves in the timer: after the command byte 0x34 the
  low and the high byte.\<close>

definition reload_value :: "dev_event list \<Rightarrow> nat option" where
  "reload_value es = (case es of
     [PortOut w0 p0 cmd, PortOut w1 p1 lo, PortOut w2 p2 hi] \<Rightarrow>
       if (w0, w1, w2) = (1, 1, 1) \<and> (p0, p1, p2) = (0x43, 0x40, 0x40) \<and> cmd = 0x34
       then Some (unat lo + 256 * unat hi) else None
   | _ \<Rightarrow> None)"

definition reload_events :: "u16 \<Rightarrow> dev_event list" where
  "reload_events c = [PortOut 1 0x43 0x34, PortOut 1 0x40 (ucast (ucast c :: u8)), PortOut 1 0x40 (ucast (ucast (drop_bit 8 c) :: u8))]"

lemma pit_set_reload_value_eq:
  "pit_set_reload_value c s = Ok ((), s\<lparr>dev_trace := dev_trace s @ reload_events c\<rparr>)"
  by (simp add: pit_set_reload_value_def port_defs dev_write_eq reload_events_def)

lemma reload_value_events: "reload_value (reload_events c) = Some (unat c)"
proof -
  have up: "unat (ucast (w :: u8) :: u32) = unat w" for w
    using unsigned_less [of w, where ?'a = nat] by (simp add: unsigned_ucast_eq take_bit_nat_eq_self)
  have down: "unat (ucast (w :: u16) :: u8) = unat w mod 256" for w
    by (simp add: unsigned_ucast_eq take_bit_eq_mod)
  have "unat (drop_bit 8 c) = unat c div 256" by (simp add: unat_drop_bit_eq drop_bit_eq_div unat_div)
  then have "unat (drop_bit 8 c) mod 256 = unat c div 256" using unsigned_less [of c, where ?'a = nat] by simp
  then show ?thesis by (simp add: reload_value_def reload_events_def up down del: of_nat_numeral)
qed

lemma nearest_divisor:
  assumes "0 < f" and "d = (if f div 2 < (n :: nat) mod f then n div f + 1 else n div f)"
  shows "2 * nat \<bar>int n - int (d * f)\<bar> \<le> f"
proof -
  have n: "int n = int (n div f) * int f + int (n mod f)"
    by (metis div_mult_mod_eq of_nat_add of_nat_mult)
  have "n mod f < f" using assms(1) by simp
  then show ?thesis using assms(2) n by (auto simp: algebra_simps)
qed

text \<open>For a frequency of at least 19 Hz the timer gets the reload value nearest to 1193182 divided by
  the frequency, low byte first; below that the divisor does not fit in 16 bits, and its upper bits
  are lost (18 Hz gives 752, which is about 1587 Hz); zero is a division fault.\<close>

theorem pit_set_frequency_nearest:
  "(19 \<le> f \<longrightarrow> (\<exists>es d. pit_set_frequency f s = Ok ((), s\<lparr>dev_trace := dev_trace s @ es\<rparr>)
      \<and> reload_value es = Some d \<and> 2 * nat \<bar>1193182 - int (d * unat f)\<bar> \<le> unat f))
   \<and> pit_set_frequency 18 s = Ok ((), s\<lparr>dev_trace := dev_trace s @ reload_events 752\<rparr>)
   \<and> pit_set_frequency 0 s = Fault ''division by zero''"
proof (intro conjI impI)
  assume f: "19 \<le> f"
  then have fn: "19 \<le> unat f" by (simp add: word_le_nat_alt)
  define d where "d = (if f div 2 < PIT_DIVIDEND mod f then PIT_DIVIDEND div f + 1 else PIT_DIVIDEND div f)"
  have q: "(1193182 :: nat) div unat f \<le> 62799"
    using div_le_mono2 [of 19 "unat f" "1193182 :: nat"] fn by simp
  have uq: "unat (PIT_DIVIDEND div f) = 1193182 div unat f" by (simp add: PIT_DIVIDEND_def unat_div)
  have c: "f div 2 < PIT_DIVIDEND mod f \<longleftrightarrow> unat f div 2 < 1193182 mod unat f"
    by (simp add: PIT_DIVIDEND_def word_less_nat_alt unat_div unat_mod)
  have u1: "unat (PIT_DIVIDEND div f + 1) = unat (PIT_DIVIDEND div f) + 1"
    using q uq by (subst unat_add_lem [THEN iffD1]) simp_all
  have ud: "unat d = (if unat f div 2 < 1193182 mod unat f then 1193182 div unat f + 1 else 1193182 div unat f)"
    using u1 uq c by (simp add: d_def)
  then have "unat d < 65536" using q by (auto split: if_splits)
  then have u: "unat (ucast d :: u16) = unat d" by (simp add: unsigned_ucast_eq take_bit_eq_mod)
  have "2 * nat \<bar>1193182 - int (unat d * unat f)\<bar> \<le> unat f"
    using nearest_divisor [of "unat f" "unat d" 1193182] ud fn by simp
  moreover have "pit_set_frequency f s = Ok ((), s\<lparr>dev_trace := dev_trace s @ reload_events (ucast d)\<rparr>)"
    using f unfolding pit_set_frequency_def d_def [symmetric] Let_def
    by (auto simp: pit_set_reload_value_eq)
  ultimately show "\<exists>es d. pit_set_frequency f s = Ok ((), s\<lparr>dev_trace := dev_trace s @ es\<rparr>)
      \<and> reload_value es = Some d \<and> 2 * nat \<bar>1193182 - int (d * unat f)\<bar> \<le> unat f"
    using reload_value_events [of "ucast d"] u by (metis (no_types))
next
  show "pit_set_frequency 18 s = Ok ((), s\<lparr>dev_trace := dev_trace s @ reload_events 752\<rparr>)"
  proof -
    have d: "(ucast (66288 :: u64) :: u16) = 752" by simp
    have "pit_set_frequency 18 = pit_set_reload_value (ucast (66288 :: u64))"
      by (simp add: pit_set_frequency_def PIT_DIVIDEND_def Let_def)
    then show ?thesis by (simp only: d pit_set_reload_value_eq)
  qed
  show "pit_set_frequency 0 s = Fault ''division by zero''"
    by (simp add: pit_set_frequency_def run_basic)
qed

theorem pit_set_frequency_nearest_witness:
  "\<exists>es d. pit_set_frequency 1000 blank_kernel = Ok ((), blank_kernel\<lparr>dev_trace := dev_trace blank_kernel @ es\<rparr>)
     \<and> reload_value es = Some d \<and> 2 * nat \<bar>1193182 - int (d * 1000)\<bar> \<le> 1000"
  using pit_set_frequency_nearest [of 1000 blank_kernel] by simp

end
