(* ===== verification/Lapic.thy ===== *)
theory Lapic
  imports Pit
begin

text \<open>
  The local interrupt controller and its timer, \<open>kernel/src/sys/lapic.c\<close>, in both of its modes:
  registers mapped in memory (32 bits wide, at an address cached in \<open>lapic_base\<close>) or
  model-specific registers.
\<close>

section \<open>Definitions\<close>

definition LAPIC_REG_ICR0 :: u32 where "LAPIC_REG_ICR0 = 0x300"
definition LAPIC_REG_ICR1 :: u32 where "LAPIC_REG_ICR1 = 0x310"
definition LAPIC_REG_SPURIOUS :: u32 where "LAPIC_REG_SPURIOUS = 0x0f0"
definition LAPIC_REG_EOI :: u32 where "LAPIC_REG_EOI = 0x0b0"
definition LAPIC_REG_TIMER :: u32 where "LAPIC_REG_TIMER = 0x320"
definition LAPIC_REG_TIMER_INITCNT :: u32 where "LAPIC_REG_TIMER_INITCNT = 0x380"
definition LAPIC_REG_TIMER_CURCNT :: u32 where "LAPIC_REG_TIMER_CURCNT = 0x390"
definition LAPIC_REG_TIMER_DIV :: u32 where "LAPIC_REG_TIMER_DIV = 0x3e0"

lemmas lapic_regs = LAPIC_REG_ICR0_def LAPIC_REG_ICR1_def LAPIC_REG_SPURIOUS_def LAPIC_REG_EOI_def
  LAPIC_REG_TIMER_def LAPIC_REG_TIMER_INITCNT_def LAPIC_REG_TIMER_CURCNT_def LAPIC_REG_TIMER_DIV_def

definition xapic_find_base :: "unit kprog" where
  "xapic_find_base =
     bind (gets lapic_base) (\<lambda>b.
     if b = 0 then
       bind (rdmsr 0x1b) (\<lambda>apic_base.
       modify (\<lambda>s. s\<lparr>lapic_base := (apic_base AND 0xfffff000) + hhdm s\<rparr>))
     else return ())"

definition xapic_read :: "u32 \<Rightarrow> u32 kprog" where
  "xapic_read reg =
     bind xapic_find_base (\<lambda>_.
     bind (gets lapic_base) (\<lambda>b.
     bind (dev_read (MmioRead 4 (b + ucast (reg div 4) * 4))) (\<lambda>v.
     return (ucast v))))"

definition x2apic_read :: "u32 \<Rightarrow> u64 kprog" where
  "x2apic_read reg = rdmsr (0x800 + drop_bit 4 reg)"

definition xapic_write :: "u32 \<Rightarrow> u32 \<Rightarrow> unit kprog" where
  "xapic_write reg val =
     bind xapic_find_base (\<lambda>_.
     bind (gets lapic_base) (\<lambda>b.
     dev_write (MmioWrite 4 (b + ucast (reg div 4) * 4) (ucast val))))"

definition x2apic_write :: "u32 \<Rightarrow> u64 \<Rightarrow> unit kprog" where
  "x2apic_write reg val = bind (wrmsr (0x800 + drop_bit 4 reg) val) (\<lambda>_. return ())"

definition lapic_read :: "u32 \<Rightarrow> u64 kprog" where
  "lapic_read reg =
     bind (gets x2apic_mode) (\<lambda>x2.
     if x2 then x2apic_read reg else bind (xapic_read reg) (\<lambda>v. return (ucast v)))"

definition lapic_write :: "u32 \<Rightarrow> u64 \<Rightarrow> unit kprog" where
  "lapic_write reg val =
     bind (gets x2apic_mode) (\<lambda>x2.
     if x2 then x2apic_write reg val else xapic_write reg (ucast val))"

definition lapic_timer_stop :: "unit kprog" where
  "lapic_timer_stop =
     bind (lapic_write LAPIC_REG_TIMER_INITCNT 0) (\<lambda>_.
     lapic_write LAPIC_REG_TIMER (push_bit 16 1))"

text \<open>One measurement of the calibration: the interval timer's ticks while the local timer counts
  \<open>samples\<close> down to zero.\<close>

definition lapic_measure :: "u64 \<Rightarrow> u64 kprog" where
  "lapic_measure samples =
     bind (pit_set_reload_value 0xfff0) (\<lambda>_.
     bind pit_get_current_count (\<lambda>initial_pit_tick.
     bind (lapic_write LAPIC_REG_TIMER_INITCNT samples) (\<lambda>_.
     bind (lapic_read LAPIC_REG_TIMER_CURCNT) (\<lambda>cur.
     bind (whileM (\<lambda>cur s. cur \<noteq> 0) (\<lambda>_. lapic_read LAPIC_REG_TIMER_CURCNT) cur) (\<lambda>_.
     bind pit_get_current_count (\<lambda>final_pit_tick.
     return (ucast initial_pit_tick - ucast final_pit_tick)))))))"

definition lapic_calibrate_step :: "u64 \<Rightarrow> u64 \<times> bool \<Rightarrow> (u64 \<times> bool) kprog" where
  "lapic_calibrate_step cpu_local = (\<lambda>(samples, finished).
     bind (lapic_measure samples) (\<lambda>pit_ticks.
     if pit_ticks < 0x4000 then return (samples * 2, False)
     else
       bind (write64 (cl_lapic_timer_freq cpu_local) (samples div pit_ticks * PIT_DIVIDEND)) (\<lambda>_.
       return (samples, True))))"

definition lapic_timer_calibrate :: "u64 \<Rightarrow> unit kprog" where
  "lapic_timer_calibrate cpu_local =
     bind lapic_timer_stop (\<lambda>_.
     bind (lapic_write LAPIC_REG_TIMER (push_bit 16 1 OR 0xff)) (\<lambda>_.
     bind (lapic_write LAPIC_REG_TIMER_DIV 0b1011) (\<lambda>_.
     bind (cpuid 0x15 0) (\<lambda>regs.
     bind (case regs of
         Some (eax, ebx, ecx, edx) \<Rightarrow> if ecx \<noteq> 0 then bind (write64 (cl_lapic_timer_freq cpu_local) (ucast ecx)) (\<lambda>_. return True)
           else return False
       | None \<Rightarrow> return False) (\<lambda>known.
     bind (if known then return ()
       else
         bind (whileM (\<lambda>(samples, finished) s. \<not> finished) (lapic_calibrate_step cpu_local) (16, False)) (\<lambda>_.
         lapic_timer_stop)) (\<lambda>_.
     bind (read64 (cl_cpu_number cpu_local)) (\<lambda>cpu_number.
     bind (read64 (cl_lapic_timer_freq cpu_local)) (\<lambda>freq.
     printf ''lapic: Timer frequency for CPU %u is %llu'' [PInt cpu_number, PInt freq]))))))))"

definition lapic_timer_oneshot :: "u64 \<Rightarrow> u8 \<Rightarrow> u64 \<Rightarrow> unit kprog" where
  "lapic_timer_oneshot cpu_local vec us =
     bind lapic_timer_stop (\<lambda>_.
     bind (read64 (cl_lapic_timer_freq cpu_local)) (\<lambda>freq.
     let ticks = us * (freq div 1000000) in
     bind (lapic_write LAPIC_REG_TIMER (ucast vec)) (\<lambda>_.
     bind (lapic_write LAPIC_REG_TIMER_DIV 0b1011) (\<lambda>_.
     lapic_write LAPIC_REG_TIMER_INITCNT ticks))))"

definition lapic_enable :: "u8 \<Rightarrow> unit kprog" where
  "lapic_enable spurious_vec =
     bind (lapic_read LAPIC_REG_SPURIOUS) (\<lambda>v.
     lapic_write LAPIC_REG_SPURIOUS (v OR push_bit 8 1 OR ucast spurious_vec))"

definition lapic_eoi :: "unit kprog" where
  "lapic_eoi = lapic_write LAPIC_REG_EOI 0"

definition lapic_send_ipi :: "u32 \<Rightarrow> u8 \<Rightarrow> unit kprog" where
  "lapic_send_ipi lapic_id vec =
     bind (gets x2apic_mode) (\<lambda>x2.
     if x2 then x2apic_write LAPIC_REG_ICR0 (push_bit 32 (ucast lapic_id) OR ucast vec)
     else
       bind (xapic_write LAPIC_REG_ICR1 (push_bit 24 lapic_id)) (\<lambda>_.
       xapic_write LAPIC_REG_ICR0 (ucast vec)))"

section \<open>Register access\<close>

text \<open>Where the registers are mapped, and the state after a write.\<close>

definition xapic_base :: "kernel \<Rightarrow> u64" where
  "xapic_base s = (if lapic_base s = 0 then (msr s 0x1b AND 0xfffff000) + hhdm s else lapic_base s)"

definition reg_write :: "kernel \<Rightarrow> u32 \<Rightarrow> u64 \<Rightarrow> dev_event" where
  "reg_write s reg val =
     (if x2apic_mode s then MsrWrite (0x800 + drop_bit 4 reg) val
      else MmioWrite 4 (xapic_base s + ucast (reg div 4) * 4) (ucast (ucast val :: u32)))"

definition reg_read :: "kernel \<Rightarrow> u32 \<Rightarrow> dev_event" where
  "reg_read s reg =
     (if x2apic_mode s then MsrRead (0x800 + drop_bit 4 reg)
      else MmioRead 4 (xapic_base s + ucast (reg div 4) * 4))"

text \<open>The state after a list of device accesses: the base is cached in the first mode.\<close>

definition accessed :: "kernel \<Rightarrow> dev_event list \<Rightarrow> kernel" where
  "accessed s es = s\<lparr>lapic_base := (if x2apic_mode s then lapic_base s else xapic_base s), dev_trace := dev_trace s @ es\<rparr>"

lemma accessed_fields [simp]:
  "x2apic_mode (accessed s es) = x2apic_mode s" "mem (accessed s es) = mem s" "device (accessed s es) = device s"
  "dev_trace (accessed s es) = dev_trace s @ es" "cpuid_leaf (accessed s es) = cpuid_leaf s" "hhdm (accessed s es) = hhdm s"
  "msr (accessed s es) = msr s" "int_flag (accessed s es) = int_flag s"
  by (simp_all add: accessed_def)

lemma xapic_base_accessed [simp]: "\<not> x2apic_mode s \<Longrightarrow> xapic_base (accessed s es) = xapic_base s"
  by (simp add: accessed_def xapic_base_def)

lemma reg_accessed [simp]:
  "reg_write (accessed s es) = reg_write s" "reg_read (accessed s es) = reg_read s"
  by (auto simp: reg_write_def reg_read_def fun_eq_iff)

lemma accessed_accessed [simp]: "accessed (accessed s es) fs = accessed s (es @ fs)"
  by (cases "x2apic_mode s") (simp_all add: accessed_def xapic_base_def)

definition lapic_reg :: "u32 \<Rightarrow> bool" where
  "lapic_reg reg \<longleftrightarrow> reg < 0x1000"

lemma lapic_reg_msr: "lapic_reg reg \<Longrightarrow> lapic_msr (0x800 + drop_bit 4 reg)"
proof -
  assume "lapic_reg reg"
  then have "unat (drop_bit 4 reg) < 256"
    by (simp add: lapic_reg_def word_less_nat_alt unat_drop_bit_eq drop_bit_eq_div unat_div)
  moreover from this have "unat (0x800 + drop_bit 4 reg) = 0x800 + unat (drop_bit 4 reg)"
    by (subst unat_add_lem [THEN iffD1]) simp_all
  ultimately show ?thesis by (simp add: lapic_msr_def word_le_nat_alt word_less_nat_alt)
qed

lemma lapic_write_eq:
  assumes "lapic_reg reg"
  shows "lapic_write reg val s = Ok ((), accessed s [reg_write s reg val])"
  using lapic_reg_msr [OF assms]
  by (simp add: lapic_write_def x2apic_write_def xapic_write_def xapic_find_base_def wrmsr_eq rdmsr_eq bind_Ok
      run_basic accessed_def reg_write_def xapic_base_def dev_write_eq lapic_msr_def)


definition reg_answer :: "kernel \<Rightarrow> u32 \<Rightarrow> u64" where
  "reg_answer s reg = (let v = device s (dev_trace s @ [reg_read s reg]) in
     if x2apic_mode s then v else ucast (ucast v :: u32))"

lemma lapic_read_eq:
  assumes "lapic_reg reg"
  shows "lapic_read reg s = Ok (reg_answer s reg, accessed s [reg_read s reg])"
  using lapic_reg_msr [OF assms]
  by (simp add: lapic_read_def x2apic_read_def xapic_read_def xapic_find_base_def rdmsr_eq bind_Ok bind_assoc
      run_basic accessed_def reg_read_def reg_answer_def xapic_base_def dev_read_eq lapic_msr_def Let_def)

lemma lapic_regs_ok [simp]:
  "lapic_reg LAPIC_REG_ICR0" "lapic_reg LAPIC_REG_ICR1" "lapic_reg LAPIC_REG_SPURIOUS" "lapic_reg LAPIC_REG_EOI"
  "lapic_reg LAPIC_REG_TIMER" "lapic_reg LAPIC_REG_TIMER_INITCNT" "lapic_reg LAPIC_REG_TIMER_CURCNT"
  "lapic_reg LAPIC_REG_TIMER_DIV"
  by (simp_all add: lapic_reg_def lapic_regs)

lemma bind_lapic [simp]:
  "lapic_reg reg \<Longrightarrow> bind (lapic_write reg val) g s = g () (accessed s [reg_write s reg val])"
  "lapic_reg reg \<Longrightarrow> bind (lapic_read reg) h s = h (reg_answer s reg) (accessed s [reg_read s reg])"
  by (simp_all add: bind_Ok lapic_write_eq lapic_read_eq)

definition stop_events :: "kernel \<Rightarrow> dev_event list" where
  "stop_events s = [reg_write s LAPIC_REG_TIMER_INITCNT 0, reg_write s LAPIC_REG_TIMER 0x10000]"

lemma lapic_timer_stop_eq: "lapic_timer_stop s = Ok ((), accessed s (stop_events s))"
  by (simp add: lapic_timer_stop_def lapic_write_eq stop_events_def)

lemma bind_lapic_timer_stop [simp]: "bind lapic_timer_stop g s = g () (accessed s (stop_events s))"
  by (simp add: bind_Ok lapic_timer_stop_eq)

section \<open>Calibration\<close>

text \<open>The state in which the calibration starts measuring.\<close>

definition calibrating :: "kernel \<Rightarrow> kernel" where
  "calibrating s = accessed s (stop_events s @ [reg_write s LAPIC_REG_TIMER 0x100ff, reg_write s LAPIC_REG_TIMER_DIV 0b1011])"

lemma calibrate_loop:
  assumes "\<forall>i < K. lapic_measure (16 * 2 ^ i) (u i) = Ok (t i, u (Suc i)) \<and> t i < 0x4000"
    and "lapic_measure (16 * 2 ^ K) (u K) = Ok (t K, u (Suc K))" and "0x4000 \<le> t K" and "k \<le> K"
  shows "whileM (\<lambda>(samples, finished) s. \<not> finished) (lapic_calibrate_step p) (16 * 2 ^ k, False) (u k) =
    Ok ((16 * 2 ^ K, True), (u (Suc K))\<lparr>mem := store64 (mem (u (Suc K))) (p + 16) (16 * 2 ^ K div t K * PIT_DIVIDEND)\<rparr>)"
  using assms(4)
proof (induction "K - k" arbitrary: k)
  case 0
  then have k: "k = K" by simp
  have "\<not> t K < 0x4000" using assms(3) by simp
  then have "lapic_calibrate_step p (16 * 2 ^ K, False) (u K) =
      Ok ((16 * 2 ^ K, True), (u (Suc K))\<lparr>mem := store64 (mem (u (Suc K))) (p + 16) (16 * 2 ^ K div t K * PIT_DIVIDEND)\<rparr>)"
    by (simp add: lapic_calibrate_step_def bind_Ok [where f = "lapic_measure _", OF assms(2)] access_defs cl_defs run_basic)
  then show ?case unfolding k
    by (simp add: whileM_unfold [of _ _ "(16 * 2 ^ K, False)"] bind_Ok whileM_unfold [of _ _ "(16 * 2 ^ K, True)"])
next
  case (Suc n)
  then have lt: "k < K" by simp
  have "lapic_calibrate_step p (16 * 2 ^ k, False) (u k) = Ok ((16 * 2 ^ Suc k, False), u (Suc k))"
    using assms(1) lt by (simp add: lapic_calibrate_step_def bind_Ok run_basic)
  moreover have "whileM (\<lambda>(samples, finished) s. \<not> finished) (lapic_calibrate_step p) (16 * 2 ^ Suc k, False) (u (Suc k)) =
    Ok ((16 * 2 ^ K, True), (u (Suc K))\<lparr>mem := store64 (mem (u (Suc K))) (p + 16) (16 * 2 ^ K div t K * PIT_DIVIDEND)\<rparr>)"
    using Suc.hyps(1) [of "Suc k"] Suc.hyps(2) lt by (simp del: power_Suc)
  ultimately show ?case
    by (simp add: whileM_unfold [of _ _ "(16 * 2 ^ k, False)"] bind_Ok del: power_Suc)
qed

text \<open>When the processor does not tell the frequency, the loop decides.\<close>

lemma calibrate_run:
  assumes "\<forall>a b c d. cpuid 0x15 0 s = Ok (Some (a, b, c, d), s) \<longrightarrow> c = 0"
    and loop: "whileM (\<lambda>(samples, finished) s. \<not> finished) (lapic_calibrate_step p) (16, False) (calibrating s) = Ok (l, w)"
  defines "v \<equiv> accessed w (stop_events w)"
  shows "lapic_timer_calibrate p s = Ok ((), v\<lparr>klog := klog v @
      [(''lapic: Timer frequency for CPU %u is %llu'', [PInt (load64 (mem v) p), PInt (load64 (mem v) (p + 16))])]\<rparr>)"
proof -
  obtain r where r: "\<And>s'. cpuid_leaf s' = cpuid_leaf s \<Longrightarrow> cpuid 0x15 0 s' = Ok (r, s')"
    by (rule that [of "if fst (cpuid_leaf s 0 0) < 21 then None else Some (cpuid_leaf s 21 0)"])
      (simp add: cpuid_def run_basic)
  have known: "(case r of Some (a, b, c, d) \<Rightarrow> if c \<noteq> 0 then bind (write64 (cl_lapic_timer_freq p) (ucast c)) (\<lambda>_. return True)
      else return False | None \<Rightarrow> return False) = return False"
    using assms(1) r [of s] by (auto split: option.splits)
  show ?thesis
    using loop unfolding calibrating_def v_def
    by (simp add: lapic_timer_calibrate_def r known bind_Ok access_defs cl_defs printf_def bind_assoc run_basic)
qed

lemma calibrate_value:
  assumes "0x4000 \<le> t" and "K < 50"
  shows "unat ((16 * 2 ^ K :: u64) div t * PIT_DIVIDEND) = 16 * 2 ^ K div unat t * 1193182"
proof -
  have K: "(16 * 2 ^ K :: nat) < 2 ^ 54"
    using power_strict_increasing [OF assms(2), of "2 :: nat"] by simp
  have s: "unat (16 * 2 ^ K :: u64) = 16 * 2 ^ K"
    using K unat_of_nat_u64 [of "16 * 2 ^ K"] by simp
  have t: "0x4000 \<le> unat t" using assms(1) by (simp add: word_le_nat_alt)
  have "(16 * 2 ^ K) div unat t \<le> (16 * 2 ^ K) div 0x4000" using div_le_mono2 [OF _ t, of "16 * 2 ^ K"] by simp
  also have "\<dots> < 2 ^ 40" using K by simp
  finally have "16 * 2 ^ K div unat t * 1193182 < 2 ^ 40 * 1193182" by simp
  then show ?thesis
    using s by (subst unat_mult_lem [THEN iffD1]) (simp_all add: unat_div PIT_DIVIDEND_def)
qed

text \<open>C36: When the processor does not tell the frequency, the first \<open>K\<close> measurements are too short and the
  next one, of 16 times 2 to the \<open>K\<close> counts, is not, calibration returns. It stores the counts per tick of the
  interval timer, rounded down to a whole number, times 1193182: a multiple of the frequency of that timer, at most the measured
  frequency, and less than 1193182 Hz below it.\<close>

theorem lapic_timer_calibrate_bounds:
  assumes "\<forall>a b c d. cpuid 0x15 0 s = Ok (Some (a, b, c, d), s) \<longrightarrow> c = 0"
    and "u 0 = calibrating s" and "K < 50"
    and "\<forall>i < K. lapic_measure (16 * 2 ^ i) (u i) = Ok (t i, u (Suc i)) \<and> t i < 0x4000"
    and "lapic_measure (16 * 2 ^ K) (u K) = Ok (t K, u (Suc K))" and "0x4000 \<le> t K"
  shows "\<exists>v f. lapic_timer_calibrate p s = Ok ((), v) \<and> f = unat (load64 (mem v) (cl_lapic_timer_freq p))
    \<and> f = 16 * 2 ^ K div unat (t K) * 1193182 \<and> 1193182 dvd f
    \<and> f * unat (t K) \<le> 16 * 2 ^ K * 1193182
    \<and> 16 * 2 ^ K * 1193182 < (f + 1193182) * unat (t K)"
proof -
  let ?f = "(16 * 2 ^ K :: u64) div t K * PIT_DIVIDEND"
  let ?w = "(u (Suc K))\<lparr>mem := store64 (mem (u (Suc K))) (p + 16) ?f\<rparr>"
  have loop: "whileM (\<lambda>(samples, finished) s. \<not> finished) (lapic_calibrate_step p) (16, False) (calibrating s) =
      Ok ((16 * 2 ^ K, True), ?w)"
    using calibrate_loop [OF assms(4-6), of 0 p] assms(2) by simp
  let ?v = "accessed ?w (stop_events ?w)"
  have run: "lapic_timer_calibrate p s = Ok ((), ?v\<lparr>klog := klog ?v @
      [(''lapic: Timer frequency for CPU %u is %llu'', [PInt (load64 (mem ?v) p), PInt (load64 (mem ?v) (p + 16))])]\<rparr>)"
    using calibrate_run [OF assms(1) loop] .
  have f: "unat (load64 (mem ?v) (p + 16)) = 16 * 2 ^ K div unat (t K) * 1193182"
    using calibrate_value [OF assms(6,3)] by simp
  have "16 * 2 ^ K div unat (t K) * unat (t K) \<le> 16 * 2 ^ K" by simp
  then have le: "16 * 2 ^ K div unat (t K) * 1193182 * unat (t K) \<le> 16 * 2 ^ K * 1193182"
    using mult_le_mono1 [of "16 * 2 ^ K div unat (t K) * unat (t K)" "16 * 2 ^ K" 1193182] by (simp only: ac_simps)
  have "0 < unat (t K)" using assms(6) by (simp add: word_le_nat_alt)
  then have "16 * 2 ^ K < (16 * 2 ^ K div unat (t K) + 1) * unat (t K)"
    using dividend_less_div_times [of "unat (t K)" "16 * 2 ^ K"] by simp
  then have "16 * 2 ^ K * 1193182 < (16 * 2 ^ K div unat (t K) + 1) * unat (t K) * (1193182 :: nat)" by simp
  then have "16 * 2 ^ K * 1193182 < (16 * 2 ^ K div unat (t K) * 1193182 + 1193182) * unat (t K)"
    by (simp add: algebra_simps)
  with le run f show ?thesis by (auto simp: cl_defs)
qed

text \<open>A machine on which the first measurement sees no tick and the second sees 65520.\<close>

definition port_reads :: "dev_event list \<Rightarrow> nat" where
  "port_reads tr = length (filter (\<lambda>e. case e of PortIn w p \<Rightarrow> True | _ \<Rightarrow> False) tr)"

definition timer_machine :: kernel where
  "timer_machine = blank_kernel\<lparr>x2apic_mode := True,
     device := \<lambda>tr. case last tr of
       PortIn w p \<Rightarrow> [0xf0, 0xff, 0xf0, 0xff, 0xf0, 0xff, 0, 0] ! (port_reads tr - 1) | _ \<Rightarrow> 0\<rparr>"

fun after_measures :: "nat \<Rightarrow> kernel" where
  "after_measures 0 = calibrating timer_machine"
| "after_measures (Suc i) = (case lapic_measure (16 * 2 ^ i) (after_measures i) of
     Ok (t, u) \<Rightarrow> u | _ \<Rightarrow> after_measures i)"

definition pit_answer :: "kernel \<Rightarrow> u16" where
  "pit_answer s = (let tr = dev_trace s @ [PortOut 1 0x43 0, PortIn 1 0x40] in
     push_bit 8 (ucast (ucast (device s (tr @ [PortIn 1 0x40])) :: u8)) OR ucast (ucast (device s tr) :: u8))"

lemma pit_get_current_count_eq:
  "pit_get_current_count s = Ok (pit_answer s,
     s\<lparr>dev_trace := dev_trace s @ [PortOut 1 0x43 0, PortIn 1 0x40, PortIn 1 0x40]\<rparr>)"
  by (simp add: pit_get_current_count_def port_defs pit_answer_def run_basic bind_assoc Let_def)

lemma measure_poll_once:
  assumes "u = accessed (s\<lparr>dev_trace := dev_trace s @ reload_events 0xfff0 @ [PortOut 1 0x43 0, PortIn 1 0x40, PortIn 1 0x40]\<rparr>)
      [reg_write s LAPIC_REG_TIMER_INITCNT n]"
    and "v = accessed u [reg_read u LAPIC_REG_TIMER_CURCNT]" and "reg_answer u LAPIC_REG_TIMER_CURCNT = 0"
  shows "lapic_measure n s = Ok (ucast (pit_answer (s\<lparr>dev_trace := dev_trace s @ reload_events 0xfff0\<rparr>)) - ucast (pit_answer v),
     v\<lparr>dev_trace := dev_trace v @ [PortOut 1 0x43 0, PortIn 1 0x40, PortIn 1 0x40]\<rparr>)"
proof -
  have w: "whileM (\<lambda>cur s. cur \<noteq> 0) (\<lambda>_. lapic_read LAPIC_REG_TIMER_CURCNT) 0 v = Ok (0, v)"
    by (subst whileM_unfold) simp
  have r: "reg_write (s\<lparr>dev_trace := tr\<rparr>) = reg_write s" for tr
    by (simp add: reg_write_def xapic_base_def fun_eq_iff)
  show ?thesis
    using assms(3) w unfolding lapic_measure_def assms(2)
    by (simp add: pit_set_reload_value_eq bind_Ok pit_get_current_count_eq run_basic r assms(1) [simplified, symmetric])
qed

lemma timer_machine_fields [simp]:
  "x2apic_mode timer_machine" "dev_trace timer_machine = []" "mem timer_machine = (\<lambda>_. 0)" "cpuid_leaf timer_machine = (\<lambda>_ _. (0, 0, 0, 0))"
  "device timer_machine = (\<lambda>tr. case last tr of
     PortIn w p \<Rightarrow> [0xf0, 0xff, 0xf0, 0xff, 0xf0, 0xff, 0, 0] ! (port_reads tr - 1) | _ \<Rightarrow> 0)"
  by (simp_all add: timer_machine_def blank_kernel_def kernel_image_def blank_cpu_def)

lemma timer_first: "lapic_measure 16 (after_measures 0) = Ok (0, after_measures (Suc 0))"
  and timer_reads: "port_reads (dev_trace (after_measures (Suc 0))) = 4" "device (after_measures (Suc 0)) = device timer_machine"
    "x2apic_mode (after_measures (Suc 0))"
proof -
  have "\<exists>u. lapic_measure 16 (calibrating timer_machine) = Ok (0, u) \<and> port_reads (dev_trace u) = 4 \<and> device u = device timer_machine \<and> x2apic_mode u"
    by (subst measure_poll_once [OF refl refl])
      (simp_all add: reg_answer_def pit_answer_def calibrating_def stop_events_def reg_write_def reg_read_def reload_events_def
        port_reads_def Let_def)
  then show "lapic_measure 16 (after_measures 0) = Ok (0, after_measures (Suc 0))" "port_reads (dev_trace (after_measures (Suc 0))) = 4"
    "device (after_measures (Suc 0)) = device timer_machine" "x2apic_mode (after_measures (Suc 0))"
    by auto
qed

lemma timer_second: "lapic_measure 32 (after_measures (Suc 0)) = Ok (65520, after_measures (Suc (Suc 0)))"
proof -
  have "\<exists>u. lapic_measure 32 (after_measures (Suc 0)) = Ok (65520, u)"
    using timer_reads
    by (subst measure_poll_once [OF refl refl])
      (simp_all add: reg_answer_def pit_answer_def reg_write_def reg_read_def reload_events_def port_reads_def Let_def del: after_measures.simps)
  then show ?thesis by auto
qed

theorem lapic_timer_calibrate_bounds_witness:
  "\<exists>v. lapic_timer_calibrate 0x1000 timer_machine = Ok ((), v)
     \<and> unat (load64 (mem v) (cl_lapic_timer_freq 0x1000)) = 32 div 65520 * 1193182
     \<and> 32 * 1193182 < (unat (load64 (mem v) (cl_lapic_timer_freq 0x1000)) + 1193182) * 65520"
  using lapic_timer_calibrate_bounds [of timer_machine after_measures 1 "\<lambda>i. if i = 0 then 0 else 65520" "0x1000"]
    timer_first timer_second
  by (simp add: cpuid_def run_basic del: after_measures.simps(2)) blast

section \<open>Timers that can be calibrated\<close>

text \<open>What is asked of a timer, by how the devices answer after a history of accesses: reading the current count of a
  running timer over and over gives zero in the end, and there is a number of counts for which the interval
  timer sees at least \<open>0x4000\<close> ticks until it does.\<close>

definition count_read :: "dev_event \<Rightarrow> bool" where
  "count_read e \<longleftrightarrow> e = MsrRead 0x839 \<or> (\<exists>a. e = MmioRead 4 a)"

definition count_write :: "u64 \<Rightarrow> dev_event \<Rightarrow> bool" where
  "count_write n e \<longleftrightarrow> e = MsrWrite 0x838 n \<or> (\<exists>a. e = MmioWrite 4 a (ucast (ucast n :: u32)))"

definition latch_events :: "dev_event list" where
  "latch_events = [PortOut 1 0x43 0, PortIn 1 0x40, PortIn 1 0x40]"

definition pit_count :: "(dev_event list \<Rightarrow> u64) \<Rightarrow> dev_event list \<Rightarrow> u16" where
  "pit_count d tr = push_bit 8 (ucast (ucast (d (tr @ [PortOut 1 0x43 0, PortIn 1 0x40, PortIn 1 0x40])) :: u8))
     OR ucast (ucast (d (tr @ [PortOut 1 0x43 0, PortIn 1 0x40])) :: u8)"

definition elapsed_ticks :: "(dev_event list \<Rightarrow> u64) \<Rightarrow> dev_event list \<Rightarrow> dev_event list \<Rightarrow> u64" where
  "elapsed_ticks d tr es = ucast (pit_count d (tr @ reload_events 0xfff0))
     - ucast (pit_count d (tr @ reload_events 0xfff0 @ latch_events @ es))"

definition timer_ok :: "(dev_event list \<Rightarrow> u64) \<Rightarrow> bool" where
  "timer_ok d \<longleftrightarrow> (\<forall>tr r. count_read r \<longrightarrow> (\<exists>n. d (tr @ replicate (Suc n) r) = 0))
     \<and> (\<exists>K. \<forall>tr w r n. count_write (16 * 2 ^ K) w \<and> count_read r
          \<and> (ucast (d (tr @ reload_events 0xfff0 @ latch_events @ w # replicate (Suc n) r)) :: u32) = 0
          \<longrightarrow> 0x4000 \<le> elapsed_ticks d tr (w # replicate (Suc n) r))"

lemma pit_answer_count: "pit_answer s = pit_count (device s) (dev_trace s)"
  by (simp add: pit_answer_def pit_count_def Let_def)

lemma reg_count: "count_read (reg_read s LAPIC_REG_TIMER_CURCNT)" "count_write n (reg_write s LAPIC_REG_TIMER_INITCNT n)"
  by (auto simp: count_read_def count_write_def reg_read_def reg_write_def lapic_regs)

text \<open>Polling ends.\<close>

lemma poll_count:
  assumes "r = reg_read s LAPIC_REG_TIMER_CURCNT" and "device s (dev_trace s @ replicate (Suc n) r) = 0"
  shows "\<exists>m. bind (lapic_read LAPIC_REG_TIMER_CURCNT) (whileM (\<lambda>cur s. cur \<noteq> 0) (\<lambda>_. lapic_read LAPIC_REG_TIMER_CURCNT)) s
      = Ok (0, accessed s (replicate (Suc m) r))
    \<and> (ucast (device s (dev_trace s @ replicate (Suc m) r)) :: u32) = 0"
  using assms
proof (induction n arbitrary: s)
  case (0 s)
  then have "reg_answer s LAPIC_REG_TIMER_CURCNT = 0" by (simp add: reg_answer_def Let_def)
  then show ?case using 0 by (intro exI [of _ 0]) (simp add: whileM_unfold [of _ _ 0] bind_Ok lapic_read_eq)
next
  case (Suc n s)
  show ?case
  proof (cases "reg_answer s LAPIC_REG_TIMER_CURCNT = 0")
    case True
    then have "(ucast (device s (dev_trace s @ [r])) :: u32) = 0"
      unfolding Suc.prems(1) by (cases "x2apic_mode s") (simp_all add: reg_answer_def Let_def word_unat_eq_iff unsigned_ucast_eq take_bit_nat_eq_self unsigned_take_bit_eq)
    then show ?thesis using True Suc.prems(1) by (intro exI [of _ 0]) (simp add: whileM_unfold [of _ _ 0] bind_Ok lapic_read_eq)
  next
    case False
    let ?s = "accessed s [r]"
    have "device ?s (dev_trace ?s @ replicate (Suc n) r) = 0" "r = reg_read ?s LAPIC_REG_TIMER_CURCNT" using Suc.prems by simp_all
    from Suc.IH [OF this(2,1)] obtain m where m: "bind (lapic_read LAPIC_REG_TIMER_CURCNT) (whileM (\<lambda>cur s. cur \<noteq> 0) (\<lambda>_. lapic_read LAPIC_REG_TIMER_CURCNT)) ?s
      = Ok (0, accessed ?s (replicate (Suc m) r))" "(ucast (device ?s (dev_trace ?s @ replicate (Suc m) r)) :: u32) = 0" by blast
    then show ?thesis using False Suc.prems(1)
      by (intro exI [of _ "Suc m"]) (simp add: whileM_unfold [of _ _ "reg_answer s LAPIC_REG_TIMER_CURCNT"])
  qed
qed

lemma measure_ends:
  assumes ok: "timer_ok (device s)"
  shows "\<exists>t u w r m. lapic_measure n s = Ok (t, u) \<and> device u = device s \<and> count_write n w \<and> count_read r
    \<and> (ucast (device s (dev_trace s @ reload_events 0xfff0 @ latch_events @ w # replicate (Suc m) r)) :: u32) = 0
    \<and> t = elapsed_ticks (device s) (dev_trace s) (w # replicate (Suc m) r)"
proof -
  let ?w = "reg_write s LAPIC_REG_TIMER_INITCNT n" and ?r = "reg_read s LAPIC_REG_TIMER_CURCNT"
  let ?s1 = "s\<lparr>dev_trace := dev_trace s @ reload_events 0xfff0\<rparr>"
  let ?s2 = "s\<lparr>dev_trace := dev_trace s @ reload_events 0xfff0 @ latch_events\<rparr>"
  let ?s3 = "accessed ?s2 [?w]"
  have rw: "reg_write (s\<lparr>dev_trace := tr\<rparr>) = reg_write s" "reg_read (s\<lparr>dev_trace := tr\<rparr>) = reg_read s" for tr
    by (simp_all add: reg_write_def reg_read_def xapic_base_def fun_eq_iff)
  have "\<exists>k. device s (dev_trace ?s3 @ replicate (Suc k) ?r) = 0" using ok reg_count(1) [of s] unfolding timer_ok_def by blast
  then obtain k where k: "device ?s3 (dev_trace ?s3 @ replicate (Suc k) ?r) = 0" by auto
  have "?r = reg_read ?s3 LAPIC_REG_TIMER_CURCNT" by (simp add: rw)
  from poll_count [OF this k] obtain m where m: "bind (lapic_read LAPIC_REG_TIMER_CURCNT) (whileM (\<lambda>cur s. cur \<noteq> 0) (\<lambda>_. lapic_read LAPIC_REG_TIMER_CURCNT)) ?s3
      = Ok (0, accessed ?s3 (replicate (Suc m) ?r))" "(ucast (device ?s3 (dev_trace ?s3 @ replicate (Suc m) ?r)) :: u32) = 0" by blast
  let ?s4 = "accessed ?s3 (replicate (Suc m) ?r)"
  have "lapic_measure n s = bind (bind (lapic_read LAPIC_REG_TIMER_CURCNT) (whileM (\<lambda>cur s. cur \<noteq> 0) (\<lambda>_. lapic_read LAPIC_REG_TIMER_CURCNT))) (\<lambda>_.
      bind pit_get_current_count (\<lambda>f. return (ucast (pit_answer ?s1) - ucast f))) ?s3"
    by (simp add: lapic_measure_def pit_set_reload_value_eq bind_Ok pit_get_current_count_eq rw bind_assoc latch_events_def)
  also have "\<dots> = bind pit_get_current_count (\<lambda>f. return (ucast (pit_answer ?s1) - ucast f)) ?s4" by (rule bind_Ok) (rule m(1))
  finally have "lapic_measure n s = Ok (ucast (pit_answer ?s1) - ucast (pit_answer ?s4), ?s4\<lparr>dev_trace := dev_trace ?s4 @ latch_events\<rparr>)"
    by (simp add: bind_Ok pit_get_current_count_eq run_basic latch_events_def)
  moreover have "ucast (pit_answer ?s1) - ucast (pit_answer ?s4) = elapsed_ticks (device s) (dev_trace s) (?w # replicate (Suc m) ?r)"
    by (simp add: pit_answer_count elapsed_ticks_def)
  ultimately show ?thesis using m(2) reg_count(1) [of s] reg_count(2) [of n s] by (intro exI conjI) (assumption | simp)+
qed

lemma calibrate_loop_ends:
  assumes K: "\<forall>tr w r n. count_write (16 * 2 ^ K) w \<and> count_read r
      \<and> (ucast (d (tr @ reload_events 0xfff0 @ latch_events @ w # replicate (Suc n) r)) :: u32) = 0
      \<longrightarrow> 0x4000 \<le> elapsed_ticks d tr (w # replicate (Suc n) r)"
    and ok: "timer_ok d" and "device s = d" and "k \<le> K"
  shows "\<exists>l t. whileM (\<lambda>(samples, finished) s. \<not> finished) (lapic_calibrate_step p) (16 * 2 ^ k, False) s = Ok (l, t)"
  using assms(3,4)
proof (induction "K - k" arbitrary: k s rule: less_induct)
  case (less k s)
  obtain t u w r m where t: "lapic_measure (16 * 2 ^ k) s = Ok (t, u)" "device u = d" "count_write (16 * 2 ^ k) w" "count_read r"
    "(ucast (d (dev_trace s @ reload_events 0xfff0 @ latch_events @ w # replicate (Suc m) r)) :: u32) = 0"
    "t = elapsed_ticks d (dev_trace s) (w # replicate (Suc m) r)"
    using measure_ends [of s "16 * 2 ^ k"] ok less.prems(1) by blast
  show ?case
  proof (cases "t < 0x4000")
    case True
    then have lt: "k < K" using K t(3-6) less.prems(2) by (metis le_neq_implies_less not_less)
    have "lapic_calibrate_step p (16 * 2 ^ k, False) s = Ok ((16 * 2 ^ Suc k, False), u)"
      using True by (simp add: lapic_calibrate_step_def bind_Ok [where f = "lapic_measure _", OF t(1)] run_basic)
    moreover obtain l v where "whileM (\<lambda>(samples, finished) s. \<not> finished) (lapic_calibrate_step p) (16 * 2 ^ Suc k, False) u = Ok (l, v)"
      using less.hyps [of "Suc k" u] lt t(2) by fastforce
    ultimately show ?thesis
      by (simp add: whileM_unfold [of _ _ "(16 * 2 ^ k, False)"] bind_Ok del: power_Suc)
  next
    case False
    obtain v where "lapic_calibrate_step p (16 * 2 ^ k, False) s = Ok ((16 * 2 ^ k, True), v)"
      using False by (simp add: lapic_calibrate_step_def bind_Ok [where f = "lapic_measure _", OF t(1)] access_defs run_basic)
    then have "whileM (\<lambda>(samples, finished) s. \<not> finished) (lapic_calibrate_step p) (16 * 2 ^ k, False) s = Ok ((16 * 2 ^ k, True), v)"
      by (simp add: whileM_unfold [of _ _ "(16 * 2 ^ k, False)"] bind_Ok whileM_unfold [of _ _ "(16 * 2 ^ k, True)"])
    then show ?thesis by blast
  qed
qed

lemma timer_ok_calibrates:
  assumes "timer_ok (device s)"
  shows "\<exists>t. lapic_timer_calibrate p s = Ok ((), t)"
proof (cases "\<forall>a b c d. cpuid 0x15 0 s = Ok (Some (a, b, c, d), s) \<longrightarrow> c = 0")
  case True
  have d: "device (calibrating s) = device s" by (simp add: calibrating_def)
  obtain K where "\<forall>tr w r n. count_write (16 * 2 ^ K) w \<and> count_read r
      \<and> (ucast (device s (tr @ reload_events 0xfff0 @ latch_events @ w # replicate (Suc n) r)) :: u32) = 0
      \<longrightarrow> 0x4000 \<le> elapsed_ticks (device s) tr (w # replicate (Suc n) r)"
    using assms unfolding timer_ok_def by blast
  from calibrate_loop_ends [OF this assms d, of 0 p] show ?thesis using calibrate_run [OF True] by fastforce
next
  case False
  then show ?thesis
    by (auto simp: lapic_timer_calibrate_def cpuid_def Let_def access_defs printf_def bind_assoc run_basic split: if_splits)
qed

text \<open>A timer whose count is over at the first look, at which the interval timer has run down.\<close>

definition steady_timer :: "dev_event list \<Rightarrow> u64" where
  "steady_timer tr = (case last tr of
     PortIn w p \<Rightarrow> if \<exists>e \<in> set (takeWhile (\<lambda>e. e \<noteq> PortOut 1 0x43 0x34) (rev tr)). count_read e then 0 else 0xff
   | _ \<Rightarrow> 0)"

lemma polled_since:
  assumes "count_read r" and "P r"
  shows "\<exists>e \<in> set (takeWhile P (replicate n r @ r # es)). count_read e"
  using assms by (induction n) auto

lemma steady_timer_ok: "timer_ok steady_timer"
proof -
  have pi: "\<not> count_read (PortIn w p)" "\<not> count_read (PortOut w p v)" for w p v by (simp_all add: count_read_def)
  have "steady_timer (tr @ replicate (Suc n) r) = 0" if "count_read r" for tr n r
    using that by (auto simp: steady_timer_def count_read_def replicate_append_same [symmetric] simp del: replicate_Suc)
  moreover have "0x4000 \<le> elapsed_ticks steady_timer tr (w # replicate (Suc n) r)" if "count_write (16 * 2 ^ 0) w" "count_read r" for tr w n r
  proof -
    have w: "w \<noteq> PortOut 1 0x43 0x34" using that(1) by (auto simp: count_write_def)
    have r: "r \<noteq> PortOut 1 0x43 0x34" using that(2) by (auto simp: count_read_def)
    have "pit_count steady_timer (tr @ reload_events 0xfff0) = 0xffff"
      by (simp add: pit_count_def steady_timer_def reload_events_def pi)
    moreover have "pit_count steady_timer (tr @ reload_events 0xfff0 @ latch_events @ w # replicate (Suc n) r) = 0"
      using that(2) w r by (simp add: pit_count_def steady_timer_def reload_events_def latch_events_def pi polled_since)
    ultimately show ?thesis by (simp add: elapsed_ticks_def)
  qed
  ultimately show ?thesis unfolding timer_ok_def by blast
qed

section \<open>One-shot timer and interrupts to other processors\<close>

text \<open>For a time and frequency whose product fits in 64 bits, \<open>lapic_timer_oneshot\<close> stops the timer and
  then sets the vector, the divisor and the count, in this order; the count lasts at most the time
  asked for and is short by less than one tick per microsecond.\<close>

theorem lapic_timer_oneshot_program:
  assumes "unat us * unat (load64 (mem s) (cl_lapic_timer_freq p)) < 2 ^ 64"
  shows "\<exists>ticks. lapic_timer_oneshot p vec us s =
      Ok ((), accessed s (stop_events s @ [reg_write s LAPIC_REG_TIMER (ucast vec), reg_write s LAPIC_REG_TIMER_DIV 0b1011,
        reg_write s LAPIC_REG_TIMER_INITCNT ticks]))
    \<and> unat ticks * 1000000 \<le> unat us * unat (load64 (mem s) (cl_lapic_timer_freq p))
    \<and> unat us * unat (load64 (mem s) (cl_lapic_timer_freq p)) \<le> (unat ticks + unat us) * 1000000"
proof -
  let ?f = "load64 (mem s) (cl_lapic_timer_freq p)"
  let ?q = "unat ?f div 1000000"
  have "?q \<le> unat ?f" by simp
  then have "unat us * ?q \<le> unat us * unat ?f" by (rule mult_le_mono2)
  then have "unat us * ?q < 2 ^ 64" using assms by (rule le_less_trans)
  then have u: "unat (us * (?f div 1000000)) = unat us * ?q"
    by (subst unat_mult_lem [THEN iffD1]) (simp_all add: unat_div)
  have "?q * 1000000 \<le> unat ?f" "unat ?f \<le> (?q + 1) * 1000000" by simp_all
  then have "unat us * (?q * 1000000) \<le> unat us * unat ?f" "unat us * unat ?f \<le> unat us * ((?q + 1) * 1000000)"
    by (simp_all only: mult_le_mono2)
  then have "unat (us * (?f div 1000000)) * 1000000 \<le> unat us * unat ?f"
    "unat us * unat ?f \<le> (unat (us * (?f div 1000000)) + unat us) * 1000000"
    unfolding u by (simp_all only: ac_simps distrib_left distrib_right mult_1_left mult_1_right)
  then show ?thesis
    by (intro exI [of _ "us * (?f div 1000000)"])
      (simp add: lapic_timer_oneshot_def access_defs lapic_write_eq Let_def)
qed

theorem lapic_timer_oneshot_program_witness:
  "\<exists>u ticks. lapic_timer_oneshot 0x1000 0x20 50 (timer_machine\<lparr>mem := store64 (\<lambda>_. 0) 0x1010 1000000000\<rparr>) = Ok ((), u)
     \<and> (\<exists>es. dev_trace u = es @ [MsrWrite 0x832 0x20, MsrWrite 0x83e 11, MsrWrite 0x838 ticks])
     \<and> 49950 \<le> unat ticks \<and> unat ticks \<le> 50000"
  using lapic_timer_oneshot_program [of 50 "timer_machine\<lparr>mem := store64 (\<lambda>_. 0) 0x1010 1000000000\<rparr>" "0x1000" "0x20"]
  by (auto simp: cl_defs reg_write_def lapic_regs stop_events_def)

end
