(* ===== verification/Sched.thy ===== *)
theory Sched
  imports Idt Lapic
begin

text \<open>
  The scheduler's interrupt, \<open>kernel/src/proc/sched.c\<close>, and what the entry stubs of
  \<open>sys/isr.S\<close> call: the handler that the table has for the vector.
\<close>

section \<open>Definitions\<close>

definition sched_isr_body :: "unit kprog" where
  "sched_isr_body = lapic_timer_stop"

definition sched_init :: "unit kprog" where
  "sched_init =
     bind idt_allocate_vector (\<lambda>v.
     bind (modify (\<lambda>s. s\<lparr>sched_vector := v\<rparr>)) (\<lambda>_.
     bind (printf ''sched: Interrupt vector is 0x%x'' [PInt (ucast v)]) (\<lambda>_.
     modify (\<lambda>s. s\<lparr>isr_handler_table := (isr_handler_table s)[unat (sched_vector s) := sched_isr]\<rparr>))))"

text \<open>A call of a handler with the interrupt number and the code segment \<open>cs\<close> of the interrupted context; a slot without a
  handler is a call to a null pointer. \<open>run_isr\<close> is what an interrupt of a vector runs.\<close>

definition run_handler :: "isr_handler \<Rightarrow> u32 \<Rightarrow> u64 \<Rightarrow> unit kprog" where
  "run_handler h int_number cs =
     (case h of
        no_handler \<Rightarrow> fault ''call to a null pointer''
      | isr_generic_exception_handler \<Rightarrow> isr_generic_exception int_number cs
      | isr_abort_handler \<Rightarrow> isr_abort
      | sched_isr \<Rightarrow> sched_isr_body)"

definition run_isr :: "u8 \<Rightarrow> u64 \<Rightarrow> unit kprog" where
  "run_isr vector cs =
     bind (gets (\<lambda>s. isr_handler_table s ! unat vector)) (\<lambda>h.
     run_handler h (ucast vector) cs)"

section \<open>Dispatch\<close>

lemma sched_init_Ok:
  assumes "\<not> int_flag s" and "\<not> idt_lock s" and "idt_free_vector s \<noteq> 0xf0" and "v = idt_free_vector s"
  shows "\<exists>l. sched_init s = Ok ((), s\<lparr>idt_free_vector := v + 1, sched_vector := v, klog := l,
    isr_handler_table := (isr_handler_table s)[unat v := sched_isr]\<rparr>)"
  using assms(4) by (simp add: sched_init_def bind_Ok [where f = idt_allocate_vector, OF idt_allocate_vector_Ok [OF assms(1-3)]] run_basic) blast

lemma isr_abort_diverges: "isr_abort s = Diverge"
proof -
  have "whileM (\<lambda>_ s. True) (\<lambda>_. bind halt (\<lambda>_. return ())) () s = Diverge"
    by (rule whileM_stuck) (simp_all add: halt_def run_basic)
  then show ?thesis by (simp add: isr_abort_def bind_Diverge)
qed

definition exception_name :: "nat \<Rightarrow> string" where
  "exception_name v = (if v < 21 then isr_exception_names ! v else ''???'')"

lemma isr_generic_exception_panics:
  "isr_generic_exception (ucast (v :: u8)) cs s = Panic (exception_name (unat v))"
proof -
  have "unat (ucast v :: u32) = unat v"
    using unsigned_less [of v, where ?'a = nat] by (simp add: unsigned_ucast_eq take_bit_nat_eq_self)
  then show ?thesis
    by (simp add: isr_generic_exception_def exception_name_def isr_exception_names_def panic_def Let_def)
qed

text \<open>C30: After \<open>isr_init\<close> and \<open>sched_init\<close> every vector has a handler: an interrupt of the scheduler's
  vector, 33, stops the timer and returns, one of the abort vector never returns, and one of any
  other vector panics with the name of the exception, which is unknown from 21 on.\<close>

theorem interrupts_dispatched:
  assumes "length (idt s) = 256" and "length (isr_handler_table s) = 256" and "\<not> int_flag s" and "\<not> idt_lock s"
    and "idt_free_vector s = 32"
  shows "\<exists>t. bind isr_init (\<lambda>_. sched_init) s = Ok ((), t) \<and> sched_vector t = 33 \<and> isr_abort_vector t = 32
    \<and> (\<forall>v cs. run_isr v cs t =
         (if v = sched_vector t then Ok ((), accessed t (stop_events t))
          else if v = isr_abort_vector t then Diverge
          else Panic (exception_name (unat v))))"
proof -
  obtain u where u: "isr_init s = Ok ((), u)" "isr_abort_vector u = 32" "idt_free_vector u = 33" "\<not> int_flag u" "\<not> idt_lock u"
    "length (isr_handler_table u) = 256"
    and h: "\<forall>v < 256. isr_handler_table u ! v = (if v = 32 then isr_abort_handler else isr_generic_exception_handler)"
    using isr_init_Ok [OF assms] by blast
  have "idt_free_vector u \<noteq> 0xf0" using u(3) by simp
  from sched_init_Ok [OF u(4,5) this u(3) [symmetric]] obtain l where
    t: "sched_init u = Ok ((), u\<lparr>idt_free_vector := 34, sched_vector := 33, klog := l,
      isr_handler_table := (isr_handler_table u)[33 := sched_isr]\<rparr>)" (is "_ = Ok ((), ?t)") by auto
  have "run_isr v cs ?t = (if v = 33 then Ok ((), accessed ?t (stop_events ?t)) else if v = 32 then Diverge
      else Panic (exception_name (unat v)))" for v cs
  proof -
    have lt: "unat v < 256" using unsigned_less [of v, where ?'a = nat] by simp
    have e: "unat v = 33 \<longleftrightarrow> v = 33" "unat v = 32 \<longleftrightarrow> v = 32" by (auto simp: word_unat_eq_iff)
    have "isr_handler_table ?t ! unat v = (if v = 33 then sched_isr else if v = 32 then isr_abort_handler else isr_generic_exception_handler)"
      using h lt u(6) e by (auto simp: nth_list_update)
    then show ?thesis
      by (simp add: run_isr_def run_handler_def sched_isr_body_def lapic_timer_stop_eq isr_abort_diverges isr_generic_exception_panics)
  qed
  then show ?thesis using u(1,2) t by (intro exI [of _ ?t]) (simp add: bind_Ok)
qed

theorem interrupts_dispatched_witness:
  "\<exists>t. bind isr_init (\<lambda>_. sched_init) blank_kernel = Ok ((), t) \<and> run_isr 13 8 t = Panic ''General protection fault''"
proof -
  have "length (idt blank_kernel) = 256" "length (isr_handler_table blank_kernel) = 256" "\<not> int_flag blank_kernel"
    "\<not> idt_lock blank_kernel" "idt_free_vector blank_kernel = 32"
    by (simp_all add: blank_kernel_def)
  from interrupts_dispatched [OF this] obtain t where t: "bind isr_init (\<lambda>_. sched_init) blank_kernel = Ok ((), t)"
    "sched_vector t = 33" "isr_abort_vector t = 32"
    "\<forall>v cs. run_isr v cs t = (if v = sched_vector t then Ok ((), accessed t (stop_events t))
          else if v = isr_abort_vector t then Diverge else Panic (exception_name (unat v)))" by blast
  then show ?thesis by (intro exI [of _ t]) (simp add: exception_name_def isr_exception_names_def)
qed

end
