(* ===== verification/Panic.thy ===== *)
theory Panic
  imports Terminal Lapic Vector
begin

text \<open>
  The body of \<open>panic\<close>, \<open>kernel/src/lib/panic.c\<close>: what happens on the way to the outcome
  \<open>Panic\<close> that the other theories use for a call of it.
\<close>

section \<open>Definitions\<close>

record cpu_ctx =
  ctx_ds :: u64
  ctx_es :: u64
  ctx_rax :: u64
  ctx_rbx :: u64
  ctx_rcx :: u64
  ctx_rdx :: u64
  ctx_rsi :: u64
  ctx_rdi :: u64
  ctx_rbp :: u64
  ctx_r8 :: u64
  ctx_r9 :: u64
  ctx_r10 :: u64
  ctx_r11 :: u64
  ctx_r12 :: u64
  ctx_r13 :: u64
  ctx_r14 :: u64
  ctx_r15 :: u64
  ctx_err :: u64
  ctx_rip :: u64
  ctx_cs :: u64
  ctx_rflags :: u64
  ctx_rsp :: u64
  ctx_ss :: u64

definition panic_stop_cpu :: "u64 \<Rightarrow> unit kprog" where
  "panic_stop_cpu cpu_local =
     bind (read64 cpu_local) (\<lambda>cl.
     bind (read8 (cl_is_bsp cl)) (\<lambda>is_bsp.
     if is_bsp = 0 then
       bind (read32 (cl_lapic_id cl)) (\<lambda>lapic_id.
       bind (gets isr_abort_vector) (\<lambda>vec.
       lapic_send_ipi lapic_id vec))
     else return ()))"

definition panic_stop_others :: "unit kprog" where
  "panic_stop_others =
     bind (gets mp_init_done) (\<lambda>d.
     if d then bind (gets cpu_locals) (\<lambda>v. VECTOR_FOR_EACH v panic_stop_cpu) else return ())"

definition panic_context :: "display \<Rightarrow> cpu_ctx \<Rightarrow> unit kprog" where
  "panic_context env ctx =
     bind read_cr2 (\<lambda>cr2.
     bind read_cr3 (\<lambda>cr3.
     bind (vprintf env ''CPU context at panic: RAX=%016lx RBX=%016lx RCX=%016lx RDX=%016lx RSI=%016lx RDI=%016lx RBP=%016lx RSP=%016lx R08=%016lx R09=%016lx R10=%016lx R11=%016lx R12=%016lx R13=%016lx R14=%016lx R15=%016lx RIP=%016lx RFLAGS=%08lx CS=%04lx DS=%04lx ES=%04lx SS=%04lx CR2=%016lx CR3=%016lx ERR=%016lx''
       (map PInt [ctx_rax ctx, ctx_rbx ctx, ctx_rcx ctx, ctx_rdx ctx, ctx_rsi ctx, ctx_rdi ctx, ctx_rbp ctx, ctx_rsp ctx,
         ctx_r8 ctx, ctx_r9 ctx, ctx_r10 ctx, ctx_r11 ctx, ctx_r12 ctx, ctx_r13 ctx, ctx_r14 ctx, ctx_r15 ctx,
         ctx_rip ctx, ctx_rflags ctx, ctx_cs ctx, ctx_ds ctx, ctx_es ctx, ctx_ss ctx, cr2, cr3, ctx_err ctx])) (\<lambda>_.
     return ())))"

definition halt_loop :: "unit kprog" where
  "halt_loop = bind (whileM (\<lambda>_ s. True) (\<lambda>_. halt) ()) (\<lambda>_. return ())"

definition panic_body :: "display \<Rightarrow> cpu_ctx option \<Rightarrow> string \<Rightarrow> print_arg list \<Rightarrow> unit kprog" where
  "panic_body env ctx fmt args =
     bind (interrupt_toggle False) (\<lambda>_.
     bind (spinlock_acquire panic_lock panic_lock_update) (\<lambda>_.
     bind panic_stop_others (\<lambda>_.
     bind (vprintf env ''*** KERNEL PANIC ***'' []) (\<lambda>_.
     bind (vprintf env ''Reason for panic: '' []) (\<lambda>_.
     bind (vprintf env fmt args) (\<lambda>_.
     bind (vprintf env [CHR 0x0a, CHR 0x0a] []) (\<lambda>_.
     bind (case ctx of None \<Rightarrow> return () | Some c \<Rightarrow> panic_context env c) (\<lambda>_.
     bind (vprintf env ''System halted.'' []) (\<lambda>_.
     halt_loop)))))))))"

section \<open>It never returns\<close>

lemma not_Ok_bind: "(\<And>x t. \<forall>r. g x t \<noteq> Ok r) \<Longrightarrow> bind f g s \<noteq> Ok r"
  by (cases r) (auto simp: bind_eq_Ok_iff)

lemma halt_forever: "halt_loop s = Diverge"
  unfolding halt_loop_def by (rule bind_Diverge, rule whileM_stuck) (simp_all add: halt_def run_basic)

interpretation panicl: lock_cell panic_lock panic_lock_update "\<lambda>_. True"
  by unfold_locales simp_all

text \<open>Whatever the terminal does, \<open>panic\<close> does not return; a panic while another is under way on the
  same processor hangs at the lock, with no output and no interrupt sent.\<close>

theorem panic_never_returns:
  "panic_body env ctx fmt args s \<noteq> Ok r \<and> (panic_lock s \<longrightarrow> panic_body env ctx fmt args s = Diverge)"
proof
  show "panic_body env ctx fmt args s \<noteq> Ok r"
    unfolding panic_body_def by (intro not_Ok_bind allI) (simp add: halt_forever)
  show "panic_lock s \<longrightarrow> panic_body env ctx fmt args s = Diverge"
    by (simp add: panic_body_def bind_Diverge spinlock_acquire_held)
qed

theorem panic_never_returns_witness: "panic_body silent None ''x'' [] (blank_kernel\<lparr>panic_lock := True\<rparr>) = Diverge"
  using panic_never_returns [of silent None "''x''" "[]" "blank_kernel\<lparr>panic_lock := True\<rparr>"] by simp

section \<open>Stopping the other processors\<close>

definition ipi_events :: "kernel \<Rightarrow> u32 \<Rightarrow> u8 \<Rightarrow> dev_event list" where
  "ipi_events s lapic_id vec =
     (if x2apic_mode s then [MsrWrite 0x830 (push_bit 32 (ucast lapic_id) OR ucast vec)]
      else [MmioWrite 4 (xapic_base s + 0x310) (ucast (push_bit 24 lapic_id)), MmioWrite 4 (xapic_base s + 0x300) (ucast (ucast vec :: u32))])"

lemma xapic_write_eq:
  "\<not> x2apic_mode s \<Longrightarrow> xapic_write reg v s = Ok ((), accessed s [MmioWrite 4 (xapic_base s + ucast (reg div 4) * 4) (ucast v)])"
  by (simp add: xapic_write_def xapic_find_base_def rdmsr_eq bind_Ok run_basic accessed_def xapic_base_def dev_write_eq lapic_msr_def)

lemma lapic_send_ipi_eq: "lapic_send_ipi lapic_id vec s = Ok ((), accessed s (ipi_events s lapic_id vec))"
proof (cases "x2apic_mode s")
  case True
  then show ?thesis
    by (simp add: lapic_send_ipi_def x2apic_write_def wrmsr_eq bind_Ok run_basic lapic_regs lapic_msr_def ipi_events_def accessed_def)
next
  case False
  then show ?thesis
    by (simp add: lapic_send_ipi_def xapic_write_eq bind_Ok lapic_regs ipi_events_def)
qed

text \<open>From \<open>s\<close> to \<open>t\<close> the controller was accessed, or nothing happened.\<close>

definition touched :: "kernel \<Rightarrow> dev_event list \<Rightarrow> kernel \<Rightarrow> bool" where
  "touched s es t \<longleftrightarrow> (t = s \<and> es = []) \<or> t = accessed s es"

lemma touched_trans: "touched s es t \<Longrightarrow> touched t fs u \<Longrightarrow> touched s (es @ fs) u"
  by (auto simp: touched_def)

lemma touched_same:
  assumes "touched s es t"
  shows "mem t = mem s" "x2apic_mode t = x2apic_mode s" "xapic_base t = xapic_base s \<or> x2apic_mode s"
    "isr_abort_vector t = isr_abort_vector s" "dev_trace t = dev_trace s @ es"
  using assms by (auto simp: touched_def accessed_def xapic_base_def)

text \<open>The events for a processor, from its record at \<open>cl\<close>.\<close>

definition stop_cpu_events :: "kernel \<Rightarrow> u64 \<Rightarrow> dev_event list" where
  "stop_cpu_events s cl = (if mem s (cl_is_bsp cl) = 0 then ipi_events s (load32 (mem s) (cl_lapic_id cl)) (isr_abort_vector s) else [])"

lemma panic_stop_cpu_run:
  "\<exists>t. panic_stop_cpu p s = Ok ((), t) \<and> touched s (stop_cpu_events s (load64 (mem s) p)) t"
  by (auto simp: panic_stop_cpu_def access_defs lapic_send_ipi_eq stop_cpu_events_def touched_def run_basic)

lemma stop_cpu_events_touched: "touched s es t \<Longrightarrow> stop_cpu_events t = stop_cpu_events s"
  using touched_same [of s es t] by (intro ext) (auto simp: stop_cpu_events_def ipi_events_def)

lemma panic_stop_loop:
  "\<exists>t. foreach panic_stop_cpu ps s = Ok ((), t) \<and> touched s (concat (map (\<lambda>p. stop_cpu_events s (load64 (mem s) p)) ps)) t"
proof (induction ps arbitrary: s)
  case Nil
  then show ?case by (simp add: touched_def run_basic)
next
  case (Cons p ps)
  obtain u where u: "panic_stop_cpu p s = Ok ((), u)" "touched s (stop_cpu_events s (load64 (mem s) p)) u"
    using panic_stop_cpu_run by blast
  obtain t where t: "foreach panic_stop_cpu ps u = Ok ((), t)"
    "touched u (concat (map (\<lambda>p. stop_cpu_events u (load64 (mem u) p)) ps)) t" using Cons.IH by blast
  show ?case
    using u t touched_trans [OF u(2) t(2)] by (simp add: bind_Ok touched_same(1) [OF u(2)] stop_cpu_events_touched [OF u(2)])
qed

text \<open>C35: When the processors are up, a panic sends the abort vector, once each and in order, to exactly
  the processors that are not the boot processor (the panicking one included, if it is not), and
  never to the boot processor.\<close>

theorem panic_stops_application_processors:
  assumes "mp_init_done s"
  shows "\<exists>t. panic_stop_others s = Ok ((), t)
    \<and> dev_trace t = dev_trace s @ concat (map (\<lambda>cl. ipi_events s (load32 (mem s) (cl_lapic_id cl)) (isr_abort_vector s))
        (filter (\<lambda>cl. mem s (cl_is_bsp cl) = 0) (vec_list s (cpu_locals s))))
    \<and> mem t = mem s"
proof -
  let ?v = "cpu_locals s"
  let ?ps = "map (\<lambda>i. vec_data ?v + i * 8) (map of_nat [0..<unat (vec_length ?v)])"
  have fe: "foreach (\<lambda>i. panic_stop_cpu (vec_data ?v + i * 8)) is = foreach panic_stop_cpu (map (\<lambda>i. vec_data ?v + i * 8) is)" for "is"
    by (induction "is") simp_all
  obtain t where t: "foreach panic_stop_cpu ?ps s = Ok ((), t)"
    "touched s (concat (map (\<lambda>p. stop_cpu_events s (load64 (mem s) p)) ?ps)) t" using panic_stop_loop by blast
  have run: "panic_stop_others s = Ok ((), t)"
    using assms t(1) by (simp add: panic_stop_others_def VECTOR_FOR_EACH_def for_range_foreach fe)
  have l: "map (\<lambda>p. load64 (mem s) p) ?ps = vec_list s ?v"
    by (simp add: vec_list_def word_array_def)
  have ev: "concat (map (stop_cpu_events s) cls) = concat (map (\<lambda>cl. ipi_events s (load32 (mem s) (cl_lapic_id cl)) (isr_abort_vector s))
      (filter (\<lambda>cl. mem s (cl_is_bsp cl) = 0) cls))" for cls
    by (induction cls) (auto simp: stop_cpu_events_def)
  have "map (\<lambda>p. stop_cpu_events s (load64 (mem s) p)) ?ps = map (stop_cpu_events s) (vec_list s ?v)"
    unfolding l [symmetric] by simp
  then show ?thesis using run touched_same(1,5) [OF t(2)] ev by auto
qed

text \<open>Two processors, the first of them the boot processor.\<close>

definition two_cpus :: kernel where
  "two_cpus = blank_kernel\<lparr>mp_init_done := True, x2apic_mode := True, isr_abort_vector := 32,
     mem := (store64 (store64 (\<lambda>_. 0) 0x1000 0x2000) 0x1008 0x3000)(0x200c := 1),
     cpu_locals := \<lparr>vec_data = 0x1000, vec_length = 2, vec_capacity = 8\<rparr>\<rparr>"

lemma two_cpus_list: "vec_list two_cpus (cpu_locals two_cpus) = [0x2000, 0x3000]"
proof -
  let ?m = "store64 (store64 (\<lambda>_. 0) 0x1000 0x2000) 0x1008 0x3000"
  have up: "load64 (?m(0x200c := 1)) a = load64 ?m a" if "unat a \<le> 0x1008" for a
  proof (rule load_le_cong)
    fix i :: nat assume i: "i < 8"
    then have "unat (of_nat i :: u64) = i" by (intro unat_of_nat_u64) simp
    then have "unat (a + of_nat i) = unat a + i" using i that by (subst unat_add_lem [THEN iffD1]) simp_all
    then have "a + of_nat i \<noteq> 0x200c" using i that by auto
    then show "(?m(0x200c := 1)) (a + of_nat i) = ?m (a + of_nat i)" by simp
  qed
  have "load64 ?m 0x1000 = 0x2000"
    by (subst load_store_disjoint) (simp_all add: disjoint_regions_def)
  then show ?thesis using up [of "0x1000"] up [of "0x1008"]
    by (simp add: two_cpus_def vec_list_def word_array_def upt_rec)
qed

theorem panic_stops_application_processors_witness:
  "\<exists>t. panic_stop_others two_cpus = Ok ((), t)
     \<and> dev_trace t = ipi_events two_cpus (load32 (mem two_cpus) 0x3008) 32"
proof -
  have "mp_init_done two_cpus" by (simp add: two_cpus_def)
  moreover have "mem two_cpus 0x200c = 1" "mem two_cpus 0x300c = 0" "isr_abort_vector two_cpus = 32" "dev_trace two_cpus = []"
    by (simp_all add: two_cpus_def store_le_def blank_kernel_def blank_cpu_def)
  ultimately show ?thesis
    using panic_stops_application_processors [of two_cpus] by (auto simp: two_cpus_list cl_defs)
qed

end
