(* ===== verification/Stack.thy ===== *)
theory Stack
  imports Alloc
begin

text \<open>
  Bounded stacks of fixed-size items, \<open>kernel/src/lib/stack.c\<close>. \<open>struct stack\<close> is in memory:
  \<open>base\<close> at offset 0, \<open>top\<close> at 8, \<open>type_size\<close> at 16 and \<open>cur_offset\<close> at 24; the items grow
  downward from \<open>top\<close>.
\<close>

section \<open>Definitions\<close>

definition stack_new :: "u64 \<Rightarrow> u64 \<Rightarrow> u64 kprog" where
  "stack_new type_size nmemb =
     bind (alloc 32) (\<lambda>stack.
     bind (alloc (type_size * nmemb)) (\<lambda>data.
     bind (write64 stack data) (\<lambda>_.
     bind (read64 stack) (\<lambda>base.
     bind (write64 (stack + 8) (base + type_size * nmemb)) (\<lambda>_.
     bind (write64 (stack + 16) type_size) (\<lambda>_.
     bind (write64 (stack + 24) (type_size * nmemb)) (\<lambda>_.
     return stack)))))))"

definition stack_push :: "u64 \<Rightarrow> u64 \<Rightarrow> unit kprog" where
  "stack_push stack item =
     bind (read64 (stack + 24)) (\<lambda>cur_offset.
     bind (read64 (stack + 16)) (\<lambda>type_size.
     if cur_offset < type_size then panic ''Stack push overflow''
     else
       bind (write64 (stack + 24) (cur_offset - type_size)) (\<lambda>_.
       bind (read64 stack) (\<lambda>base.
       bind (read64 (stack + 24)) (\<lambda>cur_offset.
       bind (read64 (stack + 16)) (\<lambda>type_size.
       memcpy (base + cur_offset) item type_size))))))"

definition stack_pop :: "u64 \<Rightarrow> u64 \<Rightarrow> unit kprog" where
  "stack_pop stack item =
     bind (read64 stack) (\<lambda>base.
     bind (read64 (stack + 24)) (\<lambda>cur_offset.
     bind (read64 (stack + 8)) (\<lambda>top.
     if base + cur_offset = top then panic ''Stack pop underflow''
     else
       bind (read64 (stack + 16)) (\<lambda>type_size.
       bind (memcpy item (base + cur_offset) type_size) (\<lambda>_.
       bind (read64 (stack + 24)) (\<lambda>cur_offset.
       bind (read64 (stack + 16)) (\<lambda>type_size.
       write64 (stack + 24) (cur_offset + type_size))))))))"

section \<open>Representation\<close>

text \<open>\<open>stack_repr s st base ts cap xs\<close>: the struct at \<open>st\<close> represents the items \<open>xs\<close>, most
  recent first, each \<open>ts\<close> bytes long, in room for \<open>cap\<close> items from \<open>base\<close>; the struct and the
  room do not overlap.\<close>

definition item_bytes :: "memory \<Rightarrow> u64 \<Rightarrow> nat \<Rightarrow> u8 list" where
  "item_bytes m a n = map (\<lambda>i. m (a + of_nat i)) [0..<n]"

definition apart :: "u64 \<Rightarrow> nat \<Rightarrow> u64 \<Rightarrow> nat \<Rightarrow> bool" where
  "apart a n b k \<longleftrightarrow> (\<forall>x. in_region a n x \<longrightarrow> \<not> in_region b k x)"

definition stack_repr :: "kernel \<Rightarrow> u64 \<Rightarrow> u64 \<Rightarrow> nat \<Rightarrow> nat \<Rightarrow> u8 list list \<Rightarrow> bool" where
  "stack_repr s st base ts cap xs \<longleftrightarrow>
     0 < ts \<and> ts < 2 ^ 64 \<and> cap * ts < 2 ^ 64 \<and> length xs \<le> cap \<and> apart st 32 base (cap * ts)
     \<and> load64 (mem s) st = base \<and> load64 (mem s) (st + 8) = base + of_nat (cap * ts)
     \<and> load64 (mem s) (st + 16) = of_nat ts
     \<and> load64 (mem s) (st + 24) = of_nat ((cap - length xs) * ts)
     \<and> xs = map (\<lambda>i. item_bytes (mem s) (base + of_nat ((cap - length xs + i) * ts)) ts) [0..<length xs]"

lemma field_regions:
  assumes "k = 0 \<or> k = 8 \<or> k = 16 \<or> k = 24" and "in_region (st + k) 8 x"
  shows "in_region st 32 x"
  using assms by (intro in_region_sub [of st k 8 x 32]) auto

lemma field_store:
  "load64 (store64 m (st + 24) v) st = load64 m st"
  "load64 (store64 m (st + 24) v) (st + 8) = load64 m (st + 8)"
  "load64 (store64 m (st + 24) v) (st + 16) = load64 m (st + 16)"
  by (simp_all add: load_store_disjoint disjoint_regions_def)

lemma fields_kept:
  assumes "\<And>x. in_region st 32 x \<Longrightarrow> m' x = m x"
  shows "load64 m' st = load64 m st" "load64 m' (st + 8) = load64 m (st + 8)"
    "load64 m' (st + 16) = load64 m (st + 16)" "load64 m' (st + 24) = load64 m (st + 24)"
  using assms field_regions [of 0 st] field_regions [of 8 st] field_regions [of 16 st] field_regions [of 24 st]
  by (auto intro!: load_le_cong_region)

lemma item_bytes_cong:
  assumes "\<And>x. in_region a n x \<Longrightarrow> m' x = m x" and "n \<le> 2 ^ 64"
  shows "item_bytes m' a n = item_bytes m a n"
  using assms by (simp add: item_bytes_def in_region_offset)

section \<open>Pushing and popping\<close>

lemma stack_offset:
  assumes "stack_repr s st base ts cap xs"
  shows "unat (load64 (mem s) (st + 24)) = (cap - length xs) * ts" and "unat (load64 (mem s) (st + 16)) = ts"
    and "(cap - length xs) * ts < 2 ^ 64"
proof -
  have c: "cap * ts < 2 ^ 64" and ts: "ts < 2 ^ 64" and ld: "load64 (mem s) (st + 24) = of_nat ((cap - length xs) * ts)"
    "load64 (mem s) (st + 16) = of_nat ts"
    using assms by (simp_all add: stack_repr_def)
  show lt: "(cap - length xs) * ts < 2 ^ 64"
    using c by (meson diff_le_self le_less_trans mult_le_mono1)
  then show "unat (load64 (mem s) (st + 24)) = (cap - length xs) * ts"
    unfolding ld by (rule unat_of_nat_u64)
  show "unat (load64 (mem s) (st + 16)) = ts" unfolding ld by (rule unat_of_nat_u64 [OF ts])
qed

lemma memcpy_item:
  assumes "apart dst ts src ts" and ts: "ts < 2 ^ 64"
  shows "memcpy_mem m dst src (of_nat ts) = (\<lambda>x. if in_region dst ts x then m (src + (x - dst)) else m x)"
    and "(\<And>y. in_region dst ts y \<Longrightarrow> m' y = memcpy_mem m dst src (of_nat ts) y) \<Longrightarrow>
      item_bytes m' dst ts = item_bytes m src ts"
proof -
  have n: "unat (of_nat ts :: u64) = ts" using ts by (rule unat_of_nat_u64)
  show cp: "memcpy_mem m dst src (of_nat ts) = (\<lambda>x. if in_region dst ts x then m (src + (x - dst)) else m x)"
    using memcpy_disjoint [of dst "of_nat ts" src m] assms(1) by (auto simp: n apart_def)
  assume m': "\<And>y. in_region dst ts y \<Longrightarrow> m' y = memcpy_mem m dst src (of_nat ts) y"
  show "item_bytes m' dst ts = item_bytes m src ts"
    unfolding item_bytes_def
  proof (rule map_cong [OF refl])
    fix i assume "i \<in> set [0..<ts]"
    then have "in_region dst ts (dst + of_nat i)" using ts by (simp add: in_region_offset)
    then show "m' (dst + of_nat i) = m (src + of_nat i)" using m' by (simp add: cp)
  qed
qed

lemma stack_items_kept:
  assumes "ts < 2 ^ 64" and "\<And>i y. i < n \<Longrightarrow> in_region (base + of_nat ((k + i) * ts)) ts y \<Longrightarrow> m' y = m y"
  shows "map (\<lambda>i. item_bytes m' (base + of_nat ((k + i) * ts)) ts) [0..<n] =
    map (\<lambda>i. item_bytes m (base + of_nat ((k + i) * ts)) ts) [0..<n]"
proof (rule map_cong [OF refl])
  fix i assume "i \<in> set [0..<n]"
  then have "i < n" by simp
  from assms(2) [OF this] show "item_bytes m' (base + of_nat ((k + i) * ts)) ts = item_bytes m (base + of_nat ((k + i) * ts)) ts"
    by (rule item_bytes_cong) (use assms(1) in auto)
qed

lemma stack_push_full:
  assumes "stack_repr s st base ts cap xs" and "length xs = cap"
  shows "stack_push st item s = Panic ''Stack push overflow''"
proof -
  have "load64 (mem s) (st + 24) < load64 (mem s) (st + 16)"
    using stack_offset [OF assms(1)] assms by (simp add: word_less_nat_alt stack_repr_def)
  then show ?thesis by (simp add: stack_push_def access_defs panic_def)
qed

lemma stack_push_Ok:
  assumes repr: "stack_repr s st base ts cap xs" and room: "length xs < cap"
    and item: "apart item ts st 32" "apart item ts base (cap * ts)"
  shows "\<exists>t. stack_push st item s = Ok ((), t)
    \<and> stack_repr t st base ts cap (item_bytes (mem s) item ts # xs)"
proof -
  let ?n = "length xs" and ?cur = "load64 (mem s) (st + 24)"
  define k where "k = cap - Suc ?n"
  have k: "cap - ?n = Suc k" "k < cap" using room by (simp_all add: k_def)
  have r: "0 < ts" "ts < 2 ^ 64" "cap * ts < 2 ^ 64" and sep: "apart st 32 base (cap * ts)"
    and ld: "load64 (mem s) st = base" "load64 (mem s) (st + 8) = base + of_nat (cap * ts)"
    "load64 (mem s) (st + 16) = of_nat ts" "?cur = of_nat (Suc k * ts)"
    and xs: "xs = map (\<lambda>i. item_bytes (mem s) (base + of_nat ((cap - ?n + i) * ts)) ts) [0..<?n]"
    using repr k by (simp_all add: stack_repr_def)
  note off = stack_offset [OF repr]
  have ge: "\<not> ?cur < load64 (mem s) (st + 16)" using off k by (simp add: word_less_nat_alt)
  have new: "?cur - of_nat ts = of_nat (k * ts)" by (simp add: ld(4))
  let ?m1 = "store64 (mem s) (st + 24) (of_nat (k * ts))"
  let ?slot = "base + of_nat (k * ts)"
  let ?m = "memcpy_mem ?m1 ?slot item (of_nat ts)"
  have run: "stack_push st item s = Ok ((), s\<lparr>mem := ?m\<rparr>)"
    using ge by (simp add: stack_push_def access_defs run_basic ld(1,3) new field_store)
  have slot: "in_region base (cap * ts) x" if "in_region ?slot ts x" for x
    using slot_in_room [OF k(2) r(3) that] .
  have "apart ?slot ts item ts" using slot item(2) by (auto simp: apart_def)
  note cp = memcpy_item(1) [OF this r(2), of ?m1] and copied = memcpy_item(2) [OF this r(2), of ?m ?m1]
  have m1: "?m1 x = mem s x" if "\<not> in_region st 32 x" for x
    using that field_regions [of 24 st x] by (intro store_le_outside) auto
  have struct: "?m x = ?m1 x" if "in_region st 32 x" for x
    using that sep slot unfolding cp by (auto simp: apart_def)
  have fresh: "item_bytes ?m ?slot ts = item_bytes (mem s) item ts"
    using copied item_bytes_cong [of item ts ?m1 "mem s"] m1 item(1) r(2) by (auto simp: apart_def)
  have "xs = map (\<lambda>i. item_bytes ?m (base + of_nat ((Suc k + i) * ts)) ts) [0..<?n]"
  proof (subst stack_items_kept [OF r(2)])
    fix i x assume "i < ?n" and x: "in_region (base + of_nat ((Suc k + i) * ts)) ts x"
    then have lt: "k < Suc k + i" "Suc k + i < cap" using k(1) room by auto
    then have "\<not> in_region st 32 x" using slot_in_room [OF lt(2) r(3) x] sep by (auto simp: apart_def)
    then show "?m x = mem s x" using slots_apart [OF lt r(3)] x m1 unfolding cp by auto
  qed (use xs k(1) in simp)
  then have "item_bytes (mem s) item ts # xs =
      map (\<lambda>i. item_bytes ?m (base + of_nat ((cap - Suc ?n + i) * ts)) ts) [0..<Suc ?n]"
    using fresh unfolding k_def [symmetric] map_upt_Suc by (simp del: upt_Suc)
  moreover have "load64 ?m st = base" "load64 ?m (st + 8) = base + of_nat (cap * ts)"
    "load64 ?m (st + 16) = of_nat ts" "load64 ?m (st + 24) = of_nat (k * ts)"
    using fields_kept [of st ?m ?m1] struct by (simp_all add: field_store ld)
  ultimately have "stack_repr (s\<lparr>mem := ?m\<rparr>) st base ts cap (item_bytes (mem s) item ts # xs)"
    using r sep room unfolding stack_repr_def by (simp add: k_def)
  then show ?thesis using run by blast
qed

lemma stack_pop_empty:
  assumes "stack_repr s st base ts cap []"
  shows "stack_pop st item s = Panic ''Stack pop underflow''"
  using assms by (simp add: stack_repr_def stack_pop_def access_defs panic_def)

lemma stack_pop_Ok:
  assumes repr: "stack_repr s st base ts cap (x # xs)"
    and item: "apart item ts st 32" "apart item ts base (cap * ts)"
  shows "\<exists>t. stack_pop st item s = Ok ((), t) \<and> item_bytes (mem t) item ts = x
    \<and> stack_repr t st base ts cap xs"
proof -
  let ?n = "length xs"
  define k where "k = cap - Suc ?n"
  have len: "length (x # xs) = Suc ?n" by simp
  have r: "0 < ts" "ts < 2 ^ 64" "cap * ts < 2 ^ 64" "Suc ?n \<le> cap" and sep: "apart st 32 base (cap * ts)"
    and ld: "load64 (mem s) st = base" "load64 (mem s) (st + 8) = base + of_nat (cap * ts)"
    "load64 (mem s) (st + 16) = of_nat ts" "load64 (mem s) (st + 24) = of_nat (k * ts)"
    and xs: "x # xs = map (\<lambda>i. item_bytes (mem s) (base + of_nat ((k + i) * ts)) ts) [0..<Suc ?n]"
    using repr [unfolded stack_repr_def len, folded k_def] by blast+
  have k: "cap - ?n = Suc k" "k < cap" using r(4) by (simp_all add: k_def)
  let ?slot = "base + of_nat (k * ts)"
  have lt: "k * ts < cap * ts" using k(2) r(1) by simp
  then have "(of_nat (k * ts) :: u64) \<noteq> of_nat (cap * ts)"
    by (subst of_nat_u64_inj) (use r(3) lt in \<open>simp_all only: less_trans [OF lt r(3)] less_not_refl3 simp_thms\<close>)
  then have ne: "?slot \<noteq> base + of_nat (cap * ts)" by (metis add_left_cancel)
  let ?m1 = "memcpy_mem (mem s) item ?slot (of_nat ts)"
  let ?m = "store64 ?m1 (st + 24) (of_nat (Suc k * ts))"
  have slot: "in_region base (cap * ts) y" if "in_region ?slot ts y" for y
    using slot_in_room [OF k(2) r(3) that] .
  have "apart item ts ?slot ts" using slot item(2) by (auto simp: apart_def)
  note cp = memcpy_item(1) [OF this r(2), of "mem s"]
  have struct: "?m1 y = mem s y" if "in_region st 32 y" for y
    using that item(1) unfolding cp by (auto simp: apart_def)
  note f1 = fields_kept [of st ?m1 "mem s", OF struct, unfolded of_nat_mult]
  have run: "stack_pop st item s = Ok ((), s\<lparr>mem := ?m\<rparr>)"
    using ne by (simp add: stack_pop_def access_defs run_basic ld f1 add.commute)
  have m: "?m y = ?m1 y" if "\<not> in_region st 32 y" for y
    using that field_regions [of 24 st y] by (intro store_le_outside) auto
  have got: "item_bytes ?m item ts = item_bytes (mem s) ?slot ts"
    using item(1) by (intro memcpy_item(2) [OF \<open>apart item ts ?slot ts\<close> r(2)] m) (auto simp: apart_def)
  have room: "?m y = mem s y" if "in_region base (cap * ts) y" for y
  proof -
    have "\<not> in_region st 32 y" "\<not> in_region item ts y" using that sep item(2) by (auto simp: apart_def)
    then show ?thesis using m [of y] fun_cong [OF cp, of y] by simp
  qed
  have tl: "xs = map (\<lambda>i. item_bytes (mem s) (base + of_nat ((Suc k + i) * ts)) ts) [0..<?n]"
    and x: "x = item_bytes (mem s) ?slot ts"
    using xs unfolding map_upt_Suc add_Suc_right add_Suc by (simp_all del: upt_Suc mult_Suc)
  have "xs = map (\<lambda>i. item_bytes ?m (base + of_nat ((Suc k + i) * ts)) ts) [0..<?n]"
    unfolding tl [symmetric]
  proof (subst stack_items_kept [OF r(2)])
    fix i y assume "i < ?n" and y: "in_region (base + of_nat ((Suc k + i) * ts)) ts y"
    then have "Suc k + i < cap" using k(1) r(4) by simp
    from slot_in_room [OF this r(3) y] show "?m y = mem s y" by (rule room)
  qed (rule tl)
  moreover have "load64 ?m st = base" "load64 ?m (st + 8) = base + of_nat (cap * ts)"
    "load64 ?m (st + 16) = of_nat ts" "load64 ?m (st + 24) = of_nat (Suc k * ts)"
    by (simp_all add: field_store f1 ld)
  ultimately have "stack_repr (s\<lparr>mem := ?m\<rparr>) st base ts cap xs"
    using r sep unfolding stack_repr_def k(1) by simp
  then show ?thesis using run got x by auto
qed

section \<open>Creating a stack\<close>

definition put_stack :: "u64 \<Rightarrow> u64 \<Rightarrow> u64 \<Rightarrow> u64 \<Rightarrow> u64 \<Rightarrow> memory \<Rightarrow> memory" where
  "put_stack st base hi ts cur m =
     store64 (store64 (store64 (store64 m st base) (st + 8) hi) (st + 16) ts) (st + 24) cur"

lemma load_put_stack:
  "load64 (put_stack st base hi ts cur m) st = base" "load64 (put_stack st base hi ts cur m) (st + 8) = hi"
  "load64 (put_stack st base hi ts cur m) (st + 16) = ts" "load64 (put_stack st base hi ts cur m) (st + 24) = cur"
  by (simp_all add: put_stack_def load_store_disjoint disjoint_regions_def)

lemma put_stack_outside:
  assumes "\<not> in_region st 32 x"
  shows "put_stack st base hi ts cur m x = m x"
proof -
  have "\<not> in_region st 8 x" "\<not> in_region (st + 8) 8 x" "\<not> in_region (st + 16) 8 x" "\<not> in_region (st + 24) 8 x"
    using assms field_regions [of 0 st x] field_regions [of 8 st x] field_regions [of 16 st x]
      field_regions [of 24 st x] by auto
  then show ?thesis by (simp add: put_stack_def store_le_outside)
qed

lemma stack_repr_empty:
  assumes "0 < ts" and "ts < 2 ^ 64" and "cap * ts < 2 ^ 64" and "apart st 32 base (cap * ts)"
    and "mem s = put_stack st base (base + of_nat (cap * ts)) (of_nat ts) (of_nat (cap * ts)) m"
  shows "stack_repr s st base ts cap []"
  using assms by (simp add: stack_repr_def load_put_stack)

lemma stack_new_Ok:
  assumes s: "pmm_ready s" and ts: "0 < unat ts" and sz: "unat ts * unat nmemb \<le> 2 ^ 64 - 4096"
    and st: "alloc 32 s = Ok (st, u)" and data: "alloc (ts * nmemb) u = Ok (base, v)"
  shows "\<exists>t. stack_new ts nmemb s = Ok (st, t) \<and> pmm_ready t \<and> alloc_frame s t
    \<and> stack_repr t st base (unat ts) (unat nmemb) []"
proof -
  let ?len = "unat nmemb * unat ts"
  have len: "unat (ts * nmemb) = ?len" using sz by (subst unat_mult_lem [THEN iffD1]) simp_all
  have of_len: "of_nat ?len = ts * nmemb" by (simp add: mult.commute)
  have small: "unat (32 :: u64) \<le> 2 ^ 64 - 4096" "unat (ts * nmemb) \<le> 2 ^ 64 - 4096"
    using len sz by (simp_all add: mult.commute)
  note a = alloc_Ok [OF s small(1) st refl]
  note b = alloc_Ok [OF a(1) small(2) data refl]
  note kept = alloc_keeps_live [OF a(1) small(2) data refl a(3)]
  note same = alloc_frame_fields [OF b(2)]
  have blk: "alloc_block v = alloc_block u" by (simp add: alloc_block_def fun_eq_iff same)
  have live: "live_alloc v st (DIV_ROUNDUP 32 PAGE_SIZE) 32" using kept by blast
  have sep: "apart st 32 base ?len"
    using data_pages(1) [OF b(1) live] data_pages(1) [OF b(1,3), unfolded len] kept
    by (auto simp: apart_def blk)
  let ?m = "put_stack st base (base + ts * nmemb) ts (ts * nmemb) (mem v)"
  have run: "stack_new ts nmemb s = Ok (st, v\<lparr>mem := ?m\<rparr>)"
    using st data by (simp add: stack_new_def bind_Ok access_defs run_basic put_stack_def)
  have "?m x = mem v x" if "bitmap_byte v x" for x
    using that data_pages(1) [OF b(1) live, of x] live by (intro put_stack_outside) (auto simp: live_alloc_def)
  then have "pmm_ready (v\<lparr>mem := ?m\<rparr>)" using pmm_mem_update(2) [of v ?m] b(1) by simp
  moreover have "alloc_frame s (v\<lparr>mem := ?m\<rparr>)"
    by (rule alloc_frame_mem_update [OF alloc_frame_trans [OF a(2) b(2)]])
  moreover have "stack_repr (v\<lparr>mem := ?m\<rparr>) st base (unat ts) (unat nmemb) []"
    by (rule stack_repr_empty [where m = "mem v"])
      (use ts sz sep of_len unat_u64_less [of ts] in \<open>simp_all add: mult.commute\<close>)
  ultimately show ?thesis using run by blast
qed

section \<open>Properties\<close>

text \<open>C23: Pushing an item onto a stack that is not full and popping into a buffer gives back the item's
  bytes, and leaves the stack with the items it had.\<close>

theorem stack_push_pop_roundtrip:
  assumes "stack_repr s st base ts cap xs" and "length xs < cap"
    and "apart item ts st 32" and "apart item ts base (cap * ts)"
    and "apart buf ts st 32" and "apart buf ts base (cap * ts)"
  shows "\<exists>t u. stack_push st item s = Ok ((), t)
    \<and> stack_repr t st base ts cap (item_bytes (mem s) item ts # xs)
    \<and> stack_pop st buf t = Ok ((), u) \<and> item_bytes (mem u) buf ts = item_bytes (mem s) item ts
    \<and> stack_repr u st base ts cap xs"
  using stack_push_Ok [OF assms(1-4)] stack_pop_Ok [OF _ assms(5,6)] by meson

definition two_slots :: kernel where
  "two_slots = blank_kernel\<lparr>mem := put_stack 0x1000 0x2000 0x2010 8 16 (\<lambda>_. 0)\<rparr>"

lemma two_slots_repr: "stack_repr two_slots 0x1000 0x2000 8 2 []"
  by (rule stack_repr_empty [where m = "\<lambda>_. 0"])
    (auto simp: two_slots_def apart_def in_region_def unat_sub_if' word_unat_eq_iff)

lemma apart_low:
  assumes "unat a + n \<le> unat b" and "unat b + k \<le> 2 ^ 64" and "unat b - unat a + k \<le> 2 ^ 64"
  shows "apart a n b k"
proof -
  have "False" if "in_region a n x" "in_region b k x" for x
  proof -
    have "unat x < unat a + n"
      using that(1) assms unat_u64_less [of x] by (auto simp: in_region_def unat_sub_if' split: if_splits)
    then show False
      using that assms unat_u64_less [of x] by (auto simp: in_region_def unat_sub_if' split: if_splits)
  qed
  then show ?thesis by (auto simp: apart_def)
qed

theorem stack_push_pop_roundtrip_witness:
  "\<exists>t u. stack_push 0x1000 0x100 two_slots = Ok ((), t) \<and> stack_pop 0x1000 0x200 t = Ok ((), u)
     \<and> item_bytes (mem u) 0x200 8 = item_bytes (mem two_slots) 0x100 8"
  using stack_push_pop_roundtrip [OF two_slots_repr, of "0x100" "0x200"]
  by (auto simp: apart_low)

text \<open>Pushing onto a full stack and popping from an empty one panic, and nothing else does: a push
  with room and a pop of a stack with items return.\<close>

theorem stack_bounds_checked:
  assumes "stack_repr s st base ts cap xs" and "apart item ts st 32" and "apart item ts base (cap * ts)"
  shows "(if length xs = cap then stack_push st item s = Panic ''Stack push overflow''
      else \<exists>t. stack_push st item s = Ok ((), t) \<and> stack_repr t st base ts cap (item_bytes (mem s) item ts # xs))
    \<and> (if xs = [] then stack_pop st item s = Panic ''Stack pop underflow''
      else \<exists>t. stack_pop st item s = Ok ((), t) \<and> item_bytes (mem t) item ts = hd xs
        \<and> stack_repr t st base ts cap (tl xs))"
proof -
  have "length xs \<le> cap" using assms(1) by (simp add: stack_repr_def)
  then have push: "if length xs = cap then stack_push st item s = Panic ''Stack push overflow''
      else \<exists>t. stack_push st item s = Ok ((), t) \<and> stack_repr t st base ts cap (item_bytes (mem s) item ts # xs)"
    using stack_push_full [OF assms(1)] stack_push_Ok [OF assms(1) _ assms(2,3)] by auto
  show ?thesis
  proof (cases xs)
    case Nil
    then show ?thesis using push stack_pop_empty assms(1) by simp
  next
    case (Cons x ys)
    then show ?thesis using push stack_pop_Ok [OF assms(1) [unfolded Cons] assms(2,3)] by simp
  qed
qed

theorem stack_bounds_checked_witness:
  "stack_pop 0x1000 0x100 two_slots = Panic ''Stack pop underflow''
   \<and> (\<exists>t. stack_push 0x1000 0x100 two_slots = Ok ((), t))"
  using stack_bounds_checked [OF two_slots_repr, of "0x100"] by (auto simp: apart_low)

end
