(* ===== verification/Mp.thy ===== *)
theory Mp
  imports Gdt Idt Lapic Stack Vector Vmm_Init
begin

text \<open>
  Bringing up processors: \<open>kernel/src/sys/cpu.c\<close> and \<open>kernel/src/sys/mp.c\<close>. A processor is
  known by its position in the bootloader's list. \<open>cpu_init\<close> is modelled on the processor that runs
  it. While the boot processor waits for another one, that one runs: what it does to the shared
  state until the boot processor looks again is the parameter \<open>start_ap\<close> of \<open>mp_init\<close>.
\<close>

section \<open>Definitions\<close>

definition write32 :: "u64 \<Rightarrow> u32 \<Rightarrow> unit kprog" where
  "write32 a v = modify (\<lambda>s. s\<lparr>mem := store_le 4 (mem s) a v\<rparr>)"

definition mp_of :: "kernel \<Rightarrow> mp_response" where
  "mp_of s = the (mp_boot_response (boot s))"

subsection \<open>The floating point unit\<close>

definition bsp_printf :: "u64 \<Rightarrow> string \<Rightarrow> unit kprog" where
  "bsp_printf cpu_local msg =
     bind (read8 (cl_is_bsp cpu_local)) (\<lambda>is_bsp. if is_bsp \<noteq> 0 then printf msg [] else return ())"

definition enable_sse :: "unit kprog" where
  "enable_sse =
     bind read_cr0 (\<lambda>cr0.
     let cr0 = cr0 AND NOT (push_bit 2 1); cr0 = cr0 OR push_bit 1 1 in
     bind (write_cr0 cr0) (\<lambda>_.
     bind read_cr4 (\<lambda>cr4.
     let cr4 = cr4 OR push_bit 9 3 in
     write_cr4 cr4)))"

definition fpu_init :: "u64 \<Rightarrow> unit kprog" where
  "fpu_init cpu_local =
     bind (cpuid 1 0) (\<lambda>regs.
     case (case regs of Some (eax, ebx, ecx, edx) \<Rightarrow> if ecx AND CPUID_XSAVE \<noteq> 0 then Some ecx else None | None \<Rightarrow> None) of
       Some ecx \<Rightarrow>
         bind (bsp_printf cpu_local ''fpu: xsave supported'') (\<lambda>_.
         bind read_cr4 (\<lambda>cr4.
         bind (write_cr4 (cr4 OR push_bit 18 1)) (\<lambda>_.
         bind (bsp_printf cpu_local ''fpu: Saving x87 state using xsave'') (\<lambda>_.
         let xcr0 = 0 OR push_bit 0 1 in
         bind (bsp_printf cpu_local ''fpu: Saving SSE state using xsave'') (\<lambda>_.
         let xcr0 = xcr0 OR push_bit 1 1 in
         bind (if ecx AND CPUID_AVX \<noteq> 0 then
             bind (bsp_printf cpu_local ''fpu: Saving AVX state using xsave'') (\<lambda>_. return (xcr0 OR push_bit 2 1))
           else return xcr0) (\<lambda>xcr0.
         bind (cpuid 7 0) (\<lambda>regs.
         bind (case regs of
             Some (eax, ebx, ecx, edx) \<Rightarrow>
               if ebx AND CPUID_AVX512 \<noteq> 0 then
                 bind (bsp_printf cpu_local ''fpu: Saving AVX-512 state using xsave'') (\<lambda>_.
                 return (xcr0 OR push_bit 5 1 OR push_bit 6 1 OR push_bit 7 1))
               else return xcr0
           | None \<Rightarrow> return xcr0) (\<lambda>xcr0.
         bind (wrxcr 0 xcr0) (\<lambda>_.
         bind (cpuid 0xd 0) (\<lambda>regs.
         case regs of
           None \<Rightarrow> panic ''CPUID failure''
         | Some (eax, ebx, ecx, edx) \<Rightarrow>
             modify (\<lambda>s. s\<lparr>fpu_storage_size := ucast ecx, fpu_save := xsave, fpu_restore := xrstor\<rparr>)))))))))))
     | None \<Rightarrow>
         bind (bsp_printf cpu_local ''fpu: Using legacy fxsave'') (\<lambda>_.
         modify (\<lambda>s. s\<lparr>fpu_storage_size := 512, fpu_save := fxsave, fpu_restore := fxrstor\<rparr>)))"

subsection \<open>A processor\<close>

definition cpu_init :: "nat \<Rightarrow> unit kprog" where
  "cpu_init k =
     bind (gets (\<lambda>s. mp_cpus (mp_of s) ! k)) (\<lambda>info.
     let cpu_local = extra_argument info in
     bind (write32 (cl_lapic_id cpu_local) (mp_lapic_id info)) (\<lambda>_.
     bind gdt_reload (\<lambda>_.
     bind idt_reload (\<lambda>_.
     bind (gdt_load_tss (cl_tss cpu_local)) (\<lambda>_.
     bind vmm_switch_pagemap (\<lambda>_.
     bind (stack_new 8 2048) (\<lambda>common_int_stack.
     bind (write64 (cl_common_int_stack cpu_local) common_int_stack) (\<lambda>_.
     bind (read64 (common_int_stack + 8)) (\<lambda>stack_top.
     bind (write64 (tss_rsp0 (cl_tss cpu_local)) stack_top) (\<lambda>_.
     bind (stack_new 8 512) (\<lambda>abort_stack.
     bind (write64 (cl_abort_stack cpu_local) abort_stack) (\<lambda>_.
     bind (read64 (abort_stack + 8)) (\<lambda>stack_top.
     bind (write64 (tss_ist1 (cl_tss cpu_local)) stack_top) (\<lambda>_.
     bind (write64 (th_self (cl_idle_thread cpu_local)) (cl_idle_thread cpu_local)) (\<lambda>_.
     bind (read64 (cl_cpu_number cpu_local)) (\<lambda>cpu_number.
     bind (write64 (th_running_on (cl_idle_thread cpu_local)) cpu_number) (\<lambda>_.
     bind (set_gs_base (cl_idle_thread cpu_local)) (\<lambda>_.
     bind (set_kernel_gs_base (cl_idle_thread cpu_local)) (\<lambda>_.
     bind enable_sse (\<lambda>_.
     bind (fpu_init cpu_local) (\<lambda>_.
     bind (lapic_enable 0xff) (\<lambda>_.
     bind (lapic_timer_calibrate cpu_local) (\<lambda>_.
     bind (read64 (cl_cpu_number cpu_local)) (\<lambda>cpu_number.
     bind (printf ''mp: CPU %u booted'' [PInt cpu_number]) (\<lambda>_.
     bind (write8 (cl_online cpu_local) 1) (\<lambda>_.
     bind (read8 (cl_is_bsp cpu_local)) (\<lambda>is_bsp.
     if is_bsp = 0 then
       bind enable_interrupts (\<lambda>_.
       bind (whileM (\<lambda>_ s. True) (\<lambda>_. return ()) ()) (\<lambda>_. return ()))
     else return ())))))))))))))))))))))))))))"

text \<open>\<open>movq %gs:8\<close> reads at the GS base plus 8.\<close>

definition cpu_current :: "u64 kprog" where
  "cpu_current =
     bind interrupt_state (\<lambda>on.
     if on then panic ''Attempted to get current CPU struct without disabling interrupts''
     else
       bind (gets (\<lambda>s. msr s 0xc0000101)) (\<lambda>gs.
       bind (read64 (gs + 8)) (\<lambda>cpu_number.
       bind (gets cpu_locals) (\<lambda>v.
       VECTOR_ITEM v cpu_number))))"

subsection \<open>All processors\<close>

definition set_info :: "nat \<Rightarrow> (mp_info \<Rightarrow> mp_info) \<Rightarrow> unit kprog" where
  "set_info k f = modify (\<lambda>s. s\<lparr>boot := (boot s)\<lparr>mp_boot_response :=
     Some ((mp_of s)\<lparr>mp_cpus := (mp_cpus (mp_of s))[k := f (mp_cpus (mp_of s) ! k)]\<rparr>)\<rparr>\<rparr>)"

definition mp_step :: "(nat \<Rightarrow> unit kprog) \<Rightarrow> u32 \<Rightarrow> u64 \<Rightarrow> unit kprog" where
  "mp_step start_ap bsp_id i =
     bind (alloc sizeof_cpu_local) (\<lambda>cpu_local.
     bind (gets cpu_locals) (\<lambda>v.
     bind (VECTOR_PUSH_BACK v cpu_local) (\<lambda>(v', idx).
     bind (modify (\<lambda>s. s\<lparr>cpu_locals := v'\<rparr>)) (\<lambda>_.
     bind (set_info (unat i) (extra_argument_update (\<lambda>_. cpu_local))) (\<lambda>_.
     bind (write64 (cl_cpu_number cpu_local) i) (\<lambda>_.
     bind (gets (\<lambda>s. mp_lapic_id (mp_cpus (mp_of s) ! unat i))) (\<lambda>lapic_id.
     if lapic_id = bsp_id then
       bind (write8 (cl_is_bsp cpu_local) 1) (\<lambda>_.
       cpu_init (unat i))
     else
       bind (set_info (unat i) (goto_address_update (\<lambda>_. True))) (\<lambda>_.
       bind (start_ap (unat i)) (\<lambda>_.
       bind (whileM (\<lambda>_ s. mem s (cl_online cpu_local) = 0) (\<lambda>_. return ()) ()) (\<lambda>_. return ()))))))))))"

definition mp_init :: "(nat \<Rightarrow> unit kprog) \<Rightarrow> unit kprog" where
  "mp_init start_ap =
     bind (gets (\<lambda>s. mp_boot_response (boot s))) (\<lambda>response.
     case response of
       None \<Rightarrow> fault ''null pointer''
     | Some r \<Rightarrow>
         bind (printf ''mp: BSP LAPIC ID:    %x'' [PInt (ucast (bsp_lapic_id r))]) (\<lambda>_.
         bind (printf ''mp: Total CPU count: %zu'' [PInt (of_nat (length (mp_cpus r)))]) (\<lambda>_.
         bind (printf ''mp: Using x2APIC:    %s'' [PStr (if mp_x2apic r then ''yes'' else ''no'')]) (\<lambda>_.
         bind (for_range 0 (of_nat (length (mp_cpus r))) (mp_step start_ap (bsp_lapic_id r))) (\<lambda>_.
         bind (modify (\<lambda>s. s\<lparr>mp_init_done := True\<rparr>)) (\<lambda>_.
         printf ''mp: All CPUs online!'' []))))))"

section \<open>The current processor\<close>

lemma cpu_current_run:
  assumes "msr s 0xc0000101 = cl_idle_thread cl" and "load64 (mem s) (th_running_on (cl_idle_thread cl)) = n"
    and "unat n < length (vec_list s (cpu_locals s))" and "vec_list s (cpu_locals s) ! unat n = cl"
  shows "cpu_current s = (if int_flag s then Panic ''Attempted to get current CPU struct without disabling interrupts'' else Ok (cl, s))"
proof -
  have lt: "n < vec_length (cpu_locals s)" using assms(3) by (simp add: vec_list_def word_less_nat_alt)
  have "load64 (mem s) (vec_data (cpu_locals s) + of_nat (unat n) * 8) = cl"
    using assms(3,4) by (simp add: vec_list_def)
  then show ?thesis
    using assms(1,2) lt
    by (simp add: cpu_current_def interrupt_state_def panic_def access_defs cl_defs VECTOR_ITEM_def run_basic)
qed

text \<open>With interrupts off, and the GS base at the idle thread of a processor whose number is its
  position in the list of processors, \<open>cpu_current\<close> returns that processor's record and changes
  nothing; with interrupts on it panics.\<close>

theorem cpu_current_correct:
  assumes "msr s 0xc0000101 = cl_idle_thread cl" and "load64 (mem s) (th_running_on (cl_idle_thread cl)) = n"
    and "unat n < length (vec_list s (cpu_locals s))" and "vec_list s (cpu_locals s) ! unat n = cl"
  shows "cpu_current s = (if int_flag s then Panic ''Attempted to get current CPU struct without disabling interrupts'' else Ok (cl, s))"
  using cpu_current_run [OF assms] .

theorem cpu_current_correct_witness:
  "\<exists>s. cpu_current s = Ok (0x2000, s)"
proof -
  let ?m = "store64 (store64 (\<lambda>_. 0) 0x1000 0x2000) 0x2098 0"
  let ?s = "blank_kernel\<lparr>mem := ?m, msr := (\<lambda>_. 0)(0xc0000101 := 0x2090),
    cpu_locals := \<lparr>vec_data = 0x1000, vec_length = 1, vec_capacity = 8\<rparr>\<rparr>"
  have "load64 ?m 0x1000 = 0x2000"
    by (subst load_store_disjoint) (simp_all add: disjoint_regions_def)
  then have "vec_list ?s (cpu_locals ?s) = [0x2000]" by (simp add: vec_list_def word_array_def)
  then have "cpu_current ?s = Ok (0x2000, ?s)"
    using cpu_current_correct [of ?s "0x2000" 0] by (simp add: cl_defs blank_kernel_def)
  then show ?thesis by blast
qed

end
