(* ===== verification/Cpu_Init.thy ===== *)
theory Cpu_Init
  imports Mp Vector_Page
begin

text \<open>
  A processor comes up: \<open>cpu_init\<close> of \<open>kernel/src/sys/cpu.c\<close>. \<open>grows\<close> is what the steps share: they take
  pages from the allocator, and write only to the record of the processor. Each group of lines of \<open>cpu_init\<close>
  has a lemma \<open>bring\<close>; together they give the record, the stacks and the registers of the processor.
\<close>

section \<open>Definitions\<close>

text \<open>What \<open>cpu_init\<close> does up to its report that the processor is online.\<close>

definition cpu_bringup :: "nat \<Rightarrow> u64 kprog" where
  "cpu_bringup k =
     bind (gets (\<lambda>s. mp_cpus (mp_of s) ! k)) (\<lambda>info.
     let cpu_local = extra_argument info in
     bind (write32 (cl_lapic_id cpu_local) (mp_lapic_id info)) (\<lambda>_.
     bind gdt_reload (\<lambda>_.
     bind idt_reload (\<lambda>_.
     bind (gdt_load_tss (cl_tss cpu_local)) (\<lambda>_.
     bind vmm_switch_pagemap (\<lambda>_.
     bind (stack_new 8 2048) (\<lambda>common_int_stack.
     bind (write64 (cl_common_int_stack cpu_local) common_int_stack) (\<lambda>_.
     bind (read64 (common_int_stack + 8)) (\<lambda>stack_top.
     bind (write64 (tss_rsp0 (cl_tss cpu_local)) stack_top) (\<lambda>_.
     bind (stack_new 8 512) (\<lambda>abort_stack.
     bind (write64 (cl_abort_stack cpu_local) abort_stack) (\<lambda>_.
     bind (read64 (abort_stack + 8)) (\<lambda>stack_top.
     bind (write64 (tss_ist1 (cl_tss cpu_local)) stack_top) (\<lambda>_.
     bind (write64 (th_self (cl_idle_thread cpu_local)) (cl_idle_thread cpu_local)) (\<lambda>_.
     bind (read64 (cl_cpu_number cpu_local)) (\<lambda>cpu_number.
     bind (write64 (th_running_on (cl_idle_thread cpu_local)) cpu_number) (\<lambda>_.
     bind (set_gs_base (cl_idle_thread cpu_local)) (\<lambda>_.
     bind (set_kernel_gs_base (cl_idle_thread cpu_local)) (\<lambda>_.
     bind enable_sse (\<lambda>_.
     bind (fpu_init cpu_local) (\<lambda>_.
     bind (lapic_enable 0xff) (\<lambda>_.
     bind (lapic_timer_calibrate cpu_local) (\<lambda>_.
     bind (read64 (cl_cpu_number cpu_local)) (\<lambda>cpu_number.
     bind (printf ''mp: CPU %u booted'' [PInt cpu_number]) (\<lambda>_.
     bind (write8 (cl_online cpu_local) 1) (\<lambda>_.
     return cpu_local))))))))))))))))))))))))))"

lemma cpu_init_bringup:
  "cpu_init k = bind (cpu_bringup k) (\<lambda>cpu_local.
     bind (read8 (cl_is_bsp cpu_local)) (\<lambda>is_bsp.
     if is_bsp = 0 then bind enable_interrupts (\<lambda>_. bind (whileM (\<lambda>_ s. True) (\<lambda>_. return ()) ()) (\<lambda>_. return ()))
     else return ()))"
  by (simp add: cpu_init_def cpu_bringup_def bind_assoc Let_def)

section \<open>Room\<close>

text \<open>Runs of ten free pages, aligned: they have room for blocks of two and of five pages.\<close>

definition tens :: "nat set \<Rightarrow> nat set" where
  "tens F = {q. 10 dvd q \<and> {q..<q + 10} \<subseteq> F}"

lemma tens_sub: "tens F \<subseteq> F"
  by (auto simp: tens_def)

lemma tens_found:
  assumes "2 \<le> card (tens (free_pages s))" and c: "c = 2 \<or> c = 5"
  shows "\<not> pmm_exhausted s c"
proof -
  let ?l = "unat (pmm_last_used_index s)"
  let ?A = "tens (free_pages s)"
  have "1 \<le> card (?A - {?l div 10 * 10})" using assms(1) diff_card_le_card_Diff [of "{?l div 10 * 10}" ?A] by simp
  then obtain q where q: "q \<in> ?A" "q \<noteq> ?l div 10 * 10" by (metis Diff_iff card.empty equals0I insertCI not_one_le_zero)
  have ten: "10 dvd q" "{q..<q + 10} \<subseteq> free_pages s" using q(1) by (simp_all add: tens_def)
  have free: "i < unat (pmm_avl_page_count s) \<and> page_free s i" if "q \<le> i" "i < q + 10" for i
    using ten(2) that by (auto simp: free_pages_def)
  have "c dvd 10" using c by auto
  then have run: "aligned_run (page_free s) c q" using ten(1) free c by (auto simp: aligned_run_def intro: dvd_trans)
  have le: "q + c \<le> unat (pmm_avl_page_count s)" using free [of "q + 9"] c by auto
  have "?l \<le> q \<or> q + c \<le> ?l" using q(2) ten(1) c by (auto elim!: dvdE)
  then show ?thesis using run le by (auto simp: pmm_exhausted_def no_run_def Let_def)
qed

lemma tens_shrink:
  assumes "finite A" and sub: "B \<subseteq> A" and "card A \<le> card B + k"
  shows "card (tens A) \<le> card (tens B) + k"
proof -
  have fB: "finite B" using assms(1,2) by (rule finite_subset [rotated])
  have "p \<in> tens B \<union> (\<lambda>i. i div 10 * 10) ` (A - B)" if p: "p \<in> tens A" for p
  proof (cases "{p..<p + 10} \<subseteq> B")
    case True
    then show ?thesis using p by (simp add: tens_def)
  next
    case False
    then obtain i where i: "p \<le> i" "i < p + 10" "i \<notin> B" by (meson atLeastLessThan_iff subsetI)
    then have "i \<in> A" "10 dvd p" using p by (auto simp: tens_def)
    moreover from this i have "p = i div 10 * 10" by (auto elim!: dvdE)
    ultimately show ?thesis using i(3) by blast
  qed
  then have "tens A \<subseteq> tens B \<union> (\<lambda>i. i div 10 * 10) ` (A - B)" by blast
  then have "card (tens A) \<le> card (tens B \<union> (\<lambda>i. i div 10 * 10) ` (A - B))"
    by (intro card_mono) (simp_all add: assms(1) finite_subset [OF tens_sub fB])
  also have "\<dots> \<le> card (tens B) + card ((\<lambda>i. i div 10 * 10) ` (A - B))" by (rule card_Un_le)
  also have "card ((\<lambda>i. i div 10 * 10) ` (A - B)) \<le> card (A - B)" by (intro card_image_le) (simp add: assms(1))
  also have "card (A - B) \<le> k" using assms fB by (simp add: card_Diff_subset)
  finally show ?thesis by simp
qed

lemma tens_pairs: "card (tens (free_pages s)) \<le> card (free_pairs s)"
  by (rule card_mono [OF finite_free_pairs]) (auto simp: tens_def even_pairs_def)

section \<open>Growing\<close>

text \<open>\<open>grows W k s t\<close>: the page allocator of \<open>t\<close> is sound, at most \<open>k\<close> pages were taken since
  \<open>s\<close>, and of the pages that were in use only those of \<open>W\<close> were written.\<close>

definition grows :: "nat set \<Rightarrow> nat \<Rightarrow> kernel \<Rightarrow> kernel \<Rightarrow> bool" where
  "grows W k s t \<longleftrightarrow> pmm_ready t \<and> hhdm t = hhdm s \<and> pmm_bitmap t = pmm_bitmap s
     \<and> pmm_avl_page_count t = pmm_avl_page_count s \<and> free_pages t \<subseteq> free_pages s
     \<and> card (free_pages s) \<le> card (free_pages t) + k
     \<and> (\<forall>x. \<not> bitmap_byte s x \<and> page_of s x \<notin> free_pages s \<union> W \<longrightarrow> mem t x = mem s x)"

lemma grows_fields:
  assumes "grows W k s t"
  shows "pmm_ready t" "hhdm t = hhdm s" "page_of t = page_of s" "bitmap_byte t = bitmap_byte s" "alloc_block t = alloc_block s"
    "free_pages t \<subseteq> free_pages s" "direct_map_ok t = direct_map_ok s" "vec_pages t = vec_pages s"
  using assms by (auto simp: grows_def page_of_def bitmap_byte_def alloc_block_def direct_map_ok_def vec_pages_def fun_eq_iff)

lemma grows_mem: "grows W k s t \<Longrightarrow> \<not> bitmap_byte s x \<Longrightarrow> page_of s x \<notin> free_pages s \<Longrightarrow> page_of s x \<notin> W \<Longrightarrow> mem t x = mem s x"
  by (simp add: grows_def)

lemma grows_tens: "grows W k s t \<Longrightarrow> card (tens (free_pages s)) \<le> card (tens (free_pages t)) + k"
  using tens_shrink [OF finite_free_pages, of "free_pages t" s k] by (simp add: grows_def)

lemma grows_trans:
  assumes a: "grows W k s t" and b: "grows W' k' t u" and sub: "W' \<subseteq> W \<union> free_pages s" and n: "k + k' \<le> n"
  shows "grows W n s u"
proof -
  note f = grows_fields [OF a]
  have "mem u x = mem s x" if x: "\<not> bitmap_byte s x" "page_of s x \<notin> free_pages s \<union> W" for x
  proof -
    have "mem u x = mem t x" by (rule grows_mem [OF b]) (use f x sub in auto)
    also have "\<dots> = mem s x" by (rule grows_mem [OF a]) (use x in auto)
    finally show ?thesis .
  qed
  then show ?thesis using a b n by (auto simp: grows_def)
qed

lemma grows_same:
  assumes "pmm_ready s" and "mem t = mem s" "hhdm t = hhdm s" "pmm_bitmap t = pmm_bitmap s" "pmm_avl_page_count t = pmm_avl_page_count s"
    "pmm_last_used_index t = pmm_last_used_index s" "pmm_lock t = pmm_lock s"
  shows "grows W 0 s t"
proof -
  have "page_of t = page_of s" "bitmap_byte t = bitmap_byte s" and f: "free_pages t = free_pages s"
    using assms by (auto simp: page_of_def bitmap_byte_def free_pages_def page_free_def)
  then have "pmm_ready t" using assms by (simp add: pmm_ready_def pmm_wf_def)
  then show ?thesis using assms f by (simp add: grows_def)
qed

lemma grows_mem_update:
  assumes "pmm_ready s" and "\<And>x. m x \<noteq> mem s x \<Longrightarrow> \<not> bitmap_byte s x \<and> page_of s x \<in> W"
  shows "grows W 0 s (s\<lparr>mem := m\<rparr>)"
proof -
  have "m x = mem s x" if "bitmap_byte s x" for x using assms(2) that by blast
  then show ?thesis using pmm_mem_update [of s m] assms by (auto simp: grows_def)
qed

lemma grows_alloc:
  assumes s: "pmm_ready s" and "unat sz \<le> 2 ^ 64 - 4096" and "alloc sz s = Ok (ptr, t)" and n: "n = DIV_ROUNDUP sz PAGE_SIZE"
  shows "grows {} (unat n + 1) s t"
proof -
  note a = alloc_Ok [OF assms]
  note b = live_alloc_block [OF a(1,3) refl]
  obtain i m where "t = s\<lparr>pmm_last_used_index := i, mem := m\<rparr>" using a(2) by (auto simp: alloc_frame_def)
  then have f: "hhdm t = hhdm s" "pmm_bitmap t = pmm_bitmap s" "pmm_avl_page_count t = pmm_avl_page_count s" by simp_all
  have "card (alloc_block s ptr n) = unat n + 1" using b(1,6) f(1) by (simp add: alloc_block_def block_of_def)
  then have "card (free_pages s) \<le> card (free_pages s - alloc_block s ptr n) + (unat n + 1)"
    using diff_card_le_card_Diff [of "alloc_block s ptr n" "free_pages s"] finite_subset [OF a(4) finite_free_pages] by simp
  then show ?thesis using a f by (auto simp: grows_def)
qed

lemma grows_live:
  assumes s: "pmm_ready s" and g: "grows W k s t" and live: "live_alloc s ptr n sz" and apart: "alloc_block s ptr n \<inter> W = {}"
  shows "live_alloc t ptr n sz" and "page_of s x \<in> alloc_block s ptr n \<Longrightarrow> mem t x = mem s x"
proof -
  note f = grows_fields [OF g]
  have off: "alloc_block s ptr n \<inter> free_pages s = {}" "\<And>x. bitmap_byte s x \<Longrightarrow> page_of s x \<notin> alloc_block s ptr n"
    using live by (auto simp: live_alloc_def)
  show same: "mem t x = mem s x" if "page_of s x \<in> alloc_block s ptr n" for x
    by (rule grows_mem [OF g]) (use that off apart in auto)
  note h = same [OF header_pages [OF s live]]
  have "load64 (mem t) (ptr - PAGE_SIZE) = load64 (mem s) (ptr - PAGE_SIZE)" "load64 (mem t) (ptr - PAGE_SIZE + 8) = load64 (mem s) (ptr - PAGE_SIZE + 8)"
    using in_region_sub [of "ptr - PAGE_SIZE" 8 8 _ 16] by (auto intro!: load_le_cong_region h simp: in_region_def)
  then show "live_alloc t ptr n sz" using live f g by (auto simp: live_alloc_def grows_def)
qed

lemma alloc_room:
  assumes "pmm_ready s" and "2 \<le> card (tens (free_pages s))" and n: "n = DIV_ROUNDUP sz PAGE_SIZE" "n = 1 \<or> n = 4"
    and "unat sz \<le> 2 ^ 64 - 4096"
  shows "\<exists>ptr t. alloc sz s = Ok (ptr, t)"
proof -
  have "\<not> pmm_exhausted s (unat (DIV_ROUNDUP sz PAGE_SIZE) + 1)" unfolding n(1) [symmetric] using n(2) by (intro tens_found [OF assms(2)]) auto
  then show ?thesis by (rule alloc_total [OF assms(1,5)])
qed

section \<open>The stacks of a processor\<close>

definition stack_pages :: "kernel \<Rightarrow> u64 \<Rightarrow> u64 \<Rightarrow> nat set" where
  "stack_pages s st n = alloc_block s st 1 \<union> alloc_block s (load64 (mem s) st) n"

text \<open>An empty stack of \<open>cap\<close> words at \<open>st\<close>, whose data takes \<open>n\<close> pages.\<close>

definition cpu_stack :: "kernel \<Rightarrow> u64 \<Rightarrow> u64 \<Rightarrow> nat \<Rightarrow> bool" where
  "cpu_stack s st n cap \<longleftrightarrow> live_alloc s st 1 32 \<and> live_alloc s (load64 (mem s) st) n (of_nat (8 * cap))
     \<and> stack_repr s st (load64 (mem s) st) 8 cap []"

lemma cpu_stack_busy:
  assumes "cpu_stack s st n cap"
  shows "stack_pages s st n \<inter> free_pages s = {}" and "bitmap_byte s x \<Longrightarrow> page_of s x \<notin> stack_pages s st n"
  using assms by (auto simp: cpu_stack_def stack_pages_def live_alloc_def)

lemma cpu_stack_kept:
  assumes s: "pmm_ready s" and g: "grows W k s t" and st: "cpu_stack s st n cap" and apart: "stack_pages s st n \<inter> W = {}"
  shows "cpu_stack t st n cap" and "stack_pages t st n = stack_pages s st n"
    and "load64 (mem t) st = load64 (mem s) st" and "load64 (mem t) (st + 8) = load64 (mem s) (st + 8)"
proof -
  have l: "live_alloc s st 1 32" "live_alloc s (load64 (mem s) st) n (of_nat (8 * cap))" "stack_repr s st (load64 (mem s) st) 8 cap []"
    using st by (simp_all add: cpu_stack_def)
  have ap: "alloc_block s st 1 \<inter> W = {}" "alloc_block s (load64 (mem s) st) n \<inter> W = {}" using apart by (auto simp: stack_pages_def)
  have m: "mem t x = mem s x" if "in_region st 32 x" for x
    by (rule grows_live(2) [OF s g l(1) ap(1)], rule data_pages(1) [OF s l(1)]) (use that in simp)
  note k = fields_kept [OF m]
  show "load64 (mem t) st = load64 (mem s) st" "load64 (mem t) (st + 8) = load64 (mem s) (st + 8)" by (simp_all add: k)
  show "cpu_stack t st n cap"
    using grows_live(1) [OF s g l(1) ap(1)] grows_live(1) [OF s g l(2) ap(2)] l(3) by (simp add: cpu_stack_def stack_repr_def k)
  show "stack_pages t st n = stack_pages s st n" by (simp add: stack_pages_def k grows_fields [OF g])
qed

lemma stack_new_grows:
  assumes s: "pmm_ready s" and room: "4 \<le> card (tens (free_pages s))" and nm: "unat nm \<le> 2048"
    and n: "n = DIV_ROUNDUP (8 * nm) PAGE_SIZE" "n = 1 \<or> n = 4"
  shows "\<exists>st t. stack_new 8 nm s = Ok (st, t) \<and> alloc_frame s t \<and> grows {} (unat n + 3) s t \<and> cpu_stack t st n (unat nm)
    \<and> stack_pages t st n \<subseteq> free_pages s"
proof -
  have one: "(1 :: u64) = DIV_ROUNDUP 32 PAGE_SIZE" by (rule one_page [symmetric]) simp_all
  have len: "unat (8 * nm) = 8 * unat nm" using nm by (subst unat_mult_lem [THEN iffD1]) simp_all
  have sz: "unat (32 :: u64) \<le> 2 ^ 64 - 4096" "unat (8 * nm) \<le> 2 ^ 64 - 4096" "unat (8 :: u64) * unat nm \<le> 2 ^ 64 - 4096"
    using len nm by simp_all
  obtain st u where st: "alloc 32 s = Ok (st, u)" using alloc_room [OF s _ one] room by auto
  note a = alloc_Ok [OF s sz(1) st one] and ga = grows_alloc [OF s sz(1) st one]
  have "2 \<le> card (tens (free_pages u))" using grows_tens [OF ga] room by simp
  from alloc_room [OF a(1) this n sz(2)] obtain base v where data: "alloc (8 * nm) u = Ok (base, v)" by blast
  note b = alloc_Ok [OF a(1) sz(2) data n(1)] and gb = grows_alloc [OF a(1) sz(2) data n(1)]
  obtain t where t: "stack_new 8 nm s = Ok (st, t)" "pmm_ready t" "alloc_frame s t" "stack_repr t st base (unat (8 :: u64)) (unat nm) []"
    using stack_new_Ok [OF s _ sz(3) st data] by auto
  let ?m = "put_stack st base (base + 8 * nm) 8 (8 * nm) (mem v)"
  have tv: "t = v\<lparr>mem := ?m\<rparr>"
    using st data t(1) by (simp add: stack_new_def bind_Ok access_defs run_basic put_stack_def)
  have base: "load64 (mem t) st = base" by (simp add: tv load_put_stack)
  note live = grows_live(1) [OF a(1) gb a(3)]
  note f = grows_fields [OF ga] grows_fields [OF gb]
  have gt: "grows (alloc_block s st 1) 0 v t" unfolding tv
  proof (rule grows_mem_update [OF b(1)])
    fix x assume "?m x \<noteq> mem v x"
    then have "in_region st 32 x" using put_stack_outside by blast
    then have "page_of v x \<in> alloc_block v st 1" using data_pages(1) [OF b(1) live] by simp
    then show "\<not> bitmap_byte v x \<and> page_of v x \<in> alloc_block s st 1" using live by (auto simp: live_alloc_def f)
  qed
  have g: "grows {} (unat n + 3) s t"
    by (rule grows_trans [OF grows_trans [OF ga gb _ order_refl] gt]) (use a(4) in auto)
  have "alloc_block s base n \<inter> alloc_block s st 1 = {}" using b(4) a(5) by (auto simp: f)
  moreover have h: "live_alloc t st 1 32"
  proof -
    have "mem t x = mem v x" if x: "in_region (st - PAGE_SIZE) 16 x" for x
    proof -
      have "\<not> in_region st 32 x" using data_pages(2) [OF b(1) live, of x] x by auto
      then show ?thesis by (simp add: tv put_stack_outside)
    qed
    moreover have "alloc_block v st 1 \<inter> free_pages t = {}" using live grows_fields(6) [OF gt] by (auto simp: live_alloc_def)
    moreover have "alloc_frame v t" unfolding tv by (rule alloc_frame_mem_update [OF alloc_frame_refl])
    ultimately show ?thesis using live_alloc_kept [OF b(1) live] by blast
  qed
  ultimately have "live_alloc t base n (8 * nm)" by (intro grows_live(1) [OF b(1) gt b(3)]) (simp add: f)
  moreover have "of_nat (8 * unat nm) = 8 * nm" by simp
  ultimately have "cpu_stack t st n (unat nm)" using h t(4) by (simp add: cpu_stack_def base)
  moreover have "stack_pages t st n \<subseteq> free_pages s" using a(4) b(4) f by (auto simp: stack_pages_def base grows_fields [OF gt])
  ultimately show ?thesis using t(1,3) g by blast
qed

section \<open>The timer\<close>

text \<open>\<open>timed p s t\<close>: between \<open>s\<close> and \<open>t\<close> only devices were accessed, lines printed, and the frequency
  in the record at \<open>p\<close> written.\<close>

definition timed :: "u64 \<Rightarrow> kernel \<Rightarrow> kernel \<Rightarrow> bool" where
  "timed p s t \<longleftrightarrow> (\<exists>m b e l. t = s\<lparr>mem := m, lapic_base := b, dev_trace := e, klog := l\<rparr>
     \<and> (\<forall>x. \<not> in_region (p + 16) 8 x \<longrightarrow> m x = mem s x))"

lemma timed_trans: "timed p s t \<Longrightarrow> timed p t u \<Longrightarrow> timed p s u"
  unfolding timed_def by (elim exE conjE) (intro exI conjI, (simp; fail), simp)

lemma timed_steps:
  "timed p s s" "timed p s (accessed s es)" "timed p s (s\<lparr>dev_trace := e\<rparr>)" "timed p s (s\<lparr>klog := l\<rparr>)"
  "timed p s (s\<lparr>mem := store64 (mem s) (p + 16) v\<rparr>)"
proof -
  have k: "timed p s (s\<lparr>mem := m, lapic_base := b, dev_trace := e, klog := l\<rparr>)"
    if "\<And>x. \<not> in_region (p + 16) 8 x \<Longrightarrow> m x = mem s x" for m b e l
    using that by (auto simp: timed_def)
  show "timed p s s" using k [where m = "mem s" and b = "lapic_base s" and e = "dev_trace s" and l = "klog s"] by simp
  show "timed p s (accessed s es)" using k [where m = "mem s" and l = "klog s"] by (simp add: accessed_def)
  show "timed p s (s\<lparr>dev_trace := e\<rparr>)" using k [where m = "mem s" and b = "lapic_base s" and e = e and l = "klog s"] by simp
  show "timed p s (s\<lparr>klog := l\<rparr>)" using k [where m = "mem s" and b = "lapic_base s" and e = "dev_trace s" and l = l] by simp
  show "timed p s (s\<lparr>mem := store64 (mem s) (p + 16) v\<rparr>)"
    using k [where m = "store64 (mem s) (p + 16) v" and b = "lapic_base s" and e = "dev_trace s" and l = "klog s"] by (simp add: store_le_outside)
qed

lemma timed_accessed: "timed p s t \<Longrightarrow> timed p s (accessed t es)"
  by (rule timed_trans [OF _ timed_steps(2)])

lemma pit_get_current_count_timed: "\<exists>v t. pit_get_current_count s = Ok (v, t) \<and> timed p s t"
  by (intro exI conjI, simp add: pit_get_current_count_def port_defs bind_assoc run_basic, rule timed_steps(3))

lemma lapic_measure_timed:
  assumes "lapic_measure n s = Ok (v, t)"
  shows "timed p s t"
proof -
  let ?s1 = "s\<lparr>dev_trace := dev_trace s @ reload_events 0xfff0\<rparr>"
  obtain a s2 where s2: "pit_get_current_count ?s1 = Ok (a, s2)" "timed p ?s1 s2" using pit_get_current_count_timed by blast
  let ?s3 = "accessed s2 ([reg_write s2 LAPIC_REG_TIMER_INITCNT n] @ [reg_read s2 LAPIC_REG_TIMER_CURCNT])"
  obtain c s4 b where s4: "whileM (\<lambda>cur s. cur \<noteq> 0) (\<lambda>_. lapic_read LAPIC_REG_TIMER_CURCNT) c ?s3 = Ok (b, s4)"
    and rest: "(\<exists>w. pit_get_current_count s4 = Ok (w, t))"
    using assms by (auto simp: lapic_measure_def bind_Ok [where f = "pit_set_reload_value _", OF pit_set_reload_value_eq] bind_Ok [where f = pit_get_current_count, OF s2(1)] bind_eq_Ok_iff run_basic)
  have "timed p ?s3 s4" by (rule whileM_Ok_inv [OF s4]) (auto simp: lapic_read_eq timed_steps timed_accessed)
  moreover have "timed p s4 t" using rest pit_get_current_count_timed [of s4 p] by auto
  ultimately show ?thesis by (meson s2(2) timed_accessed timed_steps(3) timed_trans)
qed

lemma lapic_calibrate_step_timed:
  assumes "lapic_calibrate_step p l s = Ok (l', t)"
  shows "timed p s t"
  using assms lapic_measure_timed
  by (cases l) (auto simp: lapic_calibrate_step_def bind_eq_Ok_iff access_defs cl_defs run_basic split: if_splits intro: timed_trans [OF _ timed_steps(5)])

lemma lapic_timer_calibrate_timed:
  assumes "lapic_timer_calibrate p s = Ok ((), t)"
  shows "timed p s t"
proof -
  let ?c = "calibrating s"
  have c: "timed p s ?c" by (simp add: calibrating_def timed_steps)
  have loop: "timed p ?c v" if "whileM (\<lambda>(samples, finished) s. \<not> finished) (lapic_calibrate_step p) l ?c = Ok (l', v)" for l l' v
    by (rule whileM_Ok_inv [OF that]) (auto intro: timed_steps timed_trans [OF _ lapic_calibrate_step_timed])
  obtain k u where u: "(case (let cpuid_max = fst (cpuid_leaf ?c (0x15 AND 0x80000000) 0) in
       if cpuid_max < 0x15 then None else Some (cpuid_leaf ?c 0x15 0)) of
         Some (eax, ebx, ecx, edx) \<Rightarrow> if ecx \<noteq> 0 then bind (write64 (cl_lapic_timer_freq p) (ucast ecx)) (\<lambda>_. return True) else return False
       | None \<Rightarrow> return False) ?c = Ok (k, u)"
    and rest: "bind (if k then return () else bind (whileM (\<lambda>(samples, finished) s. \<not> finished) (lapic_calibrate_step p) (16, False)) (\<lambda>_. lapic_timer_stop))
      (\<lambda>_. bind (read64 (cl_cpu_number p)) (\<lambda>cpu_number. bind (read64 (cl_lapic_timer_freq p)) (\<lambda>freq.
        printf ''lapic: Timer frequency for CPU %u is %llu'' [PInt cpu_number, PInt freq]))) u = Ok ((), t)"
    using assms unfolding lapic_timer_calibrate_def calibrating_def
    by (simp add: cpuid_def bind_eq_Ok_iff del: bind_return) blast
  have "timed p ?c u \<and> (\<not> k \<longrightarrow> u = ?c)"
    using u by (auto simp: access_defs cl_defs run_basic Let_def timed_steps split: if_splits option.splits prod.splits)
  then have "timed p ?c t"
    using rest loop
    by (cases k) (auto simp: bind_eq_Ok_iff access_defs printf_def lapic_timer_stop_eq run_basic intro!: timed_trans [OF _ timed_steps(4)] timed_accessed)
  then show ?thesis by (rule timed_trans [OF c])
qed

text \<open>What is asked of a processor, by how its devices answer and what it tells about itself: it has the
  leaf that sizes the state that it can save, and it tells the frequency of its timer or has one that can be measured.\<close>

definition processor_ok :: "(dev_event list \<Rightarrow> u64) \<Rightarrow> (u32 \<Rightarrow> u32 \<Rightarrow> u32 \<times> u32 \<times> u32 \<times> u32) \<Rightarrow> bool" where
  "processor_ok d l \<longleftrightarrow> (0xd \<le> fst (l 0 0) \<or> fst (snd (snd (l 1 0))) AND CPUID_XSAVE = 0)
     \<and> (0x15 \<le> fst (l 0 0) \<and> fst (snd (snd (l 0x15 0))) \<noteq> 0 \<or> timer_ok d)"

lemma timer_known:
  assumes "0x15 \<le> fst (cpuid_leaf s 0 0)" and "fst (snd (snd (cpuid_leaf s 0x15 0))) \<noteq> 0"
  shows "\<exists>t. lapic_timer_calibrate p s = Ok ((), t)"
proof -
  obtain a b c d where l: "cpuid_leaf s 0x15 0 = (a, b, c, d)" by (metis prod_cases4)
  have "(0x15 :: u32) AND 0x80000000 = 0" by simp
  then show ?thesis
    using assms by (auto simp: lapic_timer_calibrate_def cpuid_def l Let_def access_defs printf_def bind_assoc run_basic)
qed

lemma processor_calibrates:
  assumes "processor_ok (device s) (cpuid_leaf s)"
  shows "\<exists>t. lapic_timer_calibrate p s = Ok ((), t)"
  using assms timer_known timer_ok_calibrates unfolding processor_ok_def by blast

section \<open>Floating point\<close>

lemma wp_bsp_printf [simp]: "wp (bsp_printf cl msg) Q s \<longleftrightarrow> Q () (s\<lparr>klog := klog s @ (if mem s (cl_is_bsp cl) = 0 then [] else [(msg, [])])\<rparr>)"
  by (simp add: bsp_printf_def access_defs printf_def)

text \<open>Bits 1 and 2 of the first control register, bits 9 and 10 of the fourth.\<close>

definition sse_on :: "kernel \<Rightarrow> bool" where
  "sse_on s \<longleftrightarrow> bit (cr0 s) 1 \<and> \<not> bit (cr0 s) 2 \<and> bit (cr4 s) 9 \<and> bit (cr4 s) 10"

text \<open>The state but for what enabling the unit changes.\<close>

definition fpu_cleared :: "kernel \<Rightarrow> kernel" where
  "fpu_cleared s = s\<lparr>klog := [], cr0 := 0, cr4 := 0, xcr0 := 0, fpu_storage_size := 0, fpu_save := fpu_none, fpu_restore := fpu_none\<rparr>"

definition fpu_changed :: "kernel \<Rightarrow> kernel \<Rightarrow> bool" where
  "fpu_changed s t \<longleftrightarrow> fpu_cleared t = fpu_cleared s \<and> sse_on t"

lemma fpu_changed_steps:
  assumes "fpu_changed s t"
  shows "fpu_changed s (t\<lparr>klog := l\<rparr>)" "fpu_changed s (t\<lparr>cr4 := cr4 t OR c\<rparr>)" "fpu_changed s (t\<lparr>xcr0 := x\<rparr>)"
    "fpu_changed s (t\<lparr>fpu_storage_size := z, fpu_save := a, fpu_restore := b\<rparr>)"
  using assms by (simp_all add: fpu_changed_def fpu_cleared_def sse_on_def bit_simps)

lemma fpu_changed_fields:
  assumes "fpu_changed s t"
  shows "mem t = mem s" "cpuid_leaf t = cpuid_leaf s" "device t = device s" "msr t = msr s" "cr3 t = cr3 s" "hhdm t = hhdm s"
    "pmm_bitmap t = pmm_bitmap s" "pmm_avl_page_count t = pmm_avl_page_count s" "pmm_last_used_index t = pmm_last_used_index s" "pmm_lock t = pmm_lock s"
    "task_reg t = task_reg s" "boot t = boot s" "x2apic_mode t = x2apic_mode s" "cpu_locals t = cpu_locals s" "gdt_lock t = gdt_lock s"
    "kernel_pagemap t = kernel_pagemap s" "int_flag t = int_flag s" "gdt t = gdt s" "processors t = processors s"
proof -
  have e: "fpu_cleared t = fpu_cleared s" using assms by (simp add: fpu_changed_def)
  show "mem t = mem s" "cpuid_leaf t = cpuid_leaf s" "device t = device s" "msr t = msr s" "cr3 t = cr3 s" "hhdm t = hhdm s"
    "pmm_bitmap t = pmm_bitmap s" "pmm_avl_page_count t = pmm_avl_page_count s" "pmm_last_used_index t = pmm_last_used_index s" "pmm_lock t = pmm_lock s"
    "task_reg t = task_reg s" "boot t = boot s" "x2apic_mode t = x2apic_mode s" "cpu_locals t = cpu_locals s" "gdt_lock t = gdt_lock s"
    "kernel_pagemap t = kernel_pagemap s" "int_flag t = int_flag s" "gdt t = gdt s" "processors t = processors s"
    using arg_cong [OF e, of mem] arg_cong [OF e, of cpuid_leaf] arg_cong [OF e, of device] arg_cong [OF e, of msr] arg_cong [OF e, of cr3]
      arg_cong [OF e, of hhdm] arg_cong [OF e, of pmm_bitmap] arg_cong [OF e, of pmm_avl_page_count] arg_cong [OF e, of pmm_last_used_index]
      arg_cong [OF e, of pmm_lock] arg_cong [OF e, of task_reg] arg_cong [OF e, of boot] arg_cong [OF e, of x2apic_mode] arg_cong [OF e, of cpu_locals]
      arg_cong [OF e, of gdt_lock] arg_cong [OF e, of kernel_pagemap] arg_cong [OF e, of int_flag] arg_cong [OF e, of gdt]
      arg_cong [OF e, of processors]
    by (simp_all add: fpu_cleared_def)
qed

lemma enable_sse_Ok: "\<exists>t. enable_sse s = Ok ((), t) \<and> fpu_changed s t"
proof -
  let ?t = "s\<lparr>cr0 := cr0 s AND NOT (push_bit 2 1) OR push_bit 1 1, cr4 := cr4 s OR push_bit 9 3\<rparr>"
  have "bit (3 :: u64) 0" "bit (3 :: u64) 1" by simp_all
  then have "fpu_changed s ?t" by (simp add: fpu_changed_def fpu_cleared_def sse_on_def bit_simps)
  moreover have "enable_sse s = Ok ((), ?t)" by (simp add: enable_sse_def cr_defs Let_def run_basic)
  ultimately show ?thesis by blast
qed

lemma fpu_init_Ok:
  assumes leaf: "0xd \<le> fst (cpuid_leaf s 0 0) \<or> fst (snd (snd (cpuid_leaf s 1 0))) AND CPUID_XSAVE = 0" and t: "fpu_changed s t"
  shows "wp (fpu_init cl) (\<lambda>_. fpu_changed s) t"
proof -
  have z: "(1 :: u32) AND 0x80000000 = 0" "(7 :: u32) AND 0x80000000 = 0" "(0xd :: u32) AND 0x80000000 = 0" by simp_all
  obtain a1 b1 c1 d1 where l1: "cpuid_leaf s 1 0 = (a1, b1, c1, d1)" by (metis prod_cases4)
  obtain a7 b7 c7 d7 where l7: "cpuid_leaf s 7 0 = (a7, b7, c7, d7)" by (metis prod_cases4)
  obtain ad bd cd dd where ld: "cpuid_leaf s 0xd 0 = (ad, bd, cd, dd)" by (metis prod_cases4)
  have cpuid: "wp (cpuid n k) Q u \<longleftrightarrow> Q (if fst (cpuid_leaf s (n AND 0x80000000) 0) < n then None else Some (cpuid_leaf s n k)) u"
    if "fpu_changed s u" for n k Q u
    using fpu_changed_fields(2) [OF that] by (simp add: cpuid_def Let_def)
  show ?thesis
    using t leaf unfolding fpu_init_def
    by (simp add: cpuid fpu_changed_steps l1 l7 ld z cr_defs wrxcr_def Let_def linorder_not_le split: option.splits) (auto simp: linorder_not_le [symmetric])
qed

section \<open>The record of a processor\<close>

text \<open>Two memories that agree on the record at \<open>cl\<close>, the timer's frequency excepted.\<close>

definition agree :: "u64 \<Rightarrow> memory \<Rightarrow> memory \<Rightarrow> bool" where
  "agree cl m m' \<longleftrightarrow> (\<forall>x. in_region cl 192 x \<and> \<not> in_region (cl + 16) 8 x \<longrightarrow> m x = m' x)"

lemma agree_refl [simp]: "agree cl m m"
  by (simp add: agree_def)

lemma agree_trans: "agree cl m m' \<Longrightarrow> agree cl m' m'' \<Longrightarrow> agree cl m m''"
  by (simp add: agree_def)

lemma agree_store: "agree cl m m' \<Longrightarrow> agree cl (store_le n m a v) (store_le n m' a v)"
  by (simp add: agree_def store_le_def)

lemma agree_upd: "agree cl m m' \<Longrightarrow> agree cl (m(a := v)) (m'(a := v))"
  by (simp add: agree_def)

lemma field_offset:
  assumes "in_region (cl + j) n x" and "unat j + n \<le> 192"
  shows "in_region cl 192 x"
  using in_region_sub [of cl j n x 192] assms by simp

lemma agree_load:
  assumes "agree cl m m'" and "unat j + n \<le> 16 \<or> 24 \<le> unat j \<and> unat j + n \<le> 192" and "n \<le> 192"
  shows "load_le n m (cl + j) = load_le n m' (cl + j)"
proof (rule load_le_cong_region)
  fix x assume x: "in_region (cl + j) n x"
  have "in_region cl 192 x" using field_offset [OF x] assms(2) by auto
  moreover have "\<not> in_region (cl + 16) 8 x"
  proof
    assume y: "in_region (cl + 16) 8 x"
    have "unat (x - cl) = unat (x - (cl + j)) + unat j"
    proof -
      have e: "x - cl = (x - (cl + j)) + j" by simp
      show ?thesis unfolding e using x assms(2) by (subst unat_add_lem [THEN iffD1]) (auto simp: in_region_def)
    qed
    moreover have "unat (x - cl) = unat (x - (cl + 16)) + 16"
    proof -
      have e: "x - cl = (x - (cl + 16)) + 16" by simp
      show ?thesis unfolding e using y by (subst unat_add_lem [THEN iffD1]) (auto simp: in_region_def)
    qed
    ultimately show False using x y assms(2) by (auto simp: in_region_def)
  qed
  ultimately show "m x = m' x" using assms(1) by (simp add: agree_def)
qed (use assms(3) in simp)

lemma agree_load64: "agree cl m m' \<Longrightarrow> unat j + 8 \<le> 16 \<or> 24 \<le> unat j \<and> unat j + 8 \<le> 192 \<Longrightarrow> load64 m (cl + j) = load64 m' (cl + j)"
  by (rule agree_load) simp_all

lemma agree_load32: "agree cl m m' \<Longrightarrow> unat j + 4 \<le> 16 \<or> 24 \<le> unat j \<and> unat j + 4 \<le> 192 \<Longrightarrow> load32 m (cl + j) = load32 m' (cl + j)"
  by (rule agree_load) simp_all

definition shared :: "kernel \<Rightarrow> _" where
  "shared s = (boot s, x2apic_mode s, cpu_locals s, gdt_lock s, kernel_pagemap s, int_flag s, device s, cpuid_leaf s, length (gdt s), processors s)"

text \<open>\<open>bring s cl k t m\<close>: between \<open>s\<close> and \<open>t\<close> at most \<open>k\<close> pages were taken, only the record at \<open>cl\<close>
  was written of what was in use, and it is now as in \<open>m\<close>.\<close>

definition bring :: "kernel \<Rightarrow> u64 \<Rightarrow> nat \<Rightarrow> kernel \<Rightarrow> memory \<Rightarrow> bool" where
  "bring s cl k t m \<longleftrightarrow> grows (alloc_block s cl 1) k s t \<and> shared t = shared s \<and> agree cl (mem t) m
     \<and> live_alloc s cl 1 192 \<and> live_alloc t cl 1 192"

lemma bring_trans:
  assumes "bring s cl k t m" and "bring t cl k' u m'" and "agree cl (mem t) m \<Longrightarrow> agree cl m' m''"
  shows "bring s cl (k + k') u m''"
proof -
  have g: "grows (alloc_block s cl 1) k s t" "grows (alloc_block t cl 1) k' t u" using assms(1,2) by (simp_all add: bring_def)
  have "grows (alloc_block s cl 1) (k + k') s u" by (rule grows_trans [OF g]) (auto simp: grows_fields [OF g(1)])
  then show ?thesis using assms by (auto simp: bring_def intro: agree_trans)
qed

lemma bring_mem:
  assumes s: "pmm_ready s" and live: "live_alloc s cl 1 192" and m: "\<And>x. \<not> in_region cl 192 x \<Longrightarrow> m x = mem s x"
  shows "bring s cl 0 (s\<lparr>mem := m\<rparr>) m"
proof -
  have g: "grows (alloc_block s cl 1) 0 s (s\<lparr>mem := m\<rparr>)"
  proof (rule grows_mem_update [OF s])
    fix x assume "m x \<noteq> mem s x"
    then have "in_region cl 192 x" using m by blast
    then have "page_of s x \<in> alloc_block s cl 1" using data_pages(1) [OF s live] by simp
    then show "\<not> bitmap_byte s x \<and> page_of s x \<in> alloc_block s cl 1" using live by (auto simp: live_alloc_def)
  qed
  have "m x = mem s x" if "in_region (cl - PAGE_SIZE) 16 x" for x using that data_pages(2) [OF s live, of x] m [of x] by auto
  then have "live_alloc (s\<lparr>mem := m\<rparr>) cl 1 192"
    using live_alloc_kept [OF s live alloc_frame_mem_update [OF alloc_frame_refl], of m] live grows_fields(6) [OF g] by (auto simp: live_alloc_def)
  then show ?thesis using g live by (simp add: bring_def shared_def)
qed

lemma bring_same:
  assumes "pmm_ready s" and live: "live_alloc s cl 1 192" and "mem t = mem s" "hhdm t = hhdm s" "pmm_bitmap t = pmm_bitmap s"
    "pmm_avl_page_count t = pmm_avl_page_count s" "pmm_last_used_index t = pmm_last_used_index s" "pmm_lock t = pmm_lock s" "shared t = shared s"
  shows "bring s cl 0 t (mem s)"
proof -
  have g: "grows W 0 s t" for W by (rule grows_same) (use assms in simp_all)
  show ?thesis using g grows_live(1) [OF assms(1) g [of "{}"] live] assms by (simp add: bring_def)
qed

lemma bring_fields:
  assumes "bring s cl k t m"
  shows "pmm_ready t" "live_alloc t cl 1 192" "boot t = boot s" "x2apic_mode t = x2apic_mode s" "cpu_locals t = cpu_locals s" "gdt_lock t = gdt_lock s"
    "kernel_pagemap t = kernel_pagemap s" "int_flag t = int_flag s" "device t = device s" "cpuid_leaf t = cpuid_leaf s" "length (gdt t) = length (gdt s)"
    "agree cl (mem t) m" "card (tens (free_pages s)) \<le> card (tens (free_pages t)) + k"
  using assms grows_tens by (auto simp: bring_def shared_def grows_def)

text \<open>The descriptor tables, the task state segment and the page tables.\<close>

lemma bring_tables:
  assumes s: "pmm_ready s" and live: "live_alloc s cl 1 192" and off: "\<not> int_flag s" "\<not> gdt_lock s" and len: "length (gdt s) = 7"
  shows "\<exists>t. bind (write32 (cl_lapic_id cl) n) (\<lambda>_. bind gdt_reload (\<lambda>_. bind idt_reload (\<lambda>_. bind (gdt_load_tss (cl_tss cl)) (\<lambda>_. vmm_switch_pagemap)))) s = Ok ((), t)
    \<and> bring s cl 0 t (store_le 4 (mem s) (cl + 8) n) \<and> cr3 t = top_level (kernel_pagemap s) \<and> task_reg t = GDT_TSS_SEL"
proof -
  let ?m = "store_le 4 (mem s) (cl + 8) n" and ?s = "s\<lparr>mem := store_le 4 (mem s) (cl + 8) n\<rparr>"
  have w: "bring s cl 0 ?s ?m"
    by (rule bring_mem [OF s live], rule store_le_outside) (auto dest: field_offset [where j = 8])
  obtain a b c d e f g where gdt: "gdt s = [a, b, c, d, e, f, g]" using length7 [OF len] .
  let ?run = "bind gdt_reload (\<lambda>_. bind idt_reload (\<lambda>_. bind (gdt_load_tss (cl_tss cl)) (\<lambda>_. vmm_switch_pagemap)))"
  have "\<exists>t. ?run ?s = Ok ((), t) \<and> mem t = mem ?s \<and> hhdm t = hhdm ?s \<and> pmm_bitmap t = pmm_bitmap ?s \<and> pmm_avl_page_count t = pmm_avl_page_count ?s
      \<and> pmm_last_used_index t = pmm_last_used_index ?s \<and> pmm_lock t = pmm_lock ?s \<and> shared t = shared ?s
      \<and> cr3 t = top_level (kernel_pagemap s) \<and> task_reg t = GDT_TSS_SEL"
    using gdt off
    by (simp add: gdt_reload_def idt_reload_def gdt_load_tss_def vmm_switch_pagemap_def bind_spinlock_acquire set_gdt_def ltr_def selected_def gdt_sels
        spinlock_release_eq bind_assoc run_basic shared_def)
  then obtain t where t: "?run ?s = Ok ((), t)" "mem t = mem ?s" "hhdm t = hhdm ?s" "pmm_bitmap t = pmm_bitmap ?s" "pmm_avl_page_count t = pmm_avl_page_count ?s"
      "pmm_last_used_index t = pmm_last_used_index ?s" "pmm_lock t = pmm_lock ?s" "shared t = shared ?s"
      "cr3 t = top_level (kernel_pagemap s)" "task_reg t = GDT_TSS_SEL" by blast
  have "bring s cl (0 + 0) t ?m"
    by (rule bring_trans [OF w bring_same [OF bring_fields(1,2) [OF w] t(2-8)]]) simp
  moreover have "bind (write32 (cl_lapic_id cl) n) (\<lambda>_. ?run) s = Ok ((), t)" using t(1) by (simp add: write32_def cl_defs)
  ultimately show ?thesis using t(9,10) by auto
qed

text \<open>A stack.\<close>

definition regs :: "kernel \<Rightarrow> (u32 \<Rightarrow> u64) \<times> u64 \<times> u16" where
  "regs s = (msr s, cr3 s, task_reg s)"

lemma bring_grown:
  assumes s: "pmm_ready s" and live: "live_alloc s cl 1 192" and g: "grows {} k s t" and "shared t = shared s"
  shows "bring s cl k t (mem s)"
proof -
  have l: "live_alloc t cl 1 192" by (rule grows_live(1) [OF s g live]) simp
  have "mem t x = mem s x" if "in_region cl 192 x" for x
    by (rule grows_live(2) [OF s g live]) (use that data_pages(1) [OF s live] in simp_all)
  then have "agree cl (mem t) (mem s)" by (simp add: agree_def)
  moreover have "grows (alloc_block s cl 1) k s t" using g by (auto simp: grows_def)
  ultimately show ?thesis using l live assms(4) by (simp add: bring_def)
qed

lemma bring_store:
  assumes "pmm_ready s" and "live_alloc s cl 1 192" and "unat j + n \<le> 192"
  shows "bring s cl 0 (s\<lparr>mem := store_le n (mem s) (cl + j) v\<rparr>) (store_le n (mem s) (cl + j) v)"
  by (rule bring_mem [OF assms(1,2)], rule store_le_outside) (use assms(3) in \<open>auto dest: field_offset\<close>)

lemma bring_stack:
  assumes s: "pmm_ready s" and live: "live_alloc s cl 1 192" and room: "4 \<le> card (tens (free_pages s))" and nm: "unat nm \<le> 2048"
    and n: "n = DIV_ROUNDUP (8 * nm) PAGE_SIZE" "n = 1 \<or> n = 4" and off: "unat f1 + 8 \<le> 192" "unat f2 + 8 \<le> 192"
  shows "\<exists>st t. bind (stack_new 8 nm) (\<lambda>st. bind (write64 (cl + f1) st) (\<lambda>_. bind (read64 (st + 8)) (\<lambda>v. write64 (cl + f2) v))) s = Ok ((), t)
    \<and> bring s cl (unat n + 3) t (store64 (store64 (mem s) (cl + f1) st) (cl + f2) (load64 (mem t) (st + 8)))
    \<and> cpu_stack t st n (unat nm) \<and> stack_pages t st n \<subseteq> free_pages s \<and> regs t = regs s"
proof -
  obtain st u where u: "stack_new 8 nm s = Ok (st, u)" "alloc_frame s u" "grows {} (unat n + 3) s u" "cpu_stack u st n (unat nm)" "stack_pages u st n \<subseteq> free_pages s"
    using stack_new_grows [OF s room nm n] by blast
  have sh: "shared u = shared s" "regs u = regs s" using u(2) by (auto simp: alloc_frame_def shared_def regs_def)
  note b0 = bring_grown [OF s live u(3) sh(1)]
  let ?m1 = "store64 (mem u) (cl + f1) st"
  note b1 = bring_store [OF bring_fields(1,2) [OF b0] off(1), of st]
  let ?v = "load64 ?m1 (st + 8)" and ?u1 = "u\<lparr>mem := store64 (mem u) (cl + f1) st\<rparr>"
  note b2 = bring_store [OF bring_fields(1,2) [OF b1] off(2), of ?v]
  let ?t = "?u1\<lparr>mem := store64 (mem ?u1) (cl + f2) ?v\<rparr>"
  have apart: "stack_pages u st n \<inter> alloc_block u cl 1 = {}"
    using u(5) live by (auto simp: live_alloc_def grows_fields(5) [OF u(3)])
  have g1: "grows (alloc_block u cl 1) 0 u ?u1" using b1 by (simp add: bring_def)
  note k1 = cpu_stack_kept [OF bring_fields(1) [OF b0] g1 u(4) apart]
  have g2: "grows (alloc_block ?u1 cl 1) 0 ?u1 ?t" using b2 by (simp add: bring_def)
  have "stack_pages ?u1 st n \<inter> alloc_block ?u1 cl 1 = {}" using apart unfolding k1(2) grows_fields(5) [OF g1] .
  note k2 = cpu_stack_kept [OF bring_fields(1) [OF b1] g2 k1(1) this]
  have v: "load64 (mem ?t) (st + 8) = ?v" using k2(4) by simp
  have "bring s cl (unat n + 3 + 0) ?u1 (store64 (mem s) (cl + f1) st)" by (rule bring_trans [OF b0 b1], rule agree_store)
  then have "bring s cl (unat n + 3 + 0 + 0) ?t (store64 (store64 (mem s) (cl + f1) st) (cl + f2) ?v)"
    by (rule bring_trans [OF _ b2], intro agree_store) simp
  then have "bring s cl (unat n + 3) ?t (store64 (store64 (mem s) (cl + f1) st) (cl + f2) (load64 (mem ?t) (st + 8)))"
    by (simp only: v add_0_right)
  moreover have "bind (stack_new 8 nm) (\<lambda>st. bind (write64 (cl + f1) st) (\<lambda>_. bind (read64 (st + 8)) (\<lambda>v. write64 (cl + f2) v))) s = Ok ((), ?t)"
    by (simp add: bind_Ok [where f = "stack_new _ _", OF u(1)] access_defs run_basic)
  moreover have "stack_pages ?t st n \<subseteq> free_pages s" using u(5) k1(2) k2(2) by simp
  moreover have "regs ?t = regs s" using sh(2) by (simp add: regs_def)
  ultimately show ?thesis using k2(1) by blast
qed

text \<open>The idle thread.\<close>

lemma cl_offsets:
  "cl_cpu_number p = p" "cl_lapic_id p = p + 8" "cl_is_bsp p = p + 12" "cl_online p = p + 13" "cl_common_int_stack p = p + 128"
  "cl_abort_stack p = p + 136" "cl_idle_thread p = p + 144" "tss_rsp0 (cl_tss p) = p + 28" "tss_ist1 (cl_tss p) = p + 60"
  "th_self p = p" "th_running_on (p + 144) = p + 152" "sizeof_cpu_local = 192"
  by (simp_all add: cl_defs add.assoc)

lemma bring_idle:
  assumes s: "pmm_ready s" and live: "live_alloc s cl 1 192"
  shows "\<exists>t. bind (write64 (cl + 144) (cl + 144)) (\<lambda>_. bind (read64 cl) (\<lambda>i. bind (write64 (cl + 152) i) (\<lambda>_.
      bind (set_gs_base (cl + 144)) (\<lambda>_. set_kernel_gs_base (cl + 144))))) s = Ok ((), t)
    \<and> bring s cl 0 t (store64 (store64 (mem s) (cl + 144) (cl + 144)) (cl + 152) (load64 (mem s) cl))
    \<and> msr t 0xc0000101 = cl + 144 \<and> cr3 t = cr3 s \<and> task_reg t = task_reg s"
proof -
  let ?m1 = "store64 (mem s) (cl + 144) (cl + 144)" and ?u = "s\<lparr>mem := store64 (mem s) (cl + 144) (cl + 144)\<rparr>"
  have b1: "bring s cl 0 ?u ?m1" by (rule bring_store [OF s live]) simp
  let ?v = "?u\<lparr>mem := store64 (mem ?u) (cl + 152) (load64 (mem s) cl)\<rparr>"
  have b2: "bring ?u cl 0 ?v (store64 (mem ?u) (cl + 152) (load64 (mem s) cl))"
    by (rule bring_store [OF bring_fields(1,2) [OF b1]]) simp
  have b12: "bring s cl (0 + 0) ?v (store64 ?m1 (cl + 152) (load64 (mem s) cl))" by (rule bring_trans [OF b1 b2]) simp
  let ?t = "?v\<lparr>msr := (msr ?v)(0xc0000101 := cl + 144, 0xc0000102 := cl + 144)\<rparr>"
  have b3: "bring ?v cl 0 ?t (mem ?v)" by (rule bring_same [OF bring_fields(1,2) [OF b12]]) (simp_all add: shared_def)
  have "bring s cl (0 + 0 + 0) ?t (store64 ?m1 (cl + 152) (load64 (mem s) cl))" by (rule bring_trans [OF b12 b3]) simp
  moreover have "load64 ?m1 cl = load64 (mem s) cl" by (subst load_store_disjoint) (simp_all add: disjoint_regions_def)
  then have "bind (write64 (cl + 144) (cl + 144)) (\<lambda>_. bind (read64 cl) (\<lambda>i. bind (write64 (cl + 152) i) (\<lambda>_.
      bind (set_gs_base (cl + 144)) (\<lambda>_. set_kernel_gs_base (cl + 144))))) s = Ok ((), ?t)"
    by (simp add: access_defs base_defs bind_Ok [where f = "wrmsr _ _", OF wrmsr_eq] lapic_msr_def bind_assoc run_basic)
  ultimately show ?thesis by (intro exI [of _ ?t]) simp
qed

text \<open>The timer, and the report to the boot processor.\<close>

lemma bring_timed:
  assumes s: "pmm_ready s" and live: "live_alloc s cl 1 192" and t: "timed cl s t"
  shows "bring s cl 0 t (mem s)" and "regs t = regs s" and "sse_on t = sse_on s"
proof -
  obtain m b e l where tt: "t = s\<lparr>mem := m, lapic_base := b, dev_trace := e, klog := l\<rparr>" and m: "\<forall>x. \<not> in_region (cl + 16) 8 x \<longrightarrow> m x = mem s x"
    using t by (auto simp: timed_def)
  have b1: "bring s cl 0 (s\<lparr>mem := m\<rparr>) m"
    by (rule bring_mem [OF s live]) (use m field_offset [of cl 16 8] in auto)
  have b2: "bring (s\<lparr>mem := m\<rparr>) cl 0 t (mem (s\<lparr>mem := m\<rparr>))"
    by (rule bring_same [OF bring_fields(1,2) [OF b1]]) (simp_all add: tt shared_def)
  have "bring s cl (0 + 0) t (mem s)" by (rule bring_trans [OF b1 b2]) (use m in \<open>simp add: agree_def\<close>)
  then show "bring s cl 0 t (mem s)" by simp
  show "regs t = regs s" "sse_on t = sse_on s" by (simp_all add: tt regs_def sse_on_def)
qed

lemma bring_online:
  assumes s: "pmm_ready s" and live: "live_alloc s cl 1 192" and cal: "\<And>u. device u = device s \<Longrightarrow> cpuid_leaf u = cpuid_leaf s \<Longrightarrow> \<exists>t. lapic_timer_calibrate cl u = Ok ((), t)"
  shows "\<exists>t. bind (lapic_enable 0xff) (\<lambda>_. bind (lapic_timer_calibrate cl) (\<lambda>_. bind (read64 cl) (\<lambda>i. bind (printf ''mp: CPU %u booted'' [PInt i]) (\<lambda>_.
      write8 (cl + 13) 1)))) s = Ok ((), t)
    \<and> bring s cl 0 t ((mem s)(cl + 13 := 1)) \<and> regs t = regs s \<and> sse_on t = sse_on s"
proof -
  obtain u where u: "lapic_enable 0xff s = Ok ((), u)" "timed cl s u" "device u = device s" "cpuid_leaf u = cpuid_leaf s"
    by (simp add: lapic_enable_def lapic_write_eq timed_steps)
  from cal [OF u(3,4)] obtain v where v: "lapic_timer_calibrate cl u = Ok ((), v)" by blast
  let ?w = "v\<lparr>klog := klog v @ [(''mp: CPU %u booted'', [PInt (load64 (mem v) cl)])]\<rparr>"
  have "timed cl s ?w" using u(2) lapic_timer_calibrate_timed [OF v] timed_steps(4) by (blast intro: timed_trans)
  note b = bring_timed [OF s live this]
  let ?t = "?w\<lparr>mem := (mem ?w)(cl + 13 := 1)\<rparr>"
  have "in_region cl 192 (cl + 13)" by (simp add: in_region_def)
  then have b2: "bring ?w cl 0 ?t ((mem ?w)(cl + 13 := 1))" by (intro bring_mem [OF bring_fields(1,2) [OF b(1)]]) auto
  have "bring s cl (0 + 0) ?t ((mem s)(cl + 13 := 1))" by (rule bring_trans [OF b(1) b2]) (rule agree_upd)
  moreover have "bind (lapic_enable 0xff) (\<lambda>_. bind (lapic_timer_calibrate cl) (\<lambda>_. bind (read64 cl) (\<lambda>i. bind (printf ''mp: CPU %u booted'' [PInt i]) (\<lambda>_.
      write8 (cl + 13) 1)))) s = Ok ((), ?t)"
    by (simp add: bind_Ok [where f = "lapic_enable _", OF u(1)] bind_Ok [where f = "lapic_timer_calibrate _", OF v] access_defs printf_def run_basic)
  ultimately show ?thesis using b(2,3) by (intro exI [of _ ?t]) (simp add: regs_def sse_on_def)
qed

section \<open>A processor comes up\<close>

text \<open>The record at \<open>cl\<close> of a processor that is up: its number, its controller's identifier, its idle thread and
  the tops of its two stacks in its task state segment.\<close>

definition cpu_up :: "kernel \<Rightarrow> u64 \<Rightarrow> u64 \<Rightarrow> u32 \<Rightarrow> u8 \<Rightarrow> bool" where
  "cpu_up s cl i n b \<longleftrightarrow> live_alloc s cl 1 192 \<and> load64 (mem s) (cl_cpu_number cl) = i \<and> load32 (mem s) (cl_lapic_id cl) = n
     \<and> mem s (cl_is_bsp cl) = b \<and> mem s (cl_online cl) = 1
     \<and> load64 (mem s) (th_self (cl_idle_thread cl)) = cl_idle_thread cl \<and> load64 (mem s) (th_running_on (cl_idle_thread cl)) = i
     \<and> cpu_stack s (load64 (mem s) (cl_common_int_stack cl)) 4 2048
     \<and> load64 (mem s) (tss_rsp0 (cl_tss cl)) = load64 (mem s) (load64 (mem s) (cl_common_int_stack cl) + 8)
     \<and> cpu_stack s (load64 (mem s) (cl_abort_stack cl)) 1 512
     \<and> load64 (mem s) (tss_ist1 (cl_tss cl)) = load64 (mem s) (load64 (mem s) (cl_abort_stack cl) + 8)"

definition cpu_pages :: "kernel \<Rightarrow> u64 \<Rightarrow> nat set" where
  "cpu_pages s cl = alloc_block s cl 1 \<union> stack_pages s (load64 (mem s) (cl_common_int_stack cl)) 4
     \<union> stack_pages s (load64 (mem s) (cl_abort_stack cl)) 1"

lemma bring_fpu:
  assumes "pmm_ready s" and "live_alloc s cl 1 192" and "processor_ok (device s) (cpuid_leaf s)"
  shows "\<exists>t. bind enable_sse (\<lambda>_. fpu_init cl) s = Ok ((), t) \<and> bring s cl 0 t (mem s) \<and> regs t = regs s \<and> sse_on t"
proof -
  obtain u where u: "enable_sse s = Ok ((), u)" "fpu_changed s u" using enable_sse_Ok by blast
  have "0xd \<le> fst (cpuid_leaf s 0 0) \<or> fst (snd (snd (cpuid_leaf s 1 0))) AND CPUID_XSAVE = 0" using assms(3) by (simp add: processor_ok_def)
  from fpu_init_Ok [OF this u(2), of cl] obtain t where t: "fpu_init cl u = Ok ((), t)" "fpu_changed s t" by (auto elim!: wp_OkE)
  note f = fpu_changed_fields [OF t(2)]
  have "bring s cl 0 t (mem s)" by (rule bring_same [OF assms(1,2)]) (simp_all add: f shared_def)
  moreover have "regs t = regs s" "sse_on t" using t(2) by (simp_all add: f regs_def fpu_changed_def)
  ultimately show ?thesis using u(1) t(1) by (simp add: bind_Ok)
qed

lemma stack_sizes: "4 = DIV_ROUNDUP (8 * 2048) PAGE_SIZE" "1 = DIV_ROUNDUP (8 * 512) PAGE_SIZE"
proof -
  have "unat (DIV_ROUNDUP (8 * 2048) PAGE_SIZE) = 4" by (subst page_count_bound(1)) simp_all
  then show "4 = DIV_ROUNDUP (8 * 2048) PAGE_SIZE" by (simp add: word_unat_eq_iff)
  show "1 = DIV_ROUNDUP (8 * 512) PAGE_SIZE" by (rule one_page [symmetric]) simp_all
qed

definition bringup_tables :: "u64 \<Rightarrow> u32 \<Rightarrow> unit kprog" where
  "bringup_tables cl n =
    bind (bind (write32 (cl_lapic_id cl) n) (\<lambda>_. bind gdt_reload (\<lambda>_. bind idt_reload (\<lambda>_. bind (gdt_load_tss (cl_tss cl)) (\<lambda>_. vmm_switch_pagemap)))))
   (\<lambda>_. bind (bind (stack_new 8 2048) (\<lambda>st. bind (write64 (cl + 128) st) (\<lambda>_. bind (read64 (st + 8)) (\<lambda>v. write64 (cl + 28) v))))
   (\<lambda>_. bind (stack_new 8 512) (\<lambda>st. bind (write64 (cl + 136) st) (\<lambda>_. bind (read64 (st + 8)) (\<lambda>v. write64 (cl + 60) v)))))"

definition bringup_rest :: "u64 \<Rightarrow> unit kprog" where
  "bringup_rest cl =
    bind (bind (write64 (cl + 144) (cl + 144)) (\<lambda>_. bind (read64 cl) (\<lambda>i. bind (write64 (cl + 152) i) (\<lambda>_.
      bind (set_gs_base (cl + 144)) (\<lambda>_. set_kernel_gs_base (cl + 144))))))
   (\<lambda>_. bind (bind enable_sse (\<lambda>_. fpu_init cl))
   (\<lambda>_. bind (lapic_enable 0xff) (\<lambda>_. bind (lapic_timer_calibrate cl) (\<lambda>_. bind (read64 cl) (\<lambda>i. bind (printf ''mp: CPU %u booted'' [PInt i]) (\<lambda>_.
      write8 (cl + 13) 1))))))"

lemma cpu_bringup_run:
  assumes "mp_boot_response (boot s) = Some r" and "cl = extra_argument (mp_cpus r ! k)"
  shows "cpu_bringup k s = bind (bringup_tables cl (mp_lapic_id (mp_cpus r ! k))) (\<lambda>_. bind (bringup_rest cl) (\<lambda>_. return cl)) s"
  using assms by (simp add: cpu_bringup_def bringup_tables_def bringup_rest_def mp_of_def Let_def bind_assoc cl_offsets)

lemma bring_stack_kept:
  assumes b: "bring s cl k t m" and s: "pmm_ready s" and st: "cpu_stack s st n cap" and apart: "stack_pages s st n \<inter> alloc_block s cl 1 = {}"
  shows "cpu_stack t st n cap" "stack_pages t st n = stack_pages s st n" "load64 (mem t) (st + 8) = load64 (mem s) (st + 8)"
    "stack_pages t st n \<inter> alloc_block t cl 1 = {}"
proof -
  have g: "grows (alloc_block s cl 1) k s t" using b by (simp add: bring_def)
  note kept = cpu_stack_kept [OF s g st apart]
  show "cpu_stack t st n cap" "stack_pages t st n = stack_pages s st n" "load64 (mem t) (st + 8) = load64 (mem s) (st + 8)" using kept by simp_all
  show "stack_pages t st n \<inter> alloc_block t cl 1 = {}" using apart kept(2) grows_fields(5) [OF g] by simp
qed

lemma bringup_tables_Ok:
  assumes s: "pmm_ready s" and live: "live_alloc s cl 1 192" and off: "\<not> int_flag s" "\<not> gdt_lock s" and len: "length (gdt s) = 7"
    and room: "15 \<le> card (tens (free_pages s))"
  shows "\<exists>t st1 st2. bringup_tables cl n s = Ok ((), t)
    \<and> bring s cl 11 t (store64 (store64 (store64 (store64 (store_le 4 (mem s) (cl + 8) n) (cl + 128) st1) (cl + 28) (load64 (mem t) (st1 + 8)))
         (cl + 136) st2) (cl + 60) (load64 (mem t) (st2 + 8)))
    \<and> cpu_stack t st1 4 2048 \<and> cpu_stack t st2 1 512 \<and> stack_pages t st1 4 \<union> stack_pages t st2 1 \<subseteq> free_pages s
    \<and> stack_pages t st1 4 \<inter> stack_pages t st2 1 = {} \<and> cr3 t = top_level (kernel_pagemap s) \<and> task_reg t = GDT_TSS_SEL"
proof -
  obtain a where a: "bring s cl 0 a (store_le 4 (mem s) (cl + 8) n)" "cr3 a = top_level (kernel_pagemap s)" "task_reg a = GDT_TSS_SEL"
    and ra: "bind (write32 (cl_lapic_id cl) n) (\<lambda>_. bind gdt_reload (\<lambda>_. bind idt_reload (\<lambda>_. bind (gdt_load_tss (cl_tss cl)) (\<lambda>_. vmm_switch_pagemap)))) s = Ok ((), a)"
    using bring_tables [OF s live off len] by blast
  note fa = bring_fields [OF a(1)]
  have m: "unat (2048 :: u64) \<le> 2048" "unat (512 :: u64) \<le> 2048" by simp_all
  have oa: "4 \<le> card (tens (free_pages a))" using fa(13) room by simp
  obtain st1 b where b: "bring a cl (unat (4 :: u64) + 3) b (store64 (store64 (mem a) (cl + 128) st1) (cl + 28) (load64 (mem b) (st1 + 8)))"
      "cpu_stack b st1 4 (unat (2048 :: u64))" "stack_pages b st1 4 \<subseteq> free_pages a" "regs b = regs a"
    and rb: "bind (stack_new 8 2048) (\<lambda>st. bind (write64 (cl + 128) st) (\<lambda>_. bind (read64 (st + 8)) (\<lambda>v. write64 (cl + 28) v))) a = Ok ((), b)"
    using bring_stack [OF fa(1,2) oa m(1) stack_sizes(1), of 128 28] by auto
  note fb = bring_fields [OF b(1)]
  have ob: "4 \<le> card (tens (free_pages b))" using fa(13) fb(13) room by simp
  obtain st2 t where t: "bring b cl (unat (1 :: u64) + 3) t (store64 (store64 (mem b) (cl + 136) st2) (cl + 60) (load64 (mem t) (st2 + 8)))"
      "cpu_stack t st2 1 (unat (512 :: u64))" "stack_pages t st2 1 \<subseteq> free_pages b" "regs t = regs b"
    and rt: "bind (stack_new 8 512) (\<lambda>st. bind (write64 (cl + 136) st) (\<lambda>_. bind (read64 (st + 8)) (\<lambda>v. write64 (cl + 60) v))) b = Ok ((), t)"
    using bring_stack [OF fb(1,2) ob m(2) stack_sizes(2), of 136 60] by auto
  have g: "grows (alloc_block s cl 1) 0 s a" "grows (alloc_block a cl 1) (unat (4 :: u64) + 3) a b" using a(1) b(1) by (simp_all add: bring_def)
  have "stack_pages b st1 4 \<inter> alloc_block b cl 1 = {}"
    using b(3) fa(2) unfolding grows_fields(5) [OF g(2)] by (auto simp: live_alloc_def)
  note k = bring_stack_kept [OF t(1) fb(1) b(2) this]
  have "stack_pages b st1 4 \<inter> free_pages b = {}" using cpu_stack_busy(1) [OF b(2)] .
  then have pg: "stack_pages t st1 4 \<inter> stack_pages t st2 1 = {}" "stack_pages t st1 4 \<union> stack_pages t st2 1 \<subseteq> free_pages s"
    using k(2) t(3) b(3) grows_fields(6) [OF g(1)] grows_fields(6) [OF g(2)] by auto
  have ab: "bring s cl (0 + (unat (4 :: u64) + 3)) b (store64 (store64 (store_le 4 (mem s) (cl + 8) n) (cl + 128) st1) (cl + 28) (load64 (mem b) (st1 + 8)))"
    by (rule bring_trans [OF a(1) b(1)], intro agree_store)
  have "bring s cl (0 + (unat (4 :: u64) + 3) + (unat (1 :: u64) + 3)) t (store64 (store64 (store64 (store64 (store_le 4 (mem s) (cl + 8) n) (cl + 128) st1) (cl + 28)
      (load64 (mem b) (st1 + 8))) (cl + 136) st2) (cl + 60) (load64 (mem t) (st2 + 8)))"
    by (rule bring_trans [OF ab t(1)], intro agree_store)
  moreover have "bringup_tables cl n s = Ok ((), t)" unfolding bringup_tables_def
    by (rule bind_Ok [THEN trans], rule ra, rule bind_Ok [THEN trans], rule rb, rule rt)
  moreover have "cr3 t = top_level (kernel_pagemap s)" "task_reg t = GDT_TSS_SEL" using a(2,3) b(4) t(4) by (simp_all add: regs_def)
  ultimately show ?thesis using k(1,3) t(2) pg by (intro exI [of _ t] exI [of _ st1] exI [of _ st2]) simp
qed

lemma bringup_rest_Ok:
  assumes s: "pmm_ready s" and live: "live_alloc s cl 1 192" and ok: "processor_ok (device s) (cpuid_leaf s)"
  shows "\<exists>t. bringup_rest cl s = Ok ((), t) \<and> bring s cl 0 t ((store64 (store64 (mem s) (cl + 144) (cl + 144)) (cl + 152) (load64 (mem s) cl))(cl + 13 := 1))
    \<and> msr t 0xc0000101 = cl + 144 \<and> cr3 t = cr3 s \<and> task_reg t = task_reg s \<and> sse_on t"
proof -
  obtain d where d: "bring s cl 0 d (store64 (store64 (mem s) (cl + 144) (cl + 144)) (cl + 152) (load64 (mem s) cl))"
      "msr d 0xc0000101 = cl + 144" "cr3 d = cr3 s" "task_reg d = task_reg s"
    and rd: "bind (write64 (cl + 144) (cl + 144)) (\<lambda>_. bind (read64 cl) (\<lambda>i. bind (write64 (cl + 152) i) (\<lambda>_.
      bind (set_gs_base (cl + 144)) (\<lambda>_. set_kernel_gs_base (cl + 144))))) s = Ok ((), d)"
    using bring_idle [OF s live] by blast
  note fd = bring_fields [OF d(1)]
  have okd: "processor_ok (device d) (cpuid_leaf d)" using ok by (simp add: fd)
  obtain e where e: "bring d cl 0 e (mem d)" "regs e = regs d" "sse_on e" and re: "bind enable_sse (\<lambda>_. fpu_init cl) d = Ok ((), e)"
    using bring_fpu [OF fd(1,2) okd] by blast
  note fe = bring_fields [OF e(1)]
  have cal: "\<exists>t. lapic_timer_calibrate cl u = Ok ((), t)" if "device u = device e" "cpuid_leaf u = cpuid_leaf e" for u
    using okd that by (intro processor_calibrates) (simp add: fe)
  obtain t where t: "bring e cl 0 t ((mem e)(cl + 13 := 1))" "regs t = regs e" "sse_on t = sse_on e"
    and rt: "bind (lapic_enable 0xff) (\<lambda>_. bind (lapic_timer_calibrate cl) (\<lambda>_. bind (read64 cl) (\<lambda>i. bind (printf ''mp: CPU %u booted'' [PInt i]) (\<lambda>_.
      write8 (cl + 13) 1)))) e = Ok ((), t)"
    using bring_online [OF fe(1,2) cal] by blast
  have "bring d cl (0 + 0) t ((mem d)(cl + 13 := 1))" by (rule bring_trans [OF e(1) t(1)], rule agree_upd)
  then have "bring s cl (0 + (0 + 0)) t ((store64 (store64 (mem s) (cl + 144) (cl + 144)) (cl + 152) (load64 (mem s) cl))(cl + 13 := 1))"
    by (rule bring_trans [OF d(1)], intro agree_upd)
  moreover have "bringup_rest cl s = Ok ((), t)" unfolding bringup_rest_def
    by (rule bind_Ok [THEN trans], rule rd, rule bind_Ok [THEN trans], rule re, rule rt)
  ultimately show ?thesis using d(2-4) e(2,3) t(2,3) by (auto simp: regs_def)
qed

text \<open>The fields of the record after all its stores.\<close>

definition record_mem :: "u64 \<Rightarrow> u32 \<Rightarrow> u64 \<Rightarrow> u64 \<Rightarrow> u64 \<Rightarrow> u64 \<Rightarrow> memory \<Rightarrow> memory" where
  "record_mem cl n st1 v1 st2 v2 m =
     (store64 (store64 (store64 (store64 (store64 (store64 (store_le 4 m (cl + 8) n) (cl + 128) st1) (cl + 28) v1) (cl + 136) st2) (cl + 60) v2)
       (cl + 144) (cl + 144)) (cl + 152) (load64 m cl))(cl + 13 := 1)"

lemma load_upd: "\<not> in_region a n x \<Longrightarrow> n \<le> 2 ^ 64 \<Longrightarrow> load_le n (m(x := v)) a = load_le n m a"
  by (rule load_le_cong_region) auto

lemma record_mem_fields:
  "load64 (record_mem cl n st1 v1 st2 v2 m) cl = load64 m cl"
  "load32 (record_mem cl n st1 v1 st2 v2 m) (cl + 8) = n"
  "record_mem cl n st1 v1 st2 v2 m (cl + 12) = m (cl + 12)" "record_mem cl n st1 v1 st2 v2 m (cl + 13) = 1"
  "load64 (record_mem cl n st1 v1 st2 v2 m) (cl + 28) = v1" "load64 (record_mem cl n st1 v1 st2 v2 m) (cl + 60) = v2"
  "load64 (record_mem cl n st1 v1 st2 v2 m) (cl + 128) = st1" "load64 (record_mem cl n st1 v1 st2 v2 m) (cl + 136) = st2"
  "load64 (record_mem cl n st1 v1 st2 v2 m) (cl + 144) = cl + 144" "load64 (record_mem cl n st1 v1 st2 v2 m) (cl + 152) = load64 m cl"
  by (simp_all add: record_mem_def load_upd in_region_def load_store_disjoint disjoint_regions_def load_store_same store_le_outside)

lemma cpu_bringup_bring:
  assumes s: "pmm_ready s" and live: "live_alloc s cl 1 192" and off: "\<not> int_flag s" "\<not> gdt_lock s" and len: "length (gdt s) = 7"
    and r: "mp_boot_response (boot s) = Some r" "cl = extra_argument (mp_cpus r ! k)" and room: "15 \<le> card (tens (free_pages s))"
    and ok: "processor_ok (device s) (cpuid_leaf s)"
  shows "\<exists>t st1 st2. cpu_bringup k s = Ok (cl, t)
    \<and> bring s cl 11 t (record_mem cl (mp_lapic_id (mp_cpus r ! k)) st1 (load64 (mem t) (st1 + 8)) st2 (load64 (mem t) (st2 + 8)) (mem s))
    \<and> cpu_stack t st1 4 2048 \<and> cpu_stack t st2 1 512 \<and> stack_pages t st1 4 \<union> stack_pages t st2 1 \<subseteq> free_pages s
    \<and> stack_pages t st1 4 \<inter> stack_pages t st2 1 = {}
    \<and> cr3 t = top_level (kernel_pagemap s) \<and> task_reg t = GDT_TSS_SEL \<and> msr t 0xc0000101 = cl_idle_thread cl \<and> sse_on t"
proof -
  let ?n = "mp_lapic_id (mp_cpus r ! k)"
  let ?M = "\<lambda>st1 v1 st2 v2. store64 (store64 (store64 (store64 (store_le 4 (mem s) (cl + 8) ?n) (cl + 128) st1) (cl + 28) v1) (cl + 136) st2) (cl + 60) v2"
  obtain u st1 st2 where u: "bringup_tables cl ?n s = Ok ((), u)" "bring s cl 11 u (?M st1 (load64 (mem u) (st1 + 8)) st2 (load64 (mem u) (st2 + 8)))"
      "cpu_stack u st1 4 2048" "cpu_stack u st2 1 512" "stack_pages u st1 4 \<union> stack_pages u st2 1 \<subseteq> free_pages s"
      "stack_pages u st1 4 \<inter> stack_pages u st2 1 = {}" "cr3 u = top_level (kernel_pagemap s)" "task_reg u = GDT_TSS_SEL"
    using bringup_tables_Ok [OF s live off len room] by blast
  note fu = bring_fields [OF u(2)]
  have oku: "processor_ok (device u) (cpuid_leaf u)" using ok by (simp add: fu)
  obtain t where t: "bringup_rest cl u = Ok ((), t)" "bring u cl 0 t ((store64 (store64 (mem u) (cl + 144) (cl + 144)) (cl + 152) (load64 (mem u) cl))(cl + 13 := 1))"
      "msr t 0xc0000101 = cl + 144" "cr3 t = cr3 u" "task_reg t = task_reg u" "sse_on t"
    using bringup_rest_Ok [OF fu(1,2) oku] by blast
  have g: "grows (alloc_block s cl 1) 11 s u" using u(2) by (simp add: bring_def)
  have "(stack_pages u st1 4 \<union> stack_pages u st2 1) \<inter> alloc_block u cl 1 = {}"
    using u(5) live unfolding grows_fields(5) [OF g] by (auto simp: live_alloc_def)
  then have ap: "stack_pages u st1 4 \<inter> alloc_block u cl 1 = {}" "stack_pages u st2 1 \<inter> alloc_block u cl 1 = {}" by blast+
  note k1 = bring_stack_kept [OF t(2) fu(1) u(3) ap(1)] and k2 = bring_stack_kept [OF t(2) fu(1) u(4) ap(2)]
  have "load64 (mem u) cl = load64 (?M st1 (load64 (mem u) (st1 + 8)) st2 (load64 (mem u) (st2 + 8))) cl" using agree_load64 [OF fu(12), of 0] by simp
  also have "\<dots> = load64 (mem s) cl" by (simp add: load_store_disjoint disjoint_regions_def)
  finally have "bring s cl (11 + 0) t (record_mem cl ?n st1 (load64 (mem t) (st1 + 8)) st2 (load64 (mem t) (st2 + 8)) (mem s))"
    by (intro bring_trans [OF u(2) t(2)]) (simp add: record_mem_def k1(3) k2(3) agree_upd agree_store)
  moreover have "cpu_bringup k s = Ok (cl, t)" unfolding cpu_bringup_run [OF r]
    by (rule bind_Ok [THEN trans], rule u(1), rule bind_Ok [THEN trans], rule t(1), rule run_basic(1))
  ultimately show ?thesis using u(5-8) t(3-6) k1(1,2) k2(1,2) by (intro exI [of _ t] exI [of _ st1] exI [of _ st2]) (simp add: cl_offsets)
qed

lemma cpu_up_busy:
  assumes "cpu_up s cl i n b"
  shows "cpu_pages s cl \<inter> free_pages s = {}"
proof -
  have u: "live_alloc s cl 1 192" "cpu_stack s (load64 (mem s) (cl_common_int_stack cl)) 4 2048" "cpu_stack s (load64 (mem s) (cl_abort_stack cl)) 1 512"
    using assms by (simp_all add: cpu_up_def)
  have "alloc_block s cl 1 \<inter> free_pages s = {}" using u(1) by (simp add: live_alloc_def)
  then show ?thesis using cpu_stack_busy(1) [OF u(2)] cpu_stack_busy(1) [OF u(3)] by (auto simp: cpu_pages_def)
qed

lemma cpu_bringup_Ok:
  assumes s: "pmm_ready s" and live: "live_alloc s cl 1 192" and off: "\<not> int_flag s" "\<not> gdt_lock s" and len: "length (gdt s) = 7"
    and r: "mp_boot_response (boot s) = Some r" "cl = extra_argument (mp_cpus r ! k)" and room: "15 \<le> card (tens (free_pages s))"
    and ok: "processor_ok (device s) (cpuid_leaf s)"
  shows "\<exists>t. cpu_bringup k s = Ok (cl, t) \<and> grows (alloc_block s cl 1) 11 s t \<and> shared t = shared s
    \<and> cpu_up t cl (load64 (mem s) cl) (mp_lapic_id (mp_cpus r ! k)) (mem s (cl_is_bsp cl)) \<and> cpu_pages t cl \<subseteq> alloc_block s cl 1 \<union> free_pages s
    \<and> cr3 t = top_level (kernel_pagemap s) \<and> task_reg t = GDT_TSS_SEL \<and> msr t 0xc0000101 = cl_idle_thread cl \<and> sse_on t"
proof -
  obtain t st1 st2 where t: "cpu_bringup k s = Ok (cl, t)"
    "bring s cl 11 t (record_mem cl (mp_lapic_id (mp_cpus r ! k)) st1 (load64 (mem t) (st1 + 8)) st2 (load64 (mem t) (st2 + 8)) (mem s))" (is "bring s cl 11 t ?m")
    "cpu_stack t st1 4 2048" "cpu_stack t st2 1 512" "stack_pages t st1 4 \<union> stack_pages t st2 1 \<subseteq> free_pages s"
    "cr3 t = top_level (kernel_pagemap s)" "task_reg t = GDT_TSS_SEL" "msr t 0xc0000101 = cl_idle_thread cl" "sse_on t"
    using cpu_bringup_bring [OF assms] by blast
  note f = bring_fields [OF t(2)]
  note ld = agree_load64 [OF f(12)] and fields = record_mem_fields
  have g: "grows (alloc_block s cl 1) 11 s t" using t(2) by (simp add: bring_def)
  have byte: "mem t (cl + 12) = mem s (cl + 12)" "mem t (cl + 13) = 1"
    using f(12) fields(3,4) by (simp_all add: agree_def in_region_def)
  have st: "load64 (mem t) (cl + 128) = st1" "load64 (mem t) (cl + 136) = st2" using ld [of 128] ld [of 136] by (simp_all add: fields)
  have "cpu_up t cl (load64 (mem s) cl) (mp_lapic_id (mp_cpus r ! k)) (mem s (cl_is_bsp cl))"
    using f(2) t(3,4) ld [of 0] agree_load32 [OF f(12), of 8] ld [of 28] ld [of 60] ld [of 144] ld [of 152] byte
    by (simp add: cpu_up_def cl_offsets st fields)
  moreover have "cpu_pages t cl \<subseteq> alloc_block s cl 1 \<union> free_pages s"
    using t(5) by (auto simp: cpu_pages_def cl_offsets st grows_fields(5) [OF g])
  moreover have "shared t = shared s" using t(2) by (simp add: bring_def)
  ultimately show ?thesis using t(1,6-) g by blast
qed

lemma cpu_up_kept:
  assumes s: "pmm_ready s" and g: "grows W k s t" and up: "cpu_up s cl i n b" and apart: "cpu_pages s cl \<inter> W = {}"
  shows "cpu_up t cl i n b" and "cpu_pages t cl = cpu_pages s cl"
proof -
  let ?st1 = "load64 (mem s) (cl + 128)" and ?st2 = "load64 (mem s) (cl + 136)"
  have u: "live_alloc s cl 1 192" "cpu_stack s ?st1 4 2048" "cpu_stack s ?st2 1 512" using up by (simp_all add: cpu_up_def cl_offsets)
  have ap: "alloc_block s cl 1 \<inter> W = {}" "stack_pages s ?st1 4 \<inter> W = {}" "stack_pages s ?st2 1 \<inter> W = {}"
    using apart by (auto simp: cpu_pages_def cl_offsets)
  note l = grows_live [OF s g u(1) ap(1)] and k1 = cpu_stack_kept [OF s g u(2) ap(2)] and k2 = cpu_stack_kept [OF s g u(3) ap(3)]
  have m: "mem t x = mem s x" if "in_region cl 192 x" for x by (rule l(2)) (use that data_pages(1) [OF s u(1)] in simp)
  then have "agree cl (mem t) (mem s)" by (simp add: agree_def)
  note ld = agree_load64 [OF this] agree_load32 [OF this]
  have f: "load64 (mem t) cl = load64 (mem s) cl" "load32 (mem t) (cl + 8) = load32 (mem s) (cl + 8)" "load64 (mem t) (cl + 28) = load64 (mem s) (cl + 28)"
    "load64 (mem t) (cl + 60) = load64 (mem s) (cl + 60)" "load64 (mem t) (cl + 128) = ?st1" "load64 (mem t) (cl + 136) = ?st2"
    "load64 (mem t) (cl + 144) = load64 (mem s) (cl + 144)" "load64 (mem t) (cl + 152) = load64 (mem s) (cl + 152)"
    "mem t (cl + 12) = mem s (cl + 12)" "mem t (cl + 13) = mem s (cl + 13)"
    using ld(1) [of 0] ld(2) [of 8] ld(1) [of 28] ld(1) [of 60] ld(1) [of 128] ld(1) [of 136] ld(1) [of 144] ld(1) [of 152] m [of "cl + 12"] m [of "cl + 13"]
    by (simp_all add: in_region_def)
  show "cpu_up t cl i n b" using up l(1) k1(1,4) k2(1,4) by (simp add: cpu_up_def cl_offsets f)
  show "cpu_pages t cl = cpu_pages s cl" by (simp add: cpu_pages_def cl_offsets f k1(2) k2(2) grows_fields(5) [OF g])
qed

lemma page_vec_grows:
  assumes s: "pmm_ready s" and g: "grows W k s t" and v: "page_vec s v xs" and apart: "vec_pages s v \<inter> W = {}"
  shows "page_vec t v xs"
  using v
proof (cases rule: page_vec_cases)
  case fresh
  then show ?thesis by (simp add: page_vec_def)
next
  case live
  have ap: "alloc_block s (vec_data v) 1 \<inter> W = {}" using apart live(5) by (simp add: vec_pages_def)
  note l = grows_live [OF s g live(1) ap]
  have "word_array (mem t) (vec_data v) (unat (vec_length v)) = word_array (mem s) (vec_data v) (unat (vec_length v))"
  proof (rule word_array_cong)
    fix x assume "in_region (vec_data v) (8 * unat (vec_length v)) x"
    then have "in_region (vec_data v) (unat (vec_capacity v * 8)) x"
      using live(3,6) by (simp add: in_region_def word_le_nat_alt)
    from data_pages(1) [OF s live(1) this] show "mem t x = mem s x" by (rule l(2))
  qed (use live(3) page_capacity_bounds(3) [OF live(4)] in \<open>auto simp: word_le_nat_alt\<close>)
  then show ?thesis using l(1) live(2-4) by (simp add: page_vec_def vec_list_def)
qed

lemma grows_push:
  assumes s: "pmm_ready s" and w: "vec_appended s v t w" and t: "pmm_ready t"
  shows "grows (vec_pages s v) 2 s t"
proof -
  have a: "alloc_frame s t" "vec_pages s w \<subseteq> vec_pages s v \<union> free_pages s" "free_pages t = free_pages s - vec_pages s w"
    "\<And>x. \<not> bitmap_byte s x \<Longrightarrow> page_of s x \<notin> vec_pages s w \<Longrightarrow> mem t x = mem s x"
    using w by (auto simp: vec_appended_def)
  have "card (block_of p c) \<le> unat c" for p c :: u64 by (simp add: block_of_def)
  from this [of "vec_data w - PAGE_SIZE - hhdm s" 2] have "card (alloc_block s (vec_data w) 1) \<le> 2" by (simp add: alloc_block_def)
  then have "card (vec_pages s w) \<le> 2" by (simp add: vec_pages_def)
  moreover have "finite (vec_pages s w)" by (auto simp: vec_pages_def alloc_block_def block_of_def)
  ultimately have "card (free_pages s) \<le> card (free_pages s - vec_pages s w) + 2"
    using diff_card_le_card_Diff [of "vec_pages s w" "free_pages s"] by simp
  then show ?thesis using a t by (auto simp: grows_def alloc_frame_def)
qed

end
