(* ===== verification/Mp_Init.thy ===== *)
theory Mp_Init
  imports Cpu_Init
begin

text \<open>
  All processors of the machine come up: \<open>mp_init\<close> of \<open>kernel/src/sys/mp.c\<close>, with the application processors
  running \<open>cpu_init\<close>. The boot processor starts them one after the other and only reads the \<open>online\<close>
  flag of the one that it waits for, so the run of that processor up to its report is one step.
\<close>

section \<open>Definitions\<close>

text \<open>The registers of a processor and what its devices and its identification answer, on the memory and
  the globals that all processors share.\<close>

definition on_processor :: "cpu_state \<Rightarrow> kernel \<Rightarrow> kernel" where
  "on_processor c s = s\<lparr>int_flag := int_flag c, cr0 := cr0 c, cr2 := cr2 c, cr3 := cr3 c, cr4 := cr4 c, xcr0 := xcr0 c, msr := msr c,
     gdtr_limit := gdtr_limit c, gdtr_base := gdtr_base c, idtr_limit := idtr_limit c, idtr_base := idtr_base c, task_reg := task_reg c,
     seg_cs := seg_cs c, seg_ds := seg_ds c, seg_es := seg_es c, seg_ss := seg_ss c, seg_fs := seg_fs c, seg_gs := seg_gs c,
     device := device c, cpuid_leaf := cpuid_leaf c\<rparr>"




section \<open>The invariant\<close>





section \<open>The record of the next processor\<close>




section \<open>The processor comes up\<close>

lemma on_processor_fields [simp]:
  "mem (on_processor c s) = mem s" "hhdm (on_processor c s) = hhdm s" "pmm_bitmap (on_processor c s) = pmm_bitmap s"
  "pmm_avl_page_count (on_processor c s) = pmm_avl_page_count s" "pmm_last_used_index (on_processor c s) = pmm_last_used_index s"
  "pmm_lock (on_processor c s) = pmm_lock s" "boot (on_processor c s) = boot s" "gdt_lock (on_processor c s) = gdt_lock s" "gdt (on_processor c s) = gdt s"
  "int_flag (on_processor c s) = int_flag c" "device (on_processor c s) = device c" "cpuid_leaf (on_processor c s) = cpuid_leaf c"
  "kernel_pagemap (on_processor c s) = kernel_pagemap s" "cpu_locals (on_processor c s) = cpu_locals s" "x2apic_mode (on_processor c s) = x2apic_mode s"
  "msr (on_processor c s) = msr c" "cr3 (on_processor c s) = cr3 c" "task_reg (on_processor c s) = task_reg c" "processors (on_processor c s) = processors s"
  by (simp_all add: on_processor_def)






section \<open>An iteration\<close>







section \<open>All processors\<close>


















end
