(* ===== verification/Kmain.thy ===== *)
theory Kmain
  imports Boot_Acpi Sched Panic Mp_Init
begin

text \<open>
  The entry point, \<open>kernel/src/main.c\<close>. Its parameters are the code outside the kernel it relies on:
  whether the bootloader supports the base revision, the terminal, the ACPI library and the other
  processors. The parts that print collect their messages, and \<open>flush_log\<close> after each of them prints these.
\<close>

section \<open>Definitions\<close>

record outside =
  base_revision_supported :: bool
  out_display :: display
  out_uacpi_initialize :: "u64 \<Rightarrow> u32 kprog"
  out_uacpi_namespace_load :: "u32 kprog"
  out_uacpi_status_to_string :: "u32 \<Rightarrow> string"
  out_start_ap :: "nat \<Rightarrow> unit kprog"

definition kmain :: "outside \<Rightarrow> unit kprog" where
  "kmain env =
     (if \<not> base_revision_supported env then
        bind (whileM (\<lambda>_ s. True) (\<lambda>_. return ()) ()) (\<lambda>_. return ())
      else
        bind pmm_init (\<lambda>_.
        bind (flush_log (out_display env)) (\<lambda>_.
        bind slab_init (\<lambda>_.
        bind (term_init (out_display env) False) (\<lambda>_.
        bind gdt_init (\<lambda>_.
        bind idt_init (\<lambda>_.
        bind isr_init (\<lambda>_.
        bind vmm_init (\<lambda>_.
        bind (flush_log (out_display env)) (\<lambda>_.
        bind (gets (\<lambda>s. mp_boot_response (boot s))) (\<lambda>response.
        case response of
          None \<Rightarrow> panic ''MP bootloader response missing''
        | Some r \<Rightarrow>
            bind (modify (\<lambda>s. s\<lparr>x2apic_mode := mp_x2apic r\<rparr>)) (\<lambda>_.
            bind (acpi_init (out_uacpi_initialize env) (out_uacpi_namespace_load env) (out_uacpi_status_to_string env)) (\<lambda>_.
            bind (flush_log (out_display env)) (\<lambda>_.
            bind (mp_init (out_start_ap env)) (\<lambda>_.
            bind (flush_log (out_display env)) (\<lambda>_.
            bind sched_init (\<lambda>_.
            bind (flush_log (out_display env)) (\<lambda>_.
            panic ''Nothing to do''))))))))))))))))))"


section \<open>Booting\<close>


text \<open>The entry point never returns to the bootloader, whatever the outside code does: under an
  unsupported base revision it spins forever, and otherwise it does not come back either.\<close>

theorem kmain_never_returns:
  "kmain env s \<noteq> Ok r \<and> (\<not> base_revision_supported env \<longrightarrow> kmain env s = Diverge)"
proof (cases "base_revision_supported env")
  case True
  then have "kmain env s \<noteq> Ok r"
    unfolding kmain_def by (cases r) (auto simp: panic_def bind_eq_Ok_iff split: option.splits)
  with True show ?thesis by simp
next
  case False
  have "whileM (\<lambda>_ s. True) (\<lambda>_. return ()) () s = Diverge"
    by (rule whileM_stuck) (simp_all add: run_basic)
  then show ?thesis using False by (simp add: kmain_def bind_Diverge)
qed

text \<open>A bootloader that does not support the base revision.\<close>

definition bare :: outside where
  "bare = \<lparr>base_revision_supported = False, out_display = silent, out_uacpi_initialize = (\<lambda>_. return 0),
     out_uacpi_namespace_load = return 0, out_uacpi_status_to_string = (\<lambda>_. ''ok''), out_start_ap = (\<lambda>_. return ())\<rparr>"

theorem kmain_never_returns_witness: "kmain bare blank_kernel = Diverge"
  using kmain_never_returns [of bare blank_kernel] by (simp add: bare_def)

text \<open>Without a framebuffer it does not get past the messages of \<open>pmm_init\<close>: the first character goes to
  the terminal context null.\<close>

theorem kmain_headless_faults:
  assumes "base_revision_supported env" and "pmm_bootable (kernel_image c l) off es" and "bitmap_covers es"
    and none: "framebuffer_response (boot c) = None" and "\<forall>fmt args. npf_format (out_display env) (fmt @ [CHR 0x0a]) args \<noteq> []"
    and "\<forall>d t. flanterm_write (out_display env) 0 d t = Fault msg"
  shows "kmain env (kernel_image c l) = Fault msg"
proof -
  let ?env = "out_display env"
  obtain u where u: "pmm_init (kernel_image c l) = Ok ((), u)" "other_globals u = other_globals (kernel_image c l)" "klog u \<noteq> []"
    using pmm_init_establishes [OF assms(2,3)] by blast
  obtain fmt args xs where x: "klog u = (fmt, args) # xs" using u(3) by (cases "klog u") auto
  obtain ch cs where ch: "npf_format ?env (fmt @ [CHR 0x0a]) args = ch # cs" using assms(5) by (meson neq_Nil_conv)
  have "vprintf ?env (fmt @ [CHR 0x0a]) args (u\<lparr>klog := []\<rparr>) = Fault msg"
    using u(2) none by (intro headless_output_uses_null [OF _ _ _ _ _ _ ch assms(6)]) (simp_all add: other_globals_def kernel_image_def)
  then have "flush_log ?env u = Fault msg" by (simp add: flush_log_def x printf_args_def bind_Fault run_basic)
  then show ?thesis using assms(1) u(1) by (simp add: kmain_def bind_Ok bind_Fault)
qed

theorem kmain_headless_faults_witness:
  "kmain (bare\<lparr>base_revision_supported := True, out_display := screen\<rparr>)
     (kernel_image (boot_cpu\<lparr>boot := (boot boot_cpu)\<lparr>framebuffer_response := None\<rparr>\<rparr>) boot_links) = Fault ''null context''"
proof -
  let ?c = "boot_cpu\<lparr>boot := (boot boot_cpu)\<lparr>framebuffer_response := None\<rparr>\<rparr>"
  have b: "pmm_bootable (kernel_image ?c boot_links) 0xffff800000000000 [boot_entry]"
    using boot_machine_pmm(1) by (simp add: pmm_bootable_def)
  show ?thesis by (rule kmain_headless_faults [OF _ b boot_machine_pmm(2)]) (simp_all add: bare_def screen_def run_basic)
qed







end
