(* ===== verification/Smp.thy ===== *)
theory Smp
  imports Idt Slab_Props
begin

text \<open>
  Spinlocks between processors. The processors interleave, each step running one piece of the code
  on the shared state with the interrupt flag of its own processor: one test of the lock, one
  release, one piece of work that leaves the lock cell alone. \<open>lock_step\<close> is that relation for one
  lock, \<open>vec_step\<close> the processors that call \<open>idt_allocate_vector\<close>, load and store of the counter
  apart, which refines it, and \<open>slab_step\<close> the processors inside \<open>alloc_from_slab\<close>.
\<close>

section \<open>Definitions\<close>

record smp =
  shared :: kernel
  flags :: "nat \<Rightarrow> bool"
  holds :: "nat \<Rightarrow> bool"

text \<open>The state as processor \<open>c\<close> sees it, and a step of \<open>c\<close> that ends in \<open>t\<close>.\<close>

definition on_cpu :: "smp \<Rightarrow> nat \<Rightarrow> kernel" where
  "on_cpu a c = (shared a)\<lparr>int_flag := flags a c\<rparr>"

definition put_cpu :: "nat \<Rightarrow> kernel \<Rightarrow> smp \<Rightarrow> smp" where
  "put_cpu c t a = a\<lparr>shared := t, flags := (flags a)(c := int_flag t)\<rparr>"

inductive lock_step :: "(kernel \<Rightarrow> bool) \<Rightarrow> ((bool \<Rightarrow> bool) \<Rightarrow> kernel \<Rightarrow> kernel) \<Rightarrow> (kernel \<Rightarrow> bool) \<Rightarrow> smp \<Rightarrow> smp \<Rightarrow> bool"
  for get upd valid where
  toggle: "\<not> holds a c \<Longrightarrow> interrupt_toggle b (on_cpu a c) = Ok (old, t) \<Longrightarrow> lock_step get upd valid a (put_cpu c t a)"
| acquired: "\<not> holds a c \<Longrightarrow> spinlock_test_acq get upd (on_cpu a c) = Ok (True, t) \<Longrightarrow>
    lock_step get upd valid a ((put_cpu c t a)\<lparr>holds := (holds a)(c := True)\<rparr>)"
| spin: "\<not> holds a c \<Longrightarrow> spinlock_test_acq get upd (on_cpu a c) = Ok (False, t) \<Longrightarrow> lock_step get upd valid a (put_cpu c t a)"
| work: "get t = get (on_cpu a c) \<Longrightarrow> valid t \<Longrightarrow> int_flag t = flags a c \<Longrightarrow> lock_step get upd valid a (put_cpu c t a)"
| release: "holds a c \<Longrightarrow> spinlock_release upd (on_cpu a c) = Ok ((), t) \<Longrightarrow>
    lock_step get upd valid a ((put_cpu c t a)\<lparr>holds := (holds a)(c := False)\<rparr>)"

text \<open>The processors inside \<open>idt_allocate_vector\<close>: waiting for the lock, holding it, with the counter
  loaded, and with the incremented counter stored; \<open>handed\<close> collects the values returned.\<close>

datatype vec_pc = Waiting | Locked | Loaded u8 | Stored u8

record vec_smp =
  vshared :: kernel
  pcs :: "nat \<Rightarrow> vec_pc"
  handed :: "u8 list"

inductive vec_step :: "vec_smp \<Rightarrow> vec_smp \<Rightarrow> bool" where
  vec_acquire: "pcs a c = Waiting \<Longrightarrow> spinlock_test_acq idt_lock idt_lock_update (vshared a) = Ok (True, t) \<Longrightarrow>
    vec_step a (a\<lparr>vshared := t, pcs := (pcs a)(c := Locked)\<rparr>)"
| vec_spin: "pcs a c = Waiting \<Longrightarrow> spinlock_test_acq idt_lock idt_lock_update (vshared a) = Ok (False, t) \<Longrightarrow>
    vec_step a (a\<lparr>vshared := t\<rparr>)"
| vec_load: "pcs a c = Locked \<Longrightarrow> idt_free_vector (vshared a) \<noteq> 0xf0 \<Longrightarrow>
    vec_step a (a\<lparr>pcs := (pcs a)(c := Loaded (idt_free_vector (vshared a)))\<rparr>)"
| vec_store: "pcs a c = Loaded v \<Longrightarrow>
    vec_step a (a\<lparr>vshared := (vshared a)\<lparr>idt_free_vector := v + 1\<rparr>, pcs := (pcs a)(c := Stored v)\<rparr>)"
| vec_release: "pcs a c = Stored v \<Longrightarrow> spinlock_release idt_lock_update (vshared a) = Ok ((), t) \<Longrightarrow>
    vec_step a (a\<lparr>vshared := t, pcs := (pcs a)(c := Waiting), handed := v # handed a\<rparr>)"

inductive_cases vec_stepE: "vec_step a b"

definition vec_start :: "kernel \<Rightarrow> vec_smp" where
  "vec_start s = \<lparr>vshared = s, pcs = \<lambda>_. Waiting, handed = []\<rparr>"

text \<open>The processors inside \<open>alloc_from_slab\<close> on slab \<open>i\<close>: those of the lock, and the one that finds the
  free list empty and calls \<open>create_slab\<close>.\<close>

inductive slab_step :: "nat \<Rightarrow> smp \<Rightarrow> smp \<Rightarrow> bool" for i where
  slab_locking: "lock_step (slab_lock i) (slab_lock_update i) (\<lambda>s. i < length (slabs s)) a b \<Longrightarrow> slab_step i a b"
| slab_create: "holds a c \<Longrightarrow> first_free (slabs (shared a) ! i) = 0 \<Longrightarrow>
    create_slab i (ent_size (slabs (shared a) ! i)) (on_cpu a c) = Ok ((), t) \<Longrightarrow> slab_step i a (put_cpu c t a)"

section \<open>Mutual exclusion\<close>

definition exclusive :: "(kernel \<Rightarrow> bool) \<Rightarrow> (kernel \<Rightarrow> bool) \<Rightarrow> smp \<Rightarrow> bool" where
  "exclusive get valid a \<longleftrightarrow> valid (shared a) \<and> (get (shared a) \<longleftrightarrow> (\<exists>c. holds a c))
     \<and> (\<forall>c d. holds a c \<longrightarrow> holds a d \<longrightarrow> c = d) \<and> (\<forall>c. holds a c \<longrightarrow> \<not> flags a c)"

lemmas cpu_defs = on_cpu_def put_cpu_def

context lock_cell
begin

lemma exclusive_acquired:
  assumes "exclusive get valid a" and "\<not> holds a c" and "spinlock_test_acq get upd (on_cpu a c) = Ok (True, t)"
  shows "exclusive get valid ((put_cpu c t a)\<lparr>holds := (holds a)(c := True)\<rparr>)"
  using assms
  by (auto simp: exclusive_def cpu_defs spinlock_test_acq_eq get_int_flag valid_int_flag valid_upd get_upd int_flag_upd split: if_splits)

lemma exclusive_release:
  assumes "exclusive get valid a" and "holds a c" and "spinlock_release upd (on_cpu a c) = Ok ((), t)"
  shows "exclusive get valid ((put_cpu c t a)\<lparr>holds := (holds a)(c := False)\<rparr>)"
  using assms
  by (auto simp: exclusive_def cpu_defs spinlock_release_eq modify_def valid_int_flag valid_upd get_upd int_flag_upd)

lemma exclusive_step:
  assumes "lock_step get upd valid a b" and "exclusive get valid a"
  shows "exclusive get valid b"
  using assms(1)
proof cases
  case (toggle c b' old t)
  then show ?thesis using assms(2) by (auto simp: exclusive_def cpu_defs interrupt_toggle_eq get_int_flag valid_int_flag)
next
  case (acquired c t)
  then show ?thesis using exclusive_acquired assms(2) by simp
next
  case (spin c t)
  then show ?thesis
    using assms(2) by (auto simp: exclusive_def cpu_defs spinlock_test_acq_eq get_int_flag valid_int_flag split: if_splits)
next
  case (work t c)
  then show ?thesis using assms(2) by (auto simp: exclusive_def cpu_defs get_int_flag)
next
  case (release c t)
  then show ?thesis using exclusive_release assms(2) by simp
qed

lemma exclusive_reachable:
  assumes "(lock_step get upd valid)\<^sup>*\<^sup>* a b" and "exclusive get valid a"
  shows "exclusive get valid b"
  using assms by (induction rule: rtranclp_induct) (auto intro: exclusive_step)

end

text \<open>C4: Mutual exclusion: whatever lock cell of the kernel it is and however any number of processors
  interleave, once the lock was free with nobody inside, at most one processor is inside at a time,
  the lock is held exactly while one is, and that one has its interrupts off.\<close>

theorem spinlock_mutual_exclusion:
  assumes "lock_cell get upd valid" and "valid (shared a)" and "\<not> get (shared a)" and "\<forall>c. \<not> holds a c"
    and "(lock_step get upd valid)\<^sup>*\<^sup>* a b"
  shows "(get (shared b) \<longleftrightarrow> (\<exists>c. holds b c)) \<and> (\<forall>c d. holds b c \<longrightarrow> holds b d \<longrightarrow> c = d)
    \<and> (\<forall>c. holds b c \<longrightarrow> \<not> flags b c)"
proof -
  have "exclusive get valid a" using assms(2-4) by (simp add: exclusive_def)
  then have "exclusive get valid b" by (rule lock_cell.exclusive_reachable [OF assms(1,5)])
  then show ?thesis by (simp add: exclusive_def)
qed

text \<open>A run of three steps: processor 0 takes the lock and processor 1 spins.\<close>

definition idle_smp :: "kernel \<Rightarrow> smp" where
  "idle_smp s = \<lparr>shared = s, flags = \<lambda>_. False, holds = \<lambda>_. False\<rparr>"

lemma first_acquires:
  assumes "lock_cell get upd valid" and "valid s" and "\<not> get s" and "\<not> int_flag s"
  shows "lock_step get upd valid (idle_smp s) (idle_smp (upd (\<lambda>_. True) s)\<lparr>holds := (\<lambda>_. False)(0 := True)\<rparr>)"
proof -
  have f: "s\<lparr>int_flag := False\<rparr> = s" using assms(4) by simp
  have "lock_step get upd valid (idle_smp s) ((put_cpu 0 (upd (\<lambda>_. True) s) (idle_smp s))\<lparr>holds := (holds (idle_smp s))(0 := True)\<rparr>)"
    by (rule lock_step.acquired) (use assms in \<open>simp_all add: idle_smp_def on_cpu_def spinlock_test_acq_eq f\<close>)
  moreover have "(\<lambda>_. False)(0 :: nat := int_flag (upd (\<lambda>_. True) s)) = (\<lambda>_. False)"
    using assms(4) lock_cell.int_flag_upd [OF assms(1)] by auto
  ultimately show ?thesis by (simp add: idle_smp_def put_cpu_def)
qed

theorem spinlock_mutual_exclusion_witness:
  "\<exists>b. (lock_step pmm_lock pmm_lock_update (\<lambda>_. True))\<^sup>*\<^sup>* (idle_smp blank_kernel) b \<and> holds b 0 \<and> \<not> holds b 1
     \<and> pmm_lock (shared b)"
proof -
  let ?b = "idle_smp (blank_kernel\<lparr>pmm_lock := True\<rparr>)\<lparr>holds := (\<lambda>_. False)(0 := True)\<rparr>"
  have s: "\<not> pmm_lock blank_kernel" "\<not> int_flag blank_kernel" by (simp_all add: blank_kernel_def)
  then have r: "(lock_step pmm_lock pmm_lock_update (\<lambda>_. True))\<^sup>*\<^sup>* (idle_smp blank_kernel) ?b"
    using first_acquires [OF pmm.lock_cell_axioms] by blast
  have i: "\<not> pmm_lock (shared (idle_smp blank_kernel))" "\<forall>c. \<not> holds (idle_smp blank_kernel) c"
    using s by (simp_all add: idle_smp_def)
  have "holds ?b 0" by simp
  then show ?thesis
    using r spinlock_mutual_exclusion [OF pmm.lock_cell_axioms TrueI i r] by (metis zero_neq_one)
qed

section \<open>Vectors on several processors\<close>

definition vec_abs :: "vec_smp \<Rightarrow> smp" where
  "vec_abs a = \<lparr>shared = vshared a, flags = \<lambda>_. False, holds = \<lambda>c. pcs a c \<noteq> Waiting\<rparr>"

lemma vec_abs_simps [simp]:
  "shared (vec_abs a) = vshared a" "flags (vec_abs a) = (\<lambda>_. False)" "holds (vec_abs a) c = (pcs a c \<noteq> Waiting)"
  by (simp_all add: vec_abs_def)

lemma vec_on_cpu: "\<not> int_flag (vshared a) \<Longrightarrow> on_cpu (vec_abs a) c = vshared a"
  by (simp add: on_cpu_def)

lemma vec_put_cpu:
  "\<not> int_flag t \<Longrightarrow> put_cpu c t (vec_abs a) = vec_abs (a\<lparr>vshared := t\<rparr>)"
  by (auto simp: put_cpu_def vec_abs_def)

text \<open>A processor that is alone for the length of a call goes through the steps of \<open>idt_allocate_vector\<close>: the small steps
  end in the state of the call, with its result handed out.\<close>

lemma vec_steps_call:
  assumes run: "idt_allocate_vector (vshared a) = Ok (v, t)" and off: "\<not> int_flag (vshared a)" "\<not> idt_lock (vshared a)" and c: "pcs a c = Waiting"
  shows "vec_step\<^sup>*\<^sup>* a (a\<lparr>vshared := t, handed := v # handed a\<rparr>)"
proof -
  let ?s = "vshared a"
  have v: "v = idt_free_vector ?s" "v \<noteq> 0xf0" "t = ?s\<lparr>idt_free_vector := v + 1\<rparr>"
    using run idt_allocate_vector_Ok [OF off] idt_allocate_vector_full [OF off] by (cases "idt_free_vector ?s = 0xf0"; simp)+
  let ?a1 = "a\<lparr>vshared := ?s\<lparr>idt_lock := True\<rparr>, pcs := (pcs a)(c := Locked)\<rparr>"
  let ?a2 = "?a1\<lparr>pcs := (pcs ?a1)(c := Loaded v)\<rparr>"
  let ?a3 = "?a2\<lparr>vshared := (vshared ?a2)\<lparr>idt_free_vector := v + 1\<rparr>, pcs := (pcs ?a2)(c := Stored v)\<rparr>"
  let ?a4 = "?a3\<lparr>vshared := (vshared ?a3)\<lparr>idt_lock := False\<rparr>, pcs := (pcs ?a3)(c := Waiting), handed := v # handed ?a3\<rparr>"
  have s1: "vec_step a ?a1" using off by (intro vec_acquire [OF c]) (simp add: spinlock_test_acq_eq)
  have s2: "vec_step ?a1 ?a2" using vec_load [of ?a1 c] v by simp
  have s3: "vec_step ?a2 ?a3" by (rule vec_store) simp
  have s4: "vec_step ?a3 ?a4" by (rule vec_release) (simp_all add: spinlock_release_eq modify_def)
  have "?a4 = a\<lparr>vshared := t, handed := v # handed a\<rparr>"
    using c off(2) v(3) idtl.upd_id [of "\<lambda>_. False" ?s] by (simp add: fun_upd_idem)
  then show ?thesis
    using converse_rtranclp_into_rtranclp [of vec_step, OF s1] converse_rtranclp_into_rtranclp [of vec_step, OF s2]
      converse_rtranclp_into_rtranclp [of vec_step, OF s3] r_into_rtranclp [of vec_step, OF s4] by metis
qed

lemma vec_step_flag: "vec_step a b \<Longrightarrow> \<not> int_flag (vshared a) \<Longrightarrow> \<not> int_flag (vshared b)"
  by (erule vec_stepE) (auto simp: spinlock_test_acq_eq spinlock_release_eq modify_def split: if_splits)

text \<open>A step of a processor inside \<open>idt_allocate_vector\<close> is a step on its lock.\<close>

lemma vec_step_refines:
  assumes "vec_step a b" and off: "\<not> int_flag (vshared a)"
  shows "lock_step idt_lock idt_lock_update (\<lambda>_. True) (vec_abs a) (vec_abs b)"
  using assms(1)
proof cases
  case (vec_acquire c t)
  have "\<not> int_flag t" using vec_acquire off by (auto simp: spinlock_test_acq_eq split: if_splits)
  moreover have "vec_abs b = (vec_abs (a\<lparr>vshared := t\<rparr>))\<lparr>holds := (holds (vec_abs a))(c := True)\<rparr>"
    using vec_acquire by (auto simp: vec_abs_def)
  ultimately show ?thesis
    using lock_step.acquired [of "vec_abs a" c idt_lock idt_lock_update t "\<lambda>_. True"] vec_acquire vec_on_cpu [OF off]
    by (simp add: vec_put_cpu)
next
  case (vec_spin c t)
  then have "t = vshared a" using off by (auto simp: spinlock_test_acq_eq split: if_splits)
  then show ?thesis
    using lock_step.spin [of "vec_abs a" c idt_lock idt_lock_update t "\<lambda>_. True"] vec_spin vec_on_cpu [OF off] off
    by (simp add: vec_put_cpu)
next
  case (vec_load c)
  then have "vec_abs b = vec_abs a" by (auto simp: vec_abs_def)
  then show ?thesis
    using lock_step.work [of idt_lock "vshared a" "vec_abs a" c "\<lambda>_. True" idt_lock_update] vec_on_cpu [OF off] off
    by (simp add: vec_put_cpu)
next
  case (vec_store c v)
  let ?t = "(vshared a)\<lparr>idt_free_vector := v + 1\<rparr>"
  have "vec_abs b = vec_abs (a\<lparr>vshared := ?t\<rparr>)" using vec_store by (auto simp: vec_abs_def)
  then show ?thesis
    using lock_step.work [of idt_lock ?t "vec_abs a" c "\<lambda>_. True" idt_lock_update] vec_on_cpu [OF off] off
    by (simp add: vec_put_cpu)
next
  case (vec_release c v t)
  then have "\<not> int_flag t" using off by (auto simp: spinlock_release_eq modify_def)
  moreover have "vec_abs b = (vec_abs (a\<lparr>vshared := t\<rparr>))\<lparr>holds := (holds (vec_abs a))(c := False)\<rparr>"
    using vec_release by (auto simp: vec_abs_def)
  ultimately show ?thesis
    using lock_step.release [of "vec_abs a" c idt_lock_update t idt_lock "\<lambda>_. True"] vec_release vec_on_cpu [OF off]
    by (simp add: vec_put_cpu)
qed

text \<open>The invariant: the lock is exclusive, the values returned are consecutive from 32, and the counter is
  one ahead of them, or two while a processor has stored it and not yet returned.\<close>

definition pending :: "vec_smp \<Rightarrow> bool" where
  "pending a \<longleftrightarrow> (\<exists>c v. pcs a c = Stored v)"

definition vec_inv :: "vec_smp \<Rightarrow> bool" where
  "vec_inv a \<longleftrightarrow> \<not> int_flag (vshared a) \<and> exclusive idt_lock (\<lambda>_. True) (vec_abs a)
     \<and> rev (map unat (handed a)) = [32..<32 + length (handed a)]
     \<and> unat (idt_free_vector (vshared a)) = 32 + length (handed a) + of_bool (pending a)
     \<and> unat (idt_free_vector (vshared a)) \<le> 240
     \<and> (\<forall>c v. pcs a c = Loaded v \<longrightarrow> v = idt_free_vector (vshared a) \<and> v \<noteq> 0xf0)
     \<and> (\<forall>c v. pcs a c = Stored v \<longrightarrow> unat v = 32 + length (handed a))"

lemma vec_alone: "vec_inv a \<Longrightarrow> pcs a c \<noteq> Waiting \<Longrightarrow> pcs a d \<noteq> Waiting \<Longrightarrow> d = c"
  by (auto simp: vec_inv_def exclusive_def)

lemma vec_not_pending:
  assumes "vec_inv a" and "pcs a c \<noteq> Waiting" and "\<And>v. pcs a c \<noteq> Stored v"
  shows "\<not> pending a"
proof
  assume "pending a"
  then obtain d v where d: "pcs a d = Stored v" by (auto simp: pending_def)
  then have "d = c" using vec_alone [OF assms(1,2)] by simp
  then show False using d assms(3) by simp
qed

lemma vec_inv_start:
  "\<not> int_flag s \<Longrightarrow> \<not> idt_lock s \<Longrightarrow> idt_free_vector s = 32 \<Longrightarrow> vec_inv (vec_start s)"
  by (simp add: vec_inv_def vec_start_def exclusive_def pending_def)

lemma vec_inv_step:
  assumes step: "vec_step a b" and inv: "vec_inv a"
  shows "vec_inv b"
proof -
  have off: "\<not> int_flag (vshared a)" and ex: "exclusive idt_lock (\<lambda>_. True) (vec_abs a)" using inv by (simp_all add: vec_inv_def)
  note ex' = idtl.exclusive_step [OF vec_step_refines [OF step off] ex] and off' = vec_step_flag [OF step off]
  from step show ?thesis
  proof cases
    case (vec_acquire c t)
    have "pcs b d = Stored v \<longleftrightarrow> pcs a d = Stored v" for d v using vec_acquire by simp
    then have "pending b = pending a" by (simp add: pending_def)
    moreover have "idt_free_vector t = idt_free_vector (vshared a)"
      using vec_acquire by (auto simp: spinlock_test_acq_eq split: if_splits)
    ultimately show ?thesis using inv ex' off' vec_acquire by (auto simp: vec_inv_def)
  next
    case (vec_spin c t)
    then show ?thesis using inv off by (auto simp: spinlock_test_acq_eq split: if_splits)
  next
    case (vec_load c)
    then have "\<not> pending a" by (intro vec_not_pending [OF inv, of c]) simp_all
    moreover have "\<not> pending b" using calculation vec_load by (auto simp: pending_def)
    ultimately show ?thesis using inv ex' off' vec_load by (auto simp: vec_inv_def)
  next
    case (vec_store c v)
    have others: "pcs a d = Waiting" if "d \<noteq> c" for d using vec_alone [OF inv, of c d] vec_store that by auto
    have np: "\<not> pending a" using vec_store by (intro vec_not_pending [OF inv, of c]) simp_all
    have p: "pending b" using vec_store by (auto simp: pending_def)
    have v: "v = idt_free_vector (vshared a)" "v \<noteq> 0xf0" using inv vec_store by (simp_all add: vec_inv_def)
    have n: "unat v = 32 + length (handed a)" "unat v \<le> 240" "rev (map unat (handed a)) = [32..<32 + length (handed a)]"
      using inv v(1) np by (simp_all add: vec_inv_def)
    have "unat v < 240" using n(2) v(2) by (auto simp: word_unat_eq_iff le_less)
    then have v1: "unat (v + 1) = 33 + length (handed a)" "unat (v + 1) \<le> 240"
      using n(1) by (subst unat_add_lem [THEN iffD1], simp_all)+
    have "pcs b d = (if d = c then Stored v else Waiting)" for d using vec_store others by simp
    then show ?thesis
      unfolding vec_inv_def using ex' off' p n v1 vec_store(1) by (simp split: if_splits)
  next
    case (vec_release c v t)
    have others: "pcs a d = Waiting" if "d \<noteq> c" for d using vec_alone [OF inv, of c d] vec_release that by auto
    then have "\<not> pending b" using vec_release by (auto simp: pending_def)
    moreover have "pending a" using vec_release by (auto simp: pending_def)
    moreover have "unat v = 32 + length (handed a)" using inv vec_release by (simp add: vec_inv_def)
    moreover have "[32..<33 + n] = [32..<32 + n] @ [32 + n]" for n :: nat using upt_Suc_append [of 32 "32 + n"] by simp
    ultimately show ?thesis
      using inv ex' off' vec_release others by (auto simp: vec_inv_def spinlock_release_eq modify_def)
  qed
qed

lemma vec_inv_reachable: "vec_step\<^sup>*\<^sup>* a b \<Longrightarrow> vec_inv a \<Longrightarrow> vec_inv b"
  by (induction rule: rtranclp_induct) (auto intro: vec_inv_step)

text \<open>C12: Any number of processors may call \<open>idt_allocate_vector\<close> at the same time, with interrupts off:
  however they interleave, the vectors they get back are the consecutive ones from 32 in the order
  they return, so none is handed out twice, and none is above 239.\<close>

theorem idt_vectors_unique_smp:
  assumes "\<not> int_flag s" and "\<not> idt_lock s" and "idt_free_vector s = 32" and "vec_step\<^sup>*\<^sup>* (vec_start s) b"
  shows "rev (map unat (handed b)) = [32..<32 + length (handed b)] \<and> distinct (handed b) \<and> length (handed b) \<le> 208"
proof -
  have inv: "vec_inv b" by (rule vec_inv_reachable [OF assms(4) vec_inv_start [OF assms(1-3)]])
  then have "distinct (rev (map unat (handed b)))" by (simp only: vec_inv_def distinct_upt)
  then show ?thesis using inv by (auto simp: vec_inv_def distinct_map)
qed

text \<open>Processor 1 spins while processor 0 gets vector 32.\<close>

theorem idt_vectors_unique_smp_witness:
  "\<exists>b. vec_step\<^sup>*\<^sup>* (vec_start blank_kernel) b \<and> handed b = [32] \<and> distinct (handed b)"
proof -
  let ?s = blank_kernel and ?l = "blank_kernel\<lparr>idt_lock := True\<rparr>"
  have s: "\<not> int_flag ?s" "\<not> idt_lock ?s" "idt_free_vector ?s = 32" by (simp_all add: blank_kernel_def)
  let ?a = "\<lparr>vshared = ?l, pcs = (\<lambda>_. Waiting)(0 := Locked), handed = []\<rparr>"
  let ?c = "\<lparr>vshared = ?l, pcs = (\<lambda>_. Waiting)(0 := Loaded 32), handed = []\<rparr>"
  let ?d = "\<lparr>vshared = ?l\<lparr>idt_free_vector := 33\<rparr>, pcs = (\<lambda>_. Waiting)(0 := Stored 32), handed = []\<rparr>"
  let ?e = "\<lparr>vshared = blank_kernel\<lparr>idt_free_vector := 33, idt_lock := False\<rparr>, pcs = (\<lambda>_. Waiting)(0 := Waiting), handed = [32]\<rparr>"
  have "vec_step (vec_start ?s) ?a"
    using vec_acquire [of "vec_start ?s" 0 ?l] s by (simp add: vec_start_def spinlock_test_acq_eq)
  moreover have "vec_step ?a ?a" using vec_spin [of ?a 1 ?l] s by (simp add: spinlock_test_acq_eq)
  moreover have "vec_step ?a ?c" using vec_load [of ?a 0] s by simp
  moreover have "vec_step ?c ?d" using vec_store [of ?c 0 32] s by simp
  moreover have "vec_step ?d ?e" using vec_release [of ?d 0 32] by (simp add: spinlock_release_eq modify_def)
  ultimately have r: "vec_step\<^sup>*\<^sup>* (vec_start ?s) ?e" by (meson converse_rtranclp_into_rtranclp rtranclp.rtrancl_refl)
  show ?thesis using r idt_vectors_unique_smp [OF s r] by auto
qed

section \<open>A slab that runs empty\<close>

lemma refill_unlocks:
  assumes "pmm_ready s" and "length (slabs s) = 12" and "i < 12" and "\<not> pmm_exhausted s 64"
  shows "\<exists>t. create_slab i (of_nat (cell_size i)) (slab_lock_update i (\<lambda>_. True) s) = Ok ((), t)
    \<and> \<not> slab_lock i t \<and> int_flag t = int_flag s \<and> length (slabs t) = 12"
proof -
  let ?l = "slab_lock_update i (\<lambda>_. True) s"
  have "pmm_ready ?l" "length (slabs ?l) = 12" "\<not> pmm_exhausted ?l 64"
    using assms by (simp_all add: slab_lock_defs)
  from create_slab_Ok [OF this(1) assms(3) this(2,3)] obtain q t where
    run: "create_slab i (of_nat (cell_size i)) ?l = Ok ((), t)" and "fresh_chunk ?l i q t" by blast
  then have "fresh_chunk s i q t" using fresh_chunk_lock by blast
  then show ?thesis using run assms(2,3) slab_frame_fields(3) [of s t] by (auto simp: fresh_chunk_def slab_lock_def)
qed

text \<open>C37: \<open>create_slab\<close> resets the lock of the slab, and \<open>alloc_from_slab\<close> calls it on a slab whose lock it
  holds: when the free list is empty and the pages for a refill are there, a second processor can
  take the lock while the first is still inside.\<close>

theorem slab_refill_breaks_exclusion:
  assumes "pmm_ready s" and "length (slabs s) = 12" and "i < 12" and "\<not> pmm_exhausted s 64" and "\<not> int_flag s"
    and "slabs s ! i = \<lparr>lock = False, first_free = 0, ent_size = of_nat (cell_size i)\<rparr>"
  shows "\<exists>b. (slab_step i)\<^sup>*\<^sup>* (idle_smp s) b \<and> holds b 0 \<and> holds b 1"
proof -
  let ?l = "slab_lock_update i (\<lambda>_. True) s" and ?h = "(\<lambda>_. False)(0 :: nat := True)"
  obtain t where t: "create_slab i (of_nat (cell_size i)) ?l = Ok ((), t)" "\<not> slab_lock i t" "\<not> int_flag t" "length (slabs t) = 12"
    using refill_unlocks [OF assms(1-4)] assms(5) by auto
  let ?a = "idle_smp ?l\<lparr>holds := ?h\<rparr>" and ?b = "idle_smp t\<lparr>holds := ?h\<rparr>"
  let ?c = "(put_cpu 1 (slab_lock_update i (\<lambda>_. True) t) ?b)\<lparr>holds := (holds ?b)(1 := True)\<rparr>"
  have l: "first_free (slabs ?l ! i) = 0" "ent_size (slabs ?l ! i) = of_nat (cell_size i)"
    using assms(2,3,6) by (simp_all add: slab_lock_update_def)
  have eq: "?l\<lparr>int_flag := False\<rparr> = ?l" "t\<lparr>int_flag := False\<rparr> = t" using assms(5) t(3) by (simp_all add: slab_lock_update_def)
  have cpu: "on_cpu ?a 0 = ?l" "on_cpu ?b 1 = t" unfolding on_cpu_def idle_smp_def using eq by simp_all
  have put: "put_cpu 0 t ?a = ?b" using t(3) by (auto simp: put_cpu_def idle_smp_def)
  have "slab_step i (idle_smp s) ?a"
    by (rule slab_locking, rule first_acquires [OF sll.lock_cell_axioms]) (use assms in \<open>simp_all add: slab_lock_def\<close>)
  moreover have "slab_step i ?a ?b"
    using slab_create [of ?a 0 i t] t(1) l cpu(1) put by (simp add: idle_smp_def)
  moreover have "slab_step i ?b ?c"
    by (rule slab_locking, rule lock_step.acquired, simp, unfold cpu(2)) (use t in \<open>simp add: spinlock_test_acq_eq\<close>)
  ultimately have "(slab_step i)\<^sup>*\<^sup>* (idle_smp s) ?c" by (meson converse_rtranclp_into_rtranclp rtranclp.rtrancl_refl)
  then show ?thesis by (intro exI [of _ ?c]) simp
qed

theorem slab_refill_breaks_exclusion_witness:
  "\<exists>b. (slab_step 0)\<^sup>*\<^sup>* (idle_smp (roomy\<lparr>slabs := (slabs roomy)[0 := \<lparr>lock = False, first_free = 0, ent_size = 8\<rparr>]\<rparr>)) b
     \<and> holds b 0 \<and> holds b 1"
proof -
  let ?s = "roomy\<lparr>slabs := (slabs roomy)[0 := \<lparr>lock = False, first_free = 0, ent_size = 8\<rparr>]\<rparr>"
  have "free_chunks roomy \<noteq> {}" "chunk_aligned roomy" using roomy_slabs by (auto simp: slabs_up_to_def)
  then have "\<not> pmm_exhausted roomy 64" using free_chunk_found by blast
  moreover have "length (slabs roomy) = 12" "\<not> int_flag roomy" by (simp_all add: roomy_def blank_kernel_def)
  ultimately show ?thesis
    using slab_refill_breaks_exclusion [of ?s 0] roomy_ready by (simp add: cell_size_def)
qed

end
