(* ===== verification/Isr_Stub.thy ===== *)
theory Isr_Stub
  imports Sched
begin

text \<open>
  The entry stubs of \<open>kernel/src/sys/isr.S\<close>, one for each vector: they complete the frame that the processor
  pushes to a \<open>struct cpu_ctx\<close>, call the handler that the table has for the vector, and return to
  what was interrupted. The general registers, the stack pointer and what \<open>iretq\<close> sets are beside the state
  of the kernel; a called handler may leave any values in the registers.
\<close>

section \<open>Definitions\<close>

datatype reg = RAX | RBX | RCX | RDX | RSI | RDI | RBP | R8 | R9 | R10 | R11 | R12 | R13 | R14 | R15

record stub =
  kern :: kernel
  gpr :: "reg \<Rightarrow> u64"
  rsp :: u64
  rip :: u64
  rflags :: u64

type_synonym 'a sprog = "(stub, 'a) prog"

definition push :: "u64 \<Rightarrow> unit sprog" where
  "push v = modify (\<lambda>s. s\<lparr>rsp := rsp s - 8, kern := (kern s)\<lparr>mem := store64 (mem (kern s)) (rsp s - 8) v\<rparr>\<rparr>)"

definition pop :: "u64 sprog" where
  "pop =
     bind (gets (\<lambda>s. load64 (mem (kern s)) (rsp s))) (\<lambda>v.
     bind (modify (\<lambda>s. s\<lparr>rsp := rsp s + 8\<rparr>)) (\<lambda>_.
     return v))"

definition push_reg :: "reg \<Rightarrow> unit sprog" where
  "push_reg r = bind (gets (\<lambda>s. gpr s r)) push"

definition set_reg :: "reg \<Rightarrow> u64 \<Rightarrow> unit sprog" where
  "set_reg r v = modify (\<lambda>s. s\<lparr>gpr := (gpr s)(r := v)\<rparr>)"

definition pop_reg :: "reg \<Rightarrow> unit sprog" where
  "pop_reg r = bind pop (set_reg r)"

definition on_kernel :: "(kernel \<Rightarrow> kernel) \<Rightarrow> unit sprog" where
  "on_kernel f = modify (\<lambda>s. s\<lparr>kern := f (kern s)\<rparr>)"

definition swapgs :: "unit sprog" where
  "swapgs = on_kernel (\<lambda>k. k\<lparr>msr := (msr k)(0xc0000101 := msr k 0xc0000102, 0xc0000102 := msr k 0xc0000101)\<rparr>)"

text \<open>The vectors for which the processor pushes an error code.\<close>

definition pushes_error :: "u8 \<Rightarrow> bool" where
  "pushes_error num \<longleftrightarrow> num \<in> {8, 10, 11, 12, 13, 14, 17, 30}"

definition swap_if_user :: "u64 \<Rightarrow> unit sprog" where
  "swap_if_user off =
     bind (gets (\<lambda>s. load64 (mem (kern s)) (rsp s + off))) (\<lambda>cs.
     if cs = ucast GDT_USER_CODE_SEL then swapgs else return ())"

definition iretq :: "unit sprog" where
  "iretq =
     bind pop (\<lambda>new_rip.
     bind pop (\<lambda>new_cs.
     bind pop (\<lambda>new_flags.
     bind pop (\<lambda>new_rsp.
     bind pop (\<lambda>new_ss.
     modify (\<lambda>s. s\<lparr>rip := new_rip, rflags := new_flags, rsp := new_rsp,
       kern := (kern s)\<lparr>seg_cs := ucast new_cs, seg_ss := ucast new_ss, int_flag := bit new_flags 9\<rparr>\<rparr>))))))"

text \<open>The registers in the order of \<open>struct cpu_ctx\<close>.\<close>

definition ctx_regs :: "reg list" where
  "ctx_regs = [RAX, RBX, RCX, RDX, RSI, RDI, RBP, R8, R9, R10, R11, R12, R13, R14, R15]"

text \<open>A call of the handler in the slot that \<open>rbx\<close> points to. Its arguments are the interrupt number in \<open>edi\<close> and the context that \<open>rsi\<close>
  points to, of which it reads the code segment. The return address is
  below the frame while it runs; \<open>left\<close> are the registers that it leaves.\<close>

definition call_handler :: "(kernel \<Rightarrow> reg \<Rightarrow> u64) \<Rightarrow> u64 \<Rightarrow> u64 \<Rightarrow> unit sprog" where
  "call_handler left table return_address =
     bind (gets (\<lambda>s. (gpr s RBX - table) div 8)) (\<lambda>slot.
     bind (gets (\<lambda>s. ucast (gpr s RDI))) (\<lambda>int_number.
     bind (gets (\<lambda>s. gpr s RSI)) (\<lambda>ctx.
     bind (push return_address) (\<lambda>_.
     bind (\<lambda>s. case run_handler (isr_handler_table (kern s) ! unat slot) int_number (load64 (mem (kern s)) (ctx + 152)) (kern s) of
         Ok (_, k) \<Rightarrow> Ok ((), s\<lparr>kern := k, gpr := left k\<rparr>)
       | Panic msg \<Rightarrow> Panic msg | Fault msg \<Rightarrow> Fault msg | Diverge \<Rightarrow> Diverge) (\<lambda>_.
     bind pop (\<lambda>_. return ()))))))"

definition stub_enter :: "u8 \<Rightarrow> u64 \<Rightarrow> unit sprog" where
  "stub_enter num table =
     bind (if pushes_error num then return () else push 0) (\<lambda>_.
     bind (swap_if_user 16) (\<lambda>_.
     bind (foreach push_reg (rev ctx_regs)) (\<lambda>_.
     bind (gets (\<lambda>s. ucast (seg_es (kern s)))) (\<lambda>es.
     bind (set_reg RAX es) (\<lambda>_.
     bind (push_reg RAX) (\<lambda>_.
     bind (gets (\<lambda>s. ucast (seg_ds (kern s)))) (\<lambda>ds.
     bind (set_reg RAX ds) (\<lambda>_.
     bind (push_reg RAX) (\<lambda>_.
     bind (modify (\<lambda>s. s\<lparr>rflags := unset_bit 10 (rflags s)\<rparr>)) (\<lambda>_.
     bind (set_reg RAX (ucast GDT_KERNEL_DATA_SEL)) (\<lambda>_.
     bind (on_kernel (\<lambda>k. k\<lparr>seg_ds := GDT_KERNEL_DATA_SEL, seg_es := GDT_KERNEL_DATA_SEL, seg_ss := GDT_KERNEL_DATA_SEL\<rparr>)) (\<lambda>_.
     bind (set_reg RDI (ucast num)) (\<lambda>_.
     bind (set_reg RAX (ucast num * 8)) (\<lambda>_.
     bind (set_reg RBX table) (\<lambda>_.
     bind (modify (\<lambda>s. s\<lparr>gpr := (gpr s)(RBX := gpr s RBX + gpr s RAX)\<rparr>)) (\<lambda>_.
     bind (modify (\<lambda>s. s\<lparr>gpr := (gpr s)(RSI := rsp s)\<rparr>)) (\<lambda>_.
     set_reg RBP 0)))))))))))))))))"

definition stub_leave :: "unit sprog" where
  "stub_leave =
     bind (pop_reg RAX) (\<lambda>_.
     bind (modify (\<lambda>s. s\<lparr>kern := (kern s)\<lparr>seg_ds := ucast (gpr s RAX)\<rparr>\<rparr>)) (\<lambda>_.
     bind (pop_reg RAX) (\<lambda>_.
     bind (modify (\<lambda>s. s\<lparr>kern := (kern s)\<lparr>seg_es := ucast (gpr s RAX)\<rparr>\<rparr>)) (\<lambda>_.
     bind (foreach pop_reg ctx_regs) (\<lambda>_.
     bind (modify (\<lambda>s. s\<lparr>rsp := rsp s + 8\<rparr>)) (\<lambda>_.
     bind (swap_if_user 8) (\<lambda>_.
     iretq)))))))"

definition isr_thunk :: "(kernel \<Rightarrow> reg \<Rightarrow> u64) \<Rightarrow> u64 \<Rightarrow> u64 \<Rightarrow> u8 \<Rightarrow> unit sprog" where
  "isr_thunk left table return_address num =
     bind (stub_enter num table) (\<lambda>_.
     bind (call_handler left table return_address) (\<lambda>_.
     stub_leave))"

section \<open>The stack\<close>

text \<open>The words on the stack.\<close>

abbreviation stack_words :: "stub \<Rightarrow> nat \<Rightarrow> u64 list" where
  "stack_words s n \<equiv> word_array (mem (kern s)) (rsp s) n"

lemma word_array_push:
  assumes "8 * Suc n \<le> 2 ^ 64"
  shows "word_array (store64 m (a - 8) v) (a - 8) (Suc n) = v # word_array m a n"
proof (rule nth_equalityI)
  fix i assume "i < length (word_array (store64 m (a - 8) v) (a - 8) (Suc n))"
  then have i: "i < Suc n" by simp
  show "word_array (store64 m (a - 8) v) (a - 8) (Suc n) ! i = (v # word_array m a n) ! i"
  proof (cases i)
    case (Suc j)
    have "disjoint_regions (a - 8 + of_nat 0 * 8) 8 (a - 8 + of_nat i * 8) 8" by (rule disjoint_words) (use assms i Suc in simp_all)
    then have "load64 (store64 m (a - 8) v) (a - 8 + of_nat i * 8) = load64 m (a - 8 + of_nat i * 8)" by (intro load_store_disjoint) simp_all
    moreover have "a - 8 + of_nat i * 8 = a + of_nat j * 8" by (simp add: Suc algebra_simps)
    ultimately show ?thesis using i Suc by simp
  qed simp
qed simp

lemma word_array_Suc: "word_array m a (Suc n) = load64 m a # word_array m (a + 8) n"
proof (rule nth_equalityI)
  fix i assume "i < length (word_array m a (Suc n))"
  then show "word_array m a (Suc n) ! i = (load64 m a # word_array m (a + 8) n) ! i"
    by (cases i) (simp_all add: algebra_simps)
qed simp

lemma push_words:
  assumes "stack_words s n = ws" and "n \<le> 100"
  shows "\<exists>m. push v s = Ok ((), s\<lparr>rsp := rsp s - 8, kern := (kern s)\<lparr>mem := m\<rparr>\<rparr>) \<and> word_array m (rsp s - 8) (Suc n) = v # ws"
  using assms by (intro exI [of _ "store64 (mem (kern s)) (rsp s - 8) v"]) (simp add: push_def run_basic word_array_push)

lemma push_regs:
  assumes "stack_words s n = ws" and "n + length rs \<le> 100"
  shows "\<exists>m. foreach push_reg rs s = Ok ((), s\<lparr>rsp := rsp s - of_nat (8 * length rs), kern := (kern s)\<lparr>mem := m\<rparr>\<rparr>)
    \<and> word_array m (rsp s - of_nat (8 * length rs)) (length rs + n) = map (gpr s) (rev rs) @ ws"
  using assms
proof (induction rs arbitrary: s n ws)
  case Nil
  then show ?case by (intro exI [of _ "mem (kern s)"]) (simp add: run_basic)
next
  case (Cons r rs)
  obtain m where m: "push (gpr s r) s = Ok ((), s\<lparr>rsp := rsp s - 8, kern := (kern s)\<lparr>mem := m\<rparr>\<rparr>)" (is "_ = Ok ((), ?u)")
    "word_array m (rsp s - 8) (Suc n) = gpr s r # ws"
    using push_words [OF Cons.prems(1), of "gpr s r"] Cons.prems(2) by auto
  have "stack_words ?u (Suc n) = gpr s r # ws" using m(2) by simp
  from Cons.IH [OF this] Cons.prems(2) obtain m' where
    "foreach push_reg rs ?u = Ok ((), ?u\<lparr>rsp := rsp ?u - of_nat (8 * length rs), kern := (kern ?u)\<lparr>mem := m'\<rparr>\<rparr>)"
    "word_array m' (rsp ?u - of_nat (8 * length rs)) (length rs + Suc n) = map (gpr ?u) (rev rs) @ gpr s r # ws" by auto
  moreover have "push_reg r s = Ok ((), ?u)" using m(1) by (simp add: push_reg_def)
  ultimately show ?case by (intro exI [of _ m']) (simp add: bind_Ok algebra_simps)
qed

lemma pop_word:
  assumes "stack_words s (Suc n) = w # ws"
  shows "pop s = Ok (w, s\<lparr>rsp := rsp s + 8\<rparr>)" and "word_array (mem (kern s)) (rsp s + 8) n = ws"
  using assms by (simp_all add: word_array_Suc pop_def run_basic)

lemma pop_regs:
  assumes "stack_words s (length rs + n) = map g rs @ ws"
  shows "foreach pop_reg rs s = Ok ((), s\<lparr>gpr := (\<lambda>r. if r \<in> set rs then g r else gpr s r), rsp := rsp s + of_nat (8 * length rs)\<rparr>)
    \<and> word_array (mem (kern s)) (rsp s + of_nat (8 * length rs)) n = ws"
  using assms
proof (induction rs arbitrary: s)
  case Nil
  then show ?case by (simp add: run_basic)
next
  case (Cons r rs)
  have w: "stack_words s (Suc (length rs + n)) = g r # map g rs @ ws" using Cons.prems by simp
  let ?u = "s\<lparr>rsp := rsp s + 8, gpr := (gpr s)(r := g r)\<rparr>"
  have p: "pop_reg r s = Ok ((), ?u)" by (simp add: pop_reg_def bind_Ok [where f = pop, OF pop_word(1) [OF w]] set_reg_def run_basic)
  have "stack_words ?u (length rs + n) = map g rs @ ws" using pop_word(2) [OF w] by simp
  note ih = Cons.IH [OF this]
  have "(\<lambda>q. if q \<in> set rs then g q else gpr ?u q) = (\<lambda>q. if q \<in> set (r # rs) then g q else gpr s q)" by auto
  then show ?case using ih p by (simp add: bind_Ok algebra_simps)
qed

lemma ctx_regs_all: "set ctx_regs = UNIV" "length ctx_regs = 15"
proof -
  have "r \<in> set ctx_regs" for r by (cases r) (simp_all add: ctx_regs_def)
  then show "set ctx_regs = UNIV" by blast
  show "length ctx_regs = 15" by (simp add: ctx_regs_def)
qed

section \<open>Entering\<close>

definition swapped :: "u64 \<Rightarrow> (u32 \<Rightarrow> u64) \<Rightarrow> u32 \<Rightarrow> u64" where
  "swapped cs f = (if cs = ucast GDT_USER_CODE_SEL then f(0xc0000101 := f 0xc0000102, 0xc0000102 := f 0xc0000101) else f)"

lemma swapped_twice: "swapped cs (swapped cs f) = f"
  by (auto simp: swapped_def)

lemma swap_if_user_eq:
  assumes "load64 (mem (kern s)) (rsp s + off) = cs"
  shows "swap_if_user off s = Ok ((), s\<lparr>kern := (kern s)\<lparr>msr := swapped cs (msr (kern s))\<rparr>\<rparr>)"
  using assms by (simp add: swap_if_user_def swapgs_def on_kernel_def swapped_def run_basic)

text \<open>The state of the kernel in which the handler is called, with the interrupted code segment \<open>cs\<close> and the memory \<open>m\<close>.\<close>

definition called :: "kernel \<Rightarrow> u64 \<Rightarrow> memory \<Rightarrow> kernel" where
  "called k cs m = k\<lparr>mem := m, msr := swapped cs (msr k), seg_ds := GDT_KERNEL_DATA_SEL, seg_es := GDT_KERNEL_DATA_SEL, seg_ss := GDT_KERNEL_DATA_SEL\<rparr>"

text \<open>The words of \<open>struct cpu_ctx\<close>.\<close>

definition ctx_words :: "stub \<Rightarrow> u64 list \<Rightarrow> u64 list" where
  "ctx_words s hw = [ucast (seg_ds (kern s)), ucast (seg_es (kern s))] @ map (gpr s) ctx_regs @ hw"

definition ctx_addr :: "u8 \<Rightarrow> stub \<Rightarrow> u64" where
  "ctx_addr num s = rsp s - (if pushes_error num then 136 else 144)"

lemma stub_enter_Ok:
  assumes ws: "stack_words s (length ws) = ws" "ws = (if pushes_error num then [err] else []) @ [ip, cs, fl, sp, st]"
    and e: "e = (if pushes_error num then err else 0)"
  shows "\<exists>m t. stub_enter num table s = Ok ((), t) \<and> kern t = called (kern s) cs m \<and> rsp t = ctx_addr num s
    \<and> gpr t RBX = table + ucast num * 8 \<and> gpr t RSI = ctx_addr num s \<and> gpr t RDI = ucast num \<and> word_array m (ctx_addr num s) 23 = ctx_words s [e, ip, cs, fl, sp, st]"
proof -
  let ?hw = "[e, ip, cs, fl, sp, st]" and ?a = "rsp s - (if pushes_error num then 0 else 8)"
  have "\<exists>m. (if pushes_error num then return () else push 0) s = Ok ((), s\<lparr>rsp := ?a, kern := (kern s)\<lparr>mem := m\<rparr>\<rparr>) \<and> word_array m ?a 6 = ?hw"
  proof (cases "pushes_error num")
    case True
    then show ?thesis using ws e by (intro exI [of _ "mem (kern s)"]) (simp add: run_basic eval_nat_numeral)
  next
    case False
    have "stack_words s 5 = [ip, cs, fl, sp, st]" using ws False by (simp add: eval_nat_numeral)
    from push_words [OF this, of 0] show ?thesis using False e by simp
  qed
  then obtain m1 where m1: "(if pushes_error num then return () else push 0) s = Ok ((), s\<lparr>rsp := ?a, kern := (kern s)\<lparr>mem := m1\<rparr>\<rparr>)" (is "_ = Ok ((), ?s1)")
    "word_array m1 ?a 6 = ?hw" by blast
  have "word_array m1 ?a 6 ! 2 = cs" unfolding m1(2) by simp
  then have cs: "load64 (mem (kern ?s1)) (rsp ?s1 + 16) = cs" by simp
  let ?s2 = "?s1\<lparr>kern := (kern ?s1)\<lparr>msr := swapped cs (msr (kern ?s1))\<rparr>\<rparr>"
  have sw: "swap_if_user 16 ?s1 = Ok ((), ?s2)" using swap_if_user_eq [OF cs] .
  have "stack_words ?s2 6 = ?hw" using m1(2) by simp
  from push_regs [OF this, of "rev ctx_regs"] obtain m3 where
    m3: "foreach push_reg (rev ctx_regs) ?s2 = Ok ((), ?s2\<lparr>rsp := ?a - 120, kern := (kern ?s2)\<lparr>mem := m3\<rparr>\<rparr>)" (is "_ = Ok ((), ?s3)")
    "word_array m3 (?a - 120) 21 = map (gpr s) ctx_regs @ ?hw" by (auto simp: ctx_regs_all)
  have w3: "stack_words ?s3 21 = map (gpr s) ctx_regs @ ?hw" using m3(2) by simp
  let ?es = "ucast (seg_es (kern s)) :: u64" and ?ds = "ucast (seg_ds (kern s)) :: u64"
  let ?s3' = "?s3\<lparr>gpr := (gpr s)(RAX := ?es)\<rparr>"
  obtain m4 where m4: "push ?es ?s3' = Ok ((), ?s3'\<lparr>rsp := rsp ?s3' - 8, kern := (kern ?s3')\<lparr>mem := m4\<rparr>\<rparr>)" (is "_ = Ok ((), ?s4)")
    "word_array m4 (?a - 120 - 8) (Suc 21) = ?es # map (gpr s) ctx_regs @ ?hw"
    using push_words [of ?s3' 21 _ ?es] w3 by auto
  let ?s4' = "?s4\<lparr>gpr := (gpr ?s4)(RAX := ?ds)\<rparr>"
  obtain m where m: "push ?ds ?s4' = Ok ((), ?s4'\<lparr>rsp := rsp ?s4' - 8, kern := (kern ?s4')\<lparr>mem := m\<rparr>\<rparr>)" (is "_ = Ok ((), ?s5)")
    "word_array m (?a - 120 - 8 - 8) (Suc 22) = ?ds # ?es # map (gpr s) ctx_regs @ ?hw"
    using push_words [of ?s4' 22 _ ?ds] m4(2) by auto
  have a: "?a - 120 - 8 - 8 = ctx_addr num s" by (simp add: ctx_addr_def)
  have "\<exists>t. stub_enter num table s = Ok ((), t) \<and> kern t = called (kern s) cs m \<and> rsp t = ?a - 120 - 8 - 8 \<and> gpr t RBX = table + ucast num * 8 \<and> gpr t RSI = ?a - 120 - 8 - 8 \<and> gpr t RDI = ucast num"
    using m1(1) sw m3(1) m4(1) m(1)
    by (simp add: stub_enter_def bind_Ok [where f = "if _ then _ else _", OF m1(1)] bind_Ok [where f = "swap_if_user _", OF sw] bind_Ok [where f = "foreach _ _", OF m3(1)]
        push_reg_def set_reg_def on_kernel_def bind_Ok run_basic called_def)
  then show ?thesis using m(2) unfolding a by (auto simp: ctx_words_def)
qed

section \<open>Leaving\<close>

lemma stub_leave_Ok:
  assumes w: "stack_words s 23 = ctx_words s0 [e, ip, cs, fl, sp, st]"
  shows "\<exists>t. stub_leave s = Ok ((), t) \<and> gpr t = gpr s0 \<and> rip t = ip \<and> rflags t = fl \<and> rsp t = sp
    \<and> kern t = (kern s)\<lparr>msr := swapped cs (msr (kern s)), seg_ds := seg_ds (kern s0), seg_es := seg_es (kern s0),
         seg_cs := ucast cs, seg_ss := ucast st, int_flag := bit fl 9\<rparr>"
proof -
  let ?hw = "[e, ip, cs, fl, sp, st]" and ?ds = "seg_ds (kern s0)" and ?es = "seg_es (kern s0)"
  have w1: "stack_words s (Suc 22) = ucast ?ds # (ucast ?es # map (gpr s0) ctx_regs @ ?hw)" using w by (simp add: ctx_words_def)
  let ?s1 = "s\<lparr>rsp := rsp s + 8, gpr := (gpr s)(RAX := ucast ?ds), kern := (kern s)\<lparr>seg_ds := ?ds\<rparr>\<rparr>"
  have w2: "stack_words ?s1 (Suc 21) = ucast ?es # (map (gpr s0) ctx_regs @ ?hw)" using pop_word(2) [OF w1] by simp
  let ?s2 = "?s1\<lparr>rsp := rsp ?s1 + 8, gpr := (gpr ?s1)(RAX := ucast ?es), kern := (kern ?s1)\<lparr>seg_es := ?es\<rparr>\<rparr>"
  have w3: "stack_words ?s2 (length ctx_regs + 6) = map (gpr s0) ctx_regs @ ?hw" using pop_word(2) [OF w2] by (simp add: ctx_regs_all)
  let ?s3 = "?s2\<lparr>gpr := gpr s0, rsp := rsp ?s2 + 120\<rparr>"
  have p3: "foreach pop_reg ctx_regs ?s2 = Ok ((), ?s3)" and w4: "word_array (mem (kern ?s2)) (rsp ?s2 + 120) (Suc 5) = ?hw"
    using pop_regs [OF w3] by (simp_all add: ctx_regs_all)
  let ?s4 = "?s3\<lparr>rsp := rsp ?s3 + 8\<rparr>"
  have w5: "stack_words ?s4 5 = [ip, cs, fl, sp, st]" using w4 unfolding word_array_Suc by simp
  then have "stack_words ?s4 5 ! 1 = cs" by simp
  then have cs: "load64 (mem (kern ?s4)) (rsp ?s4 + 8) = cs" by simp
  have sg: "ucast (ucast v :: u64) = v" for v :: u16
    by (rule bit_word_eqI) (simp add: bit_simps)
  have ret: "iretq q = Ok ((), q\<lparr>rip := ip, rflags := fl, rsp := sp, kern := (kern q)\<lparr>seg_cs := ucast cs, seg_ss := ucast st, int_flag := bit fl 9\<rparr>\<rparr>)"
    if "stack_words q 5 = [ip, cs, fl, sp, st]" for q
    using that by (simp add: iretq_def pop_def bind_assoc run_basic word_array_def upt_rec add.assoc)
  let ?s5 = "?s4\<lparr>kern := (kern ?s4)\<lparr>msr := swapped cs (msr (kern ?s4))\<rparr>\<rparr>"
  have "stack_words ?s5 5 = [ip, cs, fl, sp, st]" using w5 by simp
  note r5 = ret [OF this]
  have "stub_leave s = Ok ((), ?s5\<lparr>rip := ip, rflags := fl, rsp := sp, kern := (kern ?s5)\<lparr>seg_cs := ucast cs, seg_ss := ucast st, int_flag := bit fl 9\<rparr>\<rparr>)"
    using pop_word(1) [OF w1] pop_word(1) [OF w2] p3 swap_if_user_eq [OF cs] r5
    by (simp add: stub_leave_def pop_reg_def set_reg_def bind_assoc bind_Ok run_basic sg)
  then show ?thesis by simp
qed

section \<open>The handler\<close>

text \<open>The handler returns, and leaves its frame at \<open>ctx\<close> and the bases of the segments alone.\<close>

definition keeps_frame :: "u8 \<Rightarrow> u64 \<Rightarrow> u64 \<Rightarrow> kernel \<Rightarrow> bool" where
  "keeps_frame num cs ctx k \<longleftrightarrow> (\<exists>k'. run_isr num cs k = Ok ((), k') \<and> msr k' = msr k \<and> (\<forall>x. in_region ctx 184 x \<longrightarrow> mem k' x = mem k x))"

lemma slot_of_vector: "(table + ucast num * 8 - table) div 8 = (ucast num :: u64)" "ucast (ucast num :: u64) = num" for num :: u8
proof -
  have n: "unat (ucast num :: u64) = unat num" "unat num < 256"
    using unsigned_less [of num, where ?'a = nat] by (simp_all add: unsigned_ucast_eq take_bit_nat_eq_self)
  then have "unat (ucast num * 8 :: u64) = unat num * 8" by (subst unat_mult_lem [THEN iffD1]) simp_all
  then have "unat ((ucast num * 8 :: u64) div 8) = unat (ucast num :: u64)" by (simp add: unat_div n)
  then show "(table + ucast num * 8 - table) div 8 = (ucast num :: u64)" by (simp add: word_unat_eq_iff)
  show "ucast (ucast num :: u64) = num" by (rule bit_word_eqI) (simp add: bit_simps)
qed

lemma call_handler_run:
  assumes "gpr s RBX = table + ucast num * 8" "gpr s RSI = ctx" "rsp s = ctx" "kern s = called k cs m" "gpr s RDI = ucast num"
    and w: "word_array m ctx 23 = ctx_words s0 [e, ip, cs, fl, sp, st]"
    and m'_def: "m' = store64 m (ctx - 8) ra"
  shows "call_handler left table ra s = (case run_isr num cs (called k cs m') of
      Ok (_, k') \<Rightarrow> Ok ((), s\<lparr>kern := k', gpr := left k', rsp := ctx\<rparr>) | Panic msg \<Rightarrow> Panic msg | Fault msg \<Rightarrow> Fault msg | Diverge \<Rightarrow> Diverge)"
    and "word_array m' ctx 23 = word_array m ctx 23"
proof -
  have "word_array m' (ctx - 8) (Suc 23) = ra # word_array m ctx 23" unfolding m'_def by (rule word_array_push) simp
  then show keep: "word_array m' ctx 23 = word_array m ctx 23" unfolding word_array_Suc by simp
  have "word_array m' ctx 23 ! 19 = cs" unfolding keep w by (simp add: ctx_words_def ctx_regs_def)
  then have cs: "load64 m' (ctx + 152) = cs" by simp
  have upd: "(called k cs m)\<lparr>mem := m'\<rparr> = called k cs m'" and cm: "mem (called k cs m') = m'" "mem (called k cs m) = m"
      "isr_handler_table (called k cs m) = isr_handler_table (called k cs m')"
    by (simp_all add: called_def)
  have n: "(ucast (ucast num :: u64) :: u32) = ucast num" "unat (ucast num :: u64) = unat num"
    by (rule bit_word_eqI, simp add: bit_simps) (simp add: unsigned_ucast_eq take_bit_nat_eq_self less_trans [OF unsigned_less])
  show "call_handler left table ra s = (case run_isr num cs (called k cs m') of
      Ok (_, k') \<Rightarrow> Ok ((), s\<lparr>kern := k', gpr := left k', rsp := ctx\<rparr>) | Panic msg \<Rightarrow> Panic msg | Fault msg \<Rightarrow> Fault msg | Diverge \<Rightarrow> Diverge)"
    using cs by (simp add: call_handler_def run_isr_def push_def pop_def slot_of_vector [simplified] bind_def run_basic assms(1-5) upd cm n
        m'_def [symmetric] split: outcome.split)
qed

lemma call_handler_Ok:
  assumes "gpr s RBX = table + ucast num * 8" "gpr s RSI = ctx" "rsp s = ctx" "kern s = called k cs m" "gpr s RDI = ucast num"
    and w: "word_array m ctx 23 = ctx_words s0 [e, ip, cs, fl, sp, st]"
    and h: "\<And>m. keeps_frame num cs ctx (called k cs m)"
  shows "\<exists>m' k' t. call_handler left table ra s = Ok ((), t) \<and> run_isr num cs (called k cs m') = Ok ((), k') \<and> kern t = k' \<and> rsp t = ctx
    \<and> msr k' = swapped cs (msr k) \<and> word_array m' ctx 23 = word_array m ctx 23 \<and> word_array (mem k') ctx 23 = word_array m ctx 23"
proof -
  let ?m = "store64 m (ctx - 8) ra"
  note run = call_handler_run [OF assms(1-6), of ?m ra, OF refl]
  obtain k' where k': "run_isr num cs (called k cs ?m) = Ok ((), k')" "msr k' = msr (called k cs ?m)"
    "\<forall>x. in_region ctx 184 x \<longrightarrow> mem k' x = mem (called k cs ?m) x"
    using h [of ?m] by (auto simp: keeps_frame_def)
  have "word_array (mem k') ctx 23 = word_array ?m ctx 23" by (rule word_array_cong) (use k'(3) in \<open>simp_all add: called_def\<close>)
  then show ?thesis
    using run k'(1,2)
    by (intro exI [of _ ?m] exI [of _ k'] exI [of _ "s\<lparr>kern := k', gpr := left k', rsp := ctx\<rparr>"]) (simp add: called_def)
qed

text \<open>A handler that does not return ends the stub with the same outcome: a panic names the exception of the vector.\<close>

lemma isr_thunk_panics:
  assumes ws: "stack_words s (length ws) = ws" "ws = (if pushes_error num then [err] else []) @ [ip, cs, fl, sp, st]"
    and h: "\<And>m. run_isr num cs (called (kern s) cs m) = Panic msg"
  shows "isr_thunk left table ra num s = Panic msg"
proof -
  obtain m u where u: "stub_enter num table s = Ok ((), u)" "kern u = called (kern s) cs m" "rsp u = ctx_addr num s" "gpr u RBX = table + ucast num * 8"
    "gpr u RSI = ctx_addr num s" "gpr u RDI = ucast num"
    "word_array m (ctx_addr num s) 23 = ctx_words s [if pushes_error num then err else 0, ip, cs, fl, sp, st]"
    using stub_enter_Ok [OF ws refl] by blast
  have "call_handler left table ra u = Panic msg"
    by (simp add: call_handler_run(1) [OF u(4,5,3,2,6,7) refl] h)
  then show ?thesis using u(1) by (simp add: isr_thunk_def bind_Ok bind_Panic)
qed

text \<open>C29: An interrupt whose handler returns and leaves the frame alone is transparent: the handler runs once, with a
  \<open>struct cpu_ctx\<close> that has the registers as they were interrupted, the error code (or zero) and what the
  processor pushed; and the interrupted program goes on with all its registers, segments, flags and both GS bases,
  whether it ran in user mode or not.\<close>

theorem isr_thunk_transparent:
  assumes ws: "stack_words s (length ws) = ws" "ws = (if pushes_error num then [err] else []) @ [ip, cs, fl, sp, st]"
    and h: "\<And>m. keeps_frame num cs (ctx_addr num s) (called (kern s) cs m)"
  shows "\<exists>t m k. isr_thunk left table ra num s = Ok ((), t)
    \<and> word_array m (ctx_addr num s) 23 = ctx_words s [if pushes_error num then err else 0, ip, cs, fl, sp, st]
    \<and> run_isr num cs (called (kern s) cs m) = Ok ((), k) \<and> mem (kern t) = mem k
    \<and> gpr t = gpr s \<and> rip t = ip \<and> rflags t = fl \<and> rsp t = sp \<and> int_flag (kern t) = bit fl 9
    \<and> seg_cs (kern t) = ucast cs \<and> seg_ss (kern t) = ucast st \<and> seg_ds (kern t) = seg_ds (kern s) \<and> seg_es (kern t) = seg_es (kern s)
    \<and> msr (kern t) = msr (kern s)"
proof -
  let ?hw = "[if pushes_error num then err else 0, ip, cs, fl, sp, st]" and ?ctx = "ctx_addr num s"
  obtain m u where u: "stub_enter num table s = Ok ((), u)" "kern u = called (kern s) cs m" "rsp u = ?ctx" "gpr u RBX = table + ucast num * 8"
    "gpr u RSI = ?ctx" "gpr u RDI = ucast num" "word_array m ?ctx 23 = ctx_words s ?hw"
    using stub_enter_Ok [OF ws refl] by blast
  obtain m' k v where v: "call_handler left table ra u = Ok ((), v)" "run_isr num cs (called (kern s) cs m') = Ok ((), k)" "kern v = k" "rsp v = ?ctx"
    "msr k = swapped cs (msr (kern s))" "word_array m' ?ctx 23 = word_array m ?ctx 23" "word_array (mem k) ?ctx 23 = word_array m ?ctx 23"
    using call_handler_Ok [OF u(4,5,3,2,6,7) h] by blast
  have "stack_words v 23 = ctx_words s ?hw" using v(3,4,7) u(7) by simp
  from stub_leave_Ok [OF this] obtain t where t: "stub_leave v = Ok ((), t)" "gpr t = gpr s" "rip t = ip" "rflags t = fl" "rsp t = sp"
    "kern t = (kern v)\<lparr>msr := swapped cs (msr (kern v)), seg_ds := seg_ds (kern s), seg_es := seg_es (kern s),
         seg_cs := ucast cs, seg_ss := ucast st, int_flag := bit fl 9\<rparr>" by blast
  have "isr_thunk left table ra num s = Ok ((), t)" using u(1) v(1) t(1) by (simp add: isr_thunk_def bind_Ok)
  moreover have "msr (kern t) = msr (kern s)" using t(6) v(3,5) by (simp add: swapped_twice)
  ultimately show ?thesis using v(2,3,6) u(7) t(2-6) by (intro exI [of _ t] exI [of _ m'] exI [of _ k]) simp
qed

text \<open>The scheduler's interrupt in user mode.\<close>

definition stub_machine :: stub where
  "stub_machine = \<lparr>kern = blank_kernel\<lparr>isr_handler_table := (replicate 256 no_handler)[33 := sched_isr], msr := (\<lambda>_. 0)(0xc0000102 := 0x9000),
     mem := store64 (store64 (store64 (store64 (store64 (\<lambda>_. 0) 0x8000 0x400000) 0x8008 0x1b) 0x8010 0x202) 0x8018 0x7000) 0x8020 0x23\<rparr>,
     gpr = (\<lambda>r. if r = RCX then 42 else 7), rsp = 0x8000, rip = 0, rflags = 2\<rparr>"

theorem isr_thunk_transparent_witness:
  "\<exists>t. isr_thunk (\<lambda>_ _. 0) 0x1000 0x2000 33 stub_machine = Ok ((), t) \<and> gpr t = (\<lambda>r. if r = RCX then 42 else 7)
     \<and> rip t = 0x400000 \<and> rsp t = 0x7000 \<and> int_flag (kern t) \<and> msr (kern t) 0xc0000102 = 0x9000"
proof -
  let ?ws = "[0x400000, 0x1b, 0x202, 0x7000, 0x23] :: u64 list"
  have e: "\<not> pushes_error 33" by (simp add: pushes_error_def)
  have w: "stack_words stub_machine (length ?ws) = ?ws"
    by (simp add: stub_machine_def word_array_def load_store_disjoint disjoint_regions_def)
  have ws: "?ws = (if pushes_error 33 then [0] else []) @ [0x400000, 0x1b, 0x202, 0x7000, 0x23]" using e by simp
  have h: "keeps_frame 33 0x1b (ctx_addr 33 stub_machine) (called (kern stub_machine) 0x1b m)" for m
  proof -
    have "isr_handler_table (called (kern stub_machine) 0x1b m) ! 33 = sched_isr" by (simp add: called_def stub_machine_def)
    then show ?thesis by (simp add: keeps_frame_def run_isr_def run_handler_def sched_isr_body_def lapic_timer_stop_eq)
  qed
  have b: "bit (0x202 :: u64) 9" by simp
  show ?thesis using isr_thunk_transparent [OF w ws h, of "\<lambda>_ _. 0" "0x1000" "0x2000"] b by (auto simp: stub_machine_def)
qed

end
