(* ===== verification/Layout.thy ===== *)
theory Layout
  imports Hpet Madt Stack Isr_Stub
begin

text \<open>
  The layout of the kernel's structures. The models above keep them in memory and name the addresses of
  their fields by offsets; here the structures are declared as in the sources and laid out by the rules of the
  compiler for x86-64, and the offsets and sizes of the models are shown to be these.
\<close>

section \<open>The rules\<close>

text \<open>A packed structure has no padding; a field with no length of its own is an array of no elements.\<close>

datatype ctype = U8 | U16 | U32 | U64 | Array ctype nat | Struct bool "(string \<times> ctype) list"

definition round_to :: "nat \<Rightarrow> nat \<Rightarrow> nat" where
  "round_to n a = (n + (a - 1)) div a * a"

fun calign :: "ctype \<Rightarrow> nat" where
  "calign U8 = 1"
| "calign U16 = 2"
| "calign U32 = 4"
| "calign U64 = 8"
| "calign (Array t n) = calign t"
| "calign (Struct packed fs) = (if packed then 1 else fold (\<lambda>(x, t). max (calign t)) fs 1)"

fun csize :: "ctype \<Rightarrow> nat" and cend :: "bool \<Rightarrow> (string \<times> ctype) list \<Rightarrow> nat \<Rightarrow> nat" where
  "csize U8 = 1"
| "csize U16 = 2"
| "csize U32 = 4"
| "csize U64 = 8"
| "csize (Array t n) = n * csize t"
| "csize (Struct packed fs) = round_to (cend packed fs 0) (calign (Struct packed fs))"
| "cend packed [] off = off"
| "cend packed ((x, t) # fs) off = cend packed fs (round_to off (if packed then 1 else calign t) + csize t)"

text \<open>The offset of a field.\<close>

fun place :: "bool \<Rightarrow> (string \<times> ctype) list \<Rightarrow> nat \<Rightarrow> string \<Rightarrow> nat option" where
  "place packed [] off y = None"
| "place packed ((x, t) # fs) off y =
     (let a = round_to off (if packed then 1 else calign t) in if x = y then Some a else place packed fs (a + csize t) y)"

fun offset :: "ctype \<Rightarrow> string \<Rightarrow> nat option" where
  "offset (Struct packed fs) x = place packed fs 0 x"
| "offset _ x = None"

section \<open>The structures\<close>

abbreviation Ptr :: ctype where "Ptr \<equiv> U64"

definition c_stack :: ctype where
  "c_stack = Struct False [(''base'', Ptr), (''top'', Ptr), (''type_size'', U64), (''cur_offset'', U64)]"

definition c_alloc_metadata :: ctype where
  "c_alloc_metadata = Struct False [(''pages'', U64), (''size'', U64)]"

definition c_slab_header :: ctype where
  "c_slab_header = Struct False [(''slab'', Ptr)]"

definition c_thread :: ctype where
  "c_thread = Struct False [(''self'', Ptr), (''running_on'', U64), (''errno'', U64), (''kernel_stack'', Ptr), (''user_stack'', Ptr), (''syscall_num'', U64)]"

definition c_cpu_ctx :: ctype where
  "c_cpu_ctx = Struct False [(''ds'', U64), (''es'', U64), (''rax'', U64), (''rbx'', U64), (''rcx'', U64), (''rdx'', U64), (''rsi'', U64), (''rdi'', U64),
     (''rbp'', U64), (''r8'', U64), (''r9'', U64), (''r10'', U64), (''r11'', U64), (''r12'', U64), (''r13'', U64), (''r14'', U64), (''r15'', U64), (''err'', U64),
     (''rip'', U64), (''cs'', U64), (''rflags'', U64), (''rsp'', U64), (''ss'', U64)]"

definition c_cpu_tss :: ctype where
  "c_cpu_tss = Struct True [(''reserved0'', U32), (''rsp0'', U64), (''rsp1'', U64), (''rsp2'', U64), (''reserved1'', U64), (''ist1'', U64), (''ist2'', U64),
     (''ist3'', U64), (''ist4'', U64), (''ist5'', U64), (''ist6'', U64), (''ist7'', U64), (''reserved2'', U64), (''iopb'', U32)]"

definition c_cpu_local :: ctype where
  "c_cpu_local = Struct False [(''cpu_number'', U64), (''lapic_id'', U32), (''is_bsp'', U8), (''online'', U8), (''is_idle'', U8), (''lapic_timer_freq'', U64),
     (''tss'', c_cpu_tss), (''common_int_stack'', Ptr), (''abort_stack'', Ptr), (''idle_thread'', c_thread)]"

definition c_sdt :: ctype where
  "c_sdt = Struct False [(''signature'', Array U8 4), (''length'', U32), (''revision'', U8), (''checksum'', U8), (''oem_id'', Array U8 6),
     (''oem_table_id'', Array U8 8), (''oem_revision'', U32), (''creator_id'', U32), (''creator_revision'', U32)]"

definition c_rsdp :: ctype where
  "c_rsdp = Struct False [(''signature'', Array U8 8), (''checksum'', U8), (''oem_id'', Array U8 6), (''revision'', U8), (''rsdt_addr'', U32), (''length'', U32),
     (''xsdt_addr'', U64), (''ext_checksum'', U8), (''reserved'', Array U8 3)]"

definition c_rsdt :: ctype where
  "c_rsdt = Struct False [(''sdt'', c_sdt), (''data'', Array U8 0)]"

definition c_madt :: ctype where
  "c_madt = Struct False [(''sdt'', c_sdt), (''local_controller_addr'', U32), (''flags'', U32), (''entries_data'', Array U8 0)]"

definition c_madt_header :: ctype where
  "c_madt_header = Struct True [(''id'', U8), (''length'', U8)]"

definition c_madt_lapic :: ctype where
  "c_madt_lapic = Struct True [(''header'', c_madt_header), (''processor_id'', U8), (''apic_id'', U8), (''flags'', U32)]"

definition c_madt_io_apic :: ctype where
  "c_madt_io_apic = Struct True [(''header'', c_madt_header), (''apic_id'', U8), (''reserved'', U8), (''address'', U32), (''gsib'', U32)]"

definition c_madt_iso :: ctype where
  "c_madt_iso = Struct True [(''header'', c_madt_header), (''bus_source'', U8), (''irq_source'', U8), (''gsi'', U32), (''flags'', U16)]"

definition c_madt_nmi :: ctype where
  "c_madt_nmi = Struct True [(''header'', c_madt_header), (''processor'', U8), (''flags'', U16), (''lint'', U8)]"

text \<open>The bit-fields of the timer's table share a byte.\<close>

definition c_hpet_table :: ctype where
  "c_hpet_table = Struct True [(''sdt'', c_sdt), (''hardware_rev_id'', U8), (''comparator_count'', U8), (''pci_vendor_id'', U16), (''address_space_id'', U8),
     (''register_bit_width'', U8), (''register_bit_offset'', U8), (''reserved1'', U8), (''address'', U64), (''hpet_number'', U8), (''minimum_tick'', U16),
     (''page_protection'', U8)]"

definition c_hpet_timer :: ctype where
  "c_hpet_timer = Struct False [(''config_and_capabilities'', U64), (''comparator_value'', U64), (''fsb_interrupt_route'', U64), (''unused'', U64)]"

definition c_hpet :: ctype where
  "c_hpet = Struct False [(''general_capabilities'', U64), (''unused0'', U64), (''general_configuration'', U64), (''unused1'', U64), (''general_int_status'', U64),
     (''unused2'', U64), (''unused3'', Array (Array U64 12) 2), (''main_counter_value'', U64), (''unused4'', U64), (''timers'', Array c_hpet_timer 0)]"

definition c_gdtr :: ctype where
  "c_gdtr = Struct True [(''limit'', U16), (''base'', U64)]"

section \<open>Fields do not overlap\<close>

lemma fold_max_ge: "n \<le> fold (\<lambda>(x, t). max (f t)) fs (n :: nat)"
proof (induction fs arbitrary: n)
  case (Cons a fs)
  have "n \<le> max (f (snd a)) n" by simp
  also have "\<dots> \<le> fold (\<lambda>(x, t). max (f t)) fs (max (f (snd a)) n)" by (rule Cons.IH)
  finally show ?case by (cases a) simp
qed simp

lemma calign_pos: "0 < calign t"
proof (induction t rule: calign.induct)
  case (6 packed fs)
  show ?case using fold_max_ge [of 1 calign fs] by simp
qed simp_all

lemma round_to_ge: "0 < a \<Longrightarrow> n \<le> round_to n a"
proof -
  assume a: "0 < a"
  have "n + (a - 1) < round_to n a + a" unfolding round_to_def using a div_mult_mod_eq [of "n + (a - 1)" a] mod_less_divisor [OF a, of "n + (a - 1)"] by linarith
  then show ?thesis using a by linarith
qed

lemma cend_ge: "off \<le> cend packed fs off"
proof (induction fs arbitrary: off)
  case (Cons f fs)
  obtain x t where f: "f = (x, t)" by force
  have "off \<le> round_to off (if packed then 1 else calign t)" by (rule round_to_ge) (simp add: calign_pos)
  then show ?case using Cons.IH [of "round_to off (if packed then 1 else calign t) + csize t"] by (simp add: f)
qed simp

lemma place_bounds:
  assumes "place packed fs off y = Some a" and "map_of fs y = Some t"
  shows "off \<le> a \<and> a + csize t \<le> cend packed fs off"
  using assms
proof (induction fs arbitrary: off)
  case (Cons f fs)
  obtain x u where f: "f = (x, u)" by force
  let ?b = "round_to off (if packed then 1 else calign u)"
  have ge: "off \<le> ?b" by (rule round_to_ge) (simp add: calign_pos)
  show ?case
  proof (cases "x = y")
    case True
    then have "a = ?b" "t = u" using Cons.prems by (simp_all add: f Let_def del: if_split)
    then show ?thesis using ge cend_ge [of "?b + csize u" packed fs] by (simp add: f del: if_split)
  next
    case False
    then have "?b + csize u \<le> a \<and> a + csize t \<le> cend packed fs (?b + csize u)" using Cons by (simp add: f Let_def)
    then show ?thesis using ge by (simp add: f)
  qed
qed simp

text \<open>In every structure two fields with different names lie one after the other, inside of it.\<close>

theorem fields_apart:
  assumes "offset (Struct packed fs) x = Some a" "map_of fs x = Some t" and "offset (Struct packed fs) y = Some b" "map_of fs y = Some u" and "x \<noteq> y"
  shows "(a + csize t \<le> b \<or> b + csize u \<le> a) \<and> a + csize t \<le> csize (Struct packed fs)"
proof -
  have "a + csize t \<le> b \<or> b + csize u \<le> a" if "place packed fs off x = Some a" "place packed fs off y = Some b" for off
    using that assms(2,4)
  proof (induction fs arbitrary: off)
    case (Cons f fs)
    obtain z v where f: "f = (z, v)" by force
    let ?c = "round_to off (if packed then 1 else calign v)"
    note first = place_bounds [of packed fs "?c + csize v"]
    show ?case
    proof (cases "z = x \<or> z = y")
      case True
      then show ?thesis using Cons.prems assms(5) first [of x a t] first [of y b u] by (auto simp: f Let_def)
    next
      case False
      then show ?thesis using Cons.prems by (intro Cons.IH [of "?c + csize v"]) (auto simp: f Let_def)
    qed
  qed simp
  moreover have "a + csize t \<le> cend packed fs 0" using place_bounds assms(1,2) by simp
  moreover have "cend packed fs 0 \<le> csize (Struct packed fs)" unfolding csize.simps by (rule round_to_ge [OF calign_pos])
  ultimately show ?thesis using assms(1,3) by auto
qed

section \<open>The offsets of the models\<close>

lemmas c_structs = c_stack_def c_alloc_metadata_def c_slab_header_def c_thread_def c_cpu_ctx_def c_cpu_tss_def c_cpu_local_def c_sdt_def c_rsdp_def c_rsdt_def c_madt_def
  c_madt_header_def c_madt_lapic_def c_madt_io_apic_def c_madt_iso_def c_madt_nmi_def c_hpet_table_def c_hpet_timer_def c_hpet_def c_gdtr_def

lemma cpu_local_layout:
  "csize c_cpu_local = unat sizeof_cpu_local" "csize c_cpu_tss = 104" "csize c_thread = 48"
  "map_option (\<lambda>k. p + of_nat k) (offset c_cpu_local ''cpu_number'') = Some (cl_cpu_number p)"
  "map_option (\<lambda>k. p + of_nat k) (offset c_cpu_local ''lapic_id'') = Some (cl_lapic_id p)"
  "map_option (\<lambda>k. p + of_nat k) (offset c_cpu_local ''is_bsp'') = Some (cl_is_bsp p)"
  "map_option (\<lambda>k. p + of_nat k) (offset c_cpu_local ''online'') = Some (cl_online p)"
  "map_option (\<lambda>k. p + of_nat k) (offset c_cpu_local ''lapic_timer_freq'') = Some (cl_lapic_timer_freq p)"
  "map_option (\<lambda>k. p + of_nat k) (offset c_cpu_local ''tss'') = Some (cl_tss p)"
  "map_option (\<lambda>k. p + of_nat k) (offset c_cpu_local ''common_int_stack'') = Some (cl_common_int_stack p)"
  "map_option (\<lambda>k. p + of_nat k) (offset c_cpu_local ''abort_stack'') = Some (cl_abort_stack p)"
  "map_option (\<lambda>k. p + of_nat k) (offset c_cpu_local ''idle_thread'') = Some (cl_idle_thread p)"
  "map_option (\<lambda>k. p + of_nat k) (offset c_cpu_tss ''rsp0'') = Some (tss_rsp0 p)"
  "map_option (\<lambda>k. p + of_nat k) (offset c_cpu_tss ''ist1'') = Some (tss_ist1 p)"
  "map_option (\<lambda>k. p + of_nat k) (offset c_thread ''self'') = Some (th_self p)"
  "map_option (\<lambda>k. p + of_nat k) (offset c_thread ''running_on'') = Some (th_running_on p)"
  by (simp_all add: c_structs round_to_def cl_defs)

lemma table_layout:
  "csize c_sdt = unat sizeof_sdt" "csize c_rsdp = unat sizeof_rsdp" "csize c_madt = unat sizeof_madt" "csize c_hpet = unat sizeof_hpet" "csize c_rsdt = 36"
  "offset c_sdt ''length'' = Some 4" "offset c_rsdp ''revision'' = Some 15" "offset c_rsdp ''rsdt_addr'' = Some 16" "offset c_rsdp ''xsdt_addr'' = Some 24"
  "offset c_rsdt ''data'' = Some 36" "offset c_madt ''entries_data'' = Some 44" "offset c_madt_header ''length'' = Some 1"
  "offset c_hpet_table ''address'' = Some 44" "offset c_hpet ''general_configuration'' = Some 16" "offset c_hpet ''main_counter_value'' = Some 240"
  "csize c_hpet_table = 56" "csize c_hpet_timer = 32" "csize c_madt_lapic = 8" "csize c_madt_io_apic = 12" "csize c_madt_iso = 10" "csize c_madt_nmi = 6"
  by (simp_all add: c_structs round_to_def sizeof_sdt_def sizeof_rsdp_def sizeof_madt_def sizeof_hpet_def)

lemma kernel_layout:
  "csize c_stack = 32" "offset c_stack ''base'' = Some 0" "offset c_stack ''top'' = Some 8" "offset c_stack ''type_size'' = Some 16" "offset c_stack ''cur_offset'' = Some 24"
  "csize c_alloc_metadata = 16" "offset c_alloc_metadata ''pages'' = Some 0" "offset c_alloc_metadata ''size'' = Some 8" "csize c_slab_header = 8" "csize c_gdtr = 10"
  "csize c_cpu_ctx = 8 * 23" "offset c_cpu_ctx ''cs'' = Some 152" "offset c_cpu_ctx ''rax'' = Some (8 * 2)" "offset c_cpu_ctx ''err'' = Some (8 * (2 + length ctx_regs))"
  by (simp_all add: c_structs round_to_def ctx_regs_def)

end
