(* ===== verification/Spec2Isabelle.thy ===== *)
theory Spec2Isabelle
  imports Kmain Smp Layout
begin

text \<open>
  A verification library for the cynix kernel, the C code under \<open>kernel/src\<close>. It follows the kernel
  from the boot protocol's hand-over to the end of \<open>kmain\<close>, and models each source file as a group
  of definitions in the order and under the names of the code.

  \<^bold>\<open>The program and its models.\<close>

  \<^item> \<open>Prelude\<close>: machine integers as words and \<open>prog\<close>, state-passing programs. A program returns a
    value and a state (\<open>Ok\<close>), ends in a kernel panic with its message (\<open>Panic\<close>), in a processor
    fault (\<open>Fault\<close>) or never ends (\<open>Diverge\<close>). \<open>whileM\<close> is the C loop; there is no fuel: a loop that
    does not end has the value \<open>Diverge\<close>, and "returns" is proved as \<open>= Ok (v, t)\<close>.
  \<^item> \<open>Memory\<close>: byte-addressed memory with little-endian loads and stores, and the routines of
    \<open>lib/std-memory.asm\<close>.
  \<^item> \<open>Kernel_State\<close>: the boot protocol's responses, the registers of the processor and the globals
    of every file, a chain of records that ends in \<open>kernel\<close>. \<open>klog\<close> has the messages that are still to be printed.
    \<open>processors\<close> has the registers of the processors other than the one that runs.
  \<^item> \<open>Lib_Misc\<close>: \<open>lib/misc.k.h\<close>. \<open>Spinlock\<close>: \<open>lib/spinlock.c\<close> and the interrupt flag. \<open>Cpu\<close>: the
    accessors of \<open>sys/cpu.k.h\<close> and \<open>sys/port.k.h\<close>; a device answers a read depending on the
    accesses before it.
  \<^item> \<open>Pmm\<close>, \<open>Pmm_Init\<close>, \<open>Pmm_Props\<close>: \<open>mm/generic.c\<close> and \<open>mm/pmm.c\<close>, the page allocator on its bitmap.
    \<open>Page_Source\<close>: what the other allocators rely on.
  \<^item> \<open>Alloc\<close>: \<open>lib/alloc.c\<close>, blocks of pages with a header. \<open>Vector\<close> and \<open>Stack\<close>: \<open>lib/vector.k.h\<close> and
    \<open>lib/stack.c\<close> on these blocks. \<open>Vector_Page\<close>: vectors of pointers that fit one page.
  \<^item> \<open>Slab\<close>, \<open>Slab_Heap\<close>, \<open>Slab_Props\<close>: \<open>mm/slab.c\<close>, cells of twelve sizes in chunks of 64 pages.
  \<^item> \<open>Vmm\<close>, \<open>Vmm_Maps\<close>, \<open>Vmm_Init\<close>: \<open>mm/vmm.c\<close>, page tables of four or five levels in memory.
  \<^item> \<open>Gdt\<close>, \<open>Idt\<close>, \<open>Sched\<close>: \<open>sys/gdt.c\<close>, \<open>sys/idt.c\<close>, \<open>sys/isr.c\<close> and \<open>proc/sched.c\<close>. \<open>Isr_Stub\<close>: the
    entry stubs of \<open>sys/isr.S\<close>, as programs on the registers and the stack.
  \<^item> \<open>Pit\<close>, \<open>Lapic\<close>, \<open>Hpet\<close>: the timers and the interrupt controller, \<open>sys/pit.c\<close>, \<open>sys/lapic.c\<close> and
    \<open>sys/hpet.c\<close>.
  \<^item> \<open>Acpi_Tables\<close>, \<open>Madt\<close>, \<open>Uacpi\<close>, \<open>Acpi\<close>: \<open>acpi/acpi.c\<close> and \<open>acpi/madt.c\<close>: the table search, the
    entries of the interrupt controller table, the services given to the ACPI library, and
    \<open>acpi_init\<close>.
  \<^item> \<open>Terminal\<close>, \<open>Panic\<close>: \<open>devices\<close>, \<open>lib/printf.c\<close> and \<open>lib/panic.c\<close>. \<open>Console\<close>: the contract of the terminal emulator
    and what the console needs and changes during the boot. \<open>Mp\<close>: \<open>sys/cpu.c\<close> and
    \<open>sys/mp.c\<close>. \<open>Cpu_Init\<close>, \<open>Mp_Init\<close>: one processor comes up, and all of them do. \<open>Boot\<close>, \<open>Boot_Acpi\<close>, \<open>Kmain\<close>: \<open>main.c\<close>, its memory, its firmware
    tables and its whole. \<open>Smp\<close>: several processors on one lock.
  \<^item> \<open>Layout\<close>: the structures of the sources, laid out by the rules of the compiler; the offsets that the models
    use are shown to be those of their fields.

  \<^bold>\<open>Interfaces.\<close> The locale \<open>lock_cell\<close> is a spinlock somewhere in the state; it is interpreted on
  every lock of the kernel, in globals, in list elements (slabs, terminals) and in memory (the locks of
  the ACPI library), and carries what acquiring and releasing do. \<open>page_source\<close>, \<open>zeroing_page_source\<close> and \<open>page_heap\<close>
  are what the heap, the slabs and the page tables rely on, interpreted on \<open>pmm_alloc_nozero\<close>,
  \<open>pmm_alloc\<close> and \<open>pmm_free\<close>. \<open>object_store\<close> is what a user of objects relies on, interpreted
  on the slab allocator.

  \<^bold>\<open>What is shown.\<close>

  \<^item> Memory: the page allocator refines a set of free pages. An allocation is an aligned run of free
    pages and takes exactly these, \<open>pmm_alloc\<close> clears them, freeing gives them back; it is exactly
    characterised when it panics, including one case that it need not, and which run it picks. \<open>pmm_init\<close>
    frees exactly the usable pages outside the bitmap, unless the bitmap comes out too short.
    Live slab cells never overlap, through allocation, reallocation and freeing, and a freed cell is the next one handed
    out. Heap blocks keep
    their contents when they grow. Vectors and stacks refine lists.
  \<^item> Page tables: mapping a page refines the update of the map from addresses to frames and flags that the
    processor reads from the tables; the number of table pages that it takes is exact.
    \<open>vmm_init\<close> maps the kernel's segments and the memory map with their permissions.
  \<^item> Descriptors, gates and handlers as the processor reads them; every vector runs the handler
    registered for it. An interrupt whose handler returns is transparent to what it interrupted.
  \<^item> Firmware tables: which table is found; which entries of the interrupt controller table the
    five vectors hold; the rate of the event timer.
  \<^item> Timers: the calibrated frequency, exactly, and how far below the measured one it is.
  \<^item> Several processors: a step relation in which each processor tests, holds and releases a lock
    in any order. The lock excludes, allocated vectors are distinct, and refilling a slab,
    which resets the lock that is held, breaks the exclusion.
  \<^item> Bringing them up: on a machine of at most 512 processors with distinct identifiers, enough memory, and timers whose frequency the
    processor tells or whose count can be measured (\<open>timer_ok\<close> says of the device what that takes), \<open>mp_init\<close> returns
    with all processors online, each with a record and two stacks of its own. The registers of each, those that
    \<open>processors\<close> keeps included, have the kernel's page tables and its task state, and \<open>cpu_current\<close> finds its
    record with them. The boot processor only polls a flag while another one runs \<open>cpu_init\<close>,
    so the run of that one up to the flag is one step of \<open>mp_init\<close>.
  \<^item> Boot: on a machine that has a framebuffer, keeps the boot protocol's promises and has enough memory for the slabs, the
    terminals and the page tables, with a terminal emulator that keeps its contract in a build without \<open>DEBUG\<close>, \<open>kmain\<close>
    prints its messages and gets to the check for the list of processors, with
    the kernel's own page tables loaded, and the invariants of the page
    allocator, the slabs, the page tables and the console hold there together. With the firmware tables in memory
    that is neither usable nor the display's it goes on to the ACPI library, with the interrupt controllers collected and
    the event timer mapped and running. Without a framebuffer it faults at its first message.

  \<^bold>\<open>Assumptions and limits.\<close> Code that is not in the repository is a parameter: the ACPI library, the
  terminal emulator, the formatter, and the application processors while the boot processor waits for
  them (\<open>outside\<close> in \<open>Kmain\<close>). A call of \<open>panic\<close> is the outcome \<open>Panic\<close>; its body is modelled apart, in
  \<open>Panic\<close>. A call of \<open>printf\<close> from the initialisation code appends to \<open>klog\<close>; \<open>kmain\<close> prints what is there with the whole
  output path of \<open>Terminal\<close> when the part of the initialisation that printed returns (\<open>flush_log\<close>), so output comes later than in
  the code by at most one such part, and is lost when that part panics. Memory is sequentially consistent, and the memory a pointer reaches does not depend on the
  tables loaded: the direct map of the boot protocol and that of \<open>vmm_init\<close> agree. The index of the highest set bit of 0,
  which the instruction leaves undefined, is the outcome \<open>Fault\<close>. The length of a kernel segment, a signed number in the
  code, is unsigned here; they differ from \<open>2 ^ 63\<close> on. The response with the kernel's file is taken to be
  there, as its address is one of the boot data. Among several processors, \<open>slab_step\<close> lets a holder of the lock
  do more than the code does; the run that it is used for is one of the code.

  \<^bold>\<open>Not modelled.\<close> The four instructions that save and restore the floating point state; third-party code; linker scripts, build
  files and the recipes of the distribution, which hold no code of the kernel; the boot protocol's request structures,
  which are constants that the bootloader reads.

  \<^bold>\<open>Left.\<close> The end of the boot theorem, from the ACPI library through \<open>mp_init\<close>: it needs a contract on what the
  library may do to the state of the kernel.
\<close>

end
